(* ===== verification/Prelude.thy ===== *)
theory Prelude
  imports Main "HOL-Library.Word" "HOL-Library.Monad_Syntax" "HOL-Library.Signed_Division"
begin

text \<open>
  Shared vocabulary of the development: the return codes of \<^verbatim>\<open>opal/constants.h\<close>,
  \<^verbatim>\<open>ompi/constants.h\<close> and \<^verbatim>\<open>mpi.h\<close>, C pointers as natural numbers with
  \<^verbatim>\<open>NULL = 0\<close>, and array accesses that make undefined behaviour visible. A C
  function whose execution may read or write outside an object, use an indeterminate
  value or divide by zero is modelled with an \<open>option\<close> result: \<open>None\<close> is
  undefined behaviour, never an error code. Error codes are ordinary values.
\<close>

unbundle bit_operations_syntax

named_theorems ub_simps \<open>inversion of computations that may be undefined\<close>
named_theorems rc_defs \<open>the numeric return codes\<close>

section \<open>Pointers and return codes\<close>

type_synonym ptr = nat

type_synonym u8 = "8 word"

abbreviation (input) NULL :: ptr where
  "NULL \<equiv> 0"

abbreviation (input) INT_MAX :: int where
  "INT_MAX \<equiv> 2147483647"

abbreviation (input) INT_MIN :: int where
  "INT_MIN \<equiv> - 2147483648"

definition OPAL_SUCCESS :: int where [rc_defs]: "OPAL_SUCCESS = 0"
definition OPAL_ERROR :: int where [rc_defs]: "OPAL_ERROR = - 1"
definition OPAL_ERR_OUT_OF_RESOURCE :: int where [rc_defs]: "OPAL_ERR_OUT_OF_RESOURCE = - 2"
definition OPAL_ERR_BAD_PARAM :: int where [rc_defs]: "OPAL_ERR_BAD_PARAM = - 5"
definition OPAL_ERR_UNREACH :: int where [rc_defs]: "OPAL_ERR_UNREACH = - 12"

abbreviation (input) OMPI_SUCCESS :: int where "OMPI_SUCCESS \<equiv> OPAL_SUCCESS"
abbreviation (input) OMPI_ERROR :: int where "OMPI_ERROR \<equiv> OPAL_ERROR"
abbreviation (input) OMPI_ERR_OUT_OF_RESOURCE :: int where
  "OMPI_ERR_OUT_OF_RESOURCE \<equiv> OPAL_ERR_OUT_OF_RESOURCE"
abbreviation (input) OMPI_ERR_BAD_PARAM :: int where "OMPI_ERR_BAD_PARAM \<equiv> OPAL_ERR_BAD_PARAM"
abbreviation (input) OMPI_ERR_UNREACH :: int where "OMPI_ERR_UNREACH \<equiv> OPAL_ERR_UNREACH"
abbreviation (input) MPI_SUCCESS :: int where "MPI_SUCCESS \<equiv> OPAL_SUCCESS"

text \<open>An addition on the type \<^verbatim>\<open>int\<close> of C, for which an overflow is undefined.\<close>

definition cadd :: "int \<Rightarrow> int \<Rightarrow> int option" where
  "cadd a b = (if INT_MIN \<le> a + b \<and> a + b \<le> INT_MAX then Some (a + b) else None)"

text \<open>Constants of \<^verbatim>\<open>mpi.h\<close>.\<close>

definition MPI_UNDEFINED :: int where [rc_defs]: "MPI_UNDEFINED = - 32766"
definition MPI_PROC_NULL :: int where [rc_defs]: "MPI_PROC_NULL = - 2"
definition MPI_ANY_SOURCE :: int where [rc_defs]: "MPI_ANY_SOURCE = - 1"
definition MPI_ERR_PROC_FAILED :: int where [rc_defs]: "MPI_ERR_PROC_FAILED = 54"
definition MPI_ERR_PROC_FAILED_PENDING :: int where [rc_defs]: "MPI_ERR_PROC_FAILED_PENDING = 55"
definition MPI_ERR_REVOKED :: int where [rc_defs]: "MPI_ERR_REVOKED = 56"

section \<open>Array accesses\<close>

definition rd :: "'a list \<Rightarrow> int \<Rightarrow> 'a option" where
  "rd xs i = (if 0 \<le> i \<and> i < int (length xs) then Some (xs ! nat i) else None)"

definition wr :: "'a list \<Rightarrow> int \<Rightarrow> 'a \<Rightarrow> 'a list option" where
  "wr xs i v = (if 0 \<le> i \<and> i < int (length xs) then Some (xs[nat i := v]) else None)"

lemma rd_Some_iff [ub_simps]:
  "rd xs i = Some v \<longleftrightarrow> 0 \<le> i \<and> i < int (length xs) \<and> v = xs ! nat i"
  by (auto simp: rd_def)

lemma wr_Some_iff [ub_simps]:
  "wr xs i v = Some ys \<longleftrightarrow> 0 \<le> i \<and> i < int (length xs) \<and> ys = xs[nat i := v]"
  by (auto simp: wr_def)

lemma rd_in [simp]: "0 \<le> i \<Longrightarrow> i < int (length xs) \<Longrightarrow> rd xs i = Some (xs ! nat i)"
  by (simp add: rd_def)

lemma rd_int [simp]: "k < length xs \<Longrightarrow> rd xs (int k) = Some (xs ! k)"
  by (simp add: rd_def)

lemma wr_in [simp]: "0 \<le> i \<Longrightarrow> i < int (length xs) \<Longrightarrow> wr xs i v = Some (xs[nat i := v])"
  by (simp add: wr_def)

lemmas bind_Some_iff [ub_simps] = Option.bind_eq_Some_conv

section \<open>C division\<close>

lemma sdiv_nonneg [simp]: "0 \<le> a \<Longrightarrow> 0 \<le> b \<Longrightarrow> a sdiv b = a div (b :: int)"
  by (cases "a = 0"; cases "b = 0") (auto simp: signed_divide_int_def sgn_if)

lemma smod_nonneg [simp]: "0 \<le> a \<Longrightarrow> 0 \<le> b \<Longrightarrow> a smod b = a mod (b :: int)"
  by (cases "a = 0") (auto simp: signed_modulo_int_def sgn_if)

text \<open>Division and remainder of C.\<close>

definition cdiv :: "int \<Rightarrow> int \<Rightarrow> int option" where
  "cdiv a b = (if b = 0 then None else Some (a sdiv b))"

definition cmod :: "int \<Rightarrow> int \<Rightarrow> int option" where
  "cmod a b = (if b = 0 then None else Some (a smod b))"

lemma cdiv_pos [simp]: "0 \<le> a \<Longrightarrow> 0 < b \<Longrightarrow> cdiv a b = Some (a div b)"
  by (simp add: cdiv_def sdiv_nonneg)

lemma cmod_pos [simp]: "0 \<le> a \<Longrightarrow> 0 < b \<Longrightarrow> cmod a b = Some (a mod b)"
  by (simp add: cmod_def smod_nonneg)

section \<open>Lists\<close>

definition count_null :: "ptr list \<Rightarrow> nat" where
  "count_null xs = length (filter (\<lambda>p. p = NULL) xs)"

lemma count_null_Nil [simp]: "count_null [] = 0"
  by (simp add: count_null_def)

lemma count_null_Cons [simp]:
  "count_null (x # xs) = (if x = NULL then Suc (count_null xs) else count_null xs)"
  by (simp add: count_null_def)

lemma count_null_append [simp]: "count_null (xs @ ys) = count_null xs + count_null ys"
  by (simp add: count_null_def)

lemma count_null_replicate [simp]: "count_null (replicate n NULL) = n"
  by (simp add: count_null_def)

lemma count_null_le: "count_null xs \<le> length xs"
  by (simp add: count_null_def)

lemma count_null_full: "count_null xs = length xs \<longleftrightarrow> (\<forall>p \<in> set xs. p = NULL)"
proof (induction xs)
  case (Cons x xs)
  then show ?case using count_null_le [of xs] by auto
qed simp

lemma count_null_update:
  "k < length xs \<Longrightarrow>
   int (count_null (xs[k := v])) =
     int (count_null xs) + (if v = NULL then 1 else 0) - (if xs ! k = NULL then 1 else 0)"
proof (induction xs arbitrary: k)
  case Nil
  then show ?case by simp
next
  case (Cons x xs)
  show ?case
  proof (cases k)
    case 0
    then show ?thesis by simp
  next
    case (Suc j)
    with Cons.prems Cons.IH [of j] show ?thesis by auto
  qed
qed

lemma count_null_pos_iff: "0 < count_null xs \<longleftrightarrow> (\<exists>k < length xs. xs ! k = NULL)"
  by (auto simp: count_null_def filter_empty_conv in_set_conv_nth)

lemma count_null_zero_iff: "count_null xs = 0 \<longleftrightarrow> (\<forall>k < length xs. xs ! k \<noteq> NULL)"
  using count_null_pos_iff [of xs] by auto

section \<open>Positions in a list\<close>

primrec index_of :: "'a list \<Rightarrow> 'a \<Rightarrow> nat option" where
  "index_of [] x = None"
| "index_of (y # ys) x = (if y = x then Some 0 else map_option Suc (index_of ys x))"

lemma index_of_None_iff: "index_of xs x = None \<longleftrightarrow> x \<notin> set xs"
  by (induction xs) auto

lemma index_of_nth: "distinct xs \<Longrightarrow> i < length xs \<Longrightarrow> index_of xs (xs ! i) = Some i"
proof (induction xs arbitrary: i)
  case (Cons x xs)
  then show ?case by (cases i) auto
qed simp

lemma index_of_Some:
  "index_of xs x = Some i \<Longrightarrow> i < length xs \<and> xs ! i = x \<and> (\<forall>j < i. xs ! j \<noteq> x)"
proof (induction xs arbitrary: i)
  case (Cons y ys)
  show ?case
  proof (cases "y = x")
    case False
    with Cons.prems obtain k where k: "index_of ys x = Some k" "i = Suc k" by auto
    with Cons.IH [OF k(1)] False show ?thesis by (auto simp: less_Suc_eq_0_disj)
  qed (use Cons.prems in auto)
qed simp

lemma index_of_append1: "x \<in> set xs \<Longrightarrow> index_of (xs @ ys) x = index_of xs x"
  by (induction xs) auto

lemma index_of_append2:
  "x \<notin> set xs \<Longrightarrow> index_of (xs @ ys) x = map_option (\<lambda>i. i + length xs) (index_of ys x)"
  by (induction xs) (auto simp: option.map_ident option.map_comp comp_def)

lemmas index_of_append = index_of_append1 index_of_append2

lemma index_of_map_inj:
  "inj_on f (insert x (set xs)) \<Longrightarrow> index_of (map f xs) (f x) = index_of xs x"
proof (induction xs)
  case (Cons y ys)
  then have "f y = f x \<longleftrightarrow> y = x" by (auto simp: inj_on_def)
  moreover have "inj_on f (insert x (set ys))"
    by (rule inj_on_subset [OF Cons.prems]) auto
  ultimately show ?case using Cons.IH by simp
qed simp

lemma those_map: "(\<And>x. x \<in> set xs \<Longrightarrow> f x = Some (g x)) \<Longrightarrow> those (map f xs) = Some (map g xs)"
  by (induction xs) auto

lemma all_less_two: "(\<forall>i<2::nat. P i) \<longleftrightarrow> P 0 \<and> P 1"
  by (auto simp: less_2_cases_iff)

text \<open>Lists of positive integers.\<close>

abbreviation pos :: "int list \<Rightarrow> bool" where
  "pos ds \<equiv> \<forall>d \<in> set ds. 0 < d"

section \<open>Labelled transition systems\<close>

primrec run :: "('l \<Rightarrow> 's \<Rightarrow> 's \<Rightarrow> bool) \<Rightarrow> 'l list \<Rightarrow> 's \<Rightarrow> 's \<Rightarrow> bool" where
  "run step [] s s' \<longleftrightarrow> s' = s"
| "run step (l # ls) s s' \<longleftrightarrow> (\<exists>t. step l s t \<and> run step ls t s')"

text \<open>A system with an invariant that simulates a specification, step by step and with the
  same labels.\<close>

locale simulation =
  fixes cstep :: "'l \<Rightarrow> 'c \<Rightarrow> 'c \<Rightarrow> bool" and astep :: "'l \<Rightarrow> 'a \<Rightarrow> 'a \<Rightarrow> bool"
    and abstr :: "'c \<Rightarrow> 'a" and inv :: "'c \<Rightarrow> bool"
  assumes inv_step: "inv c \<Longrightarrow> cstep l c c' \<Longrightarrow> inv c'"
    and sim_step: "inv c \<Longrightarrow> cstep l c c' \<Longrightarrow> astep l (abstr c) (abstr c')"
begin

lemma inv_run: "run cstep ls c c' \<Longrightarrow> inv c \<Longrightarrow> inv c'"
  by (induction ls arbitrary: c) (auto intro: inv_step)

lemma refines: "run cstep ls c c' \<Longrightarrow> inv c \<Longrightarrow> run astep ls (abstr c) (abstr c')"
  by (induction ls arbitrary: c) (auto intro: inv_step sim_step)

end

text \<open>A system in which every step lowers a measure.\<close>

locale terminating = simulation +
  fixes budget :: "'b \<Rightarrow> nat"
  assumes budget_step: "inv c \<Longrightarrow> cstep l c c' \<Longrightarrow> budget c' < budget c"
begin

lemma run_bounded: "run cstep ls c c' \<Longrightarrow> inv c \<Longrightarrow> length ls + budget c' \<le> budget c"
proof (induction ls arbitrary: c)
  case (Cons l ls)
  then obtain t where "cstep l c t" "run cstep ls t c'" by auto
  with Cons.IH [of t] Cons.prems(2) inv_step [of c l t] budget_step [of c l t] show ?case by simp
qed simp

end

end
