(* ===== verification/Pointer_Array.thy ===== *)
theory Pointer_Array
  imports Prelude
begin

text \<open>
  The growable table of pointers of \<^verbatim>\<open>opal/class/opal_pointer_array.c\<close>, on which
  the group handles, the communicator table and the communicator epochs are kept. The
  field \<open>addr\<close> is the C array (absent before the first allocation), and a free slot
  holds \<open>NULL\<close>. Each operation that may call \<^verbatim>\<open>calloc\<close> or \<^verbatim>\<open>realloc\<close> takes
  the allocator's answer as its first argument; \<open>hmax\<close> is the configured
  \<^verbatim>\<open>OMPI_FORTRAN_HANDLE_MAX\<close>. The locks are left out: every operation runs entirely
  inside its own critical section. A result \<open>None\<close> is an access outside the array.
\<close>

section \<open>The structure and its operations\<close>

record opal_pointer_array_t =
  lowest_free :: int
  highest_taken :: int
  number_free :: int
  pa_size :: int
  max_size :: int
  block_size :: int
  addr :: "ptr list option"

abbreviation arr :: "opal_pointer_array_t \<Rightarrow> ptr list" where
  "arr t \<equiv> case_option [] id (addr t)"

definition TABLE_INIT :: int where "TABLE_INIT = 1"
definition TABLE_GROW :: int where "TABLE_GROW = 2"

definition opal_pointer_array_construct :: opal_pointer_array_t where
  "opal_pointer_array_construct =
     \<lparr>lowest_free = 0, highest_taken = - 1, number_free = 0, pa_size = 0,
      max_size = INT_MAX, block_size = 0, addr = None\<rparr>"

definition opal_pointer_array_destruct :: "opal_pointer_array_t \<Rightarrow> opal_pointer_array_t" where
  "opal_pointer_array_destruct t = t\<lparr>addr := None, pa_size := 0\<rparr>"

definition opal_pointer_array_init ::
  "bool \<Rightarrow> opal_pointer_array_t \<Rightarrow> int \<Rightarrow> int \<Rightarrow> int \<Rightarrow> int \<times> opal_pointer_array_t" where
  "opal_pointer_array_init mem t initial_allocation max_sz block_sz =
     (if max_sz < block_sz then (OPAL_ERR_BAD_PARAM, t)
      else
        let num = (if 0 < initial_allocation then initial_allocation else block_sz);
            t1 = t\<lparr>max_size := max_sz, block_size := block_sz, number_free := num,
                   pa_size := num\<rparr>
        in if \<not> mem then (OPAL_ERR_OUT_OF_RESOURCE, t1\<lparr>addr := None\<rparr>)
           else (OPAL_SUCCESS, t1\<lparr>addr := Some (replicate (nat num) NULL)\<rparr>))"

definition grow_table ::
  "bool \<Rightarrow> opal_pointer_array_t \<Rightarrow> int \<Rightarrow> int \<Rightarrow> bool \<times> opal_pointer_array_t" where
  "grow_table mem t soft hard =
     (if soft > max_size t \<and> hard > max_size t then (False, t)
      else
        let new_size = (if soft > max_size t then hard else soft)
        in if new_size \<ge> max_size t then (False, t)
           else if \<not> mem then (False, t)
           else (True,
             t\<lparr>number_free := number_free t + (new_size - pa_size t),
               addr := Some (take (nat new_size) (arr t)
                             @ replicate (nat new_size - length (arr t)) NULL),
               pa_size := new_size\<rparr>))"

text \<open>The two scans of the table: upwards for the next free slot from \<open>i\<close> (the loop
  of \<^verbatim>\<open>add\<close>, \<^verbatim>\<open>set_item\<close> and \<^verbatim>\<open>test_and_set_item\<close>), and downwards for the
  last taken one, which stops at slot 0 without looking at it.\<close>

function scan_free :: "ptr list \<Rightarrow> int \<Rightarrow> int \<Rightarrow> int option option" where
  "scan_free xs i n =
     (if i < n then
        do { p \<leftarrow> rd xs i;
             if p = NULL then Some (Some i) else scan_free xs (i + 1) n }
      else Some None)"
  by pat_completeness auto
termination
  by (relation "measure (\<lambda>(xs, i, n). nat (n - i))") auto

function scan_taken :: "ptr list \<Rightarrow> int \<Rightarrow> int option" where
  "scan_taken xs h =
     (if h > 0 then
        do { p \<leftarrow> rd xs h;
             if p = NULL then scan_taken xs (h - 1) else Some h }
      else Some h)"
  by pat_completeness auto
termination
  by (relation "measure (\<lambda>(xs, h). nat h)") auto

declare scan_free.simps [simp del] scan_taken.simps [simp del]

definition opal_pointer_array_add ::
  "bool \<Rightarrow> int \<Rightarrow> opal_pointer_array_t \<Rightarrow> ptr \<Rightarrow> (int \<times> opal_pointer_array_t) option" where
  "opal_pointer_array_add mem hmax t p =
     (let (ok, t) =
        (if number_free t = 0
         then grow_table mem t (if addr t = None then TABLE_INIT else pa_size t * TABLE_GROW) hmax
         else (True, t))
      in if \<not> ok then Some (OPAL_ERR_OUT_OF_RESOURCE, t)
         else do {
           let index = lowest_free t;
           xs \<leftarrow> wr (arr t) index p;
           let t = t\<lparr>addr := Some xs,
                     highest_taken := (if index > highest_taken t then index else highest_taken t),
                     number_free := number_free t - 1\<rparr>;
           lf \<leftarrow> (if number_free t > 0
                  then map_option (case_option (lowest_free t) id)
                         (scan_free xs (lowest_free t + 1) (pa_size t))
                  else Some (pa_size t));
           Some (index, t\<lparr>lowest_free := lf\<rparr>) })"

definition opal_pointer_array_set_item ::
  "bool \<Rightarrow> opal_pointer_array_t \<Rightarrow> int \<Rightarrow> ptr \<Rightarrow> (int \<times> opal_pointer_array_t) option" where
  "opal_pointer_array_set_item mem t index v =
     (let (ok, t) =
        (if pa_size t \<le> index
         then grow_table mem t ((index sdiv TABLE_GROW + 1) * TABLE_GROW) index
         else (True, t))
      in if \<not> ok then Some (OPAL_ERROR, t)
         else do {
           old \<leftarrow> rd (arr t) index;
           t \<leftarrow> (if v = NULL then do {
                   let t = t\<lparr>lowest_free := (if index < lowest_free t then index else lowest_free t),
                             number_free := (if old \<noteq> NULL then number_free t + 1 else number_free t)\<rparr>;
                   ht \<leftarrow> (if index = highest_taken t
                          then scan_taken (arr t) (highest_taken t - 1)
                          else Some (highest_taken t));
                   Some (t\<lparr>highest_taken := ht\<rparr>) }
                 else do {
                   let t = t\<lparr>number_free := (if old = NULL then number_free t - 1 else number_free t)\<rparr>;
                   lf \<leftarrow> (if index = lowest_free t
                          then map_option (case_option (pa_size t) id)
                                 (scan_free (arr t) (index + 1) (pa_size t))
                          else Some (lowest_free t));
                   Some (t\<lparr>lowest_free := lf,
                           highest_taken := (if index > highest_taken t then index
                                             else highest_taken t)\<rparr>) });
           xs \<leftarrow> wr (arr t) index v;
           Some (OPAL_SUCCESS, t\<lparr>addr := Some xs\<rparr>) })"

definition opal_pointer_array_test_and_set_item ::
  "bool \<Rightarrow> opal_pointer_array_t \<Rightarrow> int \<Rightarrow> ptr \<Rightarrow> (bool \<times> opal_pointer_array_t) option" where
  "opal_pointer_array_test_and_set_item mem t index v =
     do {
       used \<leftarrow> (if index < pa_size t
                then map_option (\<lambda>p. p \<noteq> NULL) (rd (arr t) index)
                else Some False);
       if used then Some (False, t)
       else
         let (ok, t) =
           (if pa_size t \<le> index
            then grow_table mem t ((index sdiv TABLE_GROW + 1) * TABLE_GROW) index
            else (True, t))
         in if \<not> ok then Some (False, t)
            else do {
              xs \<leftarrow> wr (arr t) index v;
              let t = t\<lparr>addr := Some xs, number_free := number_free t - 1\<rparr>;
              lf \<leftarrow> (if index = lowest_free t
                     then map_option (case_option (pa_size t) id) (scan_free xs index (pa_size t))
                     else Some (lowest_free t));
              ht \<leftarrow> (if v = NULL \<and> index = highest_taken t
                     then scan_taken xs (highest_taken t - 1)
                     else if v \<noteq> NULL \<and> index > highest_taken t then Some index
                     else Some (highest_taken t));
              Some (True, t\<lparr>lowest_free := lf, highest_taken := ht\<rparr>) } }"

definition opal_pointer_array_set_size ::
  "bool \<Rightarrow> opal_pointer_array_t \<Rightarrow> int \<Rightarrow> int \<times> opal_pointer_array_t" where
  "opal_pointer_array_set_size mem t new_size =
     (if new_size > pa_size t
      then let (ok, t) = grow_table mem t new_size new_size
           in (if ok then (OPAL_SUCCESS, t) else (OPAL_ERROR, t))
      else (OPAL_SUCCESS, t))"

definition opal_pointer_array_get_item :: "opal_pointer_array_t \<Rightarrow> int \<Rightarrow> ptr option" where
  "opal_pointer_array_get_item t index =
     (if pa_size t \<le> index then Some NULL else rd (arr t) index)"

definition opal_pointer_array_remove_all :: "opal_pointer_array_t \<Rightarrow> opal_pointer_array_t" where
  "opal_pointer_array_remove_all t =
     (if number_free t = pa_size t then t
      else t\<lparr>lowest_free := 0, highest_taken := - 1, number_free := pa_size t,
             addr := map_option (\<lambda>xs. replicate (length xs) NULL) (addr t)\<rparr>)"

section \<open>Invariant and abstraction\<close>

definition first_free :: "ptr list \<Rightarrow> int \<Rightarrow> bool" where
  "first_free xs k \<longleftrightarrow> 0 \<le> k \<and> k \<le> int (length xs) \<and>
     (\<forall>j < nat k. xs ! j \<noteq> NULL) \<and> (nat k < length xs \<longrightarrow> xs ! nat k = NULL)"

definition pa_inv :: "opal_pointer_array_t \<Rightarrow> bool" where
  "pa_inv t \<longleftrightarrow>
     addr t \<noteq> Some [] \<and> pa_size t = int (length (arr t)) \<and>
     number_free t = int (count_null (arr t)) \<and>
     first_free (arr t) (lowest_free t) \<and>
     - 1 \<le> highest_taken t \<and> highest_taken t < pa_size t \<and>
     (\<forall>k < length (arr t). highest_taken t < int k \<longrightarrow> arr t ! k = NULL)"

definition pa_lookup :: "opal_pointer_array_t \<Rightarrow> int \<Rightarrow> ptr" where
  "pa_lookup t i = (if 0 \<le> i \<and> i < int (length (arr t)) then arr t ! nat i else NULL)"

lemma scan_free_first:
  assumes "\<forall>j < nat i. xs ! j \<noteq> NULL" "0 \<le> i" "i \<le> int (length xs)"
  shows "\<exists>r. scan_free xs i (int (length xs)) = Some r \<and>
             first_free xs (case_option (int (length xs)) id r)"
  using assms
proof (induction xs i "int (length xs)" rule: scan_free.induct)
  case (1 xs i)
  show ?case
  proof (cases "i < int (length xs)")
    case False
    then have "scan_free xs i (int (length xs)) = Some None"
      by (simp add: scan_free.simps)
    with False "1.prems" show ?thesis
      by (auto simp: first_free_def)
  next
    case True
    show ?thesis
    proof (cases "xs ! nat i = NULL")
      case True
      with \<open>i < int (length xs)\<close> "1.prems" show ?thesis
        by (auto simp: scan_free.simps [of xs i] first_free_def)
    next
      case False
      have "\<forall>j < nat (i + 1). xs ! j \<noteq> NULL"
        using False "1.prems" by (auto simp: less_Suc_eq Suc_nat_eq_nat_zadd1 [symmetric] nat_add_distrib)
      with "1.hyps" [OF True] True False "1.prems" obtain r where
        "scan_free xs (i + 1) (int (length xs)) = Some r"
        "first_free xs (case_option (int (length xs)) id r)"
        by auto
      moreover have "scan_free xs i (int (length xs)) = scan_free xs (i + 1) (int (length xs))"
        using True False "1.prems" by (simp add: scan_free.simps [of xs i])
      ultimately show ?thesis by auto
    qed
  qed
qed

lemma scan_taken_last:
  assumes "\<forall>k < length xs. h < int k \<longrightarrow> xs ! k = NULL" "- 1 \<le> h" "h < int (length xs)"
  shows "\<exists>h'. scan_taken xs h = Some h' \<and> - 1 \<le> h' \<and> h' \<le> h \<and>
              (\<forall>k < length xs. h' < int k \<longrightarrow> xs ! k = NULL)"
  using assms
proof (induction xs h rule: scan_taken.induct)
  case (1 xs h)
  show ?case
  proof (cases "h > 0 \<and> xs ! nat h = NULL")
    case True
    have "\<forall>k < length xs. h - 1 < int k \<longrightarrow> xs ! k = NULL"
    proof (intro allI impI)
      fix k assume "k < length xs" "h - 1 < int k"
      then show "xs ! k = NULL"
        using "1.prems"(1) True by (cases "int k = h") auto
    qed
    with True "1.IH" [of "xs ! nat h"] "1.prems" obtain h' where
      "scan_taken xs (h - 1) = Some h'" "- 1 \<le> h'" "h' \<le> h - 1"
      "\<forall>k < length xs. h' < int k \<longrightarrow> xs ! k = NULL"
      by force
    with True "1.prems" show ?thesis
      by (auto simp: scan_taken.simps [of xs h])
  next
    case False
    with "1.prems" show ?thesis
      by (auto simp: scan_taken.simps [of xs h])
  qed
qed

lemma first_free_append: "first_free xs k \<Longrightarrow> first_free (xs @ replicate n NULL) k"
  by (auto simp: first_free_def nth_append)

lemma pa_lookup_nonneg_NULL: "pa_size t = int (length (arr t)) \<Longrightarrow> pa_size t \<le> i \<Longrightarrow> pa_lookup t i = NULL"
  by (simp add: pa_lookup_def)

lemma grow_table_inv:
  assumes g: "grow_table mem t soft hard = (ok, t')" and inv: "pa_inv t"
    and soft: "pa_size t \<le> soft" "0 < soft"
    and hard: "soft \<le> max_size t \<or> max_size t \<le> hard"
  shows "pa_inv t'" and "pa_lookup t' = pa_lookup t" and "\<not> ok \<Longrightarrow> t' = t"
    and "pa_size t \<le> pa_size t'" and "max_size t' = max_size t"
    and "lowest_free t' = lowest_free t" and "highest_taken t' = highest_taken t"
    and "ok \<Longrightarrow> pa_size t' = soft"
    and "ok \<Longrightarrow> pa_size t' < max_size t"
proof -
  define n where "n = (if soft > max_size t then hard else soft)"
  consider (fail) "\<not> ok" "t' = t"
    | (grow) "ok" "n < max_size t" "pa_size t \<le> n" "0 < n"
        "t' = t\<lparr>number_free := number_free t + (n - pa_size t),
               addr := Some (arr t @ replicate (nat n - length (arr t)) NULL), pa_size := n\<rparr>"
    using g inv soft hard
    by (auto simp: grow_table_def Let_def n_def pa_inv_def split: if_splits)
  note c = this
  show "pa_inv t'"
  proof (cases rule: c)
    case fail then show ?thesis using inv by simp
  next
    case grow
    then show ?thesis using inv by (auto simp: pa_inv_def first_free_append nth_append)
  qed
  show "pa_lookup t' = pa_lookup t"
  proof (cases rule: c)
    case fail then show ?thesis by simp
  next
    case grow
    then show ?thesis by (auto simp: pa_lookup_def nth_append fun_eq_iff)
  qed
  show "\<not> ok \<Longrightarrow> t' = t" "max_size t' = max_size t" "pa_size t \<le> pa_size t'"
    "lowest_free t' = lowest_free t" "highest_taken t' = highest_taken t"
    "ok \<Longrightarrow> pa_size t' < max_size t"
    by (cases rule: c; simp add: n_def)+
  show "ok \<Longrightarrow> pa_size t' = soft"
    using hard by (cases rule: c) (auto simp: n_def)
qed
lemma scan_free_update:
  "int k < i \<Longrightarrow> scan_free (xs[k := v]) i n = scan_free xs i n"
proof (induction "xs[k := v]" i n rule: scan_free.induct)
  case (1 i n)
  then show ?case
    by (cases "i < n") (auto simp: scan_free.simps [of _ i n] rd_def)
qed

lemma scan_taken_update:
  "h < int k \<Longrightarrow> scan_taken (xs[k := v]) h = scan_taken xs h"
proof (induction "xs[k := v]" h rule: scan_taken.induct)
  case (1 h)
  then show ?case
    by (cases "0 < h") (auto simp: scan_taken.simps [of _ h] rd_def)
qed

lemma first_free_clear:
  "first_free xs lf \<Longrightarrow> k < length xs \<Longrightarrow>
   first_free (xs[k := NULL]) (if int k < lf then int k else lf)"
  by (auto simp: first_free_def nth_list_update)

lemma first_free_fill:
  "first_free xs lf \<Longrightarrow> k < length xs \<Longrightarrow> int k \<noteq> lf \<Longrightarrow> v \<noteq> NULL \<Longrightarrow> first_free (xs[k := v]) lf"
  by (auto simp: first_free_def nth_list_update)

lemma scan_free_fill:
  assumes "first_free xs (int k)" "k < length xs" "v \<noteq> NULL"
  shows "\<exists>r. scan_free xs (int k + 1) (int (length xs)) = Some r \<and>
             first_free (xs[k := v]) (case_option (int (length xs)) id r)"
proof -
  have "\<forall>j < nat (int k + 1). xs[k := v] ! j \<noteq> NULL"
    using assms by (auto simp: first_free_def nth_list_update less_Suc_eq nat_add_distrib)
  with assms show ?thesis
    using scan_free_first [of "int k + 1" "xs[k := v]", unfolded length_list_update]
    by (auto simp: scan_free_update)
qed

lemma scan_taken_clear:
  assumes "\<forall>j < length xs. int k < int j \<longrightarrow> xs ! j = NULL" "k < length xs"
  shows "\<exists>h'. scan_taken xs (int k - 1) = Some h' \<and> - 1 \<le> h' \<and> h' < int k \<and>
              (\<forall>j < length xs. h' < int j \<longrightarrow> xs[k := NULL] ! j = NULL)"
proof -
  have "\<forall>j < length (xs[k := NULL]). int k - 1 < int j \<longrightarrow> xs[k := NULL] ! j = NULL"
    using assms by (auto simp: nth_list_update)
  with assms show ?thesis
    using scan_taken_last [of "xs[k := NULL]" "int k - 1"] by (fastforce simp: scan_taken_update)
qed

lemma set_item_in_range:
  assumes inv: "pa_inv t" and i: "0 \<le> i" "i < pa_size t"
  shows "\<exists>t'. opal_pointer_array_set_item mem t i v = Some (OPAL_SUCCESS, t') \<and> pa_inv t' \<and>
              pa_lookup t' = (pa_lookup t)(i := v) \<and> pa_size t' = pa_size t \<and>
              max_size t' = max_size t"
proof -
  define xs where "xs = arr t"
  from inv i obtain k where k: "i = int k" "k < length xs"
    by (auto simp: pa_inv_def xs_def elim: nonneg_int_cases)
  from inv have a: "addr t = Some xs"
    using k by (auto simp: xs_def split: option.splits)
  note I = inv [unfolded pa_inv_def a, simplified]
  show ?thesis
  proof (cases "v = NULL")
    case True
    obtain ht where ht: "(if i = highest_taken t then scan_taken xs (highest_taken t - 1)
        else Some (highest_taken t)) = Some ht" "- 1 \<le> ht" "ht < int (length xs)"
      "\<forall>j < length xs. ht < int j \<longrightarrow> xs[k := NULL] ! j = NULL"
      using I k scan_taken_clear [of xs k]
      by (cases "i = highest_taken t") (force simp: nth_list_update)+
    define t' where "t' = t\<lparr>lowest_free := (if int k < lowest_free t then int k else lowest_free t),
        number_free := number_free t + (if xs ! k = NULL then 0 else 1), highest_taken := ht,
        addr := Some (xs[k := NULL])\<rparr>"
    have "opal_pointer_array_set_item mem t i v = Some (OPAL_SUCCESS, t')"
      using True I k a ht(1)
      by (cases t; cases "i = highest_taken t") (auto simp: opal_pointer_array_set_item_def t'_def)
    moreover have "pa_inv t'"
      using I k ht first_free_clear [of xs "lowest_free t" k]
      by (simp add: pa_inv_def t'_def count_null_update)
    moreover have "pa_lookup t' = (pa_lookup t)(i := v)"
      using True I k a by (auto simp: t'_def pa_lookup_def fun_eq_iff nth_list_update)
    ultimately show ?thesis by (auto simp: t'_def)
  next
    case False
    obtain lf where lf: "(if i = lowest_free t then map_option (case_option (pa_size t) id)
        (scan_free xs (i + 1) (pa_size t)) else Some (lowest_free t)) = Some lf"
      "first_free (xs[k := v]) lf"
      using I k False scan_free_fill [of xs k v] first_free_fill [of xs "lowest_free t" k v]
      by (cases "i = lowest_free t") auto
    define t' where "t' = t\<lparr>number_free := number_free t - (if xs ! k = NULL then 1 else 0),
        lowest_free := lf, highest_taken := max i (highest_taken t),
        addr := Some (xs[k := v])\<rparr>"
    have "opal_pointer_array_set_item mem t i v = Some (OPAL_SUCCESS, t')"
      using False I k a lf(1)
      by (cases t; cases "i = lowest_free t")
        (auto simp: opal_pointer_array_set_item_def t'_def max_def)
    moreover have "pa_inv t'"
      using False I k lf(2) by (auto simp: pa_inv_def t'_def count_null_update nth_list_update)
    moreover have "pa_lookup t' = (pa_lookup t)(i := v)"
      using I k a by (auto simp: t'_def pa_lookup_def fun_eq_iff nth_list_update)
    ultimately show ?thesis by (auto simp: t'_def)
  qed
qed

text \<open>Growing for an index: the table always ends up large enough, except when the
  requested index is the last admissible one and even, where the rounded-up size exceeds
  \<open>max_size\<close> and the fallback allocates exactly \<open>index\<close> slots, one too few.\<close>

definition short_growth :: "bool \<Rightarrow> opal_pointer_array_t \<Rightarrow> int \<Rightarrow> bool" where
  "short_growth mem t i \<longleftrightarrow> mem \<and> pa_size t \<le> i \<and> i + 1 = max_size t \<and> even i"

lemma grow_for_index_cases [consumes 3]:
  assumes inv: "pa_inv t" and i: "0 \<le> i" "pa_size t \<le> i"
  obtains (fail) "grow_table mem t ((i sdiv TABLE_GROW + 1) * TABLE_GROW) i = (False, t)"
      "\<not> short_growth mem t i" "\<not> (mem \<and> i + 2 < max_size t)"
  | (short) t' where "grow_table mem t ((i sdiv TABLE_GROW + 1) * TABLE_GROW) i = (True, t')"
      "short_growth mem t i" "int (length (arr t')) = i" "pa_size t' = i"
  | (grown) t' where "grow_table mem t ((i sdiv TABLE_GROW + 1) * TABLE_GROW) i = (True, t')"
      "\<not> short_growth mem t i" "pa_inv t'" "pa_lookup t' = pa_lookup t" "i < pa_size t'"
      "max_size t' = max_size t" "pa_size t' < max_size t"
proof -
  let ?s = "(i sdiv TABLE_GROW + 1) * TABLE_GROW"
  have s: "?s = (if even i then i + 2 else i + 1)"
    using i by (auto simp: TABLE_GROW_def elim!: evenE oddE)
  obtain ok t' where g: "grow_table mem t ?s i = (ok, t')" by (metis surj_pair)
  show thesis
  proof (cases "short_growth mem t i")
    case True
    then have "grow_table mem t ?s i = (True, t')"
      and "int (length (arr t')) = i" "pa_size t' = i"
      using g s i inv by (auto simp: grow_table_def short_growth_def Let_def pa_inv_def)
    with True show thesis by (intro short)
  next
    case False
    show thesis
    proof (cases ok)
      case ok: True
      then have "?s \<le> max_size t \<or> max_size t \<le> i"
        using g False s i
        by (auto simp: grow_table_def short_growth_def Let_def split: if_splits)
      note G = grow_table_inv [OF g inv _ _ this]
      from ok False g G s i show thesis
        by (intro grown [of t']) (auto split: if_splits)
    next
      case nok: False
      then have "\<not> (mem \<and> i + 2 < max_size t)" "t' = t"
        using g s by (auto simp: grow_table_def Let_def split: if_splits)
      with nok False g show thesis by (intro fail) auto
    qed
  qed
qed

lemma set_item_grown:
  "pa_size t \<le> i \<Longrightarrow> grow_table mem t ((i sdiv TABLE_GROW + 1) * TABLE_GROW) i = (True, t') \<Longrightarrow>
   i < pa_size t' \<Longrightarrow> opal_pointer_array_set_item mem t i v = opal_pointer_array_set_item mem t' i v"
  by (simp add: opal_pointer_array_set_item_def)

lemma set_item_cases [consumes 2]:
  assumes inv: "pa_inv t" and i: "0 \<le> i"
  obtains (stored) t' where "opal_pointer_array_set_item mem t i v = Some (OPAL_SUCCESS, t')"
      "\<not> short_growth mem t i" "pa_inv t'" "pa_lookup t' = (pa_lookup t)(i := v)"
      "max_size t' = max_size t" "pa_size t' = pa_size t \<or> pa_size t' < max_size t"
  | (refused) "opal_pointer_array_set_item mem t i v = Some (OPAL_ERROR, t)"
      "\<not> short_growth mem t i" "pa_size t \<le> i" "\<not> (mem \<and> i + 2 < max_size t)"
  | (overflow) "opal_pointer_array_set_item mem t i v = None" "short_growth mem t i"
proof (cases "i < pa_size t")
  case True
  then have "\<not> short_growth mem t i" by (simp add: short_growth_def)
  with set_item_in_range [OF inv i True, of mem v] show thesis
    by (auto intro: stored)
next
  case False
  then have le: "pa_size t \<le> i" by simp
  from inv i le show thesis
  proof (cases rule: grow_for_index_cases [where mem = mem])
    case fail
    then have "opal_pointer_array_set_item mem t i v = Some (OPAL_ERROR, t)"
      using le by (simp add: opal_pointer_array_set_item_def)
    with fail le show thesis by (intro refused)
  next
    case (short t')
    then have "opal_pointer_array_set_item mem t i v = None"
      using le by (simp add: opal_pointer_array_set_item_def rd_def)
    with short show thesis by (intro overflow)
  next
    case (grown t')
    with set_item_in_range [OF grown(3) i grown(5), of mem v] set_item_grown [OF le grown(1,5)]
    show thesis by (auto intro: stored)
  qed
qed

lemma test_and_set_item_eq:
  assumes inv: "pa_inv t" and i: "0 \<le> i" and free: "pa_lookup t i = NULL" and v: "v \<noteq> NULL"
  shows "opal_pointer_array_test_and_set_item mem t i v =
         map_option (map_prod (\<lambda>r. r = OPAL_SUCCESS) id) (opal_pointer_array_set_item mem t i v)"
proof -
  have scan: "scan_free (xs[nat i := v]) i n = scan_free xs (i + 1) n"
    if "i < int (length xs)" for xs n
  proof (cases "i < n")
    case True
    with that i v have "scan_free (xs[nat i := v]) i n = scan_free (xs[nat i := v]) (i + 1) n"
      by (subst scan_free.simps) simp
    with i show ?thesis by (simp add: scan_free_update)
  next
    case False
    then show ?thesis by (simp add: scan_free.simps)
  qed
  have core: "opal_pointer_array_test_and_set_item mem t i v =
         map_option (map_prod (\<lambda>r. r = OPAL_SUCCESS) id) (opal_pointer_array_set_item mem t i v)"
    if "pa_inv t" "i < pa_size t" "arr t ! nat i = NULL" for t
    using that i v scan [of "arr t" "pa_size t"]
    by (cases t) (auto simp: opal_pointer_array_test_and_set_item_def pa_inv_def
        opal_pointer_array_set_item_def Let_def map_option_case split: option.splits)
  show ?thesis
  proof (cases "i < pa_size t")
    case True
    with inv i free have "arr t ! nat i = NULL" by (simp add: pa_lookup_def pa_inv_def)
    with core inv True show ?thesis by simp
  next
    case False
    then have le: "pa_size t \<le> i" by simp
    from inv i le show ?thesis
    proof (cases rule: grow_for_index_cases [where mem = mem])
      case fail
      then show ?thesis using le
        by (simp add: opal_pointer_array_test_and_set_item_def opal_pointer_array_set_item_def
            OPAL_SUCCESS_def OPAL_ERROR_def)
    next
      case (short t')
      then show ?thesis using le
        by (simp add: opal_pointer_array_test_and_set_item_def opal_pointer_array_set_item_def
            rd_def wr_def)
    next
      case (grown t')
      have "pa_lookup t' i = NULL" using free grown(4) by simp
      then have "arr t' ! nat i = NULL"
        using grown(3,5) i by (simp add: pa_lookup_def pa_inv_def split: if_splits)
      moreover have "opal_pointer_array_test_and_set_item mem t i v =
          opal_pointer_array_test_and_set_item mem t' i v"
        using le grown i calculation
        by (simp add: opal_pointer_array_test_and_set_item_def pa_inv_def)
      ultimately show ?thesis
        using core [OF grown(3,5)] set_item_grown [OF le grown(1,5)] by simp
    qed
  qed
qed

lemma first_free_slot:
  assumes inv: "pa_inv t" and free: "0 < number_free t"
  shows "0 \<le> lowest_free t" "lowest_free t < pa_size t" "pa_lookup t (lowest_free t) = NULL"
proof -
  from free inv obtain k where k: "k < length (arr t)" "arr t ! k = NULL"
    using count_null_pos_iff [of "arr t"] by (auto simp: pa_inv_def)
  have "lowest_free t \<le> int k"
  proof (rule ccontr)
    assume "\<not> lowest_free t \<le> int k"
    then have "k < nat (lowest_free t)" by simp
    with inv k show False by (auto simp: pa_inv_def first_free_def)
  qed
  with k inv show "0 \<le> lowest_free t" "lowest_free t < pa_size t" "pa_lookup t (lowest_free t) = NULL"
    by (auto simp: pa_inv_def first_free_def pa_lookup_def)
qed

lemma add_eq_set_item:
  assumes inv: "pa_inv t" and free: "0 < number_free t" and p: "p \<noteq> NULL"
  shows "opal_pointer_array_add mem hmax t p =
         map_option (map_prod (\<lambda>_. lowest_free t) id)
           (opal_pointer_array_set_item mem t (lowest_free t) p)"
proof -
  note F = first_free_slot [OF inv free]
  define xs where "xs = arr t"
  from F inv obtain k where k: "lowest_free t = int k" "k < length xs"
    by (auto simp: pa_inv_def xs_def elim: nonneg_int_cases)
  have a: "addr t = Some xs" using k by (auto simp: xs_def split: option.splits)
  note I = inv [unfolded pa_inv_def a, simplified]
  have null: "xs ! k = NULL" using F(3) k by (simp add: pa_lookup_def a)
  obtain r where r: "scan_free xs (int k + 1) (int (length xs)) = Some r"
    "first_free (xs[k := p]) (case_option (int (length xs)) id r)"
    using scan_free_fill [of xs k p] I k p by auto
  have cnt: "int (count_null (xs[k := p])) = number_free t - 1"
    using k p null I by (simp add: count_null_update)
  have lf: "case_option (int k) id r = case_option (int (length xs)) id r"
    if "0 < number_free t - 1"
  proof -
    from that cnt obtain j where "j < length xs" "xs[k := p] ! j = NULL"
      using count_null_pos_iff [of "xs[k := p]"] by auto
    with r(2) show ?thesis by (cases r) (auto simp: first_free_def)
  qed
  have last: "case_option (int (length xs)) id r = int (length xs)" if "\<not> 0 < number_free t - 1"
  proof -
    from that cnt have "\<forall>j < length xs. xs[k := p] ! j \<noteq> NULL"
      using count_null_zero_iff [of "xs[k := p]"] by auto
    with r(2) show ?thesis by (cases r) (force simp: first_free_def nat_less_iff)+
  qed
  show ?thesis
    using I k a p null r(1) lf last free
    by (cases t; cases "0 < number_free t - 1")
      (auto simp: opal_pointer_array_add_def opal_pointer_array_set_item_def
        scan_free_update Let_def)
qed

lemma add_cases [consumes 3]:
  assumes inv: "pa_inv t" and cap: "max_size t \<le> hmax" and p: "p \<noteq> NULL"
  obtains (added) i t' where "opal_pointer_array_add mem hmax t p = Some (i, t')" "0 \<le> i"
      "pa_lookup t i = NULL" "pa_inv t'" "pa_lookup t' = (pa_lookup t)(i := p)"
      "max_size t' = max_size t"
  | (full) "opal_pointer_array_add mem hmax t p = Some (OPAL_ERR_OUT_OF_RESOURCE, t)"
      "number_free t = 0" "\<not> (mem \<and> max 1 (2 * pa_size t) < max_size t)"
proof -
  have step: thesis if A: "pa_inv t1" "0 < number_free t1" "pa_lookup t1 = pa_lookup t"
      "max_size t1 = max_size t"
      "opal_pointer_array_add mem hmax t p = opal_pointer_array_add mem hmax t1 p" for t1
  proof -
    note F = first_free_slot [OF A(1,2)]
    obtain t' where t': "opal_pointer_array_set_item mem t1 (lowest_free t1) p = Some (OPAL_SUCCESS, t')"
      "pa_inv t'" "pa_lookup t' = (pa_lookup t1)(lowest_free t1 := p)" "max_size t' = max_size t1"
      using set_item_in_range [OF A(1) F(1,2), of mem p] by auto
    with add_eq_set_item [OF A(1,2) p, of mem hmax] F A show thesis
      by (intro added [of "lowest_free t1" t']) auto
  qed
  show thesis
  proof (cases "number_free t = 0")
    case False
    with inv show thesis by (intro step [of t]) (auto simp: pa_inv_def)
  next
    case True
    let ?s = "if addr t = None then TABLE_INIT else pa_size t * TABLE_GROW"
    obtain ok t1 where g: "grow_table mem t ?s hmax = (ok, t1)" by (metis surj_pair)
    have s: "?s = max 1 (2 * pa_size t)"
      using inv by (cases "addr t") (auto simp: TABLE_INIT_def TABLE_GROW_def pa_inv_def max_def
          neq_Nil_conv)
    note G = grow_table_inv [OF g inv]
    show thesis
    proof (cases ok)
      case ok: True
      have "pa_size t < pa_size t1"
        using G ok s cap by (auto simp: max_def split: if_splits)
      with G s cap have "0 < number_free t1"
        using g ok True by (auto simp: grow_table_def Let_def split: if_splits)
      moreover have "opal_pointer_array_add mem hmax t p = opal_pointer_array_add mem hmax t1 p"
        using g ok True calculation by (simp add: opal_pointer_array_add_def)
      ultimately show thesis
        using G s cap by (intro step [of t1]) auto
    next
      case nok: False
      with g have "opal_pointer_array_add mem hmax t p = Some (OPAL_ERR_OUT_OF_RESOURCE, t)"
        using True G s cap by (simp add: opal_pointer_array_add_def)
      moreover have "\<not> (mem \<and> max 1 (2 * pa_size t) < max_size t)"
        using g nok s by (auto simp: grow_table_def Let_def split: if_splits)
      ultimately show thesis using True by (intro full)
    qed
  qed
qed

lemma pa_inv_construct: "pa_inv opal_pointer_array_construct"
  by (simp add: pa_inv_def opal_pointer_array_construct_def first_free_def)

lemma pa_inv_init:
  assumes "opal_pointer_array_init True opal_pointer_array_construct n mx bs = (r, t)"
    and "0 < n \<or> 0 < bs" and "bs \<le> mx"
  shows "r = OPAL_SUCCESS" "pa_inv t" "pa_lookup t = (\<lambda>_. NULL)" "max_size t = mx"
  using assms
  by (auto simp: opal_pointer_array_init_def opal_pointer_array_construct_def Let_def pa_inv_def
      pa_lookup_def first_free_def fun_eq_iff replicate_empty split: if_splits)

lemma get_item_lookup:
  "pa_inv t \<Longrightarrow> 0 \<le> i \<Longrightarrow> opal_pointer_array_get_item t i = Some (pa_lookup t i)"
  by (auto simp: opal_pointer_array_get_item_def pa_lookup_def pa_inv_def)

lemma remove_all_inv:
  assumes "pa_inv t"
  shows "pa_inv (opal_pointer_array_remove_all t)"
    and "pa_lookup (opal_pointer_array_remove_all t) = (\<lambda>_. NULL)"
proof -
  show "pa_inv (opal_pointer_array_remove_all t)"
    using assms by (cases "addr t")
      (auto simp: opal_pointer_array_remove_all_def pa_inv_def first_free_def)
  show "pa_lookup (opal_pointer_array_remove_all t) = (\<lambda>_. NULL)"
  proof (cases "number_free t = pa_size t")
    case True
    with assms have "count_null (arr t) = length (arr t)" by (simp add: pa_inv_def)
    then have "\<forall>p \<in> set (arr t). p = NULL" by (simp add: count_null_full)
    with True show ?thesis
      by (cases "addr t") (auto simp: opal_pointer_array_remove_all_def pa_lookup_def fun_eq_iff)
  next
    case False
    then show ?thesis
      by (cases "addr t") (auto simp: opal_pointer_array_remove_all_def pa_lookup_def fun_eq_iff)
  qed
qed

lemma set_size_inv:
  assumes "pa_inv t" "opal_pointer_array_set_size mem t n = (r, t')"
  shows "pa_inv t'" "pa_lookup t' = pa_lookup t" "r = OPAL_SUCCESS \<Longrightarrow> n \<le> pa_size t'"
proof -
  obtain ok t1 where g: "grow_table mem t n n = (ok, t1)" by (metis surj_pair)
  have "n > pa_size t \<Longrightarrow> 0 < n" using assms(1) by (auto simp: pa_inv_def)
  moreover have "n \<le> max_size t \<or> max_size t \<le> n" by linarith
  ultimately show "pa_inv t'" "pa_lookup t' = pa_lookup t"
    "r = OPAL_SUCCESS \<Longrightarrow> n \<le> pa_size t'"
    using assms g grow_table_inv [OF g assms(1)]
    by (auto simp: opal_pointer_array_set_size_def rc_defs split: if_splits)
qed

section \<open>The table as an interface\<close>

text \<open>What the users of a table rely on: a store is visible at its index and nowhere
  else, a reservation succeeds only on a free slot, and a taken slot can always be
  overwritten.\<close>

locale slot_table =
  fixes inv :: "'t \<Rightarrow> bool"
    and lookup :: "'t \<Rightarrow> int \<Rightarrow> ptr"
    and set_item :: "bool \<Rightarrow> 't \<Rightarrow> int \<Rightarrow> ptr \<Rightarrow> (int \<times> 't) option"
    and test_and_set :: "bool \<Rightarrow> 't \<Rightarrow> int \<Rightarrow> ptr \<Rightarrow> (bool \<times> 't) option"
  assumes set_item_law: "inv t \<Longrightarrow> 0 \<le> i \<Longrightarrow> set_item mem t i v = Some (r, t') \<Longrightarrow>
      inv t' \<and> (r = OPAL_SUCCESS \<and> lookup t' = (lookup t)(i := v) \<or> r = OPAL_ERROR \<and> t' = t)"
    and set_item_taken: "inv t \<Longrightarrow> 0 \<le> i \<Longrightarrow> lookup t i \<noteq> NULL \<Longrightarrow>
      \<exists>t'. set_item mem t i v = Some (OPAL_SUCCESS, t')"
    and test_and_set_law: "inv t \<Longrightarrow> 0 \<le> i \<Longrightarrow> v \<noteq> NULL \<Longrightarrow>
      test_and_set mem t i v = Some (b, t') \<Longrightarrow>
      inv t' \<and> (if b then lookup t i = NULL \<and> lookup t' = (lookup t)(i := v) else t' = t)"
    and test_and_set_taken: "inv t \<Longrightarrow> 0 \<le> i \<Longrightarrow> lookup t i \<noteq> NULL \<Longrightarrow>
      test_and_set mem t i v = Some (False, t)"
begin

lemma reserve_exclusive:
  assumes "inv t" "0 \<le> i" "v \<noteq> NULL" "test_and_set mem t i v = Some (True, t')"
  shows "test_and_set mem' t' i w = Some (False, t')"
  using test_and_set_law [OF assms] test_and_set_taken [of t' i] assms by simp

lemma reserve_release:
  assumes "inv t" "0 \<le> i" "v \<noteq> NULL" "test_and_set mem t i v = Some (True, t')"
  shows "\<exists>t''. set_item mem' t' i NULL = Some (OPAL_SUCCESS, t'') \<and> inv t'' \<and> lookup t'' = lookup t"
proof -
  from test_and_set_law [OF assms] have t': "inv t'" "lookup t i = NULL"
    "lookup t' = (lookup t)(i := v)" by auto
  with assms obtain t'' where s: "set_item mem' t' i NULL = Some (OPAL_SUCCESS, t'')"
    using set_item_taken [of t' i] by auto
  from set_item_law [OF t'(1) assms(2) s] t' have "lookup t'' = lookup t"
    by (auto simp: fun_eq_iff rc_defs)
  with s set_item_law [OF t'(1) assms(2) s] show ?thesis by auto
qed

end

interpretation pa: slot_table pa_inv pa_lookup opal_pointer_array_set_item
  opal_pointer_array_test_and_set_item
proof
  fix t :: opal_pointer_array_t and i :: int and mem v r t'
  assume A: "pa_inv t" "0 \<le> i"
  show "pa_inv t' \<and> (r = OPAL_SUCCESS \<and> pa_lookup t' = (pa_lookup t)(i := v) \<or>
      r = OPAL_ERROR \<and> t' = t)" if "opal_pointer_array_set_item mem t i v = Some (r, t')"
    using A by (cases rule: set_item_cases [where mem = mem and v = v]) (use A that in auto)
  show "\<exists>t'. opal_pointer_array_set_item mem t i v = Some (OPAL_SUCCESS, t')"
    if "pa_lookup t i \<noteq> NULL"
    using A that set_item_in_range [of t i mem v] by (auto simp: pa_lookup_def pa_inv_def split: if_splits)
  show "opal_pointer_array_test_and_set_item mem t i v = Some (False, t)" if "pa_lookup t i \<noteq> NULL"
    using A that
    by (auto simp: pa_lookup_def pa_inv_def opal_pointer_array_test_and_set_item_def split: if_splits)
next
  fix t :: opal_pointer_array_t and i :: int and mem v b t'
  assume A: "pa_inv t" "0 \<le> i" "v \<noteq> NULL"
    "opal_pointer_array_test_and_set_item mem t i v = Some (b, t')"
  show "pa_inv t' \<and> (if b then pa_lookup t i = NULL \<and> pa_lookup t' = (pa_lookup t)(i := v)
      else t' = t)"
  proof (cases "pa_lookup t i = NULL")
    case True
    from A(1,2) show ?thesis
      by (cases rule: set_item_cases [where mem = mem and v = v])
        (use A True test_and_set_item_eq [OF A(1,2) True A(3), of mem] in \<open>auto simp: rc_defs\<close>)
  next
    case False
    with A show ?thesis
      by (auto simp: pa_lookup_def pa_inv_def opal_pointer_array_test_and_set_item_def split: if_splits)
  qed
qed

text \<open>A table that may grow up to a capacity: below it a free slot can always be reserved,
  and no access leaves the array.\<close>

locale bounded_slot_table = slot_table +
  fixes cap :: "'a \<Rightarrow> int"
  assumes reserve_total: "inv t \<Longrightarrow> 0 \<le> i \<Longrightarrow> i + 2 < cap t \<Longrightarrow> v \<noteq> NULL \<Longrightarrow>
      \<exists>t'. test_and_set True t i v = Some (lookup t i = NULL, t') \<and> cap t' = cap t"
    and set_total: "inv t \<Longrightarrow> 0 \<le> i \<Longrightarrow> i + 2 < cap t \<Longrightarrow>
      \<exists>t'. set_item True t i v = Some (OPAL_SUCCESS, t') \<and> cap t' = cap t"
begin

lemma reserve:
  assumes "inv t" "0 \<le> i" "i + 2 < cap t" "v \<noteq> NULL"
  obtains t' where "test_and_set True t i v = Some (lookup t i = NULL, t')" "inv t'" "cap t' = cap t"
    "lookup t' = (if lookup t i = NULL then (lookup t)(i := v) else lookup t)"
proof -
  obtain t' where t': "test_and_set True t i v = Some (lookup t i = NULL, t')" "cap t' = cap t"
    using reserve_total [OF assms] by blast
  from test_and_set_law [OF assms(1,2,4) t'(1)] t' show thesis by (intro that [of t']) (auto split: if_splits)
qed

lemma store:
  assumes "inv t" "0 \<le> i" "i + 2 < cap t"
  obtains t' where "set_item True t i v = Some (OPAL_SUCCESS, t')" "inv t'" "cap t' = cap t"
    "lookup t' = (lookup t)(i := v)"
proof -
  obtain t' where t': "set_item True t i v = Some (OPAL_SUCCESS, t')" "cap t' = cap t"
    using set_total [OF assms] by blast
  from set_item_law [OF assms(1,2) t'(1)] t' show thesis by (intro that [of t']) (auto simp: rc_defs)
qed

end

interpretation bpa: bounded_slot_table pa_inv pa_lookup opal_pointer_array_set_item
  opal_pointer_array_test_and_set_item max_size
proof unfold_locales
  fix t :: opal_pointer_array_t and i :: int and v :: ptr
  assume A: "pa_inv t" "0 \<le> i" "i + 2 < max_size t"
  then have ns: "\<not> short_growth True t i" by (simp add: short_growth_def)
  obtain t' where s: "opal_pointer_array_set_item True t i v = Some (OPAL_SUCCESS, t')" "max_size t' = max_size t"
    using A(1,2) by (cases rule: set_item_cases [where mem = True and v = v]) (use A ns in auto)
  then show "\<exists>t'. opal_pointer_array_set_item True t i v = Some (OPAL_SUCCESS, t') \<and> max_size t' = max_size t"
    by blast
  assume v: "v \<noteq> NULL"
  show "\<exists>t'. opal_pointer_array_test_and_set_item True t i v = Some (pa_lookup t i = NULL, t') \<and>
      max_size t' = max_size t"
    using test_and_set_item_eq [OF A(1,2) _ v, of True] pa.test_and_set_taken [OF A(1,2), of True v] s
    by (cases "pa_lookup t i = NULL") auto
qed

section \<open>Properties\<close>

text \<open>C32: A store through \<^verbatim>\<open>opal_pointer_array_set_item\<close> on a consistent table keeps
  the table consistent (free count, lowest free slot and highest taken slot all agree with
  the contents); it either succeeds and is then visible at its index and nowhere else, or
  reports \<^verbatim>\<open>OPAL_ERROR\<close> and leaves the table as it was.\<close>

theorem set_item_correct:
  assumes "pa_inv t" "0 \<le> i" "opal_pointer_array_set_item mem t i v = Some (r, t')"
  shows "pa_inv t' \<and>
    (r = OPAL_SUCCESS \<and> (\<forall>j. 0 \<le> j \<longrightarrow> opal_pointer_array_get_item t' j =
         (if j = i then Some v else opal_pointer_array_get_item t j)) \<or>
     r = OPAL_ERROR \<and> t' = t)"
proof -
  note L = pa.set_item_law [OF assms]
  then show ?thesis using assms(1) get_item_lookup by auto
qed

lemma sample_table:
  "pa_inv (snd (opal_pointer_array_init True opal_pointer_array_construct 0 9 4))"
  "pa_lookup (snd (opal_pointer_array_init True opal_pointer_array_construct 0 9 4)) = (\<lambda>_. NULL)"
  "max_size (snd (opal_pointer_array_init True opal_pointer_array_construct 0 9 4)) = 9"
  by (auto intro!: pa_inv_init [where n = 0 and bs = 4 and mx = 9] surjective_pairing)

theorem set_item_correct_witness:
  "let t = snd (opal_pointer_array_init True opal_pointer_array_construct 0 9 4)
   in \<exists>t'. opal_pointer_array_set_item True t 5 77 = Some (OPAL_SUCCESS, t') \<and>
           opal_pointer_array_get_item t' 5 = Some 77"
proof -
  let ?t = "snd (opal_pointer_array_init True opal_pointer_array_construct 0 9 4)"
  obtain r t' where r: "opal_pointer_array_set_item True ?t 5 77 = Some (r, t')"
    using sample_table(1)
    by (cases rule: set_item_cases [where i = 5 and mem = True and v = 77])
      (auto simp: short_growth_def sample_table)
  have "r = OPAL_SUCCESS"
    using r by (auto simp: opal_pointer_array_set_item_def opal_pointer_array_init_def
        opal_pointer_array_construct_def grow_table_def TABLE_GROW_def Let_def ub_simps
        split: if_splits)
  with set_item_correct [OF sample_table(1) _ r] r show ?thesis by (auto simp: rc_defs)
qed

text \<open>C33: On a consistent table \<^verbatim>\<open>opal_pointer_array_set_item\<close> writes outside the array
  in exactly one situation: the allocation succeeds, the index is past the end and is the
  last admissible one (\<open>max_size - 1\<close>), and it is even. The requested size is then
  rounded up beyond \<open>max_size\<close>, the fallback allocates \<open>index\<close> slots instead of
  \<open>index + 1\<close>, and the final assignment is one past the end.\<close>

theorem set_item_in_bounds:
  assumes "pa_inv t" "0 \<le> i"
  shows "opal_pointer_array_set_item mem t i v = None \<longleftrightarrow>
         mem \<and> pa_size t \<le> i \<and> i + 1 = max_size t \<and> even i"
  using assms by (cases rule: set_item_cases [where mem = mem and v = v])
    (auto simp: short_growth_def)

theorem set_item_in_bounds_witness:
  "opal_pointer_array_set_item True
     (snd (opal_pointer_array_init True opal_pointer_array_construct 0 9 4)) 8 77 = None"
proof -
  have "pa_size (snd (opal_pointer_array_init True opal_pointer_array_construct 0 9 4)) \<le> 8"
    by (simp add: opal_pointer_array_init_def)
  then show ?thesis
    using set_item_in_bounds [OF sample_table(1), of 8 True 77] by (simp add: sample_table)
qed

text \<open>\<^verbatim>\<open>opal_pointer_array_add\<close> on a consistent table whose maximal size does not
  exceed the configured handle limit never writes outside the array: it stores the pointer in
  a slot that was free, reports that slot, changes no other slot and keeps the table
  consistent, or it reports \<^verbatim>\<open>OPAL_ERR_OUT_OF_RESOURCE\<close>, only when no slot is free, and
  changes nothing.\<close>

theorem add_correct:
  assumes "pa_inv t" "max_size t \<le> hmax" "p \<noteq> NULL"
  shows "\<exists>i t'. opal_pointer_array_add mem hmax t p = Some (i, t') \<and> pa_inv t' \<and>
    (0 \<le> i \<and> opal_pointer_array_get_item t i = Some NULL \<and>
       (\<forall>j. 0 \<le> j \<longrightarrow> opal_pointer_array_get_item t' j =
              (if j = i then Some p else opal_pointer_array_get_item t j)) \<or>
     i = OPAL_ERR_OUT_OF_RESOURCE \<and> number_free t = 0 \<and> t' = t)"
  using assms
proof (cases rule: add_cases [where mem = mem])
  case (added i t')
  with assms(1) show ?thesis by (auto simp: get_item_lookup)
next
  case full
  with assms(1) show ?thesis by auto
qed

theorem add_correct_witness:
  "\<exists>i t'. opal_pointer_array_add True 9
     (snd (opal_pointer_array_init True opal_pointer_array_construct 0 9 4)) 77 = Some (i, t') \<and>
     pa_inv t'"
  using add_correct [OF sample_table(1), of 9 77 True] by (auto simp: sample_table)

text \<open>Reserving a slot with \<^verbatim>\<open>opal_pointer_array_test_and_set_item\<close> is exclusive
  and undone by storing \<^verbatim>\<open>NULL\<close>: after a successful reservation every further attempt on
  that index fails without changing the table, and releasing it always succeeds and restores
  the contents that were there before the reservation.\<close>

theorem reserve_exclusive_and_release:
  assumes "pa_inv t" "0 \<le> i" "v \<noteq> NULL"
    "opal_pointer_array_test_and_set_item mem t i v = Some (True, t')"
  shows "opal_pointer_array_test_and_set_item mem' t' i w = Some (False, t') \<and>
    (\<exists>t''. opal_pointer_array_set_item mem' t' i NULL = Some (OPAL_SUCCESS, t'') \<and> pa_inv t'' \<and>
           (\<forall>j. 0 \<le> j \<longrightarrow> opal_pointer_array_get_item t'' j = opal_pointer_array_get_item t j))"
proof -
  obtain t'' where "opal_pointer_array_set_item mem' t' i NULL = Some (OPAL_SUCCESS, t'')"
    "pa_inv t''" "pa_lookup t'' = pa_lookup t"
    using pa.reserve_release [OF assms] by blast
  with pa.reserve_exclusive [OF assms] assms(1) show ?thesis
    by (auto simp: get_item_lookup)
qed

theorem reserve_exclusive_and_release_witness:
  "let t = snd (opal_pointer_array_init True opal_pointer_array_construct 0 9 4)
   in \<exists>t'. opal_pointer_array_test_and_set_item True t 2 77 = Some (True, t') \<and>
           opal_pointer_array_test_and_set_item True t' 2 78 = Some (False, t')"
proof -
  let ?t = "snd (opal_pointer_array_init True opal_pointer_array_construct 0 9 4)"
  obtain t' where t': "opal_pointer_array_test_and_set_item True ?t 2 77 = Some (True, t')"
    by (simp add: opal_pointer_array_test_and_set_item_def opal_pointer_array_init_def
        opal_pointer_array_construct_def)
  with reserve_exclusive_and_release [OF sample_table(1) _ _ t', of True 78] show ?thesis
    by auto
qed

end
