(* ===== verification/Bitmap.thy ===== *)
theory Bitmap
  imports Prelude
begin

text \<open>
  The growable bitmap of \<^verbatim>\<open>opal/class/opal_bitmap.c\<close>. The byte array is a list of
  8-bit words (absent before initialisation and after a failed reallocation), and every byte
  access is checked: \<open>None\<close> is an access outside the array or the division by a zero
  array size. The functions take the object itself, so their tests for a null object
  pointer have no counterpart; the allocator's answer is an argument where the code
  allocates.
\<close>

section \<open>The structure and its operations\<close>

record opal_bitmap_t =
  bitmap :: "u8 list option"
  array_size :: int
  bm_max_size :: int

definition SIZE_OF_CHAR :: int where "SIZE_OF_CHAR = 8"

abbreviation bytes :: "opal_bitmap_t \<Rightarrow> u8 list" where
  "bytes bm \<equiv> case_option [] id (bitmap bm)"

definition opal_bitmap_construct :: opal_bitmap_t where
  "opal_bitmap_construct = \<lparr>bitmap = None, array_size = 0, bm_max_size = INT_MAX\<rparr>"

definition opal_bitmap_destruct :: "opal_bitmap_t \<Rightarrow> opal_bitmap_t" where
  "opal_bitmap_destruct bm = bm\<lparr>bitmap := None\<rparr>"

definition bytes_for :: "int \<Rightarrow> int" where
  "bytes_for n = n sdiv SIZE_OF_CHAR + (if n smod SIZE_OF_CHAR = 0 then 0 else 1)"

definition opal_bitmap_set_max_size :: "opal_bitmap_t \<Rightarrow> int \<Rightarrow> int \<times> opal_bitmap_t" where
  "opal_bitmap_set_max_size bm max_sz = (OPAL_SUCCESS, bm\<lparr>bm_max_size := bytes_for max_sz\<rparr>)"

definition opal_bitmap_clear_all_bits :: "opal_bitmap_t \<Rightarrow> int \<times> opal_bitmap_t" where
  "opal_bitmap_clear_all_bits bm =
     (OPAL_SUCCESS, bm\<lparr>bitmap := map_option (\<lambda>xs. replicate (length xs) 0) (bitmap bm)\<rparr>)"

definition opal_bitmap_set_all_bits :: "opal_bitmap_t \<Rightarrow> int \<times> opal_bitmap_t" where
  "opal_bitmap_set_all_bits bm =
     (OPAL_SUCCESS, bm\<lparr>bitmap := map_option (\<lambda>xs. replicate (length xs) 0xff) (bitmap bm)\<rparr>)"

definition opal_bitmap_init :: "bool \<Rightarrow> opal_bitmap_t \<Rightarrow> int \<Rightarrow> int \<times> opal_bitmap_t" where
  "opal_bitmap_init mem bm sz =
     (if sz \<le> 0 \<or> sz > bm_max_size bm then (OPAL_ERR_BAD_PARAM, bm)
      else
        let bm = bm\<lparr>array_size := bytes_for sz\<rparr>
        in if \<not> mem then (OPAL_ERR_OUT_OF_RESOURCE, bm\<lparr>bitmap := None\<rparr>)
           else (OPAL_SUCCESS, snd (opal_bitmap_clear_all_bits
                   (bm\<lparr>bitmap := Some (replicate (nat (array_size bm)) 0)\<rparr>))))"

definition opal_bitmap_set_bit ::
  "bool \<Rightarrow> opal_bitmap_t \<Rightarrow> int \<Rightarrow> (int \<times> opal_bitmap_t) option" where
  "opal_bitmap_set_bit mem bm b =
     (if b < 0 \<or> b > bm_max_size bm then Some (OPAL_ERR_BAD_PARAM, bm)
      else
        let index = b sdiv SIZE_OF_CHAR; offset = b smod SIZE_OF_CHAR
        in do {
          (ok, bm) \<leftarrow>
            (if index \<ge> array_size bm then
               if array_size bm = 0 then None
               else
                 let new_size = (index sdiv array_size bm + 1) * array_size bm
                 in if \<not> mem then Some (False, bm\<lparr>bitmap := None\<rparr>)
                    else Some (True,
                      bm\<lparr>bitmap := Some (bytes bm @ replicate (nat (new_size - array_size bm)) 0),
                         array_size := new_size\<rparr>)
             else Some (True, bm));
          if \<not> ok then Some (OPAL_ERR_OUT_OF_RESOURCE, bm)
          else do {
            x \<leftarrow> rd (bytes bm) index;
            xs \<leftarrow> wr (bytes bm) index (x OR push_bit (nat offset) 1);
            Some (OPAL_SUCCESS, bm\<lparr>bitmap := Some xs\<rparr>) } })"

definition opal_bitmap_clear_bit :: "opal_bitmap_t \<Rightarrow> int \<Rightarrow> (int \<times> opal_bitmap_t) option" where
  "opal_bitmap_clear_bit bm b =
     (if b < 0 \<or> b \<ge> array_size bm * SIZE_OF_CHAR then Some (OPAL_ERR_BAD_PARAM, bm)
      else
        let index = b sdiv SIZE_OF_CHAR; offset = b smod SIZE_OF_CHAR
        in if index \<ge> array_size bm then Some (OPAL_ERR_BAD_PARAM, bm)
           else do {
             x \<leftarrow> rd (bytes bm) index;
             xs \<leftarrow> wr (bytes bm) index (x AND NOT (push_bit (nat offset) 1));
             Some (OPAL_SUCCESS, bm\<lparr>bitmap := Some xs\<rparr>) })"

definition opal_bitmap_is_set_bit :: "opal_bitmap_t \<Rightarrow> int \<Rightarrow> bool option" where
  "opal_bitmap_is_set_bit bm b =
     (if b < 0 \<or> b \<ge> array_size bm * SIZE_OF_CHAR then Some False
      else
        let index = b sdiv SIZE_OF_CHAR; offset = b smod SIZE_OF_CHAR
        in if index \<ge> array_size bm then Some False
           else do { x \<leftarrow> rd (bytes bm) index;
                     Some (x AND push_bit (nat offset) 1 \<noteq> 0) })"

text \<open>The two loops of \<^verbatim>\<open>opal_bitmap_find_and_set_first_unset_bit\<close>: skip the full
  bytes, then count the trailing ones of the first byte that has room.\<close>

function skip_full :: "u8 list \<Rightarrow> int \<Rightarrow> int \<Rightarrow> int option" where
  "skip_full xs i n =
     (if i < n then do { x \<leftarrow> rd xs i; if x = 0xff then skip_full xs (i + 1) n else Some i }
      else Some i)"
  by pat_completeness auto
termination
  by (relation "measure (\<lambda>(xs, i, n). nat (n - i))") auto

function trailing_ones :: "u8 \<Rightarrow> nat" where
  "trailing_ones temp = (if temp AND 1 \<noteq> 0 then Suc (trailing_ones (drop_bit 1 temp)) else 0)"
  by pat_completeness auto
termination
proof (relation "measure unat", goal_cases)
  case (2 temp)
  then have "temp \<noteq> 0" by auto
  then have "unat temp \<noteq> 0" by (simp add: unat_eq_0)
  then show ?case by (simp add: drop_bit_Suc unat_div)
qed simp

declare skip_full.simps [simp del] trailing_ones.simps [simp del]

definition opal_bitmap_find_and_set_first_unset_bit ::
  "bool \<Rightarrow> opal_bitmap_t \<Rightarrow> (int \<times> int \<times> opal_bitmap_t) option" where
  "opal_bitmap_find_and_set_first_unset_bit mem bm =
     do {
       i \<leftarrow> skip_full (bytes bm) 0 (array_size bm);
       if i = array_size bm then do {
         let position = array_size bm * SIZE_OF_CHAR;
         (r, bm) \<leftarrow> opal_bitmap_set_bit mem bm position;
         Some (r, position, bm) }
       else do {
         temp \<leftarrow> rd (bytes bm) i;
         let position = int (trailing_ones temp);
         xs \<leftarrow> wr (bytes bm) i (temp OR (temp + 1));
         Some (OPAL_SUCCESS, position + i * SIZE_OF_CHAR, bm\<lparr>bitmap := Some xs\<rparr>) } }"

text \<open>The in-place loop shared by the three bitwise operations.\<close>

function inplace_loop ::
  "(u8 \<Rightarrow> u8 \<Rightarrow> u8) \<Rightarrow> u8 list \<Rightarrow> u8 list \<Rightarrow> int \<Rightarrow> int \<Rightarrow> u8 list option" where
  "inplace_loop f xs ys i n =
     (if i < n then do {
        a \<leftarrow> rd xs i; b \<leftarrow> rd ys i; xs \<leftarrow> wr xs i (f a b);
        inplace_loop f xs ys (i + 1) n }
      else Some xs)"
  by pat_completeness auto
termination
  by (relation "measure (\<lambda>(f, xs, ys, i, n). nat (n - i))") auto

declare inplace_loop.simps [simp del]

definition bitwise_inplace ::
  "(u8 \<Rightarrow> u8 \<Rightarrow> u8) \<Rightarrow> opal_bitmap_t \<Rightarrow> opal_bitmap_t \<Rightarrow> (int \<times> opal_bitmap_t) option" where
  "bitwise_inplace f dest right =
     (if array_size dest \<noteq> array_size right then Some (OPAL_ERR_BAD_PARAM, dest)
      else do {
        xs \<leftarrow> inplace_loop f (bytes dest) (bytes right) 0 (array_size dest);
        Some (OPAL_SUCCESS, dest\<lparr>bitmap := map_option (\<lambda>_. xs) (bitmap dest)\<rparr>) })"

definition opal_bitmap_bitwise_and_inplace ::
  "opal_bitmap_t \<Rightarrow> opal_bitmap_t \<Rightarrow> (int \<times> opal_bitmap_t) option" where
  "opal_bitmap_bitwise_and_inplace = bitwise_inplace (AND)"

definition opal_bitmap_bitwise_or_inplace ::
  "opal_bitmap_t \<Rightarrow> opal_bitmap_t \<Rightarrow> (int \<times> opal_bitmap_t) option" where
  "opal_bitmap_bitwise_or_inplace = bitwise_inplace (OR)"

definition opal_bitmap_bitwise_xor_inplace ::
  "opal_bitmap_t \<Rightarrow> opal_bitmap_t \<Rightarrow> (int \<times> opal_bitmap_t) option" where
  "opal_bitmap_bitwise_xor_inplace = bitwise_inplace (XOR)"

function differ_loop :: "u8 list \<Rightarrow> u8 list \<Rightarrow> int \<Rightarrow> int \<Rightarrow> bool option" where
  "differ_loop xs ys i n =
     (if i < n then do {
        a \<leftarrow> rd xs i; b \<leftarrow> rd ys i;
        if a \<noteq> b then Some True else differ_loop xs ys (i + 1) n }
      else Some False)"
  by pat_completeness auto
termination
  by (relation "measure (\<lambda>(xs, ys, i, n). nat (n - i))") auto

declare differ_loop.simps [simp del]

definition opal_bitmap_size :: "opal_bitmap_t \<Rightarrow> int" where
  "opal_bitmap_size bm = array_size bm * SIZE_OF_CHAR"

definition opal_bitmap_copy ::
  "bool \<Rightarrow> opal_bitmap_t \<Rightarrow> opal_bitmap_t \<Rightarrow> opal_bitmap_t option" where
  "opal_bitmap_copy mem dest src =
     (if \<not> mem then None
      else Some (dest\<lparr>bitmap := Some (bytes src), array_size := array_size src\<rparr>))"

definition opal_bitmap_are_different :: "opal_bitmap_t \<Rightarrow> opal_bitmap_t \<Rightarrow> bool option" where
  "opal_bitmap_are_different left right =
     (if opal_bitmap_size left \<noteq> opal_bitmap_size right then Some True
      else differ_loop (bytes left) (bytes right) 0 (array_size left))"

function string_loop :: "opal_bitmap_t \<Rightarrow> int \<Rightarrow> string option" where
  "string_loop bm i =
     (if i < array_size bm * SIZE_OF_CHAR then do {
        b \<leftarrow> opal_bitmap_is_set_bit bm i;
        s \<leftarrow> string_loop bm (i + 1);
        Some ((if b then CHR ''X'' else CHR ''_'') # s) }
      else Some [])"
  by pat_completeness auto
termination
  by (relation "measure (\<lambda>(bm, i). nat (array_size bm * SIZE_OF_CHAR - i))") auto

declare string_loop.simps [simp del]

definition opal_bitmap_get_string :: "opal_bitmap_t \<Rightarrow> string option option" where
  "opal_bitmap_get_string bm =
     map_option (\<lambda>s. if s = [] then None else Some s) (string_loop bm 0)"

text \<open>The counting loop without the range test that only debug builds compile.\<close>

function count_loop :: "u8 list \<Rightarrow> int \<Rightarrow> int \<Rightarrow> int \<Rightarrow> int option" where
  "count_loop xs i len cnt =
     (if i < len then do {
        x \<leftarrow> rd xs (i sdiv SIZE_OF_CHAR);
        count_loop xs (i + 1) len
          (if x AND push_bit (nat (i smod SIZE_OF_CHAR)) 1 \<noteq> 0 then cnt + 1 else cnt) }
      else Some cnt)"
  by pat_completeness auto
termination
  by (relation "measure (\<lambda>(xs, i, len, cnt). nat (len - i))") auto

declare count_loop.simps [simp del]

definition opal_bitmap_num_set_bits :: "bool \<Rightarrow> opal_bitmap_t \<Rightarrow> int \<Rightarrow> int option" where
  "opal_bitmap_num_set_bits debug bm len =
     (if debug \<and> (len < 0 \<or> len \<ge> array_size bm * SIZE_OF_CHAR) then Some 0
      else count_loop (bytes bm) 0 len 0)"

definition opal_bitmap_num_unset_bits :: "bool \<Rightarrow> opal_bitmap_t \<Rightarrow> int \<Rightarrow> int option" where
  "opal_bitmap_num_unset_bits debug bm len =
     map_option (\<lambda>c. len - c) (opal_bitmap_num_set_bits debug bm len)"

section \<open>Invariant and abstraction\<close>

definition bm_inv :: "opal_bitmap_t \<Rightarrow> bool" where
  "bm_inv bm \<longleftrightarrow> bitmap bm \<noteq> None \<and> bytes bm \<noteq> [] \<and> array_size bm = int (length (bytes bm))"

text \<open>The set of bit numbers a bitmap holds.\<close>

definition byte_members :: "u8 list \<Rightarrow> int set" where
  "byte_members xs = {b. 0 \<le> b \<and> b < 8 * int (length xs) \<and> bit (xs ! nat (b div 8)) (nat (b mod 8))}"

definition members :: "opal_bitmap_t \<Rightarrow> int set" where
  "members bm = byte_members (bytes bm)"

lemma and_mask_bit: "x AND 2 ^ n = 0 \<longleftrightarrow> \<not> bit (x :: u8) n"
  by (simp add: bit_iff_and_push_bit_not_eq_0)

lemma div8_less: "b div 8 < n \<longleftrightarrow> b < 8 * n" for b n :: int
  by linarith

lemma nat_div_mod_eq_iff:
  "0 \<le> a \<Longrightarrow> 0 \<le> b \<Longrightarrow> nat (a div 8) = nat (b div 8) \<and> nat (a mod 8) = nat (b mod 8) \<longleftrightarrow> a = b"
  for a b :: int
proof
  assume A: "0 \<le> a" "0 \<le> b" "nat (a div 8) = nat (b div 8) \<and> nat (a mod 8) = nat (b mod 8)"
  then have "a div 8 = b div 8" "a mod 8 = b mod 8"
    using eq_nat_nat_iff [of "a div 8" "b div 8"] eq_nat_nat_iff [of "a mod 8" "b mod 8"] by auto
  then show "a = b" by (metis div_mult_mod_eq)
qed simp

lemma bit_or_push: "bit (x OR 2 ^ m :: u8) n \<longleftrightarrow> bit x n \<or> n = m \<and> m < 8"
  by (auto simp: bit_or_iff bit_exp_iff)

lemma bit_and_not_push: "n < 8 \<Longrightarrow> bit (x AND NOT (2 ^ m) :: u8) n \<longleftrightarrow> bit x n \<and> n \<noteq> m"
  by (auto simp: bit_and_iff bit_not_iff bit_exp_iff)

lemma byte_members_update:
  assumes b: "0 \<le> b" "b < 8 * int (length xs)"
    and f: "\<And>n. n < 8 \<Longrightarrow> bit w n = (if n = nat (b mod 8) then v else bit (xs ! nat (b div 8)) n)"
  shows "byte_members (xs[nat (b div 8) := w]) =
         (if v then insert b (byte_members xs) else byte_members xs - {b})"
proof (rule set_eqI)
  fix x
  show "x \<in> byte_members (xs[nat (b div 8) := w]) \<longleftrightarrow>
        x \<in> (if v then insert b (byte_members xs) else byte_members xs - {b})"
  proof (cases "0 \<le> x \<and> nat (x div 8) = nat (b div 8)")
    case True
    then have "x div 8 = b div 8"
      using b eq_nat_nat_iff [of "x div 8" "b div 8"] by auto
    then have "x < 8 * int (length xs)" using b by (metis div8_less)
    moreover have "nat (x mod 8) = nat (b mod 8) \<longleftrightarrow> x = b"
      using True b nat_div_mod_eq_iff [of x b] by auto
    moreover have "nat (x mod 8) < 8" by (simp add: nat_less_iff)
    ultimately show ?thesis
      using True b f by (auto simp: byte_members_def nat_less_iff)
  next
    case False
    with b have "x \<noteq> b" by auto
    with False show ?thesis by (auto simp: byte_members_def nth_list_update)
  qed
qed

lemma byte_members_extend: "byte_members (xs @ replicate n 0) = byte_members xs"
proof -
  have "\<not> bit (replicate n (0 :: u8) ! (nat (b div 8) - length xs)) m"
    if "b < 8 * int (length xs + n)" "0 \<le> b" "\<not> b < 8 * int (length xs)" for b :: int and m
    using that by (subst nth_replicate) (auto simp: nat_less_iff)
  moreover have "nat (b div 8) < length xs \<longleftrightarrow> b < 8 * int (length xs)" if "0 \<le> b" for b :: int
    using that by (simp add: nat_less_iff) linarith
  ultimately show ?thesis
    by (fastforce simp: byte_members_def nth_append)
qed

lemma bm_inv_init:
  assumes "opal_bitmap_init True bm sz = (r, bm')"
  shows "r = OPAL_SUCCESS \<longleftrightarrow> 0 < sz \<and> sz \<le> bm_max_size bm"
    and "r = OPAL_SUCCESS \<Longrightarrow> bm_inv bm' \<and> members bm' = {} \<and> bm_max_size bm' = bm_max_size bm"
proof -
  have *: "0 < bytes_for sz" if "0 < sz"
    using that by (auto simp: bytes_for_def SIZE_OF_CHAR_def)
  show "r = OPAL_SUCCESS \<longleftrightarrow> 0 < sz \<and> sz \<le> bm_max_size bm"
    using assms by (auto simp: opal_bitmap_init_def Let_def rc_defs split: if_splits)
  show "r = OPAL_SUCCESS \<Longrightarrow> bm_inv bm' \<and> members bm' = {} \<and> bm_max_size bm' = bm_max_size bm"
    using assms * by (auto simp: opal_bitmap_init_def Let_def opal_bitmap_clear_all_bits_def bm_inv_def
        members_def byte_members_def rc_defs nat_less_iff split: if_splits)
qed

lemma byte_members_set:
  "0 \<le> b \<Longrightarrow> b < 8 * int (length xs) \<Longrightarrow>
   byte_members (xs[nat (b div 8) := xs ! nat (b div 8) OR 2 ^ nat (b mod 8)]) =
   insert b (byte_members xs)"
  by (subst byte_members_update [where v = True]) (auto simp: bit_or_push)

lemma byte_members_clear:
  "0 \<le> b \<Longrightarrow> b < 8 * int (length xs) \<Longrightarrow>
   byte_members (xs[nat (b div 8) := xs ! nat (b div 8) AND NOT (2 ^ nat (b mod 8))]) =
   byte_members xs - {b}"
  by (subst byte_members_update [where v = False]) (auto simp: bit_and_not_push)

lemma is_set_bit_members:
  "bm_inv bm \<Longrightarrow> opal_bitmap_is_set_bit bm b = Some (b \<in> members bm)"
  by (auto simp: opal_bitmap_is_set_bit_def bm_inv_def members_def byte_members_def
      SIZE_OF_CHAR_def and_mask_bit nat_less_iff Let_def)

lemma set_bit_in_range:
  assumes inv: "bm_inv bm" and b: "0 \<le> b" "b < 8 * array_size bm" "b \<le> bm_max_size bm"
  shows "\<exists>bm'. opal_bitmap_set_bit mem bm b = Some (OPAL_SUCCESS, bm') \<and> bm_inv bm' \<and>
    members bm' = insert b (members bm) \<and> array_size bm' = array_size bm \<and>
    bm_max_size bm' = bm_max_size bm"
proof -
  have i: "b div 8 < array_size bm" using b by linarith
  then show ?thesis
    using assms byte_members_set [of b "bytes bm"]
    by (auto simp: opal_bitmap_set_bit_def SIZE_OF_CHAR_def bm_inv_def members_def Let_def)
qed

lemma set_bit_extend:
  assumes inv: "bm_inv bm" and b: "8 * array_size bm \<le> b" "b \<le> bm_max_size bm"
  obtains bm' where "opal_bitmap_set_bit True bm b = opal_bitmap_set_bit True bm' b" "bm_inv bm'"
    "members bm' = members bm" "b < 8 * array_size bm'" "bm_max_size bm' = bm_max_size bm"
proof -
  define a where "a = array_size bm"
  have a: "0 < a" using inv by (auto simp: bm_inv_def a_def)
  define n where "n = (b div 8 div a + 1) * a"
  have lt: "b div 8 < n"
  proof -
    have "b div 8 = a * (b div 8 div a) + b div 8 mod a" by (rule mult_div_mod_eq [symmetric])
    moreover have "b div 8 mod a < a" using a by (rule pos_mod_bound)
    moreover have "n = a * (b div 8 div a) + a" by (simp add: n_def algebra_simps)
    ultimately show ?thesis by linarith
  qed
  have le: "a \<le> b div 8" using b by (simp add: a_def)
  have an: "a \<le> n"
    using lt le by simp
  define bm' where "bm' = bm\<lparr>bitmap := Some (bytes bm @ replicate (nat (n - a)) 0), array_size := n\<rparr>"
  have "opal_bitmap_set_bit True bm b = opal_bitmap_set_bit True bm' b"
    using a b le lt by (auto simp: opal_bitmap_set_bit_def SIZE_OF_CHAR_def bm'_def a_def n_def Let_def)
  moreover have "bm_inv bm'"
    using inv an a by (auto simp: bm_inv_def bm'_def a_def)
  moreover have "members bm' = members bm"
    by (simp add: members_def bm'_def byte_members_extend)
  moreover have "b < 8 * array_size bm'" using lt by (simp add: bm'_def)
  ultimately show thesis using that by (simp add: bm'_def)
qed

lemma set_bit_cases:
  assumes inv: "bm_inv bm"
  shows "\<exists>r bm'. opal_bitmap_set_bit mem bm b = Some (r, bm') \<and>
    (r = OPAL_SUCCESS \<and> 0 \<le> b \<and> b \<le> bm_max_size bm \<and> bm_inv bm' \<and>
       members bm' = insert b (members bm) \<and> bm_max_size bm' = bm_max_size bm \<or>
     r = OPAL_ERR_BAD_PARAM \<and> bm' = bm \<and> \<not> (0 \<le> b \<and> b \<le> bm_max_size bm) \<or>
     r = OPAL_ERR_OUT_OF_RESOURCE \<and> \<not> mem \<and> 8 * array_size bm \<le> b)"
proof (cases "0 \<le> b \<and> b \<le> bm_max_size bm")
  case False
  then show ?thesis by (auto simp: opal_bitmap_set_bit_def)
next
  case range: True
  show ?thesis
  proof (cases "b < 8 * array_size bm")
    case True
    with range inv set_bit_in_range [of bm b mem] show ?thesis by auto
  next
    case False
    show ?thesis
    proof (cases mem)
      case True
      from False range have le: "8 * array_size bm \<le> b" "b \<le> bm_max_size bm" by auto
      obtain bm' where
        "opal_bitmap_set_bit True bm b = opal_bitmap_set_bit True bm' b" "bm_inv bm'"
        "members bm' = members bm" "b < 8 * array_size bm'" "bm_max_size bm' = bm_max_size bm"
        by (rule set_bit_extend [OF inv le])
      with True range set_bit_in_range [of bm' b True] show ?thesis by auto
    next
      case nomem: False
      have "\<not> b div 8 < array_size bm" "array_size bm \<noteq> 0" using False inv by (auto simp: bm_inv_def)
      with nomem range have
        "opal_bitmap_set_bit mem bm b = Some (OPAL_ERR_OUT_OF_RESOURCE, bm\<lparr>bitmap := None\<rparr>)"
        by (simp add: opal_bitmap_set_bit_def SIZE_OF_CHAR_def)
      with nomem False show ?thesis by auto
    qed
  qed
qed

lemma clear_bit_correct:
  assumes inv: "bm_inv bm"
  shows "\<exists>r bm'. opal_bitmap_clear_bit bm b = Some (r, bm') \<and> bm_inv bm' \<and>
    (r = OPAL_SUCCESS \<and> members bm' = members bm - {b} \<or>
     r = OPAL_ERR_BAD_PARAM \<and> bm' = bm \<and> \<not> (0 \<le> b \<and> b < 8 * array_size bm))"
proof (cases "0 \<le> b \<and> b < 8 * array_size bm")
  case True
  then have "b div 8 < array_size bm" by linarith
  with True inv byte_members_clear [of b "bytes bm"] show ?thesis
    by (auto simp: opal_bitmap_clear_bit_def SIZE_OF_CHAR_def bm_inv_def members_def Let_def)
next
  case False
  then have "opal_bitmap_clear_bit bm b = Some (OPAL_ERR_BAD_PARAM, bm)"
    by (auto simp: opal_bitmap_clear_bit_def SIZE_OF_CHAR_def)
  with False inv show ?thesis by blast
qed

lemma skip_full_spec:
  assumes "0 \<le> i" "i \<le> int (length xs)"
  shows "\<exists>k. skip_full xs i (int (length xs)) = Some k \<and> i \<le> k \<and> k \<le> int (length xs) \<and>
    (\<forall>j. i \<le> j \<and> j < k \<longrightarrow> xs ! nat j = 0xff) \<and> (k < int (length xs) \<longrightarrow> xs ! nat k \<noteq> 0xff)"
  using assms
proof (induction xs i "int (length xs)" rule: skip_full.induct)
  case (1 xs i)
  show ?case
  proof (cases "i < int (length xs) \<and> xs ! nat i = 0xff")
    case True
    with "1.hyps" "1.prems" obtain k where k: "skip_full xs (i + 1) (int (length xs)) = Some k"
      "i + 1 \<le> k" "k \<le> int (length xs)" "\<forall>j. i + 1 \<le> j \<and> j < k \<longrightarrow> xs ! nat j = 0xff"
      "k < int (length xs) \<longrightarrow> xs ! nat k \<noteq> 0xff"
      by auto
    have "skip_full xs i (int (length xs)) = Some k"
      using True "1.prems" k(1) by (subst skip_full.simps) simp
    moreover have "xs ! nat j = 0xff" if "i \<le> j" "j < k" for j
      using that True k(4) by (cases "j = i") auto
    ultimately show ?thesis using k by (intro exI [of _ k]) auto
  next
    case False
    then have "skip_full xs i (int (length xs)) = Some i"
      using "1.prems" by (subst skip_full.simps) (auto split: if_splits)
    with False "1.prems" show ?thesis by auto
  qed
qed

lemma and_1_odd: "w AND 1 \<noteq> 0 \<longleftrightarrow> odd (w :: u8)"
  by (simp add: and_one_eq even_iff_mod_2_eq_zero)

lemma and_1_even: "\<not> w AND 1 \<noteq> 0 \<Longrightarrow> even (w :: u8)"
  using iffD2 [OF and_1_odd, of w] by blast

lemma double_or: "2 * (x OR y) = 2 * x OR 2 * (y :: u8)"
  by (rule bit_word_eqI) (auto simp: bit_double_iff bit_or_iff)

lemma double_succ: "2 * x + 1 = 2 * x OR (1 :: u8)"
  by (simp add: or_one_eq)

lemma trailing_ones_bits:
  "(\<forall>j < trailing_ones w. bit w j) \<and> \<not> bit w (trailing_ones w)"
proof (induction w rule: trailing_ones.induct)
  case (1 w)
  show ?case
  proof (cases "w AND 1 \<noteq> 0")
    case True
    then have "bit w 0" by (rule iffD2 [OF bit_0 iffD1 [OF and_1_odd]])
    moreover have "trailing_ones w = Suc (trailing_ones (drop_bit 1 w))"
      using True by (simp only: trailing_ones.simps [of w] if_True not_False_eq_True)
    ultimately show ?thesis using "1.IH" [OF True]
      by (auto simp: bit_drop_bit_eq less_Suc_eq_0_disj)
  next
    case False
    then have "\<not> bit w 0" using and_1_even [of w] bit_0 [of w] by blast
    with False show ?thesis by (subst (1 2) trailing_ones.simps) simp
  qed
qed

lemma trailing_ones_less: "w \<noteq> 0xff \<Longrightarrow> trailing_ones w < 8"
proof (rule ccontr)
  assume w: "w \<noteq> 0xff" "\<not> trailing_ones w < 8"
  then have "bit w n" if "n < 8" for n
    using that trailing_ones_bits [of w] by auto
  then have "w = - 1" by (intro bit_word_eqI) (simp add: bit_minus_1_iff)
  with w(1) show False by simp
qed

lemma or_succ: "w OR (w + 1) = w OR 2 ^ trailing_ones w"
proof (induction w rule: trailing_ones.induct)
  case (1 w)
  show ?case
  proof (cases "w AND 1 \<noteq> 0")
    case True
    define u where "u = drop_bit 1 w"
    have "odd w" using True by (rule iffD1 [OF and_1_odd])
    then have w: "w = 2 * u + 1"
      using div_mult_mod_eq [of w 2] by (simp add: u_def drop_bit_Suc odd_iff_mod_2_eq_one mult.commute)
    have t: "trailing_ones w = Suc (trailing_ones u)"
      using True by (simp only: trailing_ones.simps [of w] if_True not_False_eq_True u_def)
    have IH: "u OR (u + 1) = u OR 2 ^ trailing_ones u" using "1.IH" [OF True] by (simp add: u_def)
    have "w OR (w + 1) = (2 * u OR 1) OR 2 * (u + 1)"
    proof -
      have "w + 1 = 2 * (u + 1)" unfolding w by (simp add: algebra_simps)
      moreover have "w = 2 * u OR 1" unfolding w by (rule double_succ)
      ultimately show ?thesis by (simp only:)
    qed
    also have "\<dots> = 2 * (u OR (u + 1)) OR 1"
      by (simp add: double_or or.commute or.left_commute or.assoc)
    also have "\<dots> = (2 * u OR 1) OR 2 * 2 ^ trailing_ones u"
      unfolding IH by (simp add: double_or or.commute or.left_commute or.assoc)
    also have "\<dots> = w OR 2 ^ trailing_ones w"
      unfolding t by (simp add: w double_succ)
    finally show ?thesis .
  next
    case False
    then have "even w" by (rule and_1_even)
    moreover have "trailing_ones w = 0" using False by (subst trailing_ones.simps) simp
    moreover have "w + 1 = w OR 1" using \<open>even w\<close> by (simp add: or_one_eq)
    ultimately show ?thesis by (simp only: or.left_idem power_0)
  qed
qed

lemma full_byte: "n < 8 \<Longrightarrow> bit (0xff :: u8) n"
proof -
  assume n: "n < 8"
  have "(0xff :: u8) = mask 8" by (simp add: mask_eq_exp_minus_1)
  with n show ?thesis by (simp only: bit_mask_iff possible_bit_word) simp
qed

lemma byte_members_first_unset:
  assumes xs: "0 \<le> k" "k < int (length xs)" "xs ! nat k \<noteq> 0xff"
    and full: "\<forall>j. 0 \<le> j \<and> j < k \<longrightarrow> xs ! nat j = 0xff"
  defines "p \<equiv> int (trailing_ones (xs ! nat k)) + k * 8"
  shows "p \<notin> byte_members xs" "\<forall>j. 0 \<le> j \<and> j < p \<longrightarrow> j \<in> byte_members xs"
    "byte_members (xs[nat k := xs ! nat k OR (xs ! nat k + 1)]) = insert p (byte_members xs)"
proof -
  let ?t = "trailing_ones (xs ! nat k)"
  have t: "?t < 8" using xs(3) by (rule trailing_ones_less)
  have p: "p div 8 = k" "p mod 8 = int ?t" "0 \<le> p" "p < 8 * int (length xs)"
    using t xs by (auto simp: p_def)
  show "p \<notin> byte_members xs"
    using p trailing_ones_bits [of "xs ! nat k"] by (simp add: byte_members_def)
  show "\<forall>j. 0 \<le> j \<and> j < p \<longrightarrow> j \<in> byte_members xs"
  proof (intro allI impI)
    fix j assume j: "0 \<le> j \<and> j < p"
    have m: "nat (j mod 8) < 8" by (simp add: nat_less_iff)
    show "j \<in> byte_members xs"
    proof (cases "j div 8 < k")
      case True
      with j have "xs ! nat (j div 8) = 0xff" using full by auto
      with j p full_byte [OF m] show ?thesis by (simp add: byte_members_def)
    next
      case False
      with j p have d: "j div 8 = p div 8" by linarith
      with j have "j mod 8 < p mod 8"
        using mult_div_mod_eq [of 8 j] mult_div_mod_eq [of 8 p] by linarith
      with d p have "j div 8 = k" "j mod 8 < int ?t" by simp_all
      with j p trailing_ones_bits [of "xs ! nat k"] show ?thesis
        by (auto simp: byte_members_def nat_less_iff)
    qed
  qed
  show "byte_members (xs[nat k := xs ! nat k OR (xs ! nat k + 1)]) = insert p (byte_members xs)"
    using byte_members_set [OF p(3,4)] p by (simp add: or_succ)
qed

lemma inplace_loop_spec:
  assumes "0 \<le> i" "i \<le> int (length xs)" "length ys = length xs"
  shows "\<exists>zs. inplace_loop f xs ys i (int (length xs)) = Some zs \<and> length zs = length xs \<and>
    (\<forall>k < length xs. zs ! k = (if int k < i then xs ! k else f (xs ! k) (ys ! k)))"
  using assms
proof (induction f xs ys i "int (length xs)" rule: inplace_loop.induct)
  case (1 f xs ys i)
  show ?case
  proof (cases "i < int (length xs)")
    case True
    let ?xs = "xs[nat i := f (xs ! nat i) (ys ! nat i)]"
    have step: "inplace_loop f xs ys i (int (length xs)) = inplace_loop f ?xs ys (i + 1) (int (length ?xs))"
      using True "1.prems" by (subst inplace_loop.simps) simp
    have "\<exists>zs. inplace_loop f ?xs ys (i + 1) (int (length ?xs)) = Some zs \<and> length zs = length ?xs \<and>
      (\<forall>k < length ?xs. zs ! k = (if int k < i + 1 then ?xs ! k else f (?xs ! k) (ys ! k)))"
      using True "1.prems" by (intro "1.hyps") auto
    then obtain zs where zs: "inplace_loop f ?xs ys (i + 1) (int (length ?xs)) = Some zs"
      "length zs = length xs"
      "\<And>k. k < length xs \<Longrightarrow> zs ! k = (if int k < i + 1 then ?xs ! k else f (?xs ! k) (ys ! k))"
      by auto
    have "zs ! k = (if int k < i then xs ! k else f (xs ! k) (ys ! k))" if "k < length xs" for k
      using zs(3) [OF that] that "1.prems" by (cases "int k = i") (auto simp: nth_list_update)
    with step zs show ?thesis by auto
  next
    case False
    with "1.prems" show ?thesis by (subst inplace_loop.simps) auto
  qed
qed

lemma count_loop_spec:
  assumes "0 \<le> i" "len \<le> 8 * int (length xs)"
  shows "count_loop xs i len cnt = Some (cnt + int (card {b \<in> byte_members xs. i \<le> b \<and> b < len}))"
  using assms
proof (induction xs i len cnt rule: count_loop.induct)
  case (1 xs i len cnt)
  show ?case
  proof (cases "i < len")
    case True
    define c where "c = bit (xs ! nat (i div 8)) (nat (i mod 8))"
    have dv: "i div 8 < int (length xs)" using True "1.prems" by linarith
    have mem: "i \<in> byte_members xs \<longleftrightarrow> c"
      using True "1.prems" by (simp add: byte_members_def c_def)
    have "{b \<in> byte_members xs. i \<le> b \<and> b < len} =
        (if c then insert i {b \<in> byte_members xs. i + 1 \<le> b \<and> b < len}
         else {b \<in> byte_members xs. i + 1 \<le> b \<and> b < len})"
    proof -
      have "i \<le> b \<longleftrightarrow> b = i \<or> i + 1 \<le> b" for b by linarith
      with mem True show ?thesis by auto
    qed
    moreover have "finite {b \<in> byte_members xs. i + 1 \<le> b \<and> b < len}"
      by (rule finite_subset [of _ "{i + 1..<len}"]) auto
    ultimately have "card {b \<in> byte_members xs. i \<le> b \<and> b < len} =
        (if c then 1 else 0) + card {b \<in> byte_members xs. i + 1 \<le> b \<and> b < len}"
      by simp
    moreover have "count_loop xs i len cnt = count_loop xs (i + 1) len (if c then cnt + 1 else cnt)"
      using True "1.prems" dv
      by (subst count_loop.simps) (simp add: SIZE_OF_CHAR_def and_mask_bit c_def)
    moreover have "count_loop xs (i + 1) len (if c then cnt + 1 else cnt) = Some ((if c then cnt + 1 else cnt) +
        int (card {b \<in> byte_members xs. i + 1 \<le> b \<and> b < len}))"
      using "1.IH" [OF True, of "xs ! nat (i div 8)"] "1.prems" dv True
      by (simp add: SIZE_OF_CHAR_def and_mask_bit c_def)
    ultimately show ?thesis by simp
  next
    case False
    then show ?thesis by (subst count_loop.simps) simp
  qed
qed

lemma byte_members_zip:
  assumes "length xs = length ys" "length zs = length ys" "\<forall>k < length ys. zs ! k = f (xs ! k) (ys ! k)"
    and bits: "\<And>a b n. n < 8 \<Longrightarrow> bit (f a b) n \<longleftrightarrow> g (bit a n) (bit b n)" and "\<not> g False False"
  shows "byte_members zs = {b. g (b \<in> byte_members xs) (b \<in> byte_members ys)}"
proof (rule set_eqI)
  fix b :: int
  have "nat (b mod 8) < 8" by (simp add: nat_less_iff)
  then show "b \<in> byte_members zs \<longleftrightarrow> b \<in> {b. g (b \<in> byte_members xs) (b \<in> byte_members ys)}"
    using assms by (cases "0 \<le> b \<and> b < 8 * int (length ys)") (auto simp: byte_members_def nat_less_iff)
qed

lemma bitwise_inplace_spec:
  assumes "bm_inv d" "bm_inv r" "array_size d = array_size r"
    and "\<And>a b n. n < 8 \<Longrightarrow> bit (f a b) n \<longleftrightarrow> g (bit a n) (bit b n)" "\<not> g False False"
  shows "\<exists>d'. bitwise_inplace f d r = Some (OPAL_SUCCESS, d') \<and> bm_inv d' \<and>
    array_size d' = array_size d \<and> members d' = {b. g (b \<in> members d) (b \<in> members r)}"
proof -
  obtain xs ys where xs: "bitmap d = Some xs" "bitmap r = Some ys" "length xs = length ys"
    using assms(1-3) by (auto simp: bm_inv_def)
  obtain zs where "inplace_loop f xs ys 0 (int (length xs)) = Some zs" "length zs = length ys"
    "\<forall>k < length ys. zs ! k = f (xs ! k) (ys ! k)"
    using inplace_loop_spec [of 0 xs ys f, OF order_refl of_nat_0_le_iff xs(3) [symmetric]] xs(3) by auto
  with xs assms byte_members_zip [of xs ys zs f g] show ?thesis
    by (auto simp: bitwise_inplace_def bm_inv_def members_def)
qed

lemma differ_loop_spec:
  assumes "0 \<le> i" "length ys = length xs"
  shows "differ_loop xs ys i (int (length xs)) = Some (drop (nat i) xs \<noteq> drop (nat i) ys)"
  using assms
proof (induction xs ys i "int (length xs)" rule: differ_loop.induct)
  case (1 xs ys i)
  show ?case
  proof (cases "i < int (length xs)")
    case True
    with 1 have "drop (nat i) zs = zs ! nat i # drop (nat (i + 1)) zs" if "length zs = length xs" for zs :: "u8 list"
      using that Cons_nth_drop_Suc [of "nat i" zs] by (simp add: nat_less_iff nat_add_distrib)
    with True 1 show ?thesis by (subst differ_loop.simps) auto
  next
    case False
    with 1 show ?thesis by (subst differ_loop.simps) simp
  qed
qed

lemma byte_members_inj:
  assumes "length xs = length ys" "byte_members xs = byte_members ys"
  shows "xs = ys"
proof (rule nth_equalityI)
  show "length xs = length ys" by fact
  fix k assume k: "k < length xs"
  have "bit (xs ! k) n = bit (ys ! k) n" if "n < 8" for n
  proof -
    have "(8 * int k + int n) div 8 = int k" "(8 * int k + int n) mod 8 = int n" using that by auto
    moreover have "8 * int k + int n \<in> byte_members xs \<longleftrightarrow> 8 * int k + int n \<in> byte_members ys"
      by (simp add: assms)
    ultimately show ?thesis using k that assms(1) by (auto simp: byte_members_def)
  qed
  then show "xs ! k = ys ! k" by (intro bit_word_eqI) simp
qed

text \<open>Setting a bit. On a well-formed bitmap \<^verbatim>\<open>opal_bitmap_set_bit\<close> never
  touches memory outside its array. It accepts exactly the bit numbers from 0 to the stored
  maximum, grows the array when the bit lies past its end, adds the bit and only the bit to the
  set the bitmap represents, and fails otherwise with the bitmap untouched, except when a needed
  reallocation fails.\<close>

theorem set_bit_correct:
  assumes "bm_inv bm"
  shows "\<exists>r bm'. opal_bitmap_set_bit mem bm b = Some (r, bm') \<and>
    (r = OPAL_SUCCESS \<and> 0 \<le> b \<and> b \<le> bm_max_size bm \<and> bm_inv bm' \<and>
       members bm' = insert b (members bm) \<and> opal_bitmap_is_set_bit bm' b = Some True \<or>
     r = OPAL_ERR_BAD_PARAM \<and> bm' = bm \<and> \<not> (0 \<le> b \<and> b \<le> bm_max_size bm) \<or>
     r = OPAL_ERR_OUT_OF_RESOURCE \<and> \<not> mem \<and> opal_bitmap_size bm \<le> b)"
  using set_bit_cases [OF assms, of mem b]
  by (elim exE conjE disjE) (simp_all add: is_set_bit_members opal_bitmap_size_def SIZE_OF_CHAR_def)

definition sample_bitmap :: opal_bitmap_t where
  "sample_bitmap = \<lparr>bitmap = Some [0xff, 0x0b], array_size = 2, bm_max_size = INT_MAX\<rparr>"

lemma sample_bitmap_inv: "bm_inv sample_bitmap"
  by (simp add: bm_inv_def sample_bitmap_def)

lemma set_bit_correct_witness:
  "\<exists>r bm'. opal_bitmap_set_bit True sample_bitmap 30 = Some (r, bm') \<and>
    (r = OPAL_SUCCESS \<and> 0 \<le> (30 :: int) \<and> 30 \<le> bm_max_size sample_bitmap \<and> bm_inv bm' \<and>
       members bm' = insert 30 (members sample_bitmap) \<and> opal_bitmap_is_set_bit bm' 30 = Some True \<or>
     r = OPAL_ERR_BAD_PARAM \<and> bm' = sample_bitmap \<and> \<not> (0 \<le> (30 :: int) \<and> 30 \<le> bm_max_size sample_bitmap) \<or>
     r = OPAL_ERR_OUT_OF_RESOURCE \<and> \<not> True \<and> opal_bitmap_size sample_bitmap \<le> 30)"
  by (rule set_bit_correct [OF sample_bitmap_inv])

text \<open>The first free bit. \<^verbatim>\<open>opal_bitmap_find_and_set_first_unset_bit\<close> with a
  working allocator either returns the least bit number that was not set and sets exactly that
  bit, extending the array when every bit of it is set, or, when the bitmap is full and may not
  grow, reports a bad parameter and leaves it alone.\<close>

theorem first_unset_bit_correct:
  assumes inv: "bm_inv bm"
  shows "\<exists>r p bm'. opal_bitmap_find_and_set_first_unset_bit True bm = Some (r, p, bm') \<and>
    p \<notin> members bm \<and> 0 \<le> p \<and> (\<forall>j. 0 \<le> j \<and> j < p \<longrightarrow> j \<in> members bm) \<and>
    (r = OPAL_SUCCESS \<and> bm_inv bm' \<and> members bm' = insert p (members bm) \<or>
     r = OPAL_ERR_BAD_PARAM \<and> bm' = bm \<and> p = opal_bitmap_size bm \<and> bm_max_size bm < p)"
proof -
  obtain xs where xs: "bitmap bm = Some xs" "array_size bm = int (length xs)" "xs \<noteq> []"
    using inv by (auto simp: bm_inv_def)
  obtain k where k: "skip_full xs 0 (int (length xs)) = Some k" "0 \<le> k" "k \<le> int (length xs)"
    "\<forall>j. 0 \<le> j \<and> j < k \<longrightarrow> xs ! nat j = 0xff" "k < int (length xs) \<longrightarrow> xs ! nat k \<noteq> 0xff"
    using skip_full_spec [of 0 xs] by auto
  show ?thesis
  proof (cases "k = int (length xs)")
    case True
    let ?p = "int (length xs) * 8"
    have "j \<in> members bm" if "0 \<le> j \<and> j < ?p" for j
    proof -
      have "nat (j mod 8) < 8" by (simp add: nat_less_iff)
      moreover have "xs ! nat (j div 8) = 0xff"
        using k(4) [rule_format, of "j div 8"] True that by (auto simp: div8_less)
      ultimately show ?thesis
        using that full_byte True xs by (simp add: members_def byte_members_def)
    qed
    moreover have "?p \<notin> members bm" using xs by (simp add: members_def byte_members_def)
    ultimately show ?thesis
      using set_bit_cases [OF inv, of True ?p] True k(1) xs
      by (auto simp: opal_bitmap_find_and_set_first_unset_bit_def opal_bitmap_size_def SIZE_OF_CHAR_def Let_def)
  next
    case False
    with k have k': "k < int (length xs)" "xs ! nat k \<noteq> 0xff" by auto
    show ?thesis
      using byte_members_first_unset [OF k(2) k' k(4)] False k k' xs
      by (auto simp: opal_bitmap_find_and_set_first_unset_bit_def SIZE_OF_CHAR_def members_def
          bm_inv_def Let_def)
  qed
qed

lemma first_unset_bit_correct_witness:
  "\<exists>r p bm'. opal_bitmap_find_and_set_first_unset_bit True sample_bitmap = Some (r, p, bm') \<and>
    p \<notin> members sample_bitmap \<and> 0 \<le> p \<and> (\<forall>j. 0 \<le> j \<and> j < p \<longrightarrow> j \<in> members sample_bitmap) \<and>
    (r = OPAL_SUCCESS \<and> bm_inv bm' \<and> members bm' = insert p (members sample_bitmap) \<or>
     r = OPAL_ERR_BAD_PARAM \<and> bm' = sample_bitmap \<and> p = opal_bitmap_size sample_bitmap \<and>
       bm_max_size sample_bitmap < p)"
  by (rule first_unset_bit_correct [OF sample_bitmap_inv])

text \<open>The bitwise operations are the set operations. On bitmaps of equal size the three
  in-place operations succeed and leave the intersection, the union and the symmetric difference
  of the represented sets, the comparison reports a difference exactly when the sets differ, and
  the counter of an optimised build counts the members below its bound.\<close>

theorem bitwise_set_operations:
  assumes "bm_inv d" "bm_inv r" "array_size d = array_size r" "len \<le> opal_bitmap_size d"
  shows "(\<exists>d'. opal_bitmap_bitwise_and_inplace d r = Some (OPAL_SUCCESS, d') \<and> bm_inv d' \<and>
            members d' = members d \<inter> members r) \<and>
    (\<exists>d'. opal_bitmap_bitwise_or_inplace d r = Some (OPAL_SUCCESS, d') \<and> bm_inv d' \<and>
            members d' = members d \<union> members r) \<and>
    (\<exists>d'. opal_bitmap_bitwise_xor_inplace d r = Some (OPAL_SUCCESS, d') \<and> bm_inv d' \<and>
            members d' = (members d - members r) \<union> (members r - members d)) \<and>
    opal_bitmap_are_different d r = Some (members d \<noteq> members r) \<and>
    opal_bitmap_num_set_bits False d len = Some (int (card {b \<in> members d. b < len}))"
proof (intro conjI)
  show "\<exists>d'. opal_bitmap_bitwise_and_inplace d r = Some (OPAL_SUCCESS, d') \<and> bm_inv d' \<and>
      members d' = members d \<inter> members r"
    using bitwise_inplace_spec [OF assms(1-3), of "(AND)" "(\<and>)"]
    by (auto simp: opal_bitmap_bitwise_and_inplace_def bit_and_iff)
  show "\<exists>d'. opal_bitmap_bitwise_or_inplace d r = Some (OPAL_SUCCESS, d') \<and> bm_inv d' \<and>
      members d' = members d \<union> members r"
    using bitwise_inplace_spec [OF assms(1-3), of "(OR)" "(\<or>)"]
    by (auto simp: opal_bitmap_bitwise_or_inplace_def bit_or_iff)
  show "\<exists>d'. opal_bitmap_bitwise_xor_inplace d r = Some (OPAL_SUCCESS, d') \<and> bm_inv d' \<and>
      members d' = (members d - members r) \<union> (members r - members d)"
    using bitwise_inplace_spec [OF assms(1-3), of "(XOR)" "\<lambda>a b. a \<noteq> b"]
    by (auto simp: opal_bitmap_bitwise_xor_inplace_def bit_xor_iff)
  show "opal_bitmap_are_different d r = Some (members d \<noteq> members r)"
    using assms(1-3) differ_loop_spec [of 0 "bytes r" "bytes d"] byte_members_inj [of "bytes d" "bytes r"]
    by (auto simp: opal_bitmap_are_different_def opal_bitmap_size_def bm_inv_def members_def)
  have "{b \<in> byte_members (bytes d). 0 \<le> b \<and> b < len} = {b \<in> members d. b < len}"
    by (auto simp: members_def byte_members_def)
  then show "opal_bitmap_num_set_bits False d len = Some (int (card {b \<in> members d. b < len}))"
    using assms count_loop_spec [of 0 len "bytes d" 0]
    by (simp add: opal_bitmap_num_set_bits_def opal_bitmap_size_def SIZE_OF_CHAR_def bm_inv_def)
qed

lemma bitwise_set_operations_witness:
  "(\<exists>d'. opal_bitmap_bitwise_xor_inplace sample_bitmap sample_bitmap = Some (OPAL_SUCCESS, d') \<and>
      bm_inv d' \<and> members d' = {}) \<and>
    opal_bitmap_num_set_bits False sample_bitmap 16 = Some (int (card {b \<in> members sample_bitmap. b < 16}))"
  using bitwise_set_operations [OF sample_bitmap_inv sample_bitmap_inv, of 16]
  by (simp add: opal_bitmap_size_def SIZE_OF_CHAR_def sample_bitmap_def)

text \<open>C34: what the maximum size means. After \<^verbatim>\<open>opal_bitmap_set_max_size\<close> with
  n, which its documentation calls the limit of the bitmap in bits, on a bitmap with at least one
  byte and a working allocator, \<^verbatim>\<open>opal_bitmap_set_bit\<close> accepts exactly the bits
  0 to the number of \<^emph>\<open>bytes\<close> n bits need, that bound included: the limit is kept in bytes and
  compared with bit numbers.\<close>

theorem max_size_is_in_bytes:
  assumes "bm_inv bm" "0 \<le> n"
  shows "(\<exists>bm'. opal_bitmap_set_bit True (snd (opal_bitmap_set_max_size bm n)) b =
            Some (OPAL_SUCCESS, bm')) \<longleftrightarrow> 0 \<le> b \<and> b \<le> (n + 7) div 8"
proof -
  have "bytes_for n = (n + 7) div 8"
    using assms(2) by (simp add: bytes_for_def SIZE_OF_CHAR_def) presburger
  moreover have "bm_inv (snd (opal_bitmap_set_max_size bm n))"
    using assms by (simp add: opal_bitmap_set_max_size_def bm_inv_def)
  ultimately show ?thesis
    using set_bit_cases [of "snd (opal_bitmap_set_max_size bm n)" True b]
    by (auto simp: opal_bitmap_set_max_size_def rc_defs)
qed

lemma max_size_is_in_bytes_witness:
  "\<not> (\<exists>bm'. opal_bitmap_set_bit True (snd (opal_bitmap_set_max_size sample_bitmap 64)) 9 =
            Some (OPAL_SUCCESS, bm'))"
  using max_size_is_in_bytes [OF sample_bitmap_inv, of 64 9] by simp

end
