(* ===== verification/Group_Formats.thy ===== *)
theory Group_Formats
  imports Prelude
begin

text \<open>
  The storage formats of process groups: the algorithms of
  \<^verbatim>\<open>ompi/group/group_sporadic.c\<close>, \<^verbatim>\<open>group_strided.c\<close> and
  \<^verbatim>\<open>group_bitmap.c\<close> that encode a list of parent ranks and translate ranks in both
  directions, and the size estimates by which \<^verbatim>\<open>ompi_group_incl\<close> chooses a format.

  An array argument with its length is a list. A translation of one rank is a function on
  that rank; the functions of the source map it over an array. The reverse translations of the
  sporadic and the bitmap format leave their output cell alone when the rank is not found:
  their result is an \<open>option\<close>, and \<open>None\<close> is an output that was not written. The
  forward translations of the strided and the bitmap format divide, shift and index by
  their inputs: there \<open>None\<close> is undefined behaviour. Sizes are those of an LP64 machine.
\<close>

definition BSIZE :: int where "BSIZE = 8"

definition ompi_group_calc_plist :: "int list \<Rightarrow> int" where
  "ompi_group_calc_plist ranks = 8 * int (length ranks)"

section \<open>Sporadic groups: lists of ranges\<close>

record ompi_group_sporadic_list_t =
  rank_first :: int
  spor_length :: int

text \<open>The loop that counts the ranges compares the first rank with the word in front of the
  array; that word is the parameter \<open>prev\<close> of the first iteration.\<close>

fun spor_count :: "int \<Rightarrow> int list \<Rightarrow> int \<Rightarrow> int" where
  "spor_count prev [] l = l"
| "spor_count prev (r # rs) l =
     spor_count r rs (if r = prev + 1 then (if l = 0 then l + 1 else l) else l + 1)"

definition ompi_group_calc_sporadic :: "int \<Rightarrow> int list \<Rightarrow> int" where
  "ompi_group_calc_sporadic before ranks = 8 * spor_count before ranks 0"

fun spor_to_child :: "ompi_group_sporadic_list_t list \<Rightarrow> int \<Rightarrow> int \<Rightarrow> int" where
  "spor_to_child [] count r = MPI_UNDEFINED"
| "spor_to_child (e # es) count r =
     (if rank_first e \<le> r \<and> r \<le> rank_first e + spor_length e - 1 then r - rank_first e + count
      else spor_to_child es (count + spor_length e) r)"

fun spor_to_parent :: "ompi_group_sporadic_list_t list \<Rightarrow> int \<Rightarrow> int \<Rightarrow> int option" where
  "spor_to_parent [] count r = None"
| "spor_to_parent (e # es) count r =
     (if r > count + spor_length e - 1 then spor_to_parent es (count + spor_length e) r
      else Some (rank_first e + (r - count)))"

definition translate_rank_sporadic :: "ompi_group_sporadic_list_t list \<Rightarrow> int \<Rightarrow> int" where
  "translate_rank_sporadic d r =
     (if r = MPI_PROC_NULL then MPI_PROC_NULL else spor_to_child d 0 r)"

definition translate_rank_sporadic_reverse ::
  "ompi_group_sporadic_list_t list \<Rightarrow> int \<Rightarrow> int option" where
  "translate_rank_sporadic_reverse d r =
     (if r = MPI_PROC_NULL then Some MPI_PROC_NULL else spor_to_parent d 0 r)"

text \<open>The loop of \<^verbatim>\<open>ompi_group_incl_spor\<close> that fills the array of ranges, which has
  room for \<open>cap\<close> of them: the last range grows, or a new one starts.\<close>

fun spor_fill ::
  "int \<Rightarrow> int \<Rightarrow> int list \<Rightarrow> ompi_group_sporadic_list_t list \<Rightarrow> ompi_group_sporadic_list_t list option" where
  "spor_fill cap prev [] es = Some es"
| "spor_fill cap prev (r # rs) es =
     (if r = prev + 1 then
        spor_fill cap r rs (butlast es @ [(last es)\<lparr>spor_length := spor_length (last es) + 1\<rparr>])
      else if int (length es) < cap then
        spor_fill cap r rs (es @ [\<lparr>rank_first = r, spor_length = 1\<rparr>])
      else None)"

definition spor_build :: "int \<Rightarrow> int list \<Rightarrow> ompi_group_sporadic_list_t list option" where
  "spor_build before ranks =
     (let l = spor_count before ranks 0
      in case ranks of
           [] \<Rightarrow> None
         | r # rs \<Rightarrow>
             if 0 < l then spor_fill l r rs [\<lparr>rank_first = r, spor_length = 1\<rparr>] else None)"

section \<open>Strided groups\<close>

fun stride_loop :: "int \<Rightarrow> int list \<Rightarrow> int" where
  "stride_loop s (a # b # rs) = (if b - a \<noteq> s then - 1 else stride_loop s (b # rs))"
| "stride_loop s rs = s"

definition check_stride :: "int list \<Rightarrow> int" where
  "check_stride incl =
     (let s = (if 1 < length incl then incl ! 1 - incl ! 0 else 1)
      in if s < 0 then - 1 else stride_loop s incl)"

definition ompi_group_calc_strided :: "int list \<Rightarrow> int" where
  "ompi_group_calc_strided ranks = (if check_stride ranks = - 1 then - 1 else 4 * 3)"

definition translate_rank_strided :: "int \<Rightarrow> int \<Rightarrow> int \<Rightarrow> int \<Rightarrow> int option" where
  "translate_rank_strided o' s l r =
     (if r = MPI_PROC_NULL then Some MPI_PROC_NULL
      else if r - o' \<ge> 0 then
        if s = 0 then None
        else if (r - o') smod s = 0 \<and> r \<le> l then Some ((r - o') sdiv s)
        else Some MPI_UNDEFINED
      else Some MPI_UNDEFINED)"

definition translate_rank_strided_reverse :: "int \<Rightarrow> int \<Rightarrow> int \<Rightarrow> int" where
  "translate_rank_strided_reverse o' s r =
     (if r = MPI_PROC_NULL then MPI_PROC_NULL else s * r + o')"

section \<open>Bitmap groups\<close>

definition ompi_group_div_ceil :: "int \<Rightarrow> int \<Rightarrow> int" where
  "ompi_group_div_ceil num den =
     (if num smod den = 0 then num sdiv den else num sdiv den + 1)"

fun check_ranks :: "int list \<Rightarrow> bool" where
  "check_ranks (a # b # rs) = (if a > b then False else check_ranks (b # rs))"
| "check_ranks rs = True"

definition ompi_group_calc_bmap :: "int \<Rightarrow> int list \<Rightarrow> int" where
  "ompi_group_calc_bmap orig_size ranks =
     (if check_ranks ranks then ompi_group_div_ceil orig_size BSIZE else - 1)"

text \<open>Bit k of byte i, as the loops test it; the nested loops over bytes and bits are one
  loop over the position \<open>p = i * BSIZE + k\<close>.\<close>

definition bmap_test :: "u8 list \<Rightarrow> int \<Rightarrow> bool" where
  "bmap_test arr p =
     (push_bit (nat (p mod BSIZE)) 1 = arr ! nat (p div BSIZE) AND push_bit (nat (p mod BSIZE)) 1)"

function bmap_count :: "u8 list \<Rightarrow> int \<Rightarrow> int \<Rightarrow> int \<Rightarrow> int" where
  "bmap_count arr m p count =
     (if p < m then bmap_count arr m (p + 1) (if bmap_test arr p then count + 1 else count)
      else (if bmap_test arr p then count + 1 else count) - 1)"
  by pat_completeness auto
termination
  by (relation "measure (\<lambda>(arr, m, p, count). nat (m - p))") auto

function bmap_find :: "u8 list \<Rightarrow> int \<Rightarrow> int \<Rightarrow> int \<Rightarrow> int option" where
  "bmap_find arr m p count =
     (if p < BSIZE * int (length arr) then
        let count = (if bmap_test arr p then count + 1 else count)
        in if m = count - 1 then Some p else bmap_find arr m (p + 1) count
      else None)"
  by pat_completeness auto
termination
  by (relation "measure (\<lambda>(arr, m, p, count). nat (BSIZE * int (length arr) - p))") auto

declare bmap_count.simps [simp del] bmap_find.simps [simp del]

definition translate_rank_bmap :: "u8 list \<Rightarrow> int \<Rightarrow> int option" where
  "translate_rank_bmap arr m =
     (if m = MPI_PROC_NULL then Some MPI_PROC_NULL
      else if m smod BSIZE < 0 then None
      else do {
        x \<leftarrow> rd arr (m sdiv BSIZE);
        let tmp = push_bit (nat (m smod BSIZE)) 1;
        if tmp = x AND tmp then Some (bmap_count arr m 0 0) else Some MPI_UNDEFINED })"

definition translate_rank_bmap_reverse :: "u8 list \<Rightarrow> int \<Rightarrow> int option" where
  "translate_rank_bmap_reverse arr m =
     (if m = MPI_PROC_NULL then Some MPI_PROC_NULL else bmap_find arr m 0 0)"

fun bmap_set_loop :: "u8 list \<Rightarrow> int list \<Rightarrow> u8 list option" where
  "bmap_set_loop arr [] = Some arr"
| "bmap_set_loop arr (r # rs) =
     (if r smod BSIZE < 0 then None
      else do {
        x \<leftarrow> rd arr (r sdiv BSIZE);
        arr \<leftarrow> wr arr (r sdiv BSIZE) (x OR push_bit (nat (r smod BSIZE)) 1);
        bmap_set_loop arr rs })"

definition bmap_build :: "int \<Rightarrow> int list \<Rightarrow> u8 list option" where
  "bmap_build orig_size ranks =
     bmap_set_loop (replicate (nat (ompi_group_div_ceil orig_size BSIZE)) 0) ranks"

section \<open>Choosing a format\<close>

fun minloc_loop :: "int list \<Rightarrow> int \<Rightarrow> int \<Rightarrow> int \<Rightarrow> int" where
  "minloc_loop [] i mn index = index"
| "minloc_loop (x # xs) i mn index =
     (if mn > x \<and> x \<noteq> - 1 then minloc_loop xs (i + 1) x i else minloc_loop xs (i + 1) mn index)"

definition ompi_group_minloc :: "int list \<Rightarrow> int" where
  "ompi_group_minloc list = minloc_loop list 0 (list ! 0) 0"

section \<open>What the formats store\<close>

text \<open>The result of a translation into a group: the position, or undefined.\<close>

definition rank_of :: "'a list \<Rightarrow> 'a \<Rightarrow> int" where
  "rank_of xs x = case_option MPI_UNDEFINED int (index_of xs x)"

definition ranks_in :: "int \<Rightarrow> int list \<Rightarrow> bool" where
  "ranks_in n rs \<longleftrightarrow> (\<forall>r \<in> set rs. 0 \<le> r \<and> r < n)"

text \<open>The contract of a format: \<open>holds d n rs\<close> says that \<open>d\<close> encodes the list
  \<open>rs\<close> of ranks in a parent of \<open>n\<close> processes.\<close>

locale rank_storage =
  fixes holds :: "'d \<Rightarrow> int \<Rightarrow> int list \<Rightarrow> bool"
    and to_parent :: "'d \<Rightarrow> int \<Rightarrow> int option"
    and to_child :: "'d \<Rightarrow> int \<Rightarrow> int option"
  assumes holds_range: "holds d n rs \<Longrightarrow> ranks_in n rs"
    and to_parent_law: "holds d n rs \<Longrightarrow> i < length rs \<Longrightarrow> to_parent d (int i) = Some (rs ! i)"
    and to_child_law: "holds d n rs \<Longrightarrow> distinct rs \<Longrightarrow> 0 \<le> r \<Longrightarrow> r < n \<Longrightarrow>
      to_child d r = Some (rank_of rs r)"
begin

lemma child_round_trip:
  assumes "holds d n rs" "distinct rs" "i < length rs"
  shows "Option.bind (to_parent d (int i)) (to_child d) = Some (int i)"
proof -
  have "0 \<le> rs ! i" "rs ! i < n" using holds_range [OF assms(1)] assms(3) by (auto simp: ranks_in_def)
  with assms show ?thesis
    using to_parent_law [OF assms(1,3)] to_child_law [OF assms(1,2)]
    by (simp add: rank_of_def index_of_nth)
qed

lemma both_ways:
  assumes "holds d n rs" "distinct rs"
  shows "i < length rs \<Longrightarrow> to_parent d (int i) = Some (rs ! i)"
    and "i < length rs \<Longrightarrow> to_child d (rs ! i) = Some (int i)"
    and "0 \<le> r \<Longrightarrow> r < n \<Longrightarrow> r \<notin> set rs \<Longrightarrow> to_child d r = Some MPI_UNDEFINED"
proof -
  show "to_parent d (int i) = Some (rs ! i)" if "i < length rs" using to_parent_law [OF assms(1) that] .
  show "to_child d (rs ! i) = Some (int i)" if "i < length rs"
    using child_round_trip [OF assms that] to_parent_law [OF assms(1) that] by simp
  show "to_child d r = Some MPI_UNDEFINED" if "0 \<le> r" "r < n" "r \<notin> set rs"
    using to_child_law [OF assms that(1,2)] that(3) by (simp add: rank_of_def index_of_None_iff [THEN iffD2])
qed

lemma parent_round_trip:
  assumes "holds d n rs" "distinct rs" "0 \<le> r" "r < n" "to_child d r = Some c" "c \<noteq> MPI_UNDEFINED"
  shows "to_parent d c = Some r"
proof -
  from to_child_law [OF assms(1-4)] assms(5,6) obtain i where "index_of rs r = Some i" "c = int i"
    by (cases "index_of rs r") (auto simp: rank_of_def)
  with to_parent_law [OF assms(1)] show ?thesis by (auto dest: index_of_Some)
qed

end

subsection \<open>Sporadic\<close>

definition range_ranks :: "ompi_group_sporadic_list_t \<Rightarrow> int list" where
  "range_ranks e = map (\<lambda>i. rank_first e + int i) [0..<nat (spor_length e)]"

definition spor_ranks :: "ompi_group_sporadic_list_t list \<Rightarrow> int list" where
  "spor_ranks es = concat (map range_ranks es)"

definition spor_holds :: "ompi_group_sporadic_list_t list \<Rightarrow> int \<Rightarrow> int list \<Rightarrow> bool" where
  "spor_holds es n rs \<longleftrightarrow> rs = spor_ranks es \<and> (\<forall>e \<in> set es. 0 < spor_length e) \<and> ranks_in n rs"

lemma spor_ranks_simps [simp]:
  "spor_ranks [] = []" "spor_ranks (e # es) = range_ranks e @ spor_ranks es"
  "spor_ranks (es @ es') = spor_ranks es @ spor_ranks es'"
  by (simp_all add: spor_ranks_def)

lemma length_range_ranks [simp]: "length (range_ranks e) = nat (spor_length e)"
  by (simp add: range_ranks_def)

lemma in_range_ranks: "r \<in> set (range_ranks e) \<longleftrightarrow> rank_first e \<le> r \<and> r < rank_first e + spor_length e"
proof
  assume "rank_first e \<le> r \<and> r < rank_first e + spor_length e"
  then show "r \<in> set (range_ranks e)"
    by (auto simp: range_ranks_def image_iff intro!: bexI [of _ "nat (r - rank_first e)"])
qed (auto simp: range_ranks_def)

lemma nth_range_ranks: "i < nat (spor_length e) \<Longrightarrow> range_ranks e ! i = rank_first e + int i"
  by (simp add: range_ranks_def)

lemma index_of_range_ranks:
  assumes "rank_first e \<le> r" "r < rank_first e + spor_length e"
  shows "index_of (range_ranks e) r = Some (nat (r - rank_first e))"
proof -
  have "distinct (range_ranks e)" by (auto simp: range_ranks_def distinct_map inj_on_def)
  moreover have "nat (r - rank_first e) < length (range_ranks e)" using assms by simp
  moreover have "range_ranks e ! nat (r - rank_first e) = r" using assms by (simp add: nth_range_ranks)
  ultimately show ?thesis using index_of_nth by metis
qed

lemma spor_to_child_rank:
  "(\<forall>e \<in> set es. 0 < spor_length e) \<Longrightarrow>
   spor_to_child es count r =
     case_option MPI_UNDEFINED (\<lambda>i. count + int i) (index_of (spor_ranks es) r)"
proof (induction es arbitrary: count)
  case (Cons e es)
  show ?case
  proof (cases "r \<in> set (range_ranks e)")
    case True
    then show ?thesis
      using index_of_range_ranks [of e r] by (simp add: index_of_append in_range_ranks)
  next
    case False
    then have "spor_to_child (e # es) count r = spor_to_child es (count + spor_length e) r"
      by (auto simp: in_range_ranks)
    with False Cons show ?thesis
      by (cases "index_of (spor_ranks es) r")
        (simp_all add: index_of_append del: spor_to_child.simps)
  qed
qed simp

lemma spor_to_parent_nth:
  "(\<forall>e \<in> set es. 0 < spor_length e) \<Longrightarrow> i < length (spor_ranks es) \<Longrightarrow>
   spor_to_parent es count (count + int i) = Some (spor_ranks es ! i)"
proof (induction es arbitrary: count i)
  case (Cons e es)
  show ?case
  proof (cases "int i < spor_length e")
    case True
    then show ?thesis by (simp add: nth_append nth_range_ranks zless_nat_eq_int_zless)
  next
    case False
    have "spor_to_parent es (count + spor_length e) (count + spor_length e + int (i - nat (spor_length e)))
        = Some (spor_ranks es ! (i - nat (spor_length e)))"
      using Cons.prems False by (intro Cons.IH) auto
    moreover have "count + spor_length e + int (i - nat (spor_length e)) = count + int i"
      using False Cons.prems by (simp add: of_nat_diff)
    ultimately show ?thesis using False by (simp add: nth_append zless_nat_eq_int_zless)
  qed
qed simp

lemma proc_null_neg: "0 \<le> r \<Longrightarrow> r \<noteq> MPI_PROC_NULL"
  by (simp add: rc_defs)

interpretation spor: rank_storage spor_holds translate_rank_sporadic_reverse
  "\<lambda>d r. Some (translate_rank_sporadic d r)"
proof
  fix d n rs i r
  assume h: "spor_holds d n rs"
  show "ranks_in n rs" using h by (auto simp: spor_holds_def)
  show "translate_rank_sporadic_reverse d (int i) = Some (rs ! i)" if "i < length rs"
    using h that spor_to_parent_nth [of d i 0]
    by (simp add: spor_holds_def translate_rank_sporadic_reverse_def proc_null_neg)
  show "Some (translate_rank_sporadic d r) = Some (rank_of rs r)" if "0 \<le> r"
    using h that spor_to_child_rank [of d 0 r]
    by (auto simp: spor_holds_def translate_rank_sporadic_def proc_null_neg rank_of_def split: option.split)
qed

subsection \<open>Building the ranges\<close>

fun runs :: "int \<Rightarrow> int list \<Rightarrow> int" where
  "runs prev [] = 0"
| "runs prev (r # rs) = (if r = prev + 1 then 0 else 1) + runs r rs"

lemma runs_nonneg: "0 \<le> runs prev rs"
  by (induction rs arbitrary: prev) auto

lemma spor_count_runs: "0 < l \<Longrightarrow> spor_count prev rs l = l + runs prev rs"
  by (induction rs arbitrary: prev l) auto

text \<open>The word in front of the array never matters: the first rank always opens a range.\<close>

lemma spor_count_first: "spor_count before (r # rs) 0 = 1 + runs r rs"
  by (simp add: spor_count_runs)

lemma range_ranks_extend:
  assumes "0 < spor_length e" "r = rank_first e + spor_length e"
  shows "range_ranks (e\<lparr>spor_length := spor_length e + 1\<rparr>) = range_ranks e @ [r]"
proof -
  have "nat (spor_length e + 1) = Suc (nat (spor_length e))" using assms by simp
  then show ?thesis using assms by (simp add: range_ranks_def)
qed

lemma spor_fill_ranks:
  assumes "es \<noteq> []" "\<forall>e \<in> set es. 0 < spor_length e"
    "rank_first (last es) + spor_length (last es) = prev + 1"
    "int (length es) + runs prev rs \<le> cap"
  shows "\<exists>es'. spor_fill cap prev rs es = Some es' \<and> spor_ranks es' = spor_ranks es @ rs \<and>
    int (length es') = int (length es) + runs prev rs \<and> (\<forall>e \<in> set es'. 0 < spor_length e)"
  using assms
proof (induction rs arbitrary: prev es)
  case (Cons r rs)
  show ?case
  proof (cases "r = prev + 1")
    case True
    define es1 where "es1 = butlast es @ [(last es)\<lparr>spor_length := spor_length (last es) + 1\<rparr>]"
    have es: "es = butlast es @ [last es]" using Cons.prems by simp
    have pos: "0 < spor_length (last es)" using Cons.prems(1,2) last_in_set by blast
    have "spor_ranks es = spor_ranks (butlast es) @ range_ranks (last es)"
      by (subst es) (simp only: spor_ranks_simps append_Nil2)
    then have r: "spor_ranks es1 = spor_ranks es @ [r]"
      using range_ranks_extend [OF pos, of r] Cons.prems True by (simp add: es1_def)
    have len: "length es1 = length es" using Cons.prems by (simp add: es1_def)
    have all: "\<forall>e \<in> set es1. 0 < spor_length e"
      using Cons.prems(2) less_imp_le [OF pos] by (auto simp: es1_def dest: in_set_butlastD)
    have last: "es1 \<noteq> []" "rank_first (last es1) + spor_length (last es1) = r + 1"
      using Cons.prems(3) True by (simp_all add: es1_def)
    have "\<exists>es'. spor_fill cap r rs es1 = Some es' \<and> spor_ranks es' = spor_ranks es1 @ rs \<and>
      int (length es') = int (length es1) + runs r rs \<and> (\<forall>e \<in> set es'. 0 < spor_length e)"
      using Cons.prems(4) True len by (intro Cons.IH [OF last(1) all last(2)]) simp
    with True r len show ?thesis by (auto simp: es1_def)
  next
    case False
    let ?es1 = "es @ [\<lparr>rank_first = r, spor_length = 1\<rparr>]"
    have cap: "int (length es) < cap" using False Cons.prems(4) runs_nonneg [of r rs] by simp
    have "\<exists>es'. spor_fill cap r rs ?es1 = Some es' \<and> spor_ranks es' = spor_ranks ?es1 @ rs \<and>
      int (length es') = int (length ?es1) + runs r rs \<and> (\<forall>e \<in> set es'. 0 < spor_length e)"
      using Cons.prems False by (intro Cons.IH) auto
    with False cap show ?thesis by (auto simp: range_ranks_def)
  qed
qed simp

lemma spor_build_holds:
  assumes "ranks \<noteq> []" "ranks_in n ranks"
  shows "\<exists>es. spor_build before ranks = Some es \<and> spor_holds es n ranks \<and>
    int (length es) = spor_count before ranks 0"
proof -
  obtain r rs where ranks: "ranks = r # rs" using assms by (cases ranks) auto
  have "\<exists>es'. spor_fill (1 + runs r rs) r rs [\<lparr>rank_first = r, spor_length = 1\<rparr>] = Some es' \<and>
    spor_ranks es' = spor_ranks [\<lparr>rank_first = r, spor_length = 1\<rparr>] @ rs \<and>
    int (length es') = int (length [\<lparr>rank_first = r, spor_length = 1\<rparr>]) + runs r rs \<and>
    (\<forall>e \<in> set es'. 0 < spor_length e)"
    by (rule spor_fill_ranks) auto
  with assms runs_nonneg [of r rs] show ?thesis
    by (auto simp: spor_build_def ranks spor_count_runs spor_holds_def range_ranks_def Let_def)
qed

subsection \<open>Strided\<close>

definition strided_holds :: "int \<times> int \<times> int \<Rightarrow> int \<Rightarrow> int list \<Rightarrow> bool" where
  "strided_holds d n rs \<longleftrightarrow> (case d of (o', s, l) \<Rightarrow>
     0 < s \<and> rs \<noteq> [] \<and> (\<forall>i < length rs. rs ! i = s * int i + o') \<and> l = last rs \<and> ranks_in n rs)"

lemma stride_loop_cases: "0 \<le> s \<Longrightarrow> stride_loop s rs \<noteq> - 1 \<Longrightarrow>
  stride_loop s rs = s \<and> (\<forall>i < length rs. rs ! i = s * int i + rs ! 0)"
proof (induction s rs rule: stride_loop.induct)
  case (1 s a b rs)
  then have IH: "stride_loop s (b # rs) = s" "\<forall>i < length (b # rs). (b # rs) ! i = s * int i + b"
    and b: "b = s + a" by (auto split: if_splits)
  have "(a # b # rs) ! i = s * int i + a" if "i < length (a # b # rs)" for i
    using that IH(2) b by (cases i) (auto simp: algebra_simps)
  with IH(1) b show ?case by simp
qed auto

lemma check_stride_holds:
  assumes "check_stride ranks \<noteq> - 1" "ranks \<noteq> []" "distinct ranks" "ranks_in n ranks"
  shows "strided_holds (ranks ! 0, check_stride ranks, ranks ! (length ranks - 1)) n ranks"
proof -
  define s where "s = (if 1 < length ranks then ranks ! 1 - ranks ! 0 else 1)"
  have s: "0 \<le> s" "check_stride ranks = stride_loop s ranks" "stride_loop s ranks \<noteq> - 1"
    using assms(1) by (auto simp: check_stride_def s_def Let_def split: if_splits)
  note L = stride_loop_cases [OF s(1,3)]
  have "s \<noteq> 0" using assms(2,3) nth_eq_iff_index_eq [OF assms(3), of 1 0] by (auto simp: s_def)
  with s(1) have "0 < s" by simp
  then show ?thesis
    unfolding strided_holds_def prod.case s(2) conjunct1 [OF L]
    using assms(2,4) conjunct2 [OF L] last_conv_nth [OF assms(2)] by (intro conjI) argo+
qed

lemma strided_index:
  assumes s: "0 < s" and rs: "\<forall>i < length rs. rs ! i = s * int i + o'" "rs \<noteq> []" "l = last rs"
    and r: "r \<noteq> MPI_PROC_NULL"
  shows "translate_rank_strided o' s l r = Some (rank_of rs r)"
proof -
  have l: "l = s * int (length rs - 1) + o'"
    using rs by (simp add: last_conv_nth)
  show ?thesis
  proof (cases "r \<in> set rs")
    case True
    then obtain i where i: "i < length rs" "r = s * int i + o'"
      using rs(1) by (auto simp: in_set_conv_nth)
    have "distinct rs" using rs(1) s by (auto simp: distinct_conv_nth)
    from index_of_nth [OF this i(1)] rs(1) i have "index_of rs r = Some i" by simp
    moreover have "s * int i \<le> s * int (length rs - 1)" using i(1) s by simp
    ultimately show ?thesis
      using i l s r by (simp add: translate_rank_strided_def rank_of_def)
  next
    case False
    have "\<not> (0 \<le> r - o' \<and> (r - o') mod s = 0 \<and> r \<le> l)"
    proof
      assume A: "0 \<le> r - o' \<and> (r - o') mod s = 0 \<and> r \<le> l"
      define i where "i = nat ((r - o') div s)"
      have e: "r = s * int i + o'"
        using A s by (simp add: i_def pos_imp_zdiv_nonneg_iff mod_0_imp_dvd)
      with A l s have "int i \<le> int (length rs - 1)" by simp
      then have "i < length rs" using rs(2) by (cases rs) auto
      with rs(1) e have "r \<in> set rs" by (metis nth_mem)
      with False show False by simp
    qed
    moreover have "rank_of rs r = MPI_UNDEFINED"
      using False by (simp add: rank_of_def index_of_None_iff [THEN iffD2])
    ultimately show ?thesis using s r by (auto simp: translate_rank_strided_def)
  qed
qed

interpretation strided: rank_storage strided_holds
  "\<lambda>(o', s, l) r. Some (translate_rank_strided_reverse o' s r)"
  "\<lambda>(o', s, l) r. translate_rank_strided o' s l r"
proof
  fix d n rs i r
  assume h: "strided_holds d n rs"
  obtain o' s l where d: "d = (o', s, l)" by (cases d)
  show "ranks_in n rs" using h by (simp add: strided_holds_def d)
  show "(case d of (o', s, l) \<Rightarrow> \<lambda>r. Some (translate_rank_strided_reverse o' s r)) (int i) = Some (rs ! i)"
    if "i < length rs"
    using h that by (simp add: strided_holds_def d translate_rank_strided_reverse_def proc_null_neg)
  show "(case d of (o', s, l) \<Rightarrow> \<lambda>r. translate_rank_strided o' s l r) r = Some (rank_of rs r)" if "0 \<le> r"
    using h that strided_index [of s rs o' l r] by (simp add: strided_holds_def d proc_null_neg)
qed

subsection \<open>Bitmap\<close>

definition bmap_ranks :: "u8 list \<Rightarrow> int list" where
  "bmap_ranks arr = filter (bmap_test arr) (map int [0..<8 * length arr])"

definition bmap_holds :: "u8 list \<Rightarrow> int \<Rightarrow> int list \<Rightarrow> bool" where
  "bmap_holds arr n rs \<longleftrightarrow> rs = bmap_ranks arr \<and> ranks_in n rs \<and> n \<le> 8 * int (length arr)"

lemma bmap_test_bit: "bmap_test arr p \<longleftrightarrow> bit (arr ! nat (p div 8)) (nat (p mod 8))" if "0 \<le> p" for p
proof -
  have n: "nat (p mod 8) < 8" by (simp add: nat_less_iff)
  let ?x = "arr ! nat (p div 8)" and ?n = "nat (p mod 8)"
  have "push_bit ?n 1 = ?x AND push_bit ?n 1 \<longleftrightarrow> bit ?x ?n"
  proof
    assume "push_bit ?n 1 = ?x AND push_bit ?n 1"
    then have "bit (push_bit ?n (1 :: u8)) ?n = bit (?x AND push_bit ?n 1) ?n" by simp
    with n show "bit ?x ?n" by (simp add: bit_and_iff bit_exp_iff)
  next
    assume "bit ?x ?n"
    then show "push_bit ?n 1 = ?x AND push_bit ?n 1"
      by (intro bit_word_eqI) (auto simp: bit_and_iff bit_exp_iff)
  qed
  then show ?thesis by (simp add: bmap_test_def BSIZE_def)
qed

text \<open>Positions below a bound, in order.\<close>

definition bits_from :: "u8 list \<Rightarrow> nat \<Rightarrow> int list" where
  "bits_from arr p = filter (bmap_test arr) (map int [p..<8 * length arr])"

lemma bits_from_step: "p < 8 * length arr \<Longrightarrow>
  bits_from arr p = (if bmap_test arr (int p) then int p # bits_from arr (Suc p) else bits_from arr (Suc p))"
  by (simp add: bits_from_def upt_conv_Cons)

lemma bits_from_end: "8 * length arr \<le> p \<Longrightarrow> bits_from arr p = []"
  by (simp add: bits_from_def)

lemma bits_from_lower: "x \<in> set (bits_from arr p) \<Longrightarrow> int p \<le> x"
  by (auto simp: bits_from_def)

lemma bmap_find_nth:
  "i < length (bits_from arr p) \<Longrightarrow>
   bmap_find arr (count + int i) (int p) count = Some (bits_from arr p ! i)"
proof (induction "8 * length arr - p" arbitrary: p count i)
  case 0
  then show ?case by (simp add: bits_from_end)
next
  case (Suc k)
  then have p: "p < 8 * length arr" by simp
  have IH: "bmap_find arr (c + int j) (int p + 1) c = Some (bits_from arr (Suc p) ! j)"
    if "j < length (bits_from arr (Suc p))" for c j
    using Suc.hyps(1) [of "Suc p" j c] Suc.hyps(2) that by (simp add: add.commute)
  show ?case
  proof (cases "bmap_test arr (int p)")
    case True
    show ?thesis
    proof (cases i)
      case 0
      with True p show ?thesis by (subst bmap_find.simps) (simp add: bits_from_step BSIZE_def)
    next
      case (Suc j)
      have "bmap_find arr (count + int i) (int p) count = bmap_find arr (count + 1 + int j) (int p + 1) (count + 1)"
        using True p Suc by (subst bmap_find.simps) (simp add: BSIZE_def algebra_simps)
      with IH [of j "count + 1"] Suc.prems Suc True p show ?thesis by (simp add: bits_from_step)
    qed
  next
    case False
    have "bmap_find arr (count + int i) (int p) count = bmap_find arr (count + int i) (int p + 1) count"
      using False p by (subst bmap_find.simps) (simp add: BSIZE_def)
    with IH [of i count] Suc.prems False p show ?thesis by (simp add: bits_from_step)
  qed
qed

lemma bmap_count_index:
  assumes "int p \<le> m" "m < 8 * int (length arr)" "bmap_test arr m"
  shows "\<exists>i. index_of (bits_from arr p) m = Some i \<and> bmap_count arr m (int p) count = count + int i"
  using assms
proof (induction "nat m - p" arbitrary: p count)
  case 0
  then have "m = int p" by simp
  with 0 show ?case by (subst bmap_count.simps) (simp add: bits_from_step)
next
  case (Suc k)
  then have p: "int p < m" "p < 8 * length arr" by auto
  let ?c = "if bmap_test arr (int p) then count + 1 else count"
  obtain i where i: "index_of (bits_from arr (Suc p)) m = Some i"
    "bmap_count arr m (int (Suc p)) ?c = ?c + int i"
  proof -
    have "k = nat m - Suc p" "int (Suc p) \<le> m" using Suc.hyps(2) p by auto
    from Suc.hyps(1) [OF this Suc.prems(2,3), of ?c] that show thesis by blast
  qed
  have "bmap_count arr m (int p) count = bmap_count arr m (int (Suc p)) ?c"
    using p by (subst bmap_count.simps) (simp add: add.commute)
  with i p show ?case by (auto simp: bits_from_step)
qed

lemma bmap_ranks_from: "bmap_ranks arr = bits_from arr 0"
  by (simp add: bmap_ranks_def bits_from_def)

lemma in_bmap_ranks:
  "m \<in> set (bmap_ranks arr) \<longleftrightarrow> 0 \<le> m \<and> m < 8 * int (length arr) \<and> bmap_test arr m"
proof
  assume A: "0 \<le> m \<and> m < 8 * int (length arr) \<and> bmap_test arr m"
  then have "m \<in> int ` {0..<8 * length arr}" by (intro image_eqI [of _ _ "nat m"]) auto
  with A show "m \<in> set (bmap_ranks arr)" by (simp add: bmap_ranks_def)
qed (auto simp: bmap_ranks_def)

lemma translate_rank_bmap_eq:
  assumes "0 \<le> m" "m < 8 * int (length arr)"
  shows "translate_rank_bmap arr m = Some (rank_of (bmap_ranks arr) m)"
proof (cases "bmap_test arr m")
  case True
  obtain i where i: "index_of (bmap_ranks arr) m = Some i" "bmap_count arr m 0 0 = int i"
    using bmap_count_index [of 0 m arr 0] True assms by (auto simp: bmap_ranks_from)
  have "translate_rank_bmap arr m = Some (bmap_count arr m 0 0)"
    using True assms by (simp add: translate_rank_bmap_def BSIZE_def bmap_test_def proc_null_neg Let_def)
  with i show ?thesis by (simp add: rank_of_def)
next
  case False
  then have "rank_of (bmap_ranks arr) m = MPI_UNDEFINED"
    by (simp add: rank_of_def index_of_None_iff [THEN iffD2] in_bmap_ranks)
  with False assms show ?thesis
    by (simp add: translate_rank_bmap_def BSIZE_def bmap_test_def proc_null_neg Let_def)
qed

interpretation bmap: rank_storage bmap_holds translate_rank_bmap_reverse translate_rank_bmap
proof
  fix d n rs i r
  assume h: "bmap_holds d n rs"
  show "ranks_in n rs" using h by (auto simp: bmap_holds_def)
  show "translate_rank_bmap_reverse d (int i) = Some (rs ! i)" if "i < length rs"
    using h that bmap_find_nth [of i d 0 0]
    by (simp add: bmap_holds_def bmap_ranks_from translate_rank_bmap_reverse_def proc_null_neg)
  show "translate_rank_bmap d r = Some (rank_of rs r)" if "0 \<le> r" "r < n"
    using h that translate_rank_bmap_eq [of r d] by (simp add: bmap_holds_def)
qed

lemma div_ceil_8: "0 \<le> n \<Longrightarrow> ompi_group_div_ceil n BSIZE = (n + 7) div 8"
  by (simp add: ompi_group_div_ceil_def BSIZE_def) presburger

lemma bmap_test_update:
  assumes "0 \<le> r" "r < 8 * int (length arr)" "0 \<le> p" "p < 8 * int (length arr)"
  shows "bmap_test (arr[nat (r div 8) := arr ! nat (r div 8) OR push_bit (nat (r mod 8)) 1]) p \<longleftrightarrow>
         p = r \<or> bmap_test arr p"
proof -
  have lt: "nat (r div 8) < length arr" "nat (p div 8) < length arr" "nat (p mod 8) < 8"
    using assms by (auto simp: nat_less_iff)
  show ?thesis
  proof (cases "p div 8 = r div 8")
    case True
    then have "p = r \<longleftrightarrow> p mod 8 = r mod 8" by (metis div_mult_mod_eq)
    also have "\<dots> \<longleftrightarrow> nat (p mod 8) = nat (r mod 8)" by (simp add: nat_eq_iff)
    finally show ?thesis using True lt assms by (auto simp: bmap_test_bit bit_or_iff bit_exp_iff)
  next
    case False
    then have "nat (p div 8) \<noteq> nat (r div 8)" "p \<noteq> r" using assms by (auto simp: nat_eq_iff)
    then show ?thesis using assms by (simp add: bmap_test_bit)
  qed
qed

lemma bmap_set_loop_bits:
  "ranks_in (8 * int (length arr)) rs \<Longrightarrow>
   \<exists>arr'. bmap_set_loop arr rs = Some arr' \<and> length arr' = length arr \<and>
     (\<forall>p. 0 \<le> p \<and> p < 8 * int (length arr) \<longrightarrow> bmap_test arr' p = (p \<in> set rs \<or> bmap_test arr p))"
proof (induction rs arbitrary: arr)
  case (Cons r rs)
  let ?arr = "arr[nat (r div 8) := arr ! nat (r div 8) OR push_bit (nat (r mod 8)) 1]"
  have r: "0 \<le> r" "r < 8 * int (length arr)" using Cons.prems by (auto simp: ranks_in_def)
  have nn: "\<not> r mod 8 < 0" by presburger
  from r have step: "bmap_set_loop arr (r # rs) = bmap_set_loop ?arr rs"
    by (simp add: BSIZE_def nn)
  have "ranks_in (8 * int (length ?arr)) rs" using Cons.prems by (simp add: ranks_in_def)
  from Cons.IH [OF this] obtain arr' where "bmap_set_loop ?arr rs = Some arr'" "length arr' = length arr"
    "\<forall>p. 0 \<le> p \<and> p < 8 * int (length arr) \<longrightarrow> bmap_test arr' p = (p \<in> set rs \<or> bmap_test ?arr p)"
    by auto
  with bmap_test_update [OF r] step show ?case by (auto simp del: bmap_set_loop.simps)
qed simp

lemma check_ranks_sorted: "check_ranks rs \<longleftrightarrow> sorted rs"
  by (induction rs rule: check_ranks.induct) (auto simp: not_less intro: order_trans)

lemma bmap_build_holds:
  assumes "check_ranks ranks" "distinct ranks" "ranks_in n ranks" "0 \<le> n"
  shows "\<exists>arr. bmap_build n ranks = Some arr \<and> bmap_holds arr n ranks"
proof -
  define m where "m = nat ((n + 7) div 8)"
  have m: "n \<le> 8 * int m" unfolding m_def using assms(4) by linarith
  have "ranks_in (8 * int (length (replicate m (0 :: u8)))) ranks"
    using assms(3) m by (auto simp: ranks_in_def)
  from bmap_set_loop_bits [OF this] obtain arr where
    arr: "bmap_set_loop (replicate m 0) ranks = Some arr" "length arr = m"
    "\<forall>p. 0 \<le> p \<and> p < 8 * int m \<longrightarrow> bmap_test arr p = (p \<in> set ranks \<or> bmap_test (replicate m 0) p)"
    by auto
  have zero: "\<not> bmap_test (replicate m 0) p" if "0 \<le> p" "p < 8 * int m" for p
    using that by (simp add: bmap_test_bit nat_less_iff)
  have "set (bmap_ranks arr) = set ranks"
    using arr zero m assms(3) by (auto simp: in_bmap_ranks ranks_in_def)
  moreover have "sorted (bmap_ranks arr)" "distinct (bmap_ranks arr)"
    by (auto simp: bmap_ranks_def distinct_map sorted_wrt_map intro!: sorted_wrt_filter)
  ultimately have "bmap_ranks arr = ranks"
    using assms(1,2) by (intro sorted_distinct_set_unique) (auto simp: check_ranks_sorted)
  with arr m assms show ?thesis
    by (auto simp: bmap_build_def div_ceil_8 m_def bmap_holds_def)
qed

lemma minloc_loop_range:
  "minloc_loop xs i mn idx = idx \<or>
   (\<exists>k < length xs. minloc_loop xs i mn idx = i + int k \<and> xs ! k \<noteq> - 1)"
proof (induction xs i mn idx rule: minloc_loop.induct)
  case (2 x xs i mn index)
  show ?case
  proof (cases "mn > x \<and> x \<noteq> - 1")
    case True
    with 2(1) [OF True] show ?thesis by (auto simp: less_Suc_eq_0_disj)
  next
    case False
    with 2(2) [OF False] show ?thesis by (auto simp: less_Suc_eq_0_disj)
  qed
qed simp

text \<open>The format that \<^verbatim>\<open>ompi_group_incl\<close> picks is one whose estimate did not refuse.\<close>

lemma minloc_choice:
  assumes "m = ompi_group_minloc [a, b, c, d]"
  shows "m = 0 \<or> m = 1 \<and> b \<noteq> - 1 \<or> m = 2 \<and> c \<noteq> - 1 \<or> m = 3 \<and> d \<noteq> - 1"
  using minloc_loop_range [of "[a, b, c, d]" 0 a 0] assms
  by (auto simp: ompi_group_minloc_def less_Suc_eq numeral_eq_Suc)

section \<open>Properties\<close>

text \<open>Sporadic groups. From any non-empty list of distinct valid ranks the range builder of
  \<^verbatim>\<open>ompi_group_incl_spor\<close> fills exactly the number of ranges it allocated, whatever
  word lies in front of the rank array, which it reads; the size estimate is the size of the
  result. The translations of the built list give back the i-th rank for child rank i, the child
  rank i for the i-th rank, and undefined for every other rank of the parent.\<close>

theorem sporadic_translations:
  assumes "ranks \<noteq> []" "distinct ranks" "ranks_in n ranks"
  shows "\<exists>es. spor_build before ranks = Some es \<and>
    ompi_group_calc_sporadic before' ranks = 8 * int (length es) \<and>
    (\<forall>i < length ranks. translate_rank_sporadic_reverse es (int i) = Some (ranks ! i) \<and>
       translate_rank_sporadic es (ranks ! i) = int i) \<and>
    (\<forall>r. 0 \<le> r \<and> r < n \<and> r \<notin> set ranks \<longrightarrow> translate_rank_sporadic es r = MPI_UNDEFINED)"
proof -
  obtain es where es: "spor_build before ranks = Some es" "spor_holds es n ranks"
    "int (length es) = spor_count before ranks 0"
    using spor_build_holds [OF assms(1,3)] by blast
  have "spor_count before ranks 0 = spor_count before' ranks 0"
    using assms(1) by (cases ranks) (simp_all add: spor_count_runs)
  with es spor.both_ways [OF es(2) assms(2)] show ?thesis
    by (auto simp: ompi_group_calc_sporadic_def)
qed

lemma sporadic_translations_witness:
  "\<exists>es. spor_build 7 [2, 3, 4, 9] = Some es \<and> translate_rank_sporadic es 9 = 3 \<and>
    translate_rank_sporadic es 5 = MPI_UNDEFINED"
  using sporadic_translations [of "[2, 3, 4, 9]" 10 7 0] by (fastforce simp: ranks_in_def less_Suc_eq numeral_eq_Suc)

text \<open>Strided groups. When the stride check accepts a non-empty list of distinct valid ranks,
  the triple that \<^verbatim>\<open>ompi_group_incl_strided\<close> stores translates child ranks to the
  listed ranks and back, and every other rank of the parent to undefined; no division by zero
  occurs.\<close>

theorem strided_translations:
  assumes "ranks \<noteq> []" "distinct ranks" "ranks_in n ranks" "ompi_group_calc_strided ranks \<noteq> - 1"
  shows "let o' = ranks ! 0; s = check_stride ranks; l = ranks ! (length ranks - 1) in
    (\<forall>i < length ranks. translate_rank_strided_reverse o' s (int i) = ranks ! i \<and>
       translate_rank_strided o' s l (ranks ! i) = Some (int i)) \<and>
    (\<forall>r. 0 \<le> r \<and> r < n \<and> r \<notin> set ranks \<longrightarrow> translate_rank_strided o' s l r = Some MPI_UNDEFINED)"
proof -
  have "check_stride ranks \<noteq> - 1" using assms(4) by (auto simp: ompi_group_calc_strided_def)
  from check_stride_holds [OF this assms(1-3)]
  have h: "strided_holds (ranks ! 0, check_stride ranks, ranks ! (length ranks - 1)) n ranks" .
  show ?thesis using strided.both_ways [OF h assms(2)] by (auto simp: Let_def)
qed

lemma strided_translations_witness:
  "translate_rank_strided 1 3 10 7 = Some 2 \<and> translate_rank_strided 1 3 10 8 = Some MPI_UNDEFINED"
proof -
  have s: "check_stride [1, 4, 7, 10] = 3" by (simp add: check_stride_def)
  have "ompi_group_calc_strided [1, 4, 7, 10] \<noteq> - 1" by (simp add: ompi_group_calc_strided_def s)
  with strided_translations [of "[1, 4, 7, 10]" 12] show ?thesis
    by (fastforce simp: Let_def s ranks_in_def less_Suc_eq numeral_eq_Suc)
qed

text \<open>Bitmap groups. When the order check accepts a list of distinct valid ranks, setting its
  bits stays inside the allocated array, and the bit-counting translations map child ranks to
  the listed ranks and back, and every other rank of the parent to undefined, without reading
  outside the array.\<close>

theorem bitmap_translations:
  assumes "distinct ranks" "ranks_in n ranks" "0 \<le> n" "ompi_group_calc_bmap n ranks \<noteq> - 1"
  shows "\<exists>arr. bmap_build n ranks = Some arr \<and>
    (\<forall>i < length ranks. translate_rank_bmap_reverse arr (int i) = Some (ranks ! i) \<and>
       translate_rank_bmap arr (ranks ! i) = Some (int i)) \<and>
    (\<forall>r. 0 \<le> r \<and> r < n \<and> r \<notin> set ranks \<longrightarrow> translate_rank_bmap arr r = Some MPI_UNDEFINED)"
proof -
  have "check_ranks ranks" using assms(4) by (auto simp: ompi_group_calc_bmap_def split: if_splits)
  from bmap_build_holds [OF this assms(1-3)] obtain arr where
    arr: "bmap_build n ranks = Some arr" "bmap_holds arr n ranks" by blast
  with bmap.both_ways [OF arr(2) assms(1)] show ?thesis by auto
qed

lemma bitmap_translations_witness:
  "\<exists>arr. bmap_build 20 [1, 4, 6, 17] = Some arr \<and> translate_rank_bmap arr 17 = Some 3 \<and>
    translate_rank_bmap arr 5 = Some MPI_UNDEFINED"
proof -
  have "ompi_group_calc_bmap 20 [1, 4, 6, 17] \<noteq> - 1"
    by (simp add: ompi_group_calc_bmap_def div_ceil_8)
  with bitmap_translations [of "[1, 4, 6, 17]" 20] show ?thesis
    by (fastforce simp: ranks_in_def less_Suc_eq numeral_eq_Suc)
qed

end
