(* ===== verification/Group.thy ===== *)
theory Group
  imports Pointer_Array Group_Formats
begin

text \<open>
  Process groups: \<^verbatim>\<open>ompi/group/group.c\<close>, \<^verbatim>\<open>group_init.c\<close>,
  \<^verbatim>\<open>group_plist.c\<close>, \<^verbatim>\<open>group_set_rank.c\<close> and the including functions of the
  three sparse formats. The state holds the group objects by address, the reference counts of
  the process objects and the table of Fortran handles. Freeing an object removes it from the
  state, so that any later access to it is undefined. Process objects belong to
  \<^verbatim>\<open>ompi/proc\<close>: only their addresses and reference counts are part of this model.

  Every function is partial: \<open>None\<close> is undefined behaviour (an access to a freed object,
  outside an array, or of an indeterminate value) or a loop that never ends. The answers of
  the allocators used by one call are a record argument; \<open>hmax\<close> is the configured limit
  \<^verbatim>\<open>OMPI_FORTRAN_HANDLE_MAX\<close> of the handle table. The code is that of a build with
  \<^verbatim>\<open>OMPI_GROUP_SPARSE\<close>, with the run-time switch
  \<^verbatim>\<open>ompi_use_sparse_group_storage\<close> as an argument.
\<close>

section \<open>Groups and their state\<close>

datatype sparse_data_t =
    No_sparse
  | Grp_sporadic "ompi_group_sporadic_list_t list"
  | Grp_strided int int int
  | Grp_bitmap "u8 list"

record ompi_group_t =
  grp_refcount :: int
  grp_proc_count :: int
  grp_my_rank :: int
  grp_f_to_c_index :: int
  grp_proc_pointers :: "ptr list option"
  grp_flags :: "32 word"
  grp_parent_group_ptr :: ptr
  sparse_data :: sparse_data_t

record group_state =
  groups :: "ptr \<Rightarrow> ompi_group_t option"
  proc_refs :: "ptr \<Rightarrow> int"
  f_to_c :: opal_pointer_array_t
  all_failed_procs :: ptr

text \<open>The answers of \<^verbatim>\<open>malloc\<close> for the object, its array and the handle table.\<close>

record alloc =
  al_obj :: ptr
  al_array :: bool
  al_table :: bool

text \<open>The addresses of the two static group objects.\<close>

definition MPI_GROUP_NULL :: ptr where "MPI_GROUP_NULL = 1"
definition MPI_GROUP_EMPTY :: ptr where "MPI_GROUP_EMPTY = 2"

definition MPI_ERR_GROUP :: int where [rc_defs]: "MPI_ERR_GROUP = 9"
definition MPI_IDENT :: int where [rc_defs]: "MPI_IDENT = 0"
definition MPI_SIMILAR :: int where [rc_defs]: "MPI_SIMILAR = 2"
definition MPI_UNEQUAL :: int where [rc_defs]: "MPI_UNEQUAL = 3"

definition OMPI_GROUP_INTRINSIC :: "32 word" where "OMPI_GROUP_INTRINSIC = 0x2"
definition OMPI_GROUP_DENSE :: "32 word" where "OMPI_GROUP_DENSE = 0x4"
definition OMPI_GROUP_SPORADIC :: "32 word" where "OMPI_GROUP_SPORADIC = 0x8"
definition OMPI_GROUP_STRIDED :: "32 word" where "OMPI_GROUP_STRIDED = 0x10"
definition OMPI_GROUP_BITMAP :: "32 word" where "OMPI_GROUP_BITMAP = 0x20"

definition has_flag :: "32 word \<Rightarrow> ompi_group_t \<Rightarrow> bool" where
  "has_flag fl G \<longleftrightarrow> grp_flags G AND fl \<noteq> 0"

definition put_group :: "ptr \<Rightarrow> ompi_group_t \<Rightarrow> group_state \<Rightarrow> group_state" where
  "put_group g G s = s\<lparr>groups := (groups s)(g \<mapsto> G)\<rparr>"

definition OBJ_RETAIN_group :: "group_state \<Rightarrow> ptr \<Rightarrow> group_state option" where
  "OBJ_RETAIN_group s g =
     do { G \<leftarrow> groups s g; Some (put_group g (G\<lparr>grp_refcount := grp_refcount G + 1\<rparr>) s) }"

definition idxs :: "int \<Rightarrow> int list" where
  "idxs n = map int [0..<nat n]"

section \<open>Looking up processes\<close>

text \<open>The translation of one rank from a group to its parent: the first branches of
  \<^verbatim>\<open>ompi_group_translate_ranks\<close>. The inner \<open>option\<close> is \<open>None\<close> when the output is not
  written.\<close>

definition rank_to_parent :: "ompi_group_t \<Rightarrow> int \<Rightarrow> int option option" where
  "rank_to_parent G r =
     (if has_flag OMPI_GROUP_SPORADIC G then
        case sparse_data G of
          Grp_sporadic es \<Rightarrow> Some (translate_rank_sporadic_reverse es r) | _ \<Rightarrow> None
      else if has_flag OMPI_GROUP_STRIDED G then
        case sparse_data G of
          Grp_strided o' st l \<Rightarrow> Some (Some (translate_rank_strided_reverse o' st r)) | _ \<Rightarrow> None
      else if has_flag OMPI_GROUP_BITMAP G then
        case sparse_data G of
          Grp_bitmap bm \<Rightarrow> Some (translate_rank_bmap_reverse bm r) | _ \<Rightarrow> None
      else Some None)"

definition rank_to_child :: "ompi_group_t \<Rightarrow> int \<Rightarrow> int option option" where
  "rank_to_child G r =
     (if has_flag OMPI_GROUP_SPORADIC G then
        case sparse_data G of
          Grp_sporadic es \<Rightarrow> Some (Some (translate_rank_sporadic es r)) | _ \<Rightarrow> None
      else if has_flag OMPI_GROUP_STRIDED G then
        case sparse_data G of
          Grp_strided o' st l \<Rightarrow> map_option Some (translate_rank_strided o' st l r) | _ \<Rightarrow> None
      else if has_flag OMPI_GROUP_BITMAP G then
        case sparse_data G of
          Grp_bitmap bm \<Rightarrow> map_option Some (translate_rank_bmap bm r) | _ \<Rightarrow> None
      else Some None)"

partial_function (option) ompi_group_get_proc_ptr :: "group_state \<Rightarrow> ptr \<Rightarrow> int \<Rightarrow> ptr option" where
  "ompi_group_get_proc_ptr s g rank =
     do {
       G \<leftarrow> groups s g;
       if has_flag OMPI_GROUP_DENSE G then do { ps \<leftarrow> grp_proc_pointers G; rd ps rank }
       else do {
         w \<leftarrow> (if g = MPI_GROUP_EMPTY \<or> grp_parent_group_ptr G = MPI_GROUP_EMPTY
               then Some (Some MPI_UNDEFINED) else rank_to_parent G rank);
         rank2 \<leftarrow> w;
         ompi_group_get_proc_ptr s (grp_parent_group_ptr G) rank2 } }"

definition ompi_group_peer_lookup :: "group_state \<Rightarrow> ptr \<Rightarrow> int \<Rightarrow> ptr option" where
  "ompi_group_peer_lookup s g peer_id = ompi_group_get_proc_ptr s g peer_id"

definition ompi_group_size :: "group_state \<Rightarrow> ptr \<Rightarrow> int option" where
  "ompi_group_size s g = map_option grp_proc_count (groups s g)"

definition ompi_group_rank :: "group_state \<Rightarrow> ptr \<Rightarrow> int option" where
  "ompi_group_rank s g = map_option grp_my_rank (groups s g)"

text \<open>The search loop that the group operations share: the first rank from \<open>i\<close> on at which
  the process appears in the group.\<close>

function find_proc :: "group_state \<Rightarrow> ptr \<Rightarrow> ptr \<Rightarrow> int \<Rightarrow> int \<Rightarrow> int option option" where
  "find_proc s g p i n =
     (if i < n then do {
        q \<leftarrow> ompi_group_peer_lookup s g i;
        if p = q then Some (Some i) else find_proc s g p (i + 1) n }
      else Some None)"
  by pat_completeness auto
termination
  by (relation "measure (\<lambda>(s, g, p, i, n). nat (n - i))") auto

declare find_proc.simps [simp del]

definition ompi_group_peer_lookup_id :: "group_state \<Rightarrow> ptr \<Rightarrow> ptr \<Rightarrow> int option" where
  "ompi_group_peer_lookup_id s g p =
     do { n \<leftarrow> ompi_group_size s g;
          w \<leftarrow> find_proc s g p 0 n;
          Some (case w of Some i \<Rightarrow> i | None \<Rightarrow> - 1) }"

definition translate_by_search :: "group_state \<Rightarrow> ptr \<Rightarrow> ptr \<Rightarrow> int \<Rightarrow> int option" where
  "translate_by_search s g1 g2 rank =
     (if rank = MPI_PROC_NULL then Some MPI_PROC_NULL
      else do {
        p \<leftarrow> ompi_group_peer_lookup s g1 rank;
        n \<leftarrow> ompi_group_size s g2;
        w \<leftarrow> find_proc s g2 p 0 n;
        Some (case w of Some i \<Rightarrow> i | None \<Rightarrow> MPI_UNDEFINED) })"

text \<open>The array \<open>ranks2\<close> holds the previous contents of the output array, which has the
  length of \<open>ranks1\<close>.\<close>

definition write_ranks :: "(int \<Rightarrow> int option option) \<Rightarrow> int list \<Rightarrow> int list \<Rightarrow> int list option" where
  "write_ranks f ranks1 ranks2 =
     those (map (\<lambda>(r, old). map_option (case_option old id) (f r)) (zip ranks1 ranks2))"

definition ompi_group_translate_ranks ::
  "group_state \<Rightarrow> ptr \<Rightarrow> int list \<Rightarrow> ptr \<Rightarrow> int list \<Rightarrow> (int \<times> int list) option" where
  "ompi_group_translate_ranks s g1 ranks1 g2 ranks2 =
     (if g1 = MPI_GROUP_EMPTY \<or> g2 = MPI_GROUP_EMPTY
      then Some (MPI_SUCCESS, replicate (length ranks1) MPI_UNDEFINED)
      else do {
        G1 \<leftarrow> groups s g1;
        G2 \<leftarrow> groups s g2;
        rs \<leftarrow>
          (if grp_parent_group_ptr G1 = g2 then write_ranks (rank_to_parent G1) ranks1 ranks2
           else if grp_parent_group_ptr G2 = g1 then write_ranks (rank_to_child G2) ranks1 ranks2
           else those (map (translate_by_search s g1 g2) ranks1));
        Some (MPI_SUCCESS, rs) })"

section \<open>Reference counts of processes, construction and destruction\<close>

function inc_loop :: "group_state \<Rightarrow> ptr \<Rightarrow> int \<Rightarrow> int \<Rightarrow> group_state option" where
  "inc_loop s g i n =
     (if i < n then do {
        p \<leftarrow> ompi_group_peer_lookup s g i;
        if p = NULL then None
        else inc_loop (s\<lparr>proc_refs := (proc_refs s)(p := proc_refs s p + 1)\<rparr>) g (i + 1) n }
      else Some s)"
  by pat_completeness auto
termination
  by (relation "measure (\<lambda>(s, g, i, n). nat (n - i))") auto

function dec_loop :: "group_state \<Rightarrow> ptr \<Rightarrow> int \<Rightarrow> int \<Rightarrow> group_state option" where
  "dec_loop s g i n =
     (if i < n then do {
        p \<leftarrow> ompi_group_peer_lookup s g i;
        dec_loop (if p \<noteq> NULL then s\<lparr>proc_refs := (proc_refs s)(p := proc_refs s p - 1)\<rparr> else s)
          g (i + 1) n }
      else Some s)"
  by pat_completeness auto
termination
  by (relation "measure (\<lambda>(s, g, i, n). nat (n - i))") auto

declare inc_loop.simps [simp del] dec_loop.simps [simp del]

definition ompi_group_increment_proc_count :: "group_state \<Rightarrow> ptr \<Rightarrow> group_state option" where
  "ompi_group_increment_proc_count s g =
     do { n \<leftarrow> ompi_group_size s g; inc_loop s g 0 n }"

definition ompi_group_decrement_proc_count :: "group_state \<Rightarrow> ptr \<Rightarrow> group_state option" where
  "ompi_group_decrement_proc_count s g =
     do { n \<leftarrow> ompi_group_size s g; dec_loop s g 0 n }"

definition ompi_group_construct :: "int \<Rightarrow> bool \<Rightarrow> group_state \<Rightarrow> ptr \<Rightarrow> group_state option" where
  "ompi_group_construct hmax tmem s g =
     do {
       (ret_val, t) \<leftarrow> opal_pointer_array_add tmem hmax (f_to_c s) g;
       Some (put_group g
         \<lparr>grp_refcount = 1, grp_proc_count = 0, grp_my_rank = 0, grp_f_to_c_index = ret_val,
          grp_proc_pointers = None, grp_flags = 0, grp_parent_group_ptr = NULL,
          sparse_data = No_sparse\<rparr>
         (s\<lparr>f_to_c := t\<rparr>)) }"

definition OBJ_NEW_group :: "int \<Rightarrow> alloc \<Rightarrow> group_state \<Rightarrow> (ptr \<times> group_state) option" where
  "OBJ_NEW_group hmax al s =
     (if al_obj al = NULL then Some (NULL, s)
      else do { s \<leftarrow> ompi_group_construct hmax (al_table al) s (al_obj al); Some (al_obj al, s) })"

text \<open>The destructor resets the slot of the handle table.\<close>

definition clear_handle :: "group_state \<Rightarrow> int \<Rightarrow> group_state option" where
  "clear_handle s i =
     do {
       p \<leftarrow> opal_pointer_array_get_item (f_to_c s) i;
       if p \<noteq> NULL then do {
         (_, t) \<leftarrow> opal_pointer_array_set_item True (f_to_c s) i NULL;
         Some (s\<lparr>f_to_c := t\<rparr>) }
       else Some s }"

text \<open>\<^verbatim>\<open>OBJ_RELEASE\<close> of a group; when the count reaches zero the destructor
  \<^verbatim>\<open>ompi_group_destruct\<close> runs, which releases the parent, and the object is freed.\<close>

partial_function (option) OBJ_RELEASE_group :: "group_state \<Rightarrow> ptr \<Rightarrow> group_state option" where
  "OBJ_RELEASE_group s g =
     do {
       G \<leftarrow> groups s g;
       let c = grp_refcount G - 1;
       let s = put_group g (G\<lparr>grp_refcount := c\<rparr>) s;
       if c = 0 then do {
         s \<leftarrow> (if grp_parent_group_ptr G \<noteq> NULL then do {
                 s \<leftarrow> ompi_group_decrement_proc_count s (grp_parent_group_ptr G);
                 OBJ_RELEASE_group s (grp_parent_group_ptr G) }
               else Some s);
         s \<leftarrow> clear_handle s (grp_f_to_c_index G);
         Some (s\<lparr>groups := (groups s)(g := None)\<rparr>) }
       else Some s }"

definition ompi_group_free :: "group_state \<Rightarrow> ptr \<Rightarrow> (int \<times> ptr \<times> group_state) option" where
  "ompi_group_free s g =
     do {
       s \<leftarrow> ompi_group_decrement_proc_count s g;
       s \<leftarrow> OBJ_RELEASE_group s g;
       Some (OMPI_SUCCESS, MPI_GROUP_NULL, s) }"

text \<open>What the four allocators have in common: a new object that must have got a handle.\<close>

definition new_with_handle :: "int \<Rightarrow> alloc \<Rightarrow> group_state \<Rightarrow> (ptr \<times> group_state) option" where
  "new_with_handle hmax al s =
     do {
       (g, s) \<leftarrow> OBJ_NEW_group hmax al s;
       if g = NULL then Some (NULL, s)
       else do {
         G \<leftarrow> groups s g;
         if 0 > grp_f_to_c_index G then do { s \<leftarrow> OBJ_RELEASE_group s g; Some (NULL, s) }
         else Some (g, s) } }"

definition ompi_group_allocate :: "int \<Rightarrow> alloc \<Rightarrow> group_state \<Rightarrow> int \<Rightarrow> (ptr \<times> group_state) option" where
  "ompi_group_allocate hmax al s group_size =
     do {
       (g, s) \<leftarrow> new_with_handle hmax al s;
       if g = NULL then Some (NULL, s)
       else if \<not> al_array al then do { s \<leftarrow> OBJ_RELEASE_group s g; Some (NULL, s) }
       else do {
         G \<leftarrow> groups s g;
         Some (g, put_group g
           (G\<lparr>grp_proc_pointers := Some (replicate (nat group_size) NULL),
              grp_proc_count := group_size, grp_my_rank := MPI_UNDEFINED,
              grp_flags := grp_flags G OR OMPI_GROUP_DENSE\<rparr>) s) } }"

definition ompi_group_allocate_sporadic ::
  "int \<Rightarrow> alloc \<Rightarrow> group_state \<Rightarrow> int \<Rightarrow> (ptr \<times> group_state) option" where
  "ompi_group_allocate_sporadic hmax al s group_size =
     do {
       (g, s) \<leftarrow> new_with_handle hmax al s;
       if g = NULL then Some (NULL, s)
       else if 0 < group_size \<and> \<not> al_array al
       then do { s \<leftarrow> OBJ_RELEASE_group s g; Some (NULL, s) }
       else do {
         G \<leftarrow> groups s g;
         Some (g, put_group g
           (G\<lparr>grp_proc_count := group_size, grp_my_rank := MPI_UNDEFINED, grp_proc_pointers := None,
              grp_flags := grp_flags G OR OMPI_GROUP_SPORADIC\<rparr>) s) } }"

definition ompi_group_allocate_strided :: "int \<Rightarrow> alloc \<Rightarrow> group_state \<Rightarrow> (ptr \<times> group_state) option" where
  "ompi_group_allocate_strided hmax al s =
     do {
       (g, s) \<leftarrow> new_with_handle hmax al s;
       if g = NULL then Some (NULL, s)
       else do {
         G \<leftarrow> groups s g;
         Some (g, put_group g
           (G\<lparr>grp_my_rank := MPI_UNDEFINED, grp_proc_pointers := None,
              grp_flags := grp_flags G OR OMPI_GROUP_STRIDED,
              sparse_data := Grp_strided (- 1) (- 1) (- 1)\<rparr>) s) } }"

text \<open>The allocation of the bit array is not tested by the code: the array is written later.\<close>

definition ompi_group_allocate_bmap ::
  "int \<Rightarrow> alloc \<Rightarrow> group_state \<Rightarrow> int \<Rightarrow> int \<Rightarrow> (ptr \<times> group_state) option" where
  "ompi_group_allocate_bmap hmax al s orig_group_size group_size =
     do {
       (g, s) \<leftarrow> new_with_handle hmax al s;
       if g = NULL then Some (NULL, s)
       else do {
         G \<leftarrow> groups s g;
         Some (g, put_group g
           (G\<lparr>grp_proc_count := group_size, grp_my_rank := MPI_UNDEFINED, grp_proc_pointers := None,
              grp_flags := grp_flags G OR OMPI_GROUP_BITMAP\<rparr>) s) } }"

section \<open>Including ranks\<close>

function rank_loop :: "group_state \<Rightarrow> ptr \<Rightarrow> ptr \<Rightarrow> int \<Rightarrow> int \<Rightarrow> int \<Rightarrow> int option" where
  "rank_loop s g p i n my =
     (if i < n then do {
        q \<leftarrow> ompi_group_peer_lookup s g i;
        rank_loop s g p (i + 1) n (if q = p then i else my) }
      else Some my)"
  by pat_completeness auto
termination
  by (relation "measure (\<lambda>(s, g, p, i, n, my). nat (n - i))") auto

declare rank_loop.simps [simp del]

definition ompi_set_group_rank :: "group_state \<Rightarrow> ptr \<Rightarrow> ptr \<Rightarrow> group_state option" where
  "ompi_set_group_rank s g p =
     do {
       G \<leftarrow> groups s g;
       my \<leftarrow> (if p \<noteq> NULL then rank_loop s g p 0 (grp_proc_count G) MPI_UNDEFINED
              else Some MPI_UNDEFINED);
       Some (put_group g (G\<lparr>grp_my_rank := my\<rparr>) s) }"

definition incl_empty :: "group_state \<Rightarrow> (int \<times> ptr \<times> group_state) option" where
  "incl_empty s = do { s \<leftarrow> OBJ_RETAIN_group s MPI_GROUP_EMPTY; Some (OMPI_SUCCESS, MPI_GROUP_EMPTY, s) }"

definition own_proc :: "group_state \<Rightarrow> ptr \<Rightarrow> ptr option option" where
  "own_proc s g =
     do {
       r \<leftarrow> ompi_group_rank s g;
       if r \<noteq> MPI_UNDEFINED then map_option Some (ompi_group_peer_lookup s g r) else Some None }"

definition store_procs :: "group_state \<Rightarrow> ptr \<Rightarrow> ptr list \<Rightarrow> group_state option" where
  "store_procs s g ps =
     do {
       G \<leftarrow> groups s g;
       xs \<leftarrow> grp_proc_pointers G;
       if length ps \<le> length xs
       then Some (put_group g (G\<lparr>grp_proc_pointers := Some (ps @ drop (length ps) xs)\<rparr>) s)
       else None }"

text \<open>What the three functions that fill a dense group share: allocate \<open>n\<close> slots, store
  the process pointers that the loop \<open>collect\<close> finds, count them, and find the own rank from
  the process \<open>me\<close> (\<open>None\<close> when the process is in none of the source groups). A
  call that reports an error leaves the output argument alone: its group is \<open>NULL\<close> here.\<close>

definition fill_dense ::
  "int \<Rightarrow> alloc \<Rightarrow> group_state \<Rightarrow> int \<Rightarrow> (group_state \<Rightarrow> ptr list option) \<Rightarrow>
   (group_state \<Rightarrow> ptr option option) \<Rightarrow> (int \<times> ptr \<times> group_state) option" where
  "fill_dense hmax al s n collect me =
     do {
       (g, s) \<leftarrow> ompi_group_allocate hmax al s n;
       if g = NULL then Some (MPI_ERR_GROUP, NULL, s)
       else do {
         ps \<leftarrow> collect s;
         s \<leftarrow> store_procs s g ps;
         s \<leftarrow> ompi_group_increment_proc_count s g;
         m \<leftarrow> me s;
         s \<leftarrow> (case m of
                 Some p \<Rightarrow> ompi_set_group_rank s g p
               | None \<Rightarrow> do { G \<leftarrow> groups s g;
                             Some (put_group g (G\<lparr>grp_my_rank := MPI_UNDEFINED\<rparr>) s) });
         Some (OMPI_SUCCESS, g, s) } }"

definition ompi_group_incl_plist ::
  "int \<Rightarrow> alloc \<Rightarrow> group_state \<Rightarrow> ptr \<Rightarrow> int list \<Rightarrow> (int \<times> ptr \<times> group_state) option" where
  "ompi_group_incl_plist hmax al s g ranks =
     (if ranks = [] then incl_empty s
      else fill_dense hmax al s (int (length ranks))
             (\<lambda>s. those (map (ompi_group_peer_lookup s g) ranks)) (\<lambda>s. own_proc s g))"

text \<open>The steps the sparse formats share: attach the parent, and take over the own rank.\<close>

definition link_parent :: "group_state \<Rightarrow> ptr \<Rightarrow> ptr \<Rightarrow> group_state option" where
  "link_parent s g parent =
     do {
       G \<leftarrow> groups s g;
       s \<leftarrow> OBJ_RETAIN_group (put_group g (G\<lparr>grp_parent_group_ptr := parent\<rparr>) s) parent;
       ompi_group_increment_proc_count s parent }"

definition adopt_rank :: "group_state \<Rightarrow> ptr \<Rightarrow> ptr \<Rightarrow> group_state option" where
  "adopt_rank s g parent =
     do {
       s \<leftarrow> ompi_group_increment_proc_count s g;
       my \<leftarrow> ompi_group_rank s parent;
       G \<leftarrow> groups s g;
       (_, rs) \<leftarrow> ompi_group_translate_ranks s parent [my] g [grp_my_rank G];
       Some (put_group g (G\<lparr>grp_my_rank := rs ! 0\<rparr>) s) }"

definition set_data :: "group_state \<Rightarrow> ptr \<Rightarrow> sparse_data_t \<Rightarrow> int \<Rightarrow> group_state option" where
  "set_data s g d n =
     do { G \<leftarrow> groups s g; Some (put_group g (G\<lparr>sparse_data := d, grp_proc_count := n\<rparr>) s) }"

definition ompi_group_incl_spor ::
  "int \<Rightarrow> int \<Rightarrow> alloc \<Rightarrow> group_state \<Rightarrow> ptr \<Rightarrow> int list \<Rightarrow> (int \<times> ptr \<times> group_state) option" where
  "ompi_group_incl_spor before hmax al s grp ranks =
     (if ranks = [] then incl_empty s
      else do {
        (g, s) \<leftarrow> ompi_group_allocate_sporadic hmax al s (spor_count before ranks 0);
        if g = NULL then Some (MPI_ERR_GROUP, NULL, s)
        else do {
          es \<leftarrow> spor_build before ranks;
          s \<leftarrow> link_parent s g grp;
          s \<leftarrow> set_data s g (Grp_sporadic es) (sum_list (map spor_length es));
          s \<leftarrow> adopt_rank s g grp;
          Some (OMPI_SUCCESS, g, s) } })"

definition ompi_group_incl_strided ::
  "int \<Rightarrow> alloc \<Rightarrow> group_state \<Rightarrow> ptr \<Rightarrow> int list \<Rightarrow> (int \<times> ptr \<times> group_state) option" where
  "ompi_group_incl_strided hmax al s grp ranks =
     (if ranks = [] then incl_empty s
      else do {
        let stride = check_stride ranks;
        (g, s) \<leftarrow> ompi_group_allocate_strided hmax al s;
        if g = NULL then Some (MPI_ERR_GROUP, NULL, s)
        else do {
          s \<leftarrow> link_parent s g grp;
          s \<leftarrow> set_data s g (Grp_strided (ranks ! 0) stride (ranks ! (length ranks - 1)))
                 (int (length ranks));
          s \<leftarrow> adopt_rank s g grp;
          Some (OMPI_SUCCESS, g, s) } })"

definition ompi_group_incl_bmap ::
  "int \<Rightarrow> alloc \<Rightarrow> group_state \<Rightarrow> ptr \<Rightarrow> int list \<Rightarrow> (int \<times> ptr \<times> group_state) option" where
  "ompi_group_incl_bmap hmax al s grp ranks =
     (if ranks = [] then incl_empty s
      else do {
        orig \<leftarrow> ompi_group_size s grp;
        (g, s) \<leftarrow> ompi_group_allocate_bmap hmax al s orig (int (length ranks));
        if g = NULL then Some (MPI_ERR_GROUP, NULL, s)
        else if \<not> al_array al then None
        else do {
          bm \<leftarrow> bmap_build orig ranks;
          s \<leftarrow> set_data s g (Grp_bitmap bm) (int (length ranks));
          s \<leftarrow> link_parent s g grp;
          s \<leftarrow> adopt_rank s g grp;
          Some (OMPI_SUCCESS, g, s) } })"

text \<open>\<open>sparse\<close> is the switch \<^verbatim>\<open>ompi_use_sparse_group_storage\<close>, \<open>before\<close>
  the word in front of the rank array.\<close>

definition ompi_group_incl ::
  "bool \<Rightarrow> int \<Rightarrow> int \<Rightarrow> alloc \<Rightarrow> group_state \<Rightarrow> ptr \<Rightarrow> int list \<Rightarrow> (int \<times> ptr \<times> group_state) option" where
  "ompi_group_incl sparse before hmax al s grp ranks =
     do {
       cnt \<leftarrow> ompi_group_size s grp;
       let method = (if sparse then
                       ompi_group_minloc [ompi_group_calc_plist ranks, ompi_group_calc_strided ranks,
                         ompi_group_calc_sporadic before ranks, ompi_group_calc_bmap cnt ranks]
                     else 0);
       if method = 0 then ompi_group_incl_plist hmax al s grp ranks
       else if method = 1 then ompi_group_incl_strided hmax al s grp ranks
       else if method = 2 then ompi_group_incl_spor before hmax al s grp ranks
       else ompi_group_incl_bmap hmax al s grp ranks }"

section \<open>Excluding ranks, ranges and set operations\<close>

text \<open>The loops of \<^verbatim>\<open>ompi_group_excl\<close> and \<^verbatim>\<open>ompi_group_range_excl\<close> that
  collect the ranks not listed, into an array with room for \<open>cap\<close> of them.\<close>

definition not_listed :: "int \<Rightarrow> int \<Rightarrow> int list \<Rightarrow> int list option" where
  "not_listed cap n ranks =
     (let rs = filter (\<lambda>i. i \<notin> set ranks) (idxs n)
      in if rs = [] \<or> int (length rs) \<le> cap then Some rs else None)"

definition ompi_group_excl ::
  "bool \<Rightarrow> int \<Rightarrow> int \<Rightarrow> alloc \<Rightarrow> group_state \<Rightarrow> ptr \<Rightarrow> int list \<Rightarrow> (int \<times> ptr \<times> group_state) option" where
  "ompi_group_excl sparse before hmax al s grp ranks =
     do {
       n \<leftarrow> ompi_group_size s grp;
       let cap = n - int (length ranks);
       included \<leftarrow> (if 0 < cap then not_listed cap n ranks else Some []);
       ompi_group_incl sparse before hmax al s grp included }"

text \<open>One more rank; the number of ranks is counted in an \<^verbatim>\<open>int\<close>.\<close>

definition push_rank :: "int list \<Rightarrow> int \<Rightarrow> int list option" where
  "push_rank acc r = do { _ \<leftarrow> cadd (int (length acc)) 1; Some (acc @ [r]) }"

partial_function (option) up_loop :: "int \<Rightarrow> int \<Rightarrow> int \<Rightarrow> int list \<Rightarrow> int list option" where
  "up_loop index last_rank stride acc =
     (if index \<le> last_rank then do {
        acc \<leftarrow> push_rank acc index;
        index \<leftarrow> cadd index stride;
        up_loop index last_rank stride acc }
      else Some acc)"

partial_function (option) down_loop :: "int \<Rightarrow> int \<Rightarrow> int \<Rightarrow> int list \<Rightarrow> int list option" where
  "down_loop index last_rank stride acc =
     (if index \<ge> last_rank then do {
        acc \<leftarrow> push_rank acc index;
        index \<leftarrow> cadd index stride;
        down_loop index last_rank stride acc }
      else Some acc)"

fun triplet_loop :: "int \<times> int \<times> int \<Rightarrow> int list \<Rightarrow> int list option" where
  "triplet_loop (first_rank, last_rank, stride) acc =
     (if first_rank < last_rank then up_loop first_rank last_rank stride acc
      else if first_rank > last_rank then down_loop first_rank last_rank stride acc
      else push_rank acc first_rank)"

text \<open>The ranks of the triplets (first, last, stride); the code runs these loops twice, first
  to count and then to fill an array of that size.\<close>

fun triplet_ranks :: "(int \<times> int \<times> int) list \<Rightarrow> int list \<Rightarrow> int list option" where
  "triplet_ranks [] acc = Some acc"
| "triplet_ranks (t # ts) acc = do { acc \<leftarrow> triplet_loop t acc; triplet_ranks ts acc }"

definition ompi_group_range_incl ::
  "bool \<Rightarrow> int \<Rightarrow> int \<Rightarrow> alloc \<Rightarrow> group_state \<Rightarrow> ptr \<Rightarrow> (int \<times> int \<times> int) list \<Rightarrow>
   (int \<times> ptr \<times> group_state) option" where
  "ompi_group_range_incl sparse before hmax al s grp ranges =
     do {
       included \<leftarrow> triplet_ranks ranges [];
       ompi_group_incl sparse before hmax al s grp included }"

definition ompi_group_range_excl ::
  "bool \<Rightarrow> int \<Rightarrow> int \<Rightarrow> alloc \<Rightarrow> group_state \<Rightarrow> ptr \<Rightarrow> (int \<times> int \<times> int) list \<Rightarrow>
   (int \<times> ptr \<times> group_state) option" where
  "ompi_group_range_excl sparse before hmax al s grp ranges =
     do {
       excluded \<leftarrow> triplet_ranks ranges [];
       n \<leftarrow> ompi_group_size s grp;
       included \<leftarrow> not_listed (n - int (length excluded)) n excluded;
       ompi_group_incl sparse before hmax al s grp included }"

text \<open>The members of \<open>g2\<close> at the given ranks that \<open>g\<close> does not have, and the
  ranks of those it has: the double loops of the set operations.\<close>

primrec outside :: "group_state \<Rightarrow> ptr \<Rightarrow> int \<Rightarrow> ptr \<Rightarrow> int list \<Rightarrow> ptr list option" where
  "outside s g n g2 [] = Some []"
| "outside s g n g2 (i # is) =
     do {
       p \<leftarrow> ompi_group_peer_lookup s g2 i;
       w \<leftarrow> find_proc s g p 0 n;
       ps \<leftarrow> outside s g n g2 is;
       Some (if w = None then p # ps else ps) }"

primrec inside :: "group_state \<Rightarrow> ptr \<Rightarrow> int \<Rightarrow> ptr \<Rightarrow> int list \<Rightarrow> int list option" where
  "inside s g n g2 [] = Some []"
| "inside s g n g2 (i # is) =
     do {
       p \<leftarrow> ompi_group_peer_lookup s g2 i;
       w \<leftarrow> find_proc s g p 0 n;
       rs \<leftarrow> inside s g n g2 is;
       Some (if w \<noteq> None then i # rs else rs) }"

definition union_procs :: "group_state \<Rightarrow> ptr \<Rightarrow> ptr \<Rightarrow> ptr list option" where
  "union_procs s g1 g2 =
     do {
       n1 \<leftarrow> ompi_group_size s g1;
       n2 \<leftarrow> ompi_group_size s g2;
       ps \<leftarrow> those (map (ompi_group_peer_lookup s g1) (idxs n1));
       qs \<leftarrow> outside s g1 n1 g2 (idxs n2);
       Some (ps @ qs) }"

definition own_proc_of_two :: "group_state \<Rightarrow> ptr \<Rightarrow> ptr \<Rightarrow> ptr option option" where
  "own_proc_of_two s g1 g2 =
     do {
       r \<leftarrow> ompi_group_rank s g1;
       if r = MPI_UNDEFINED then own_proc s g2 else own_proc s g1 }"

definition ompi_group_union ::
  "int \<Rightarrow> alloc \<Rightarrow> group_state \<Rightarrow> ptr \<Rightarrow> ptr \<Rightarrow> (int \<times> ptr \<times> group_state) option" where
  "ompi_group_union hmax al s g1 g2 =
     do {
       n1 \<leftarrow> ompi_group_size s g1;
       n2 \<leftarrow> ompi_group_size s g2;
       qs \<leftarrow> outside s g1 n1 g2 (idxs n2);
       let new_group_size = n1 + int (length qs);
       if new_group_size = 0 then incl_empty s
       else fill_dense hmax al s new_group_size (\<lambda>s. union_procs s g1 g2)
              (\<lambda>s. own_proc_of_two s g1 g2) }"

definition difference_procs :: "group_state \<Rightarrow> ptr \<Rightarrow> ptr \<Rightarrow> ptr list option" where
  "difference_procs s g1 g2 =
     do {
       n1 \<leftarrow> ompi_group_size s g1;
       n2 \<leftarrow> ompi_group_size s g2;
       outside s g2 n2 g1 (idxs n1) }"

definition ompi_group_difference ::
  "int \<Rightarrow> alloc \<Rightarrow> group_state \<Rightarrow> ptr \<Rightarrow> ptr \<Rightarrow> (int \<times> ptr \<times> group_state) option" where
  "ompi_group_difference hmax al s g1 g2 =
     do {
       ps \<leftarrow> difference_procs s g1 g2;
       let new_group_size = int (length ps);
       if new_group_size = 0 then incl_empty s
       else fill_dense hmax al s new_group_size (\<lambda>s. difference_procs s g1 g2)
              (\<lambda>s. own_proc_of_two s g1 g2) }"

definition ompi_group_intersection ::
  "bool \<Rightarrow> int \<Rightarrow> int \<Rightarrow> alloc \<Rightarrow> group_state \<Rightarrow> ptr \<Rightarrow> ptr \<Rightarrow> (int \<times> ptr \<times> group_state) option" where
  "ompi_group_intersection sparse before hmax al s g1 g2 =
     do {
       n1 \<leftarrow> ompi_group_size s g1;
       n2 \<leftarrow> ompi_group_size s g2;
       let cap = (if n1 > n2 then n2 else n1);
       included \<leftarrow> inside s g2 n2 g1 (idxs n1);
       if int (length included) \<le> cap then ompi_group_incl sparse before hmax al s g1 included
       else None }"

function compare_loop :: "group_state \<Rightarrow> ptr \<Rightarrow> ptr \<Rightarrow> int \<Rightarrow> int \<Rightarrow> bool \<Rightarrow> (bool \<times> bool) option" where
  "compare_loop s g1 g2 i n identical =
     (if i < n then do {
        p \<leftarrow> ompi_group_peer_lookup s g1 i;
        w \<leftarrow> find_proc s g2 p 0 n;
        case w of
          Some j \<Rightarrow> compare_loop s g1 g2 (i + 1) n (if i \<noteq> j then False else identical)
        | None \<Rightarrow> Some (False, False) }
      else Some (True, identical))"
  by pat_completeness auto
termination
  by (relation "measure (\<lambda>(s, g1, g2, i, n, b). nat (n - i))") auto

declare compare_loop.simps [simp del]

definition ompi_group_compare :: "group_state \<Rightarrow> ptr \<Rightarrow> ptr \<Rightarrow> (int \<times> int) option" where
  "ompi_group_compare s g1 g2 =
     (if g1 = g2 then Some (OMPI_SUCCESS, MPI_IDENT)
      else if g1 = MPI_GROUP_EMPTY \<or> g2 = MPI_GROUP_EMPTY then Some (OMPI_SUCCESS, MPI_UNEQUAL)
      else do {
        n1 \<leftarrow> ompi_group_size s g1;
        n2 \<leftarrow> ompi_group_size s g2;
        if n1 \<noteq> n2 then Some (OMPI_SUCCESS, MPI_UNEQUAL)
        else do {
          (similar, identical) \<leftarrow> compare_loop s g1 g2 0 n1 True;
          Some (OMPI_SUCCESS,
            if identical then MPI_IDENT else if similar then MPI_SIMILAR else MPI_UNEQUAL) } })"

text \<open>The recursive equations are the executable ones.\<close>

declare ompi_group_get_proc_ptr.simps [code]
declare OBJ_RELEASE_group.simps [code]
declare up_loop.simps [code]
declare down_loop.simps [code]

section \<open>Set-up and tear-down\<close>

definition set_predefined :: "group_state \<Rightarrow> ptr \<Rightarrow> int \<Rightarrow> group_state option" where
  "set_predefined s g my =
     do {
       G \<leftarrow> groups s g;
       Some (put_group g
         (G\<lparr>grp_proc_count := 0, grp_my_rank := my, grp_proc_pointers := None,
            grp_flags := grp_flags G OR OMPI_GROUP_DENSE OR OMPI_GROUP_INTRINSIC\<rparr>) s) }"

definition ompi_group_init ::
  "int \<Rightarrow> bool \<Rightarrow> alloc \<Rightarrow> bool \<Rightarrow> bool \<Rightarrow> group_state \<Rightarrow> (int \<times> group_state) option" where
  "ompi_group_init hmax imem al tmem1 tmem2 s =
     (let (r, t) = opal_pointer_array_init imem opal_pointer_array_construct 0 hmax 64;
          s = s\<lparr>f_to_c := t\<rparr>
      in if r \<noteq> OPAL_SUCCESS then Some (OMPI_ERROR, s)
         else do {
           (g, s) \<leftarrow> OBJ_NEW_group hmax al s;
           s \<leftarrow> set_predefined (s\<lparr>all_failed_procs := g\<rparr>) g MPI_UNDEFINED;
           s \<leftarrow> ompi_group_construct hmax tmem1 s MPI_GROUP_NULL;
           s \<leftarrow> set_predefined s MPI_GROUP_NULL MPI_PROC_NULL;
           s \<leftarrow> ompi_group_construct hmax tmem2 s MPI_GROUP_EMPTY;
           s \<leftarrow> set_predefined s MPI_GROUP_EMPTY MPI_UNDEFINED;
           Some (OMPI_SUCCESS, s) })"

text \<open>\<^verbatim>\<open>OBJ_DESTRUCT\<close> of a static object runs the destructor and frees nothing.\<close>

definition ompi_group_destruct :: "group_state \<Rightarrow> ptr \<Rightarrow> group_state option" where
  "ompi_group_destruct s g =
     do {
       G \<leftarrow> groups s g;
       s \<leftarrow> (if grp_parent_group_ptr G \<noteq> NULL then do {
               s \<leftarrow> ompi_group_decrement_proc_count s (grp_parent_group_ptr G);
               OBJ_RELEASE_group s (grp_parent_group_ptr G) }
             else Some s);
       clear_handle s (grp_f_to_c_index G) }"

definition clear_flags :: "group_state \<Rightarrow> ptr \<Rightarrow> group_state option" where
  "clear_flags s g = do { G \<leftarrow> groups s g; Some (put_group g (G\<lparr>grp_flags := 0\<rparr>) s) }"

definition ompi_group_finalize :: "group_state \<Rightarrow> (int \<times> group_state) option" where
  "ompi_group_finalize s =
     do {
       s \<leftarrow> clear_flags s MPI_GROUP_NULL;
       s \<leftarrow> ompi_group_destruct s MPI_GROUP_NULL;
       s \<leftarrow> clear_flags s MPI_GROUP_NULL;
       s \<leftarrow> ompi_group_destruct s MPI_GROUP_EMPTY;
       s \<leftarrow> (if all_failed_procs s \<noteq> NULL
             then map_option (\<lambda>s. s\<lparr>all_failed_procs := NULL\<rparr>) (OBJ_RELEASE_group s (all_failed_procs s))
             else Some s);
       Some (OMPI_SUCCESS, s\<lparr>f_to_c := opal_pointer_array_destruct (f_to_c s)\<rparr>) }"

end
