(* ===== verification/Group_Correct.thy ===== *)
theory Group_Correct
  imports Group
begin

text \<open>
  Correctness of the group operations. \<open>denotes s g ps\<close> says that the object at
  \<open>g\<close> is a well-formed group, dense or sparse over its chain of parents, whose members in
  rank order are \<open>ps\<close>; the loops of the code are characterised on such groups first. The
  contract \<open>makes_group\<close> then states what every function that makes a group promises:
  the members, the own rank, that all other groups are unchanged, and that freeing the
  result undoes the call. The last section holds the properties.
\<close>

section \<open>The processes a group denotes\<close>

definition sparse_holds :: "ompi_group_t \<Rightarrow> int \<Rightarrow> int list \<Rightarrow> bool" where
  "sparse_holds G n rs \<longleftrightarrow> (case sparse_data G of
       No_sparse \<Rightarrow> False
     | Grp_sporadic es \<Rightarrow> has_flag OMPI_GROUP_SPORADIC G \<and> spor_holds es n rs
     | Grp_strided o' st l \<Rightarrow> \<not> has_flag OMPI_GROUP_SPORADIC G \<and> has_flag OMPI_GROUP_STRIDED G \<and>
         strided_holds (o', st, l) n rs
     | Grp_bitmap bm \<Rightarrow> \<not> has_flag OMPI_GROUP_SPORADIC G \<and> \<not> has_flag OMPI_GROUP_STRIDED G \<and>
         has_flag OMPI_GROUP_BITMAP G \<and> bmap_holds bm n rs)"

text \<open>\<open>denotes s g ps\<close>: the group at \<open>g\<close> is well formed and its members are
  \<open>ps\<close>, in rank order.\<close>

inductive denotes :: "group_state \<Rightarrow> ptr \<Rightarrow> ptr list \<Rightarrow> bool" for s where
  dense: "groups s g = Some G \<Longrightarrow> has_flag OMPI_GROUP_DENSE G \<Longrightarrow>
    ps = case_option [] id (grp_proc_pointers G) \<Longrightarrow> grp_proc_count G = int (length ps) \<Longrightarrow>
    NULL \<notin> set ps \<Longrightarrow> grp_parent_group_ptr G = NULL \<Longrightarrow> denotes s g ps"
| sparse: "groups s g = Some G \<Longrightarrow> \<not> has_flag OMPI_GROUP_DENSE G \<Longrightarrow> g \<noteq> MPI_GROUP_EMPTY \<Longrightarrow>
    grp_parent_group_ptr G \<noteq> MPI_GROUP_EMPTY \<Longrightarrow> denotes s (grp_parent_group_ptr G) qs \<Longrightarrow>
    sparse_holds G (int (length qs)) rs \<Longrightarrow> grp_proc_count G = int (length rs) \<Longrightarrow>
    denotes s g (map (\<lambda>r. qs ! nat r) rs)"

inductive_cases denotesE: "denotes s g ps"

lemma sparse_holds_to_parent:
  "sparse_holds G n rs \<Longrightarrow> i < length rs \<Longrightarrow> rank_to_parent G (int i) = Some (Some (rs ! i))"
  using spor.to_parent_law bmap.to_parent_law strided.to_parent_law
  by (fastforce simp: sparse_holds_def rank_to_parent_def split: sparse_data_t.splits)

lemma sparse_holds_to_child:
  "sparse_holds G n rs \<Longrightarrow> distinct rs \<Longrightarrow> 0 \<le> r \<Longrightarrow> r < n \<Longrightarrow>
   rank_to_child G r = Some (Some (rank_of rs r))"
  using spor.to_child_law bmap.to_child_law strided.to_child_law
  by (fastforce simp: sparse_holds_def rank_to_child_def split: sparse_data_t.splits)

lemma sparse_holds_range: "sparse_holds G n rs \<Longrightarrow> ranks_in n rs"
  using spor.holds_range bmap.holds_range strided.holds_range
  by (fastforce simp: sparse_holds_def split: sparse_data_t.splits)

lemma denotes_size: "denotes s g ps \<Longrightarrow> ompi_group_size s g = Some (int (length ps))"
  by (auto simp: ompi_group_size_def elim: denotesE)

lemma denotes_not_null: "denotes s g ps \<Longrightarrow> NULL \<notin> set ps"
proof (induction rule: denotes.induct)
  case (sparse g G qs rs)
  then have "qs ! nat r \<in> set qs" if "r \<in> set rs" for r
    using sparse_holds_range [OF sparse.hyps(6)] that by (auto simp: ranks_in_def)
  with sparse.IH show ?case by force
qed simp

lemma denotes_lookup:
  "denotes s g ps \<Longrightarrow> i < length ps \<Longrightarrow> ompi_group_peer_lookup s g (int i) = Some (ps ! i)"
proof (induction arbitrary: i rule: denotes.induct)
  case (dense g G ps)
  then show ?case
    by (cases "grp_proc_pointers G")
      (auto simp: ompi_group_peer_lookup_def ompi_group_get_proc_ptr.simps)
next
  case (sparse g G qs rs)
  have i: "i < length rs" using sparse.prems by simp
  have r: "0 \<le> rs ! i" "nat (rs ! i) < length qs"
    using sparse_holds_range [OF sparse.hyps(6)] nth_mem [OF i] by (auto simp: ranks_in_def)
  have "ompi_group_get_proc_ptr s g (int i) = ompi_group_get_proc_ptr s (grp_parent_group_ptr G) (rs ! i)"
    using sparse.hyps sparse_holds_to_parent [OF sparse.hyps(6) i]
    by (subst ompi_group_get_proc_ptr.simps) simp
  with sparse.IH [OF r(2)] r i show ?case by (simp add: ompi_group_peer_lookup_def)
qed

lemma denotes_lookup_int:
  "denotes s g ps \<Longrightarrow> 0 \<le> i \<Longrightarrow> i < int (length ps) \<Longrightarrow> ompi_group_peer_lookup s g i = Some (ps ! nat i)"
  using denotes_lookup [of s g ps "nat i"] by simp

text \<open>Two states with the same group structure up to reference counts, own ranks and
  handles denote the same.\<close>

definition shape :: "ompi_group_t \<Rightarrow> int \<times> ptr list option \<times> 32 word \<times> ptr \<times> sparse_data_t" where
  "shape G = (grp_proc_count G, grp_proc_pointers G, grp_flags G, grp_parent_group_ptr G, sparse_data G)"

definition keeps :: "group_state \<Rightarrow> group_state \<Rightarrow> bool" where
  "keeps s s' \<longleftrightarrow> (\<forall>g G. groups s g = Some G \<longrightarrow> (\<exists>G'. groups s' g = Some G' \<and> shape G' = shape G))"

lemma shape_cong:
  assumes "shape G' = shape G"
  shows "has_flag fl G' = has_flag fl G" "sparse_holds G' n rs = sparse_holds G n rs"
    "grp_proc_count G' = grp_proc_count G" "grp_proc_pointers G' = grp_proc_pointers G"
    "grp_parent_group_ptr G' = grp_parent_group_ptr G"
proof -
  show flag: "has_flag fl G' = has_flag fl G" for fl
    using assms by (simp add: shape_def has_flag_def)
  show "sparse_holds G' n rs = sparse_holds G n rs"
    using assms unfolding sparse_holds_def flag by (simp add: shape_def)
qed (use assms in \<open>simp_all add: shape_def\<close>)

lemma denotes_keeps: "denotes s g ps \<Longrightarrow> keeps s s' \<Longrightarrow> denotes s' g ps"
proof (induction rule: denotes.induct)
  case (dense g G ps)
  then obtain G' where G: "groups s' g = Some G'" "shape G' = shape G" unfolding keeps_def by metis
  note c = shape_cong [OF G(2)]
  from dense G(1) show ?case by (intro denotes.dense [of s' g G']) (simp_all add: c)
next
  case (sparse g G qs rs)
  then obtain G' where G: "groups s' g = Some G'" "shape G' = shape G" unfolding keeps_def by metis
  note c = shape_cong [OF G(2)]
  from sparse G(1) show ?case by (intro denotes.sparse [of s' g G']) (simp_all add: c)
qed

lemma keeps_refl [simp]: "keeps s s"
  by (simp add: keeps_def)

lemma keeps_trans: "keeps s s1 \<Longrightarrow> keeps s1 s2 \<Longrightarrow> keeps s s2"
  unfolding keeps_def by metis

lemma keeps_same_groups: "groups s' = groups s \<Longrightarrow> keeps s s'"
  by (simp add: keeps_def)

lemma keeps_put_new: "groups s g = None \<Longrightarrow> keeps s (put_group g G s)"
  by (auto simp: keeps_def put_group_def)

lemma keeps_put_same: "groups s g = Some G \<Longrightarrow> shape G' = shape G \<Longrightarrow> keeps s (put_group g G' s)"
  by (auto simp: keeps_def put_group_def)

section \<open>The loops on groups\<close>

lemma length_idxs [simp]: "length (idxs (int n)) = n"
  by (simp add: idxs_def)

lemma lookup_all:
  assumes "denotes s g ps"
  shows "those (map (ompi_group_peer_lookup s g) (idxs (int (length ps)))) = Some ps"
proof -
  have "those (map (ompi_group_peer_lookup s g) (idxs (int (length ps)))) =
      Some (map (\<lambda>i. ps ! nat i) (idxs (int (length ps))))"
    using denotes_lookup [OF assms] by (intro those_map) (auto simp: idxs_def)
  also have "map (\<lambda>i. ps ! nat i) (idxs (int (length ps))) = ps"
    by (simp add: idxs_def comp_def map_nth)
  finally show ?thesis .
qed

lemma find_proc_from:
  assumes "denotes s g ps"
  shows "k \<le> length ps \<Longrightarrow> find_proc s g p (int k) (int (length ps)) =
    Some (map_option (\<lambda>i. int (k + i)) (index_of (drop k ps) p))"
proof (induction "length ps - k" arbitrary: k)
  case 0
  then show ?case by (subst find_proc.simps) simp
next
  case (Suc m)
  then have k: "k < length ps" by simp
  have d: "drop k ps = ps ! k # drop (Suc k) ps" using k by (simp add: Cons_nth_drop_Suc)
  have IH: "find_proc s g p (int k + 1) (int (length ps)) =
    Some (map_option (\<lambda>i. int (Suc k + i)) (index_of (drop (Suc k) ps) p))"
    using Suc.hyps(1) [of "Suc k"] Suc.hyps(2) k by (simp add: add.commute)
  show ?case
    using denotes_lookup [OF assms k] k IH
    by (subst find_proc.simps) (auto simp: d option.map_comp comp_def algebra_simps)
qed

lemma find_proc_index:
  "denotes s g ps \<Longrightarrow> find_proc s g p 0 (int (length ps)) = Some (map_option int (index_of ps p))"
  using find_proc_from [of s g ps 0 p] by simp

lemma outside_filter:
  assumes "denotes s g ps" "denotes s g2 qs"
  shows "ranks_in (int (length qs)) is \<Longrightarrow> outside s g (int (length ps)) g2 is =
    Some (filter (\<lambda>p. p \<notin> set ps) (map (\<lambda>i. qs ! nat i) is))"
proof (induction "is")
  case (Cons i "is")
  then have "ompi_group_peer_lookup s g2 i = Some (qs ! nat i)"
    using denotes_lookup_int [OF assms(2)] by (simp add: ranks_in_def)
  with Cons show ?case by (simp add: find_proc_index [OF assms(1)] ranks_in_def index_of_None_iff)
qed simp

lemma inside_filter:
  assumes "denotes s g ps" "denotes s g2 qs"
  shows "ranks_in (int (length qs)) is \<Longrightarrow> inside s g (int (length ps)) g2 is =
    Some (filter (\<lambda>i. qs ! nat i \<in> set ps) is)"
proof (induction "is")
  case (Cons i "is")
  then have "ompi_group_peer_lookup s g2 i = Some (qs ! nat i)"
    using denotes_lookup_int [OF assms(2)] by (simp add: ranks_in_def)
  with Cons show ?case
    by (simp add: find_proc_index [OF assms(1)] ranks_in_def) (metis index_of_None_iff not_None_eq)
qed simp

lemma ranks_in_idxs: "ranks_in (int n) (idxs (int n))"
  by (auto simp: ranks_in_def idxs_def)

lemma nth_idxs: "map (\<lambda>i. xs ! nat i) (idxs (int (length xs))) = xs"
  by (simp add: idxs_def comp_def map_nth)

lemma outside_all:
  "denotes s g ps \<Longrightarrow> denotes s g2 qs \<Longrightarrow>
   outside s g (int (length ps)) g2 (idxs (int (length qs))) = Some (filter (\<lambda>p. p \<notin> set ps) qs)"
  using outside_filter [OF _ _ ranks_in_idxs, of s g ps g2 qs] by (simp add: nth_idxs)

lemma compare_loop_spec:
  assumes "denotes s g1 ps" "denotes s g2 qs" "length qs = length ps" "distinct qs"
  shows "k \<le> length ps \<Longrightarrow> compare_loop s g1 g2 (int k) (int (length ps)) b =
    Some (if set (drop k ps) \<subseteq> set qs then (True, b \<and> drop k ps = drop k qs) else (False, False))"
proof (induction "length ps - k" arbitrary: k b)
  case 0
  then show ?case using assms(3) by (subst compare_loop.simps) simp
next
  case (Suc m)
  then have k: "k < length ps" by simp
  have d: "drop k ps = ps ! k # drop (Suc k) ps" "drop k qs = qs ! k # drop (Suc k) qs"
    using k assms(3) by (simp_all add: Cons_nth_drop_Suc)
  have IH: "compare_loop s g1 g2 (int k + 1) (int (length ps)) b' =
    Some (if set (drop (Suc k) ps) \<subseteq> set qs then (True, b' \<and> drop (Suc k) ps = drop (Suc k) qs)
          else (False, False))" for b'
    using Suc.hyps(1) [of "Suc k" b'] Suc.hyps(2) k by (simp add: add.commute)
  have f: "find_proc s g2 (ps ! k) 0 (int (length ps)) = Some (map_option int (index_of qs (ps ! k)))"
    using find_proc_index [OF assms(2)] assms(3) by metis
  show ?case
  proof (cases "index_of qs (ps ! k)")
    case None
    then have "ps ! k \<notin> set qs" by (simp add: index_of_None_iff)
    with None show ?thesis
      using denotes_lookup [OF assms(1) k] k f by (subst compare_loop.simps) (simp add: d)
  next
    case (Some j)
    then have "j < length qs" "qs ! j = ps ! k" by (auto dest: index_of_Some)
    then have "k = j \<longleftrightarrow> ps ! k = qs ! k" "ps ! k \<in> set qs"
      using assms(3,4) k nth_eq_iff_index_eq [of qs k j] nth_mem [of j qs] by auto
    then show ?thesis
      using denotes_lookup [OF assms(1) k] k f Some IH
      by (subst compare_loop.simps) (auto simp: d)
  qed
qed

text \<open>Reference counting: \<open>add_refs c ps s\<close> adds \<open>c\<close> to the count of every process for
  each of its occurrences in \<open>ps\<close>.\<close>

definition add_refs :: "int \<Rightarrow> ptr list \<Rightarrow> group_state \<Rightarrow> group_state" where
  "add_refs c ps s = s\<lparr>proc_refs := (\<lambda>p. proc_refs s p + c * int (count_list ps p))\<rparr>"

lemma add_refs_simps [simp]:
  "groups (add_refs c ps s) = groups s" "f_to_c (add_refs c ps s) = f_to_c s"
  "all_failed_procs (add_refs c ps s) = all_failed_procs s"
  "add_refs c [] s = s"
  by (simp_all add: add_refs_def)

lemma add_refs_cancel [simp]: "add_refs (- c) ps (add_refs c ps s) = s"
  "add_refs c ps (add_refs (- c) ps s) = s"
  by (simp_all add: add_refs_def)

lemma add_refs_Cons:
  "add_refs c ps (s\<lparr>proc_refs := (proc_refs s)(p := proc_refs s p + c)\<rparr>) = add_refs c (p # ps) s"
  by (simp add: add_refs_def fun_eq_iff algebra_simps)

lemma denotes_groups: "groups s' = groups s \<Longrightarrow> denotes s' g ps \<longleftrightarrow> denotes s g ps"
  using denotes_keeps [of s g ps s'] denotes_keeps [of s' g ps s] by (auto simp: keeps_same_groups)

lemma inc_loop_refs:
  "denotes s g ps \<Longrightarrow> k \<le> length ps \<Longrightarrow>
   inc_loop s g (int k) (int (length ps)) = Some (add_refs 1 (drop k ps) s)"
proof (induction "length ps - k" arbitrary: k s)
  case 0
  then show ?case by (subst inc_loop.simps) simp
next
  case (Suc m)
  then have k: "k < length ps" by simp
  let ?p = "ps ! k"
  let ?s = "s\<lparr>proc_refs := (proc_refs s)(?p := proc_refs s ?p + 1)\<rparr>"
  have d: "drop k ps = ?p # drop (Suc k) ps" using k by (simp add: Cons_nth_drop_Suc)
  have "?p \<noteq> NULL" using denotes_not_null [OF Suc.prems(1)] k by (metis nth_mem)
  then have "inc_loop s g (int k) (int (length ps)) = inc_loop ?s g (int (Suc k)) (int (length ps))"
    using denotes_lookup [OF Suc.prems(1) k] k by (subst inc_loop.simps) (simp add: add.commute)
  also have "\<dots> = Some (add_refs 1 (drop (Suc k) ps) ?s)"
    using Suc.hyps(2) k by (intro Suc.hyps(1) denotes_keeps [OF Suc.prems(1)] keeps_same_groups) auto
  finally show ?case by (simp add: d add_refs_Cons)
qed

lemma dec_loop_refs:
  "denotes s g ps \<Longrightarrow> k \<le> length ps \<Longrightarrow>
   dec_loop s g (int k) (int (length ps)) = Some (add_refs (- 1) (drop k ps) s)"
proof (induction "length ps - k" arbitrary: k s)
  case 0
  then show ?case by (subst dec_loop.simps) simp
next
  case (Suc m)
  then have k: "k < length ps" by simp
  let ?p = "ps ! k"
  let ?s = "s\<lparr>proc_refs := (proc_refs s)(?p := proc_refs s ?p + - 1)\<rparr>"
  have d: "drop k ps = ?p # drop (Suc k) ps" using k by (simp add: Cons_nth_drop_Suc)
  have "?p \<noteq> NULL" using denotes_not_null [OF Suc.prems(1)] k by (metis nth_mem)
  then have "dec_loop s g (int k) (int (length ps)) = dec_loop ?s g (int (Suc k)) (int (length ps))"
    using denotes_lookup [OF Suc.prems(1) k] k by (subst dec_loop.simps) (simp add: add.commute)
  also have "\<dots> = Some (add_refs (- 1) (drop (Suc k) ps) ?s)"
    using Suc.hyps(2) k by (intro Suc.hyps(1) denotes_keeps [OF Suc.prems(1)] keeps_same_groups) auto
  finally show ?case by (simp only: d add_refs_Cons)
qed

lemma increment_proc_count:
  "denotes s g ps \<Longrightarrow> ompi_group_increment_proc_count s g = Some (add_refs 1 ps s)"
  using inc_loop_refs [of s g ps 0] by (simp add: ompi_group_increment_proc_count_def denotes_size)

lemma decrement_proc_count:
  "denotes s g ps \<Longrightarrow> ompi_group_decrement_proc_count s g = Some (add_refs (- 1) ps s)"
  using dec_loop_refs [of s g ps 0] by (simp add: ompi_group_decrement_proc_count_def denotes_size)

lemma rank_loop_last:
  assumes "denotes s g ps" "distinct ps"
  shows "k \<le> length ps \<Longrightarrow> rank_loop s g p (int k) (int (length ps)) my =
    Some (case_option my (\<lambda>i. int (k + i)) (index_of (drop k ps) p))"
proof (induction "length ps - k" arbitrary: k my)
  case 0
  then show ?case by (subst rank_loop.simps) simp
next
  case (Suc m)
  then have k: "k < length ps" by simp
  have d: "drop k ps = ps ! k # drop (Suc k) ps" using k by (simp add: Cons_nth_drop_Suc)
  have IH: "rank_loop s g p (int k + 1) (int (length ps)) my' =
    Some (case_option my' (\<lambda>i. int (Suc k + i)) (index_of (drop (Suc k) ps) p))" for my'
    using Suc.hyps(1) [of "Suc k" my'] Suc.hyps(2) k by (simp add: add.commute)
  have step: "rank_loop s g p (int k) (int (length ps)) my =
    rank_loop s g p (int k + 1) (int (length ps)) (if ps ! k = p then int k else my)"
    using denotes_lookup [OF assms(1) k] k by (subst rank_loop.simps) simp
  show ?case
  proof (cases "ps ! k = p")
    case True
    have "distinct (drop k ps)" using assms(2) by simp
    then have "p \<notin> set (drop (Suc k) ps)" using True by (simp add: d)
    then have "index_of (drop (Suc k) ps) p = None" by (simp only: index_of_None_iff not_False_eq_True)
    with True step IH show ?thesis by (simp add: d)
  next
    case False
    with step IH show ?thesis by (cases "index_of (drop (Suc k) ps) p") (simp_all add: d)
  qed
qed

lemma set_group_rank:
  assumes "denotes s g ps" "distinct ps" "p \<noteq> NULL" "groups s g = Some G"
  shows "ompi_set_group_rank s g p = Some (put_group g (G\<lparr>grp_my_rank := rank_of ps p\<rparr>) s)"
proof -
  have "grp_proc_count G = int (length ps)" using denotes_size [OF assms(1)] assms(4)
    by (simp add: ompi_group_size_def)
  then show ?thesis
    using rank_loop_last [OF assms(1,2), of 0 p MPI_UNDEFINED] assms(3,4)
    by (cases "index_of ps p") (simp_all add: ompi_set_group_rank_def rank_of_def)
qed

section \<open>New groups\<close>

definition gs_inv :: "int \<Rightarrow> group_state \<Rightarrow> bool" where
  "gs_inv hmax s \<longleftrightarrow> pa_inv (f_to_c s) \<and> max_size (f_to_c s) \<le> hmax \<and> groups s NULL = None \<and>
     (\<forall>g G. groups s g = Some G \<longrightarrow>
        grp_parent_group_ptr G = NULL \<or> groups s (grp_parent_group_ptr G) \<noteq> None) \<and>
     (\<exists>E. groups s MPI_GROUP_EMPTY = Some E \<and> has_flag OMPI_GROUP_DENSE E \<and>
          grp_proc_pointers E = None \<and> grp_proc_count E = 0 \<and> grp_parent_group_ptr E = NULL \<and>
          grp_my_rank E = MPI_UNDEFINED \<and> 1 \<le> grp_refcount E)"

text \<open>The allocator answers with a fresh address, and the handle table has or gets room.\<close>

definition al_ok :: "alloc \<Rightarrow> group_state \<Rightarrow> bool" where
  "al_ok al s \<longleftrightarrow> al_obj al \<noteq> NULL \<and> groups s (al_obj al) = None \<and> al_array al \<and>
     (number_free (f_to_c s) \<noteq> 0 \<or>
      al_table al \<and> max 1 (2 * pa_size (f_to_c s)) < max_size (f_to_c s))"

text \<open>\<open>t\<close> is the handle table with \<open>g\<close> added at \<open>i\<close>.\<close>

definition handle_added :: "opal_pointer_array_t \<Rightarrow> int \<Rightarrow> ptr \<Rightarrow> opal_pointer_array_t \<Rightarrow> bool" where
  "handle_added t0 i g t \<longleftrightarrow> 0 \<le> i \<and> pa_lookup t0 i = NULL \<and> pa_inv t \<and>
     pa_lookup t = (pa_lookup t0)(i := g) \<and> max_size t = max_size t0"

definition new_group :: "int \<Rightarrow> ompi_group_t" where
  "new_group i = \<lparr>grp_refcount = 1, grp_proc_count = 0, grp_my_rank = 0, grp_f_to_c_index = i,
     grp_proc_pointers = None, grp_flags = 0, grp_parent_group_ptr = NULL, sparse_data = No_sparse\<rparr>"

lemma put_group_simps [simp]:
  "groups (put_group g G s) = (groups s)(g \<mapsto> G)" "f_to_c (put_group g G s) = f_to_c s"
  "proc_refs (put_group g G s) = proc_refs s"
  "all_failed_procs (put_group g G s) = all_failed_procs s"
  "put_group g G' (put_group g G s) = put_group g G' s"
  "add_refs c ps (put_group g G s) = put_group g G (add_refs c ps s)"
  by (simp_all add: put_group_def add_refs_def)

lemma new_with_handle_ok:
  assumes "gs_inv hmax s" "al_ok al s"
  obtains i t where "new_with_handle hmax al s =
      Some (al_obj al, put_group (al_obj al) (new_group i) (s\<lparr>f_to_c := t\<rparr>))"
    "handle_added (f_to_c s) i (al_obj al) t"
proof -
  from assms have p: "pa_inv (f_to_c s)" "max_size (f_to_c s) \<le> hmax" "al_obj al \<noteq> NULL"
    by (auto simp: gs_inv_def al_ok_def)
  from p show thesis
  proof (cases rule: add_cases [where mem = "al_table al"])
    case (added i t)
    show thesis
      using added p
      by (intro that [of i t])
        (simp_all add: new_with_handle_def OBJ_NEW_group_def ompi_group_construct_def new_group_def
          handle_added_def)
  next
    case full
    with assms(2) show thesis by (simp add: al_ok_def)
  qed
qed

definition extends :: "group_state \<Rightarrow> group_state \<Rightarrow> bool" where
  "extends s s' \<longleftrightarrow> (\<forall>g G. groups s g = Some G \<longrightarrow> groups s' g = Some G)"

lemma extends_keeps: "extends s s' \<Longrightarrow> keeps s s'"
  by (auto simp: extends_def keeps_def)

lemma extends_put: "groups s g = None \<Longrightarrow> groups s1 = groups s \<Longrightarrow> extends s (put_group g G s1)"
  by (auto simp: extends_def)

definition dense_group :: "int \<Rightarrow> ptr list \<Rightarrow> int \<Rightarrow> ompi_group_t" where
  "dense_group i ps my = \<lparr>grp_refcount = 1, grp_proc_count = int (length ps), grp_my_rank = my,
     grp_f_to_c_index = i, grp_proc_pointers = Some ps, grp_flags = OMPI_GROUP_DENSE,
     grp_parent_group_ptr = NULL, sparse_data = No_sparse\<rparr>"

lemma dense_group_my [simp]: "(dense_group i ps my)\<lparr>grp_my_rank := r\<rparr> = dense_group i ps r"
  by (simp add: dense_group_def)

lemma denotes_dense_group:
  "groups s g = Some (dense_group i ps my) \<Longrightarrow> NULL \<notin> set ps \<Longrightarrow> denotes s g ps"
  by (intro denotes.dense [of s g "dense_group i ps my"])
    (simp_all add: dense_group_def has_flag_def OMPI_GROUP_DENSE_def)

lemma fill_dense_ok:
  assumes inv: "gs_inv hmax s" and al: "al_ok al s" and n: "n = int (length ps)"
    and ps: "NULL \<notin> set ps" "distinct ps"
    and collect: "\<And>s'. extends s s' \<Longrightarrow> collect s' = Some ps"
    and me: "\<And>s'. extends s s' \<Longrightarrow> me s' = Some m" "m \<noteq> Some NULL"
  obtains i t where "fill_dense hmax al s n collect me = Some (OMPI_SUCCESS, al_obj al,
      put_group (al_obj al) (dense_group i ps (case_option MPI_UNDEFINED (rank_of ps) m))
        (add_refs 1 ps (s\<lparr>f_to_c := t\<rparr>)))"
    "handle_added (f_to_c s) i (al_obj al) t"
proof -
  let ?g = "al_obj al"
  obtain i t where new: "new_with_handle hmax al s =
      Some (?g, put_group ?g (new_group i) (s\<lparr>f_to_c := t\<rparr>))"
    and h: "handle_added (f_to_c s) i ?g t"
    by (rule new_with_handle_ok [OF inv al])
  have fresh: "groups s ?g = None" "?g \<noteq> NULL" "al_array al" using al by (auto simp: al_ok_def)
  have ext: "extends s (put_group ?g G (add_refs c qs (s\<lparr>f_to_c := t\<rparr>)))" for G c qs
    using fresh(1) by (intro extends_put) simp_all
  let ?s2 = "put_group ?g (dense_group i ps MPI_UNDEFINED) (s\<lparr>f_to_c := t\<rparr>)"
  let ?s3 = "put_group ?g (dense_group i ps MPI_UNDEFINED) (add_refs 1 ps (s\<lparr>f_to_c := t\<rparr>))"
  define G1 where "G1 = (dense_group i ps MPI_UNDEFINED)
    \<lparr>grp_proc_pointers := Some (replicate (length ps) NULL)\<rparr>"
  have alloc: "ompi_group_allocate hmax al s n = Some (?g, put_group ?g G1 (s\<lparr>f_to_c := t\<rparr>))"
    using fresh by (simp add: ompi_group_allocate_def new G1_def new_group_def dense_group_def n)
  have store: "store_procs (put_group ?g G1 (s\<lparr>f_to_c := t\<rparr>)) ?g ps = Some ?s2"
    by (simp add: store_procs_def G1_def dense_group_def)
  have inc: "ompi_group_increment_proc_count ?s2 ?g = Some ?s3"
    using increment_proc_count [OF denotes_dense_group [of ?s2 ?g i ps MPI_UNDEFINED]] ps(1) by simp
  have d3: "denotes ?s3 ?g ps" using ps(1) by (intro denotes_dense_group) simp_all
  have c: "collect (put_group ?g G1 (s\<lparr>f_to_c := t\<rparr>)) = Some ps"
    using collect [OF ext [of G1 1 "[]"]] by simp
  have m: "me ?s3 = Some m" by (rule me(1) [OF ext])
  show thesis
  proof (cases m)
    case None
    show thesis
      by (rule that [of i t, OF _ h])
        (simp add: fill_dense_def alloc fresh c store inc m None)
  next
    case (Some p)
    then have "ompi_set_group_rank ?s3 ?g p =
        Some (put_group ?g (dense_group i ps (rank_of ps p)) (add_refs 1 ps (s\<lparr>f_to_c := t\<rparr>)))"
      using set_group_rank [OF d3 ps(2), of p "dense_group i ps MPI_UNDEFINED"] me(2) by simp
    then show thesis
      by (intro that [of i t, OF _ h]) (simp add: fill_dense_def alloc fresh c store inc m Some)
  qed
qed

lemma put_group_twist: "g \<noteq> p \<Longrightarrow> put_group p P (put_group g G s) = put_group g G (put_group p P s)"
  by (simp add: put_group_def fun_upd_twist)

lemma denotes_live: "denotes s g ps \<Longrightarrow> groups s g \<noteq> None"
  by (auto elim: denotesE)

lemma link_parent_ok:
  assumes "groups b g = None" "denotes b p ps" "groups b p = Some P"
  shows "link_parent (put_group g G b) g p =
    Some (put_group g (G\<lparr>grp_parent_group_ptr := p\<rparr>)
      (put_group p (P\<lparr>grp_refcount := grp_refcount P + 1\<rparr>) (add_refs 1 ps b)))"
proof -
  have gp: "g \<noteq> p" using assms by auto
  let ?s = "put_group g (G\<lparr>grp_parent_group_ptr := p\<rparr>) (put_group p (P\<lparr>grp_refcount := grp_refcount P + 1\<rparr>) b)"
  have "keeps b ?s"
    using assms gp by (auto simp: keeps_def shape_def)
  then have "ompi_group_increment_proc_count ?s p = Some (add_refs 1 ps ?s)"
    by (intro increment_proc_count denotes_keeps [OF assms(2)])
  then show ?thesis
    using assms gp by (simp add: link_parent_def OBJ_RETAIN_group_def put_group_twist)
qed

lemma rank_of_ranks_undefined:
  "ranks_in n rs \<Longrightarrow> rank_of rs MPI_UNDEFINED = MPI_UNDEFINED"
  using index_of_None_iff [of rs MPI_UNDEFINED]
  by (auto simp: rank_of_def ranks_in_def rc_defs split: option.splits)

definition my_rank_ok :: "int \<Rightarrow> int \<Rightarrow> bool" where
  "my_rank_ok n my \<longleftrightarrow> my = MPI_UNDEFINED \<or> 0 \<le> my \<and> my < n"

lemma sparse_to_child_my:
  assumes h: "sparse_holds G n rs" and d: "distinct rs" and my: "my_rank_ok n my"
    and bm: "my = MPI_UNDEFINED \<Longrightarrow> \<nexists>bm. sparse_data G = Grp_bitmap bm"
  shows "rank_to_child G my = Some (Some (rank_of rs my))"
proof (cases "my = MPI_UNDEFINED")
  case False
  with my sparse_holds_to_child [OF h d, of my] show ?thesis by (simp add: my_rank_ok_def)
next
  case True
  have np: "my \<noteq> MPI_PROC_NULL" using True by (simp add: rc_defs)
  show ?thesis
  proof (cases "sparse_data G")
    case (Grp_sporadic es)
    with h np spor_to_child_rank [of es 0 my] show ?thesis
      by (cases "index_of (spor_ranks es) my")
        (auto simp: sparse_holds_def rank_to_child_def spor_holds_def translate_rank_sporadic_def rank_of_def)
  next
    case (Grp_strided o' st l)
    with h np strided_index [of st rs o' l my] show ?thesis
      by (auto simp: sparse_holds_def rank_to_child_def strided_holds_def)
  qed (use h bm [OF True] in \<open>auto simp: sparse_holds_def\<close>)
qed

lemma adopt_rank_ok:
  assumes b: "denotes b p ps" "groups b p = Some P" "p \<noteq> MPI_GROUP_EMPTY" "grp_parent_group_ptr P \<noteq> g"
    and g: "groups b g = None" "g \<noteq> MPI_GROUP_EMPTY"
    and G: "\<not> has_flag OMPI_GROUP_DENSE G" "grp_parent_group_ptr G = p"
      "sparse_holds G (int (length ps)) rs" "grp_proc_count G = int (length rs)"
    and my: "rank_to_child G (grp_my_rank P) = Some (Some my)"
  shows "denotes (put_group g G b) g (map (\<lambda>r. ps ! nat r) rs)"
    and "adopt_rank (put_group g G b) g p =
      Some (put_group g (G\<lparr>grp_my_rank := my\<rparr>) (add_refs 1 (map (\<lambda>r. ps ! nat r) rs) b))"
proof -
  have gp: "g \<noteq> p" using b g by auto
  have "keeps b (put_group g G b)" using g by (intro keeps_put_new)
  then have "denotes (put_group g G b) p ps" by (rule denotes_keeps [OF b(1)])
  with b g G show d: "denotes (put_group g G b) g (map (\<lambda>r. ps ! nat r) rs)"
    by (intro denotes.sparse [of _ g G]) simp_all
  show "adopt_rank (put_group g G b) g p =
      Some (put_group g (G\<lparr>grp_my_rank := my\<rparr>) (add_refs 1 (map (\<lambda>r. ps ! nat r) rs) b))"
    using increment_proc_count [OF d] b g G gp my
    by (simp add: adopt_rank_def ompi_group_rank_def ompi_group_translate_ranks_def write_ranks_def)
qed

definition sparse_group :: "int \<Rightarrow> int \<Rightarrow> int \<Rightarrow> 32 word \<Rightarrow> ptr \<Rightarrow> sparse_data_t \<Rightarrow> ompi_group_t" where
  "sparse_group i n my fl p d = \<lparr>grp_refcount = 1, grp_proc_count = n, grp_my_rank = my,
     grp_f_to_c_index = i, grp_proc_pointers = None, grp_flags = fl, grp_parent_group_ptr = p,
     sparse_data = d\<rparr>"

lemma sparse_group_simps [simp]:
  "grp_refcount (sparse_group i n my fl p d) = 1"
  "grp_proc_count (sparse_group i n my fl p d) = n"
  "grp_my_rank (sparse_group i n my fl p d) = my"
  "grp_f_to_c_index (sparse_group i n my fl p d) = i"
  "grp_parent_group_ptr (sparse_group i n my fl p d) = p"
  "(sparse_group i n my fl p d)\<lparr>grp_my_rank := my'\<rparr> = sparse_group i n my' fl p d"
  "(sparse_group i n my fl p d)\<lparr>grp_parent_group_ptr := q\<rparr> = sparse_group i n my fl q d"
  "(sparse_group i n my fl p d)\<lparr>sparse_data := d', grp_proc_count := n'\<rparr> = sparse_group i n' my fl p d'"
  "sparse_data (sparse_group i n my fl p d) = d"
  by (simp_all add: sparse_group_def)

text \<open>The flags of the four formats.\<close>

lemma format_flags [simp]:
  "has_flag OMPI_GROUP_DENSE (sparse_group i n my OMPI_GROUP_SPORADIC p d) = False"
  "has_flag OMPI_GROUP_DENSE (sparse_group i n my OMPI_GROUP_STRIDED p d) = False"
  "has_flag OMPI_GROUP_DENSE (sparse_group i n my OMPI_GROUP_BITMAP p d) = False"
  "has_flag OMPI_GROUP_SPORADIC (sparse_group i n my OMPI_GROUP_SPORADIC p d) = True"
  "has_flag OMPI_GROUP_SPORADIC (sparse_group i n my OMPI_GROUP_STRIDED p d) = False"
  "has_flag OMPI_GROUP_SPORADIC (sparse_group i n my OMPI_GROUP_BITMAP p d) = False"
  "has_flag OMPI_GROUP_STRIDED (sparse_group i n my OMPI_GROUP_STRIDED p d) = True"
  "has_flag OMPI_GROUP_STRIDED (sparse_group i n my OMPI_GROUP_BITMAP p d) = False"
  "has_flag OMPI_GROUP_BITMAP (sparse_group i n my OMPI_GROUP_BITMAP p d) = True"
  by (simp_all add: has_flag_def sparse_group_def OMPI_GROUP_DENSE_def OMPI_GROUP_SPORADIC_def
      OMPI_GROUP_STRIDED_def OMPI_GROUP_BITMAP_def)

text \<open>The parent of a new sparse group, and the address of the group.\<close>

definition parent_ok :: "group_state \<Rightarrow> ptr \<Rightarrow> ptr \<Rightarrow> ptr list \<Rightarrow> ompi_group_t \<Rightarrow> bool" where
  "parent_ok b g p ps P \<longleftrightarrow> denotes b p ps \<and> groups b p = Some P \<and> p \<noteq> MPI_GROUP_EMPTY \<and>
     grp_parent_group_ptr P \<noteq> g \<and> groups b g = None \<and> g \<noteq> MPI_GROUP_EMPTY"

abbreviation retained :: "ompi_group_t \<Rightarrow> ompi_group_t" where
  "retained P \<equiv> P\<lparr>grp_refcount := grp_refcount P + 1\<rparr>"

definition sub_procs :: "ptr list \<Rightarrow> int list \<Rightarrow> ptr list" where
  "sub_procs ps rs = map (\<lambda>r. ps ! nat r) rs"

definition sparse_result :: "ptr \<Rightarrow> ompi_group_t \<Rightarrow> ptr \<Rightarrow> ompi_group_t \<Rightarrow> ptr list \<Rightarrow> int list \<Rightarrow>
    group_state \<Rightarrow> group_state" where
  "sparse_result g G p P ps rs b =
     put_group g G (put_group p (retained P) (add_refs 1 (sub_procs ps rs) (add_refs 1 ps b)))"

lemma parent_ok_linked:
  assumes "parent_ok b g p ps P"
  defines "b1 \<equiv> put_group p (retained P) (add_refs 1 ps b)"
  shows "denotes b1 p ps" "groups b1 p = Some (retained P)" "groups b1 g = None"
proof -
  have gp: "g \<noteq> p" and *: "denotes b p ps" "groups b p = Some P" "groups b g = None"
    using assms by (auto simp: parent_ok_def)
  have "keeps b b1" using * by (auto simp: keeps_def b1_def shape_def)
  then show "denotes b1 p ps" by (rule denotes_keeps [OF *(1)])
  show "groups b1 p = Some (retained P)" "groups b1 g = None" using * gp by (auto simp: b1_def)
qed

lemma adopt_linked:
  assumes p: "parent_ok b g p ps P"
    and G: "\<not> has_flag OMPI_GROUP_DENSE (sparse_group i (int (length rs)) my0 fl p d)"
      "sparse_holds (sparse_group i (int (length rs)) my0 fl p d) (int (length ps)) rs"
    and my: "my_rank_ok (int (length ps)) (grp_my_rank P)" "distinct rs"
      "grp_my_rank P = MPI_UNDEFINED \<Longrightarrow> \<nexists>bm. d = Grp_bitmap bm"
  shows "adopt_rank (put_group g (sparse_group i (int (length rs)) my0 fl p d)
        (put_group p (retained P) (add_refs 1 ps b))) g p =
      Some (sparse_result g (sparse_group i (int (length rs)) (rank_of rs (grp_my_rank P)) fl p d) p P ps rs b)"
proof -
  have c: "rank_to_child (sparse_group i (int (length rs)) my0 fl p d) (grp_my_rank P) =
      Some (Some (rank_of rs (grp_my_rank P)))"
    using my by (intro sparse_to_child_my [OF G(2)]) simp_all
  show ?thesis
    using p G c parent_ok_linked [OF p]
    by (subst adopt_rank_ok(2) [where ps = ps and P = "retained P" and rs = rs
          and my = "rank_of rs (grp_my_rank P)"])
      (simp_all add: parent_ok_def sparse_result_def sub_procs_def)
qed

lemma link_fresh:
  "parent_ok b g p ps P \<Longrightarrow> link_parent (put_group g (sparse_group i n my fl q d) b) g p =
    Some (put_group g (sparse_group i n my fl p d) (put_group p (retained P) (add_refs 1 ps b)))"
  using link_parent_ok [of b g p ps P] by (simp add: parent_ok_def)

lemma set_data_fresh [simp]:
  "set_data (put_group g (sparse_group i n my fl p d) b) g d' n' = Some (put_group g (sparse_group i n' my fl p d') b)"
  by (simp add: set_data_def)

lemma parent_ok_table: "parent_ok (s\<lparr>f_to_c := t\<rparr>) g p ps P = parent_ok s g p ps P"
  by (simp add: parent_ok_def denotes_groups [of "s\<lparr>f_to_c := t\<rparr>" s])

lemma new_group_sparse: "(new_group i)\<lparr>grp_flags := fl, grp_my_rank := my, grp_proc_count := n\<rparr> =
    sparse_group i n my fl NULL No_sparse"
  by (simp add: new_group_def sparse_group_def)

lemma spor_lengths: "(\<forall>e \<in> set es. 0 < spor_length e) \<Longrightarrow>
  sum_list (map spor_length es) = int (length (spor_ranks es))"
  by (induction es) auto

text \<open>The three sparse formats: each builds the group whose members are the listed ones.\<close>

definition incl_pre ::
  "int \<Rightarrow> alloc \<Rightarrow> group_state \<Rightarrow> ptr \<Rightarrow> ptr list \<Rightarrow> ompi_group_t \<Rightarrow> int list \<Rightarrow> bool" where
  "incl_pre hmax al s p ps P ranks \<longleftrightarrow> gs_inv hmax s \<and> al_ok al s \<and> parent_ok s (al_obj al) p ps P \<and>
     ranks \<noteq> [] \<and> distinct ranks \<and> ranks_in (int (length ps)) ranks \<and>
     my_rank_ok (int (length ps)) (grp_my_rank P)"

lemma incl_preD:
  assumes "incl_pre hmax al s p ps P ranks"
  shows "gs_inv hmax s" "al_ok al s" "parent_ok s (al_obj al) p ps P"
    "ranks \<noteq> []" "distinct ranks" "ranks_in (int (length ps)) ranks"
    "my_rank_ok (int (length ps)) (grp_my_rank P)"
  using assms by (simp_all add: incl_pre_def)

lemma incl_spor_ok:
  assumes pre: "incl_pre hmax al s p ps P ranks"
  shows "\<exists>i t es. ompi_group_incl_spor before hmax al s p ranks =
    Some (OMPI_SUCCESS, al_obj al, sparse_result (al_obj al)
      (sparse_group i (int (length ranks)) (rank_of ranks (grp_my_rank P)) OMPI_GROUP_SPORADIC p
        (Grp_sporadic es)) p P ps ranks (s\<lparr>f_to_c := t\<rparr>)) \<and>
    handle_added (f_to_c s) i (al_obj al) t \<and> spor_holds es (int (length ps)) ranks"
proof -
  note inv = incl_preD(1) [OF pre] and al = incl_preD(2) [OF pre] and p = incl_preD(3) [OF pre]
    and ranks = incl_preD(4-6) [OF pre] and my = incl_preD(7) [OF pre]
  let ?g = "al_obj al"
  obtain i t where new: "new_with_handle hmax al s =
      Some (?g, put_group ?g (new_group i) (s\<lparr>f_to_c := t\<rparr>))"
    and h: "handle_added (f_to_c s) i ?g t"
    by (rule new_with_handle_ok [OF inv al])
  obtain es where es: "spor_build before ranks = Some es" "spor_holds es (int (length ps)) ranks"
    using spor_build_holds [OF ranks(1,3)] by blast
  have len: "sum_list (map spor_length es) = int (length ranks)"
    using es(2) spor_lengths [of es] by (simp add: spor_holds_def)
  have alloc: "ompi_group_allocate_sporadic hmax al s n =
      Some (?g, put_group ?g (sparse_group i n MPI_UNDEFINED OMPI_GROUP_SPORADIC NULL No_sparse)
        (s\<lparr>f_to_c := t\<rparr>))" for n
    using al by (simp add: ompi_group_allocate_sporadic_def new al_ok_def new_group_def sparse_group_def)
  have "ompi_group_incl_spor before hmax al s p ranks = Some (OMPI_SUCCESS, ?g, sparse_result ?g
      (sparse_group i (int (length ranks)) (rank_of ranks (grp_my_rank P)) OMPI_GROUP_SPORADIC p
        (Grp_sporadic es)) p P ps ranks (s\<lparr>f_to_c := t\<rparr>))"
    using p al ranks my es(2)
    by (simp add: ompi_group_incl_spor_def alloc al_ok_def es(1) parent_ok_table link_fresh len
        adopt_linked sparse_holds_def)
  with h es(2) show ?thesis by blast
qed

lemma incl_strided_ok:
  assumes pre: "incl_pre hmax al s p ps P ranks"
    and c: "ompi_group_calc_strided ranks \<noteq> - 1"
  shows "\<exists>i t o' st l. ompi_group_incl_strided hmax al s p ranks =
    Some (OMPI_SUCCESS, al_obj al, sparse_result (al_obj al)
      (sparse_group i (int (length ranks)) (rank_of ranks (grp_my_rank P)) OMPI_GROUP_STRIDED p
        (Grp_strided o' st l)) p P ps ranks (s\<lparr>f_to_c := t\<rparr>)) \<and>
    handle_added (f_to_c s) i (al_obj al) t \<and> strided_holds (o', st, l) (int (length ps)) ranks"
proof -
  note inv = incl_preD(1) [OF pre] and al = incl_preD(2) [OF pre] and p = incl_preD(3) [OF pre]
    and ranks = incl_preD(4-6) [OF pre] and my = incl_preD(7) [OF pre]
  let ?g = "al_obj al" and ?o = "ranks ! 0" and ?s = "check_stride ranks" and ?l = "ranks ! (length ranks - 1)"
  obtain i t where new: "new_with_handle hmax al s =
      Some (?g, put_group ?g (new_group i) (s\<lparr>f_to_c := t\<rparr>))"
    and h: "handle_added (f_to_c s) i ?g t"
    by (rule new_with_handle_ok [OF inv al])
  have holds: "strided_holds (?o, ?s, ?l) (int (length ps)) ranks"
    using check_stride_holds [OF _ ranks] c by (auto simp: ompi_group_calc_strided_def split: if_splits)
  have alloc: "ompi_group_allocate_strided hmax al s =
      Some (?g, put_group ?g (sparse_group i 0 MPI_UNDEFINED OMPI_GROUP_STRIDED NULL
        (Grp_strided (- 1) (- 1) (- 1))) (s\<lparr>f_to_c := t\<rparr>))"
    using al by (simp add: ompi_group_allocate_strided_def new al_ok_def new_group_def sparse_group_def)
  have "ompi_group_incl_strided hmax al s p ranks = Some (OMPI_SUCCESS, ?g, sparse_result ?g
      (sparse_group i (int (length ranks)) (rank_of ranks (grp_my_rank P)) OMPI_GROUP_STRIDED p
        (Grp_strided ?o ?s ?l)) p P ps ranks (s\<lparr>f_to_c := t\<rparr>))"
    using p al ranks my holds
    by (simp add: ompi_group_incl_strided_def alloc al_ok_def parent_ok_table link_fresh
        adopt_linked sparse_holds_def)
  with h holds show ?thesis by blast
qed

lemma incl_bmap_ok:
  assumes pre: "incl_pre hmax al s p ps P ranks"
    and c: "ompi_group_calc_bmap (int (length ps)) ranks \<noteq> - 1" "grp_my_rank P \<noteq> MPI_UNDEFINED"
  shows "\<exists>i t bm. ompi_group_incl_bmap hmax al s p ranks =
    Some (OMPI_SUCCESS, al_obj al, sparse_result (al_obj al)
      (sparse_group i (int (length ranks)) (rank_of ranks (grp_my_rank P)) OMPI_GROUP_BITMAP p
        (Grp_bitmap bm)) p P ps ranks (s\<lparr>f_to_c := t\<rparr>)) \<and>
    handle_added (f_to_c s) i (al_obj al) t \<and> bmap_holds bm (int (length ps)) ranks"
proof -
  note inv = incl_preD(1) [OF pre] and al = incl_preD(2) [OF pre] and p = incl_preD(3) [OF pre]
    and ranks = incl_preD(4-6) [OF pre] and my = incl_preD(7) [OF pre]
  let ?g = "al_obj al"
  obtain i t where new: "new_with_handle hmax al s =
      Some (?g, put_group ?g (new_group i) (s\<lparr>f_to_c := t\<rparr>))"
    and h: "handle_added (f_to_c s) i ?g t"
    by (rule new_with_handle_ok [OF inv al])
  have "check_ranks ranks" using c(1) by (auto simp: ompi_group_calc_bmap_def split: if_splits)
  from bmap_build_holds [OF this ranks(2,3)] obtain bm where
    bm: "bmap_build (int (length ps)) ranks = Some bm" "bmap_holds bm (int (length ps)) ranks" by auto
  have alloc: "ompi_group_allocate_bmap hmax al s n m =
      Some (?g, put_group ?g (sparse_group i m MPI_UNDEFINED OMPI_GROUP_BITMAP NULL No_sparse)
        (s\<lparr>f_to_c := t\<rparr>))" for n m
    using al by (simp add: ompi_group_allocate_bmap_def new al_ok_def new_group_def sparse_group_def)
  have size: "ompi_group_size s p = Some (int (length ps))"
    using p by (auto simp: parent_ok_def denotes_size)
  have "ompi_group_incl_bmap hmax al s p ranks = Some (OMPI_SUCCESS, ?g, sparse_result ?g
      (sparse_group i (int (length ranks)) (rank_of ranks (grp_my_rank P)) OMPI_GROUP_BITMAP p
        (Grp_bitmap bm)) p P ps ranks (s\<lparr>f_to_c := t\<rparr>))"
    using p al ranks my bm(2) c(2)
    by (simp add: ompi_group_incl_bmap_def alloc al_ok_def bm(1) size parent_ok_table link_fresh
        adopt_linked sparse_holds_def)
  with h bm(2) show ?thesis by blast
qed


text \<open>The dense format.\<close>

lemma own_proc_extends:
  assumes "denotes s g ps" "groups s g = Some P" "my_rank_ok (int (length ps)) (grp_my_rank P)"
    "extends s s'"
  shows "own_proc s' g = Some (if grp_my_rank P = MPI_UNDEFINED then None else Some (ps ! nat (grp_my_rank P)))"
proof -
  have "denotes s' g ps" using denotes_keeps [OF assms(1) extends_keeps [OF assms(4)]] .
  moreover have "groups s' g = Some P" using assms(2,4) by (simp add: extends_def)
  ultimately show ?thesis
    using assms(3) denotes_lookup_int [of s' g ps "grp_my_rank P"]
    by (auto simp: own_proc_def ompi_group_rank_def my_rank_ok_def)
qed

lemma inj_on_nth_nat:
  assumes "distinct ps"
  shows "inj_on (\<lambda>r. ps ! nat r) {r. 0 \<le> r \<and> r < int (length ps)}"
proof (rule inj_onI)
  fix x y :: int
  assume "x \<in> {r. 0 \<le> r \<and> r < int (length ps)}" "y \<in> {r. 0 \<le> r \<and> r < int (length ps)}"
    "ps ! nat x = ps ! nat y"
  with assms have "nat x = nat y" "0 \<le> x" "0 \<le> y"
    by (auto simp: nth_eq_iff_index_eq nat_less_iff)
  then show "x = y" by simp
qed

lemma distinct_sub_procs:
  assumes "distinct ps" "distinct rs" "ranks_in (int (length ps)) rs"
  shows "distinct (sub_procs ps rs)" "set (sub_procs ps rs) \<subseteq> set ps"
proof -
  have "inj_on (\<lambda>r. ps ! nat r) (set rs)"
    by (rule inj_on_subset [OF inj_on_nth_nat [OF assms(1)]]) (use assms(3) in \<open>auto simp: ranks_in_def\<close>)
  with assms(2) show "distinct (sub_procs ps rs)" by (simp add: sub_procs_def distinct_map)
  show "set (sub_procs ps rs) \<subseteq> set ps"
    using assms(3) by (auto simp: sub_procs_def ranks_in_def nat_less_iff)
qed

lemma rank_of_sub_procs:
  assumes "distinct ps" "ranks_in (int (length ps)) rs" "0 \<le> r" "r < int (length ps)"
  shows "rank_of (sub_procs ps rs) (ps ! nat r) = rank_of rs r"
proof -
  have "inj_on (\<lambda>r. ps ! nat r) (insert r (set rs))"
    by (rule inj_on_subset [OF inj_on_nth_nat [OF assms(1)]]) (use assms(2-) in \<open>auto simp: ranks_in_def\<close>)
  from index_of_map_inj [OF this] show ?thesis by (simp add: rank_of_def sub_procs_def)
qed

lemma incl_plist_ok:
  assumes inv: "gs_inv hmax s" and al: "al_ok al s" and d: "denotes s p ps" "groups s p = Some P"
    and ps: "distinct ps" and ranks: "ranks \<noteq> []" "distinct ranks" "ranks_in (int (length ps)) ranks"
    and my: "my_rank_ok (int (length ps)) (grp_my_rank P)"
  shows "\<exists>i t. ompi_group_incl_plist hmax al s p ranks = Some (OMPI_SUCCESS, al_obj al,
      put_group (al_obj al) (dense_group i (sub_procs ps ranks) (rank_of ranks (grp_my_rank P)))
        (add_refs 1 (sub_procs ps ranks) (s\<lparr>f_to_c := t\<rparr>))) \<and>
    handle_added (f_to_c s) i (al_obj al) t"
proof -
  let ?qs = "sub_procs ps ranks" and ?my = "grp_my_rank P"
  let ?m = "if ?my = MPI_UNDEFINED then None else Some (ps ! nat ?my)"
  note q = distinct_sub_procs [OF ps ranks(2,3)]
  have nn: "NULL \<notin> set ps" using denotes_not_null [OF d(1)] .
  have c: "those (map (ompi_group_peer_lookup s' p) ranks) = Some ?qs" if "extends s s'" for s'
    using denotes_lookup_int [OF denotes_keeps [OF d(1) extends_keeps [OF that]]] ranks(3)
    unfolding sub_procs_def by (intro those_map) (simp add: ranks_in_def)
  have m: "?m \<noteq> Some NULL"
  proof -
    have "ps ! nat ?my \<noteq> NULL" if "?my \<noteq> MPI_UNDEFINED"
      using my that nn nth_mem [of "nat ?my" ps] unfolding my_rank_ok_def by (metis nat_less_iff)
    then show ?thesis by simp
  qed
  have r: "case_option MPI_UNDEFINED (rank_of ?qs) ?m = rank_of ranks ?my"
    using my rank_of_sub_procs [OF ps ranks(3), of ?my] rank_of_ranks_undefined [OF ranks(3)]
    by (auto simp: my_rank_ok_def)
  obtain i t where "fill_dense hmax al s (int (length ranks))
      (\<lambda>s. those (map (ompi_group_peer_lookup s p) ranks)) (\<lambda>s. own_proc s p) =
      Some (OMPI_SUCCESS, al_obj al, put_group (al_obj al)
        (dense_group i ?qs (case_option MPI_UNDEFINED (rank_of ?qs) ?m)) (add_refs 1 ?qs (s\<lparr>f_to_c := t\<rparr>)))"
    "handle_added (f_to_c s) i (al_obj al) t"
    by (rule fill_dense_ok [OF inv al, where ps = ?qs and m = ?m
          and collect = "\<lambda>s. those (map (ompi_group_peer_lookup s p) ranks)"
          and me = "\<lambda>s. own_proc s p" and n = "int (length ranks)"])
      (use q nn c m own_proc_extends [OF d my] in \<open>auto simp: sub_procs_def\<close>)
  with r ranks(1) show ?thesis by (auto simp: ompi_group_incl_plist_def)
qed

section \<open>The contract of the functions that make a group\<close>

text \<open>The call succeeds with a group of the members \<open>qs\<close> and own rank \<open>my\<close>, leaves the
  structure of every other group as it was, and freeing the new group undoes everything: the
  group objects and all reference counts are those before the call, and so is the content
  of the handle table.\<close>

definition makes_group ::
  "int \<Rightarrow> group_state \<Rightarrow> (int \<times> ptr \<times> group_state) option \<Rightarrow> ptr list \<Rightarrow> int \<Rightarrow> bool" where
  "makes_group hmax s res qs my \<longleftrightarrow>
     (\<exists>g' s'. res = Some (OMPI_SUCCESS, g', s') \<and> denotes s' g' qs \<and> ompi_group_rank s' g' = Some my \<and>
        keeps s s' \<and> gs_inv hmax s' \<and>
        (\<exists>t. ompi_group_free s' g' = Some (OMPI_SUCCESS, MPI_GROUP_NULL, s\<lparr>f_to_c := t\<rparr>) \<and>
             pa_inv t \<and> pa_lookup t = pa_lookup (f_to_c s)))"

lemma makes_groupI:
  "res = Some (OMPI_SUCCESS, g', s') \<Longrightarrow> denotes s' g' qs \<Longrightarrow> ompi_group_rank s' g' = Some my \<Longrightarrow>
   keeps s s' \<Longrightarrow> gs_inv hmax s' \<Longrightarrow>
   \<exists>t. OBJ_RELEASE_group (add_refs (- 1) qs s') g' = Some (s\<lparr>f_to_c := t\<rparr>) \<and> pa_inv t \<and>
       pa_lookup t = pa_lookup (f_to_c s) \<Longrightarrow>
   makes_group hmax s res qs my"
  unfolding makes_group_def using decrement_proc_count [of s' g' qs]
  by (fastforce simp: ompi_group_free_def)

lemma gs_inv_put:
  assumes "gs_inv hmax s" "handle_added (f_to_c s) i g t" "groups s g = None" "g \<noteq> NULL"
    "groups s' = (groups s)(g \<mapsto> G)" "f_to_c s' = t"
    "grp_parent_group_ptr G = NULL \<or> groups s (grp_parent_group_ptr G) \<noteq> None"
  shows "gs_inv hmax s'"
  using assms by (auto simp: gs_inv_def handle_added_def)

lemma gs_inv_retain:
  "gs_inv hmax s \<Longrightarrow> groups s p = Some P \<Longrightarrow> gs_inv hmax (put_group p (retained P) s)"
  by (cases "p = NULL") (auto simp: gs_inv_def has_flag_def)

lemma clear_handle_ok:
  assumes "handle_added t0 i g t" "g \<noteq> NULL" "f_to_c b = t"
  shows "\<exists>t'. clear_handle b i = Some (b\<lparr>f_to_c := t'\<rparr>) \<and> pa_inv t' \<and> pa_lookup t' = pa_lookup t0 \<and>
    max_size t' = max_size t0"
proof -
  from assms have t: "0 \<le> i" "pa_inv t" "pa_lookup t = (pa_lookup t0)(i := g)" "pa_lookup t0 i = NULL"
    "max_size t = max_size t0" by (auto simp: handle_added_def)
  then have "pa_lookup t i \<noteq> NULL" using assms(2) by simp
  then have "i < int (length (arr t))" unfolding pa_lookup_def by (auto split: if_splits)
  then have "i < pa_size t" using t(2) by (simp add: pa_inv_def)
  from set_item_in_range [OF t(2,1) this, of True NULL] obtain t' where
    t': "opal_pointer_array_set_item True t i NULL = Some (OPAL_SUCCESS, t')" "pa_inv t'"
      "pa_lookup t' = (pa_lookup t)(i := NULL)" "max_size t' = max_size t" by blast
  moreover have "opal_pointer_array_get_item t i = Some g"
    using get_item_lookup [OF t(2,1)] t(3) by simp
  moreover have "pa_lookup t' = pa_lookup t0" using t' t by (auto simp: fun_eq_iff)
  ultimately show ?thesis using assms t by (intro exI [of _ t']) (simp add: clear_handle_def)
qed

lemma release_shared:
  "groups s g = Some G \<Longrightarrow> grp_refcount G \<noteq> 1 \<Longrightarrow>
   OBJ_RELEASE_group s g = Some (put_group g (G\<lparr>grp_refcount := grp_refcount G - 1\<rparr>) s)"
  by (subst OBJ_RELEASE_group.simps) (simp add: Let_def)

lemma put_group_remove: "groups s g = None \<Longrightarrow>
  (put_group g G s)\<lparr>f_to_c := t, groups := (groups s)(g := None)\<rparr> = s\<lparr>f_to_c := t\<rparr>"
  by (simp add: put_group_def fun_upd_idem)

lemma release_last:
  assumes G: "groups s g = Some G" "grp_refcount G = 1"
    and par: "(if grp_parent_group_ptr G \<noteq> NULL then do {
        s \<leftarrow> ompi_group_decrement_proc_count (put_group g (G\<lparr>grp_refcount := 0\<rparr>) s) (grp_parent_group_ptr G);
        OBJ_RELEASE_group s (grp_parent_group_ptr G) }
      else Some (put_group g (G\<lparr>grp_refcount := 0\<rparr>) s)) = Some s1"
    and h: "handle_added t0 (grp_f_to_c_index G) g (f_to_c s1)" "g \<noteq> NULL"
  shows "\<exists>t'. OBJ_RELEASE_group s g = Some (s1\<lparr>f_to_c := t', groups := (groups s1)(g := None)\<rparr>) \<and>
    pa_inv t' \<and> pa_lookup t' = pa_lookup t0 \<and> max_size t' = max_size t0"
proof -
  obtain t' where t': "clear_handle s1 (grp_f_to_c_index G) = Some (s1\<lparr>f_to_c := t'\<rparr>)" "pa_inv t'"
    "pa_lookup t' = pa_lookup t0" "max_size t' = max_size t0"
    using clear_handle_ok [OF h refl] by blast
  let ?par = "if grp_parent_group_ptr G \<noteq> NULL then do {
        s \<leftarrow> ompi_group_decrement_proc_count (put_group g (G\<lparr>grp_refcount := 0\<rparr>) s) (grp_parent_group_ptr G);
        OBJ_RELEASE_group s (grp_parent_group_ptr G) }
      else Some (put_group g (G\<lparr>grp_refcount := 0\<rparr>) s)"
  have "OBJ_RELEASE_group s g = do { s \<leftarrow> ?par; s \<leftarrow> clear_handle s (grp_f_to_c_index G);
      Some (s\<lparr>groups := (groups s)(g := None)\<rparr>) }"
    using G by (subst OBJ_RELEASE_group.simps) (simp only: Let_def Option.bind_lunit if_True diff_self simp_thms)
  then have "OBJ_RELEASE_group s g = Some (s1\<lparr>f_to_c := t', groups := (groups s1)(g := None)\<rparr>)"
    using t'(1) unfolding par by simp
  with t' show ?thesis by blast
qed

lemma dense_makes:
  assumes inv: "gs_inv hmax s" and fresh: "groups s g = None" "g \<noteq> NULL"
    and h: "handle_added (f_to_c s) i g t" and qs: "NULL \<notin> set qs"
    and res: "res = Some (OMPI_SUCCESS, g, put_group g (dense_group i qs my) (add_refs 1 qs (s\<lparr>f_to_c := t\<rparr>)))"
  shows "makes_group hmax s res qs my"
proof (rule makes_groupI [OF res])
  let ?G = "dense_group i qs my" and ?b = "s\<lparr>f_to_c := t\<rparr>"
  let ?s' = "put_group g ?G (add_refs 1 qs ?b)"
  show "denotes ?s' g qs" using qs by (intro denotes_dense_group) simp_all
  show "ompi_group_rank ?s' g = Some my" by (simp add: ompi_group_rank_def dense_group_def)
  show "keeps s ?s'" using fresh(1) by (auto simp: keeps_def)
  show "gs_inv hmax ?s'"
    by (rule gs_inv_put [OF inv h fresh, of _ ?G]) (simp_all add: dense_group_def)
  have "\<exists>t'. OBJ_RELEASE_group (put_group g ?G ?b) g =
      Some ((put_group g (?G\<lparr>grp_refcount := 0\<rparr>) ?b)\<lparr>f_to_c := t',
        groups := (groups (put_group g (?G\<lparr>grp_refcount := 0\<rparr>) ?b))(g := None)\<rparr>) \<and>
      pa_inv t' \<and> pa_lookup t' = pa_lookup (f_to_c s) \<and> max_size t' = max_size (f_to_c s)"
    using h fresh(2) by (intro release_last [where G = ?G]) (simp_all add: dense_group_def)
  then obtain t' where t': "OBJ_RELEASE_group (put_group g ?G ?b) g = Some (s\<lparr>f_to_c := t'\<rparr>)"
    "pa_inv t'" "pa_lookup t' = pa_lookup (f_to_c s)"
    using fresh(1) by (auto simp: put_group_def fun_upd_idem)
  have "add_refs (- 1) qs ?s' = put_group g ?G ?b" by simp
  with t' show "\<exists>t. OBJ_RELEASE_group (add_refs (- 1) qs ?s') g = Some (s\<lparr>f_to_c := t\<rparr>) \<and> pa_inv t \<and>
      pa_lookup t = pa_lookup (f_to_c s)"
    by metis
qed

lemma sparse_makes:
  assumes inv: "gs_inv hmax s" and fresh: "g \<noteq> NULL"
    and p: "parent_ok s g p ps P" and rc: "1 \<le> grp_refcount P"
    and h: "handle_added (f_to_c s) i g t"
    and G: "G = sparse_group i (int (length rs)) my fl p d" "\<not> has_flag OMPI_GROUP_DENSE G"
      "sparse_holds G (int (length ps)) rs"
    and res: "res = Some (OMPI_SUCCESS, g, sparse_result g G p P ps rs (s\<lparr>f_to_c := t\<rparr>))"
  shows "makes_group hmax s res (sub_procs ps rs) my"
proof (rule makes_groupI [OF res])
  let ?b = "s\<lparr>f_to_c := t\<rparr>" and ?G0 = "G\<lparr>grp_refcount := 0\<rparr>" and ?qs = "sub_procs ps rs"
  let ?s' = "sparse_result g G p P ps rs ?b"
  have P: "denotes s p ps" "groups s p = Some P" "groups s g = None" "p \<noteq> g"
    "g \<noteq> MPI_GROUP_EMPTY" "p \<noteq> MPI_GROUP_EMPTY"
    using p by (auto simp: parent_ok_def)
  have pn: "p \<noteq> NULL" using P(2) inv by (cases "p = NULL") (auto simp: gs_inv_def)
  show k: "keeps s ?s'" using P by (auto simp: keeps_def sparse_result_def shape_def)
  show "denotes ?s' g ?qs"
    unfolding sub_procs_def using P G denotes_keeps [OF P(1) k]
    by (intro denotes.sparse [of ?s' g G]) (simp_all add: sparse_result_def)
  show "ompi_group_rank ?s' g = Some my" by (simp add: sparse_result_def ompi_group_rank_def G)
  show "gs_inv hmax ?s'"
    by (rule gs_inv_put [OF gs_inv_retain [OF inv P(2)], of i g t _ G])
      (use P h fresh in \<open>simp_all add: sparse_result_def G(1)\<close>)
  let ?s2 = "put_group g ?G0 (put_group p (retained P) (add_refs 1 ps ?b))"
  have "keeps s ?s2" using P by (auto simp: keeps_def shape_def)
  from decrement_proc_count [OF denotes_keeps [OF P(1) this]]
  have dec: "ompi_group_decrement_proc_count ?s2 p = Some (put_group g ?G0 (put_group p (retained P) ?b))"
    by simp
  have "put_group p P ?b = ?b" using P(2) by (simp add: put_group_def fun_upd_idem)
  then have rel: "OBJ_RELEASE_group (put_group g ?G0 (put_group p (retained P) ?b)) p =
      Some (put_group g ?G0 ?b)"
    using P rc by (subst release_shared [where G = "retained P"])
      (simp_all add: put_group_twist [OF P(4) [symmetric]])
  have "\<exists>t'. OBJ_RELEASE_group (put_group g G (put_group p (retained P) (add_refs 1 ps ?b))) g =
      Some ((put_group g ?G0 ?b)\<lparr>f_to_c := t', groups := (groups (put_group g ?G0 ?b))(g := None)\<rparr>) \<and>
      pa_inv t' \<and> pa_lookup t' = pa_lookup (f_to_c s) \<and> max_size t' = max_size (f_to_c s)"
    using h fresh pn dec rel by (intro release_last [where G = G]) (simp_all add: G(1))
  then obtain t' where t': "OBJ_RELEASE_group (put_group g G (put_group p (retained P) (add_refs 1 ps ?b))) g =
      Some (s\<lparr>f_to_c := t'\<rparr>)" "pa_inv t'" "pa_lookup t' = pa_lookup (f_to_c s)"
    using P(3) by (auto simp: put_group_def fun_upd_idem)
  have "add_refs (- 1) ?qs ?s' = put_group g G (put_group p (retained P) (add_refs 1 ps ?b))"
    by (simp add: sparse_result_def)
  with t' show "\<exists>t. OBJ_RELEASE_group (add_refs (- 1) ?qs ?s') g = Some (s\<lparr>f_to_c := t\<rparr>) \<and> pa_inv t \<and>
      pa_lookup t = pa_lookup (f_to_c s)"
    by metis
qed

lemma incl_empty_makes:
  assumes "gs_inv hmax s"
  shows "makes_group hmax s (incl_empty s) [] MPI_UNDEFINED"
proof -
  obtain E where E: "groups s MPI_GROUP_EMPTY = Some E" "has_flag OMPI_GROUP_DENSE E"
    "grp_proc_pointers E = None" "grp_proc_count E = 0" "grp_my_rank E = MPI_UNDEFINED" "1 \<le> grp_refcount E"
    "grp_parent_group_ptr E = NULL"
    using assms by (auto simp: gs_inv_def)
  let ?s = "put_group MPI_GROUP_EMPTY (retained E) s"
  have "incl_empty s = Some (OMPI_SUCCESS, MPI_GROUP_EMPTY, ?s)"
    using E by (simp add: incl_empty_def OBJ_RETAIN_group_def)
  then show ?thesis
  proof (rule makes_groupI)
    show "denotes ?s MPI_GROUP_EMPTY []"
      using E by (intro denotes.dense [of _ _ "retained E"]) (simp_all add: has_flag_def)
    show "keeps s ?s" by (rule keeps_put_same [OF E(1)]) (simp add: shape_def)
    show "gs_inv hmax ?s" by (rule gs_inv_retain [OF assms E(1)])
    have "put_group MPI_GROUP_EMPTY E s = s" using E(1) by (simp add: put_group_def fun_upd_idem)
    then have "OBJ_RELEASE_group ?s MPI_GROUP_EMPTY = Some s"
      using E by (subst release_shared [where G = "retained E"]) simp_all
    then show "\<exists>t. OBJ_RELEASE_group (add_refs (- 1) [] ?s) MPI_GROUP_EMPTY = Some (s\<lparr>f_to_c := t\<rparr>) \<and>
        pa_inv t \<and> pa_lookup t = pa_lookup (f_to_c s)"
      using assms by (intro exI [of _ "f_to_c s"]) (simp add: gs_inv_def)
  qed (use E in \<open>simp add: ompi_group_rank_def\<close>)
qed

text \<open>A group as the operations expect it: well formed, without repeated members, with an
  own rank that is valid or undefined, and referenced.\<close>

definition valid_group :: "group_state \<Rightarrow> ptr \<Rightarrow> ptr list \<Rightarrow> ompi_group_t \<Rightarrow> bool" where
  "valid_group s g ps P \<longleftrightarrow> denotes s g ps \<and> distinct ps \<and> groups s g = Some P \<and>
     my_rank_ok (int (length ps)) (grp_my_rank P) \<and> 1 \<le> grp_refcount P"

lemma valid_group_incl_pre:
  assumes "gs_inv hmax s" "al_ok al s" "valid_group s g ps P"
    "ranks \<noteq> []" "distinct ranks" "ranks_in (int (length ps)) ranks"
  shows "incl_pre hmax al s g ps P ranks"
proof -
  have v: "denotes s g ps" "groups s g = Some P" "my_rank_ok (int (length ps)) (grp_my_rank P)"
    using assms(3) by (auto simp: valid_group_def)
  have "g \<noteq> MPI_GROUP_EMPTY"
  proof
    assume "g = MPI_GROUP_EMPTY"
    then have "grp_proc_count P = 0" using assms(1) v(2) by (auto simp: gs_inv_def)
    with denotes_size [OF v(1)] v(2) have "ps = []" by (simp add: ompi_group_size_def)
    with assms(4,6) show False by (cases ranks) (auto simp: ranks_in_def)
  qed
  moreover have "grp_parent_group_ptr P = NULL \<or> groups s (grp_parent_group_ptr P) \<noteq> None"
    using assms(1) v(2) unfolding gs_inv_def by blast
  then have "grp_parent_group_ptr P \<noteq> al_obj al" using assms(2) by (auto simp: al_ok_def)
  moreover have "al_obj al \<noteq> MPI_GROUP_EMPTY" "groups s (al_obj al) = None"
    using assms(1,2) by (auto simp: gs_inv_def al_ok_def)
  ultimately show ?thesis using assms v by (simp add: incl_pre_def parent_ok_def)
qed

lemma incl_makes:
  assumes inv: "gs_inv hmax s" and al: "al_ok al s" and v: "valid_group s p ps P"
    and ranks: "distinct ranks" "ranks_in (int (length ps)) ranks"
    and bm: "grp_my_rank P = MPI_UNDEFINED \<Longrightarrow> \<not> sparse"
  shows "makes_group hmax s (ompi_group_incl sparse before hmax al s p ranks) (sub_procs ps ranks)
    (rank_of ranks (grp_my_rank P))"
proof -
  have V: "denotes s p ps" "distinct ps" "groups s p = Some P" "1 \<le> grp_refcount P"
    using v by (auto simp: valid_group_def)
  define mth where "mth = (if sparse then
      ompi_group_minloc [ompi_group_calc_plist ranks, ompi_group_calc_strided ranks,
        ompi_group_calc_sporadic before ranks, ompi_group_calc_bmap (int (length ps)) ranks]
      else 0)"
  have incl: "ompi_group_incl sparse before hmax al s p ranks =
      (if mth = 0 then ompi_group_incl_plist hmax al s p ranks
       else if mth = 1 then ompi_group_incl_strided hmax al s p ranks
       else if mth = 2 then ompi_group_incl_spor before hmax al s p ranks
       else ompi_group_incl_bmap hmax al s p ranks)"
    by (simp add: ompi_group_incl_def denotes_size [OF V(1)] mth_def Let_def)
  show ?thesis
  proof (cases "ranks = []")
    case True
    then have "ompi_group_incl sparse before hmax al s p ranks = incl_empty s"
      unfolding incl ompi_group_incl_plist_def ompi_group_incl_strided_def
        ompi_group_incl_spor_def ompi_group_incl_bmap_def by simp
    with incl_empty_makes [OF inv] True show ?thesis by (simp add: sub_procs_def rank_of_def)
  next
    case False
    note pre = valid_group_incl_pre [OF inv al v False ranks]
    note D = incl_preD [OF pre]
    have g: "groups s (al_obj al) = None" "al_obj al \<noteq> NULL" using al by (auto simp: al_ok_def)
    have nn: "NULL \<notin> set (sub_procs ps ranks)"
      using distinct_sub_procs(2) [OF V(2) ranks] denotes_not_null [OF V(1)] by blast
    consider "mth = 0" | "mth = 1" "ompi_group_calc_strided ranks \<noteq> - 1" | "mth = 2"
      | "mth = 3" "ompi_group_calc_bmap (int (length ps)) ranks \<noteq> - 1" "sparse"
      using minloc_choice [OF refl] unfolding mth_def by (cases sparse) (metis, simp)
    then show ?thesis
    proof cases
      case 1
      with incl_plist_ok [OF inv al V(1,3,2) False ranks D(7)] dense_makes [OF inv g _ nn] incl
      show ?thesis by auto
    next
      case 2
      with incl_strided_ok [OF pre 2(2)] incl show ?thesis
        by (auto intro!: sparse_makes [OF inv g(2) D(3) V(4)] simp: sparse_holds_def)
    next
      case 3
      with incl_spor_ok [OF pre, of before] incl show ?thesis
        by (auto intro!: sparse_makes [OF inv g(2) D(3) V(4)] simp: sparse_holds_def)
    next
      case 4
      have "grp_my_rank P \<noteq> MPI_UNDEFINED" using 4 bm by auto
      with 4 incl_bmap_ok [OF pre 4(2)] incl show ?thesis
        by (auto intro!: sparse_makes [OF inv g(2) D(3) V(4)] simp: sparse_holds_def)
    qed
  qed
qed

section \<open>Excluding ranks and ranges\<close>

lemma idxs_distinct: "distinct (idxs n)" "ranks_in n (idxs n)" if "0 \<le> n" for n
  using that by (auto simp: idxs_def distinct_map ranks_in_def)

lemma set_idxs: "set (idxs n) = {i. 0 \<le> i \<and> i < n}"
proof (rule set_eqI)
  fix x
  show "x \<in> set (idxs n) \<longleftrightarrow> x \<in> {i. 0 \<le> i \<and> i < n}"
  proof
    assume "x \<in> {i. 0 \<le> i \<and> i < n}"
    then show "x \<in> set (idxs n)" by (auto simp: idxs_def intro!: image_eqI [of _ _ "nat x"])
  qed (auto simp: idxs_def)
qed

lemma sub_procs_filter:
  "sub_procs ps (filter (\<lambda>i. f (ps ! nat i)) (idxs (int (length ps)))) = filter f ps"
proof -
  have "sub_procs ps (filter (\<lambda>i. f (ps ! nat i)) (idxs (int (length ps)))) =
      filter f (sub_procs ps (idxs (int (length ps))))"
    by (simp add: sub_procs_def filter_map comp_def)
  then show ?thesis by (simp add: sub_procs_def nth_idxs)
qed

lemma length_filter_not_listed:
  assumes "ranks_in n ranks" "0 \<le> n"
  shows "int (length (filter (\<lambda>i. i \<notin> set ranks) (idxs n))) = n - int (card (set ranks))"
proof -
  have "length (filter (\<lambda>i. i \<notin> set ranks) (idxs n)) = card (set (idxs n) - set ranks)"
    using idxs_distinct [OF assms(2)]
    by (subst distinct_length_filter) (auto intro!: arg_cong [where f = card])
  also have "\<dots> = card (set (idxs n)) - card (set ranks)"
    using assms by (intro card_Diff_subset) (auto simp: set_idxs ranks_in_def)
  also have "card (set (idxs n)) = nat n"
    by (simp add: idxs_def card_image)
  finally have "length (filter (\<lambda>i. i \<notin> set ranks) (idxs n)) = nat n - card (set ranks)" .
  moreover have "card (set ranks) \<le> card (set (idxs n))"
    using assms by (intro card_mono) (auto simp: set_idxs ranks_in_def)
  ultimately show ?thesis using assms(2) by (simp add: idxs_def card_image)
qed

lemma not_listed_ok:
  assumes "distinct ranks" "ranks_in n ranks" "0 \<le> n"
  shows "not_listed (n - int (length ranks)) n ranks = Some (filter (\<lambda>i. i \<notin> set ranks) (idxs n))"
  using length_filter_not_listed [OF assms(2,3)] assms(1)
  by (simp add: not_listed_def distinct_card)

definition excluded_procs :: "ptr list \<Rightarrow> int list \<Rightarrow> ptr list" where
  "excluded_procs ps ranks = filter (\<lambda>p. p \<notin> set (sub_procs ps ranks)) ps"

lemma sub_procs_not_listed:
  assumes "distinct ps" "ranks_in (int (length ps)) ranks"
  shows "sub_procs ps (filter (\<lambda>i. i \<notin> set ranks) (idxs (int (length ps)))) = excluded_procs ps ranks"
proof -
  have "i \<notin> set ranks \<longleftrightarrow> ps ! nat i \<notin> set (sub_procs ps ranks)" if "i \<in> set (idxs (int (length ps)))" for i
  proof -
    have i: "i \<in> {r. 0 \<le> r \<and> r < int (length ps)}" using that by (simp add: set_idxs)
    have sub: "set ranks \<subseteq> {r. 0 \<le> r \<and> r < int (length ps)}" using assms(2) by (auto simp: ranks_in_def)
    show ?thesis
      using inj_on_image_mem_iff [OF inj_on_nth_nat [OF assms(1)] i sub] by (simp add: sub_procs_def)
  qed
  then have "filter (\<lambda>i. i \<notin> set ranks) (idxs (int (length ps))) =
      filter (\<lambda>i. ps ! nat i \<notin> set (sub_procs ps ranks)) (idxs (int (length ps)))"
    by (rule filter_cong [OF refl])
  then show ?thesis using sub_procs_filter [of ps "\<lambda>p. p \<notin> set (sub_procs ps ranks)"]
    by (simp add: excluded_procs_def)
qed

lemma excl_makes:
  assumes inv: "gs_inv hmax s" and al: "al_ok al s" and v: "valid_group s p ps P"
    and ranks: "distinct ranks" "ranks_in (int (length ps)) ranks"
    and bm: "grp_my_rank P = MPI_UNDEFINED \<Longrightarrow> \<not> sparse"
  shows "makes_group hmax s (ompi_group_excl sparse before hmax al s p ranks) (excluded_procs ps ranks)
    (rank_of (filter (\<lambda>i. i \<notin> set ranks) (idxs (int (length ps)))) (grp_my_rank P))"
proof -
  let ?rs = "filter (\<lambda>i. i \<notin> set ranks) (idxs (int (length ps)))"
  have V: "denotes s p ps" "distinct ps" using v by (auto simp: valid_group_def)
  have "?rs = []" if "\<not> 0 < int (length ps) - int (length ranks)"
  proof -
    have "int (length ?rs) = int (length ps) - int (length ranks)"
      using length_filter_not_listed [OF ranks(2)] ranks(1) by (simp add: distinct_card)
    with that have "int (length ?rs) \<le> 0" by simp
    then show ?thesis by simp
  qed
  then have "ompi_group_excl sparse before hmax al s p ranks =
      ompi_group_incl sparse before hmax al s p ?rs"
    using not_listed_ok [OF ranks]
    by (simp add: ompi_group_excl_def denotes_size [OF V(1)] Let_def)
  moreover have "distinct ?rs" "ranks_in (int (length ps)) ?rs"
    by (auto simp: set_idxs ranks_in_def idxs_distinct)
  ultimately show ?thesis
    using incl_makes [OF inv al v, of ?rs] bm sub_procs_not_listed [OF V(2) ranks(2)] by simp
qed

text \<open>The arithmetic progressions of the triplets. A triplet is proper when its stride leads from the
  first to the last rank and the first index beyond the last rank is still an \<^verbatim>\<open>int\<close>.\<close>

fun int_triplet :: "int \<times> int \<times> int \<Rightarrow> bool" where
  "int_triplet (f, l, st) \<longleftrightarrow>
     INT_MIN \<le> f \<and> f \<le> INT_MAX \<and> INT_MIN \<le> l \<and> l \<le> INT_MAX \<and> INT_MIN \<le> st \<and> st \<le> INT_MAX"

fun proper_triplet :: "int \<times> int \<times> int \<Rightarrow> bool" where
  "proper_triplet (f, l, st) \<longleftrightarrow> f = l \<or>
     f < l \<and> 0 < st \<and> f + ((l - f) div st + 1) * st \<le> INT_MAX \<or>
     f > l \<and> st < 0 \<and> INT_MIN \<le> f + ((l - f) div st + 1) * st"

fun progression :: "int \<times> int \<times> int \<Rightarrow> int list" where
  "progression (f, l, st) =
     (if f = l then [f] else map (\<lambda>k. f + int k * st) [0..<Suc (nat ((l - f) div st))])"

lemma push_rank_eq: "push_rank acc r = (if int (length acc) + 1 \<le> INT_MAX then Some (acc @ [r]) else None)"
  by (simp add: push_rank_def cadd_def)

lemma up_loop_eq:
  assumes "0 < st" "f \<le> l" "INT_MIN \<le> f" "l \<le> INT_MAX"
  shows "up_loop f l st acc =
    (if f + ((l - f) div st + 1) * st \<le> INT_MAX \<and> int (length acc) + ((l - f) div st + 1) \<le> INT_MAX
     then Some (acc @ map (\<lambda>k. f + int k * st) [0..<Suc (nat ((l - f) div st))]) else None)"
  using assms(2,3)
proof (induction "nat ((l - f) div st)" arbitrary: f acc)
  case 0
  then have z: "(l - f) div st = 0" using assms(1) pos_imp_zdiv_nonneg_iff [of st "l - f"] by simp
  then have "l < f + st"
    using assms(1) mult_div_mod_eq [of st "l - f"] pos_mod_bound [of st "l - f"] by simp
  moreover from this have "up_loop (f + st) l st (acc @ [f]) = Some (acc @ [f])"
    by (subst up_loop.simps) simp
  ultimately show ?case using 0 z assms(1) by (subst up_loop.simps) (simp add: push_rank_eq cadd_def)
next
  case (Suc n)
  have e: "(l - (f + st)) div st = (l - f) div st - 1"
    using div_add_self2 [of st "l - f - st"] assms(1) by (simp add: algebra_simps)
  have q: "0 < (l - f) div st" using Suc.hyps(2) by simp
  then have le: "f + st \<le> l"
    using assms(1) by (simp add: pos_imp_zdiv_pos_iff)
  have n: "n = nat ((l - (f + st)) div st)" using Suc.hyps(2) e by simp
  have lo: "INT_MIN \<le> f + st" using Suc.prems(2) assms(1) by simp
  have "up_loop f l st acc = (if int (length acc) + 1 \<le> INT_MAX then up_loop (f + st) l st (acc @ [f]) else None)"
    using Suc.prems lo le assms(4) by (subst up_loop.simps) (simp add: push_rank_eq cadd_def)
  moreover have "acc @ map (\<lambda>k. f + int k * st) [0..<Suc (nat ((l - f) div st))] =
      (acc @ [f]) @ map (\<lambda>k. f + st + int k * st) [0..<Suc (nat ((l - (f + st)) div st))]"
    unfolding n [symmetric] Suc.hyps(2) [symmetric]
    by (simp add: upt_conv_Cons map_Suc_upt [symmetric] comp_def algebra_simps del: upt_Suc)
  moreover have "f + st + ((l - (f + st)) div st + 1) * st = f + ((l - f) div st + 1) * st"
    "int (length (acc @ [f])) + ((l - (f + st)) div st + 1) = int (length acc) + ((l - f) div st + 1)"
    unfolding e by (simp_all add: algebra_simps)
  ultimately show ?case using Suc.hyps(1) [OF n le lo, of "acc @ [f]"] q by (simp del: upt_Suc)
qed

lemma down_loop_eq:
  assumes "0 < d" "l \<le> f" "f \<le> INT_MAX" "INT_MIN \<le> l"
  shows "down_loop f l (- d) acc =
    (if INT_MIN \<le> f - ((f - l) div d + 1) * d \<and> int (length acc) + ((f - l) div d + 1) \<le> INT_MAX
     then Some (acc @ map (\<lambda>k. f - int k * d) [0..<Suc (nat ((f - l) div d))]) else None)"
  using assms(2,3)
proof (induction "nat ((f - l) div d)" arbitrary: f acc)
  case 0
  then have z: "(f - l) div d = 0" using assms(1) pos_imp_zdiv_nonneg_iff [of d "f - l"] by simp
  then have "f - d < l"
    using assms(1) mult_div_mod_eq [of d "f - l"] pos_mod_bound [of d "f - l"] by simp
  moreover from this have "down_loop (f - d) l (- d) (acc @ [f]) = Some (acc @ [f])"
    by (subst down_loop.simps) simp
  ultimately show ?case using 0 z assms(1) by (subst down_loop.simps) (simp add: push_rank_eq cadd_def)
next
  case (Suc n)
  have e: "(f - d - l) div d = (f - l) div d - 1"
    using div_add_self2 [of d "f - d - l"] assms(1) by (simp add: algebra_simps)
  have q: "0 < (f - l) div d" using Suc.hyps(2) by simp
  then have le: "l \<le> f - d"
    using assms(1) by (simp add: pos_imp_zdiv_pos_iff)
  have n: "n = nat ((f - d - l) div d)" using Suc.hyps(2) e by simp
  have hi: "f - d \<le> INT_MAX" using Suc.prems(2) assms(1) by simp
  have "down_loop f l (- d) acc = (if int (length acc) + 1 \<le> INT_MAX then down_loop (f - d) l (- d) (acc @ [f]) else None)"
    using Suc.prems hi le assms(4) by (subst down_loop.simps) (simp add: push_rank_eq cadd_def)
  moreover have "acc @ map (\<lambda>k. f - int k * d) [0..<Suc (nat ((f - l) div d))] =
      (acc @ [f]) @ map (\<lambda>k. f - d - int k * d) [0..<Suc (nat ((f - d - l) div d))]"
    unfolding n [symmetric] Suc.hyps(2) [symmetric]
    by (simp add: upt_conv_Cons map_Suc_upt [symmetric] comp_def algebra_simps del: upt_Suc)
  moreover have "f - d - ((f - d - l) div d + 1) * d = f - ((f - l) div d + 1) * d"
    "int (length (acc @ [f])) + ((f - d - l) div d + 1) = int (length acc) + ((f - l) div d + 1)"
    unfolding e by (simp_all add: algebra_simps)
  ultimately show ?case using Suc.hyps(1) [OF n le hi, of "acc @ [f]"] q by (simp del: upt_Suc)
qed

lemma up_loop_stuck: "up_loop f l st acc = Some rs \<Longrightarrow> \<not> (f \<le> l \<and> st \<le> 0)"
proof (erule up_loop.raw_induct [where P = "\<lambda>f l st acc rs. \<not> (f \<le> l \<and> st \<le> 0)", rotated])
  fix loop and f l st :: int and acc rs :: "int list"
  assume IH: "\<And>f l st acc rs. loop f l st acc = Some rs \<Longrightarrow> \<not> (f \<le> l \<and> st \<le> 0)"
    and st: "(if f \<le> l then do { acc \<leftarrow> push_rank acc f; f \<leftarrow> cadd f st; loop f l st acc } else Some acc) = Some rs"
  show "\<not> (f \<le> l \<and> st \<le> 0)"
  proof
    assume A: "f \<le> l \<and> st \<le> 0"
    with st obtain acc' where "loop (f + st) l st acc' = Some rs"
      by (auto simp: bind_eq_Some_conv cadd_def split: if_splits)
    from IH [OF this] A show False by linarith
  qed
qed

lemma down_loop_stuck: "down_loop f l st acc = Some rs \<Longrightarrow> \<not> (l \<le> f \<and> 0 \<le> st)"
proof (erule down_loop.raw_induct [where P = "\<lambda>f l st acc rs. \<not> (l \<le> f \<and> 0 \<le> st)", rotated])
  fix loop and f l st :: int and acc rs :: "int list"
  assume IH: "\<And>f l st acc rs. loop f l st acc = Some rs \<Longrightarrow> \<not> (l \<le> f \<and> 0 \<le> st)"
    and st: "(if l \<le> f then do { acc \<leftarrow> push_rank acc f; f \<leftarrow> cadd f st; loop f l st acc } else Some acc) = Some rs"
  show "\<not> (l \<le> f \<and> 0 \<le> st)"
  proof
    assume A: "l \<le> f \<and> 0 \<le> st"
    with st obtain acc' where "loop (f + st) l st acc' = Some rs"
      by (auto simp: bind_eq_Some_conv cadd_def split: if_splits)
    from IH [OF this] A show False by linarith
  qed
qed

lemma triplet_loop_eq:
  assumes "int_triplet x" "int (length acc) \<le> INT_MAX"
  shows "triplet_loop x acc =
    (if proper_triplet x \<and> int (length acc + length (progression x)) \<le> INT_MAX then Some (acc @ progression x) else None)"
proof -
  obtain f l st where x: "x = (f, l, st)" by (cases x)
  have b: "INT_MIN \<le> f" "f \<le> INT_MAX" "INT_MIN \<le> l" "l \<le> INT_MAX" using assms(1) x by simp_all
  consider "f = l" | "f < l" "0 < st" | "f > l" "st < 0" | "f < l" "st \<le> 0" | "f > l" "0 \<le> st" by linarith
  then show ?thesis
  proof cases
    case 2
    have "0 \<le> (l - f) div st" using 2 by (simp add: pos_imp_zdiv_nonneg_iff)
    then have "int (length acc + length (progression x)) = int (length acc) + ((l - f) div st + 1)"
      using 2 by (simp add: x del: upt_Suc)
    then show ?thesis using 2 x up_loop_eq [of st f l acc] b by (simp del: upt_Suc of_nat_add)
  next
    case 3
    have q: "(f - l) div (- st) = (l - f) div st" using div_minus_minus [of "l - f" st] by simp
    have "0 \<le> (l - f) div st" using 3 by (simp add: neg_imp_zdiv_nonneg_iff)
    then have "int (length acc + length (progression x)) = int (length acc) + ((l - f) div st + 1)"
      using 3 by (simp add: x del: upt_Suc)
    then show ?thesis using 3 x q down_loop_eq [of "- st" l f acc] b by (simp del: upt_Suc of_nat_add)
  next
    case 4
    then have "up_loop f l st acc = None" using up_loop_stuck [of f l st acc] by (cases "up_loop f l st acc") auto
    with 4 x show ?thesis by simp
  next
    case 5
    then have "down_loop f l st acc = None" using down_loop_stuck [of f l st acc] by (cases "down_loop f l st acc") auto
    with 5 x show ?thesis by simp
  qed (use x in \<open>simp add: push_rank_eq\<close>)
qed

lemma triplet_ranks_eq:
  assumes "list_all int_triplet ts" "int (length acc) \<le> INT_MAX"
  shows "triplet_ranks ts acc =
    (if list_all proper_triplet ts \<and> int (length (acc @ concat (map progression ts))) \<le> INT_MAX
     then Some (acc @ concat (map progression ts)) else None)"
  using assms
proof (induction ts arbitrary: acc)
  case (Cons x ts)
  then show ?case
    using triplet_loop_eq [of x acc] Cons.IH [of "acc @ progression x"]
    by (auto simp del: triplet_loop.simps proper_triplet.simps progression.simps)
qed simp

lemma range_incl_makes:
  assumes "gs_inv hmax s" "al_ok al s" "valid_group s p ps P"
    and ts: "list_all proper_triplet ts" "distinct (concat (map progression ts))"
      "ranks_in (int (length ps)) (concat (map progression ts))"
    and int: "list_all int_triplet ts" "int (length (concat (map progression ts))) \<le> INT_MAX"
    and bm: "grp_my_rank P = MPI_UNDEFINED \<Longrightarrow> \<not> sparse"
  shows "makes_group hmax s (ompi_group_range_incl sparse before hmax al s p ts)
    (sub_procs ps (concat (map progression ts))) (rank_of (concat (map progression ts)) (grp_my_rank P))"
  using incl_makes [OF assms(1-3) ts(2,3) bm] ts(1) triplet_ranks_eq [of ts "[]", OF int(1)] int(2)
  by (simp add: ompi_group_range_incl_def)

lemma range_excl_makes:
  assumes inv: "gs_inv hmax s" "al_ok al s" "valid_group s p ps P"
    and ts: "list_all proper_triplet ts" "distinct (concat (map progression ts))"
      "ranks_in (int (length ps)) (concat (map progression ts))"
    and int: "list_all int_triplet ts" "int (length (concat (map progression ts))) \<le> INT_MAX"
    and bm: "grp_my_rank P = MPI_UNDEFINED \<Longrightarrow> \<not> sparse"
  shows "makes_group hmax s (ompi_group_range_excl sparse before hmax al s p ts)
    (excluded_procs ps (concat (map progression ts)))
    (rank_of (filter (\<lambda>i. i \<notin> set (concat (map progression ts))) (idxs (int (length ps)))) (grp_my_rank P))"
proof -
  let ?ex = "concat (map progression ts)"
  let ?rs = "filter (\<lambda>i. i \<notin> set ?ex) (idxs (int (length ps)))"
  have V: "denotes s p ps" "distinct ps" using inv(3) by (auto simp: valid_group_def)
  have "ompi_group_range_excl sparse before hmax al s p ts = ompi_group_incl sparse before hmax al s p ?rs"
    using not_listed_ok [OF ts(2,3)] triplet_ranks_eq [of ts "[]", OF int(1)] ts(1) int(2)
    by (simp add: ompi_group_range_excl_def denotes_size [OF V(1)] del: set_concat)
  moreover have "distinct ?rs" "ranks_in (int (length ps)) ?rs"
    by (auto simp: set_idxs ranks_in_def idxs_distinct)
  ultimately show ?thesis
    using incl_makes [OF inv, of ?rs] bm sub_procs_not_listed [OF V(2) ts(3)] by simp
qed

section \<open>Set operations\<close>

text \<open>The calling process as a member of one of two groups.\<close>

definition own_of_two :: "ptr list \<Rightarrow> ompi_group_t \<Rightarrow> ptr list \<Rightarrow> ompi_group_t \<Rightarrow> ptr option" where
  "own_of_two ps P qs Q =
     (if grp_my_rank P \<noteq> MPI_UNDEFINED then Some (ps ! nat (grp_my_rank P))
      else if grp_my_rank Q \<noteq> MPI_UNDEFINED then Some (qs ! nat (grp_my_rank Q)) else None)"

lemma own_proc_of_two_extends:
  assumes "valid_group s g1 ps P" "valid_group s g2 qs Q" "extends s s'"
  shows "own_proc_of_two s' g1 g2 = Some (own_of_two ps P qs Q)"
proof -
  have V: "denotes s g1 ps" "groups s g1 = Some P" "my_rank_ok (int (length ps)) (grp_my_rank P)"
    "denotes s g2 qs" "groups s g2 = Some Q" "my_rank_ok (int (length qs)) (grp_my_rank Q)"
    using assms by (auto simp: valid_group_def)
  have "ompi_group_rank s' g1 = Some (grp_my_rank P)"
    using V(2) assms(3) by (simp add: extends_def ompi_group_rank_def)
  then show ?thesis
    using own_proc_extends [OF V(1-3) assms(3)] own_proc_extends [OF V(4-6) assms(3)]
    by (simp add: own_proc_of_two_def own_of_two_def)
qed

lemma own_of_two_not_null:
  assumes "valid_group s g1 ps P" "valid_group s g2 qs Q"
  shows "own_of_two ps P qs Q \<noteq> Some NULL"
proof -
  have *: "xs ! nat r \<noteq> NULL" if "valid_group s g xs G" "r = grp_my_rank G" "r \<noteq> MPI_UNDEFINED" for g xs G r
    using that denotes_not_null [of s g xs] nth_mem [of "nat r" xs]
    unfolding valid_group_def my_rank_ok_def by (metis nat_less_iff)
  show ?thesis using *[OF assms(1)] *[OF assms(2)] by (auto simp: own_of_two_def)
qed

lemma union_makes:
  assumes inv: "gs_inv hmax s" and al: "al_ok al s"
    and v: "valid_group s g1 ps P" "valid_group s g2 qs Q"
  defines "us \<equiv> ps @ filter (\<lambda>q. q \<notin> set ps) qs"
  shows "makes_group hmax s (ompi_group_union hmax al s g1 g2) us
    (case_option MPI_UNDEFINED (rank_of us) (own_of_two ps P qs Q))"
proof -
  have V: "denotes s g1 ps" "distinct ps" "denotes s g2 qs" "distinct qs"
    using v by (auto simp: valid_group_def)
  have n: "ompi_group_size s g1 = Some (int (length ps))" "ompi_group_size s g2 = Some (int (length qs))"
    using denotes_size V by auto
  have us: "distinct us" "NULL \<notin> set us"
    using V denotes_not_null by (auto simp: us_def)
  have c: "union_procs s' g1 g2 = Some us" if "extends s s'" for s'
    using V(1,3) [THEN denotes_keeps, OF extends_keeps [OF that]]
    by (simp add: union_procs_def denotes_size lookup_all outside_all us_def)
  show ?thesis
  proof (cases "us = []")
    case True
    then have e: "ps = []" "qs = []" by (auto simp: us_def)
    then have "own_of_two ps P qs Q = None"
      using v by (auto simp: own_of_two_def valid_group_def my_rank_ok_def)
    moreover have "ompi_group_union hmax al s g1 g2 = incl_empty s"
      using outside_all [OF V(1,3)] e n by (simp add: ompi_group_union_def)
    ultimately show ?thesis using incl_empty_makes [OF inv] True by simp
  next
    case False
    have u: "ompi_group_union hmax al s g1 g2 = fill_dense hmax al s (int (length us))
        (\<lambda>s. union_procs s g1 g2) (\<lambda>s. own_proc_of_two s g1 g2)"
    proof -
      have "int (length ps) + int (length (filter (\<lambda>q. q \<notin> set ps) qs)) = int (length us)"
        by (simp add: us_def)
      with outside_all [OF V(1,3)] n False show ?thesis by (simp add: ompi_group_union_def Let_def)
    qed
    obtain i t where "fill_dense hmax al s (int (length us)) (\<lambda>s. union_procs s g1 g2)
        (\<lambda>s. own_proc_of_two s g1 g2) = Some (OMPI_SUCCESS, al_obj al,
      put_group (al_obj al) (dense_group i us (case_option MPI_UNDEFINED (rank_of us) (own_of_two ps P qs Q)))
        (add_refs 1 us (s\<lparr>f_to_c := t\<rparr>)))" "handle_added (f_to_c s) i (al_obj al) t"
      by (rule fill_dense_ok [OF inv al refl us(2,1), where m = "own_of_two ps P qs Q"
            and collect = "\<lambda>s. union_procs s g1 g2" and me = "\<lambda>s. own_proc_of_two s g1 g2"])
        (use c own_proc_of_two_extends [OF v] own_of_two_not_null [OF v] in auto)
    with dense_makes [OF inv _ _ _ us(2)] al u show ?thesis by (simp add: al_ok_def)
  qed
qed

lemma difference_procs_filter:
  assumes "valid_group s g1 ps P" "valid_group s g2 qs Q" "extends s s'"
  shows "difference_procs s' g1 g2 = Some (filter (\<lambda>p. p \<notin> set qs) ps)"
proof -
  have "denotes s' g1 ps" "denotes s' g2 qs"
    using assms denotes_keeps extends_keeps by (auto simp: valid_group_def)
  then show ?thesis by (simp add: difference_procs_def denotes_size outside_all)
qed

lemma difference_dense:
  assumes inv: "gs_inv hmax s" and al: "al_ok al s"
    and v: "valid_group s g1 ps P" "valid_group s g2 qs Q"
    and ne: "filter (\<lambda>p. p \<notin> set qs) ps \<noteq> []"
  obtains i t where "ompi_group_difference hmax al s g1 g2 = Some (OMPI_SUCCESS, al_obj al,
      put_group (al_obj al) (dense_group i (filter (\<lambda>p. p \<notin> set qs) ps)
          (case_option MPI_UNDEFINED (rank_of (filter (\<lambda>p. p \<notin> set qs) ps)) (own_of_two ps P qs Q)))
        (add_refs 1 (filter (\<lambda>p. p \<notin> set qs) ps) (s\<lparr>f_to_c := t\<rparr>)))"
    "handle_added (f_to_c s) i (al_obj al) t"
proof -
  let ?ds = "filter (\<lambda>p. p \<notin> set qs) ps"
  have ds: "distinct ?ds" "NULL \<notin> set ?ds"
    using v denotes_not_null by (auto simp: valid_group_def)
  note c = difference_procs_filter [OF v]
  have c0: "difference_procs s g1 g2 = Some ?ds" by (rule c) (simp add: extends_def)
  have u: "ompi_group_difference hmax al s g1 g2 = fill_dense hmax al s (int (length ?ds))
      (\<lambda>s. difference_procs s g1 g2) (\<lambda>s. own_proc_of_two s g1 g2)"
    using c0 ne by (simp add: ompi_group_difference_def Let_def)
  obtain i t where "fill_dense hmax al s (int (length ?ds)) (\<lambda>s. difference_procs s g1 g2)
      (\<lambda>s. own_proc_of_two s g1 g2) = Some (OMPI_SUCCESS, al_obj al,
    put_group (al_obj al) (dense_group i ?ds (case_option MPI_UNDEFINED (rank_of ?ds) (own_of_two ps P qs Q)))
      (add_refs 1 ?ds (s\<lparr>f_to_c := t\<rparr>)))" "handle_added (f_to_c s) i (al_obj al) t"
    by (rule fill_dense_ok [OF inv al refl ds(2,1), where m = "own_of_two ps P qs Q"
          and collect = "\<lambda>s. difference_procs s g1 g2" and me = "\<lambda>s. own_proc_of_two s g1 g2"])
      (use c own_proc_of_two_extends [OF v] own_of_two_not_null [OF v] in auto)
  with u that show ?thesis by simp
qed

lemma difference_makes:
  assumes inv: "gs_inv hmax s" and al: "al_ok al s"
    and v: "valid_group s g1 ps P" "valid_group s g2 qs Q"
  defines "ds \<equiv> filter (\<lambda>p. p \<notin> set qs) ps"
  shows "makes_group hmax s (ompi_group_difference hmax al s g1 g2) ds
    (if ds = [] then MPI_UNDEFINED else case_option MPI_UNDEFINED (rank_of ds) (own_of_two ps P qs Q))"
proof (cases "ds = []")
  case True
  have "difference_procs s g1 g2 = Some ds"
    unfolding ds_def by (rule difference_procs_filter [OF v]) (simp add: extends_def)
  with True incl_empty_makes [OF inv] show ?thesis by (simp add: ompi_group_difference_def)
next
  case False
  then obtain i t where "ompi_group_difference hmax al s g1 g2 = Some (OMPI_SUCCESS, al_obj al,
      put_group (al_obj al) (dense_group i ds (case_option MPI_UNDEFINED (rank_of ds) (own_of_two ps P qs Q)))
        (add_refs 1 ds (s\<lparr>f_to_c := t\<rparr>)))" "handle_added (f_to_c s) i (al_obj al) t"
    using difference_dense [OF inv al v] unfolding ds_def by blast
  moreover have "distinct ds" "NULL \<notin> set ds"
    using v denotes_not_null by (auto simp: ds_def valid_group_def)
  ultimately show ?thesis using dense_makes [OF inv] al False by (simp add: al_ok_def)
qed

text \<open>The intersection includes the ranks of the common members.\<close>

definition common_ranks :: "ptr list \<Rightarrow> ptr list \<Rightarrow> int list" where
  "common_ranks ps qs = filter (\<lambda>i. ps ! nat i \<in> set qs) (idxs (int (length ps)))"

lemma common_ranks:
  "distinct (common_ranks ps qs)" "ranks_in (int (length ps)) (common_ranks ps qs)"
  "sub_procs ps (common_ranks ps qs) = filter (\<lambda>p. p \<in> set qs) ps"
  using sub_procs_filter [of ps "\<lambda>p. p \<in> set qs"]
  by (auto simp: common_ranks_def set_idxs ranks_in_def idxs_distinct)

lemma intersection_incl:
  assumes v: "valid_group s g1 ps P" "valid_group s g2 qs Q"
  shows "ompi_group_intersection sparse before hmax al s g1 g2 =
    ompi_group_incl sparse before hmax al s g1 (common_ranks ps qs)"
proof -
  let ?rs = "common_ranks ps qs"
  have V: "denotes s g1 ps" "distinct ps" "denotes s g2 qs" "distinct qs"
    using v by (auto simp: valid_group_def)
  have len: "length ?rs = length (filter (\<lambda>p. p \<in> set qs) ps)"
    using arg_cong [OF common_ranks(3), of length ps qs] by (simp add: sub_procs_def)
  have "length (filter (\<lambda>p. p \<in> set qs) ps) = card (set ps \<inter> set qs)"
    using V(2) by (subst distinct_length_filter) (auto simp: Int_commute)
  also have "\<dots> \<le> length qs" using card_length [of qs] card_mono [of "set qs" "set ps \<inter> set qs"] by simp
  finally have "length ?rs \<le> length qs" "length ?rs \<le> length ps" by (simp_all add: len)
  then show ?thesis
    using inside_filter [OF V(3,1) ranks_in_idxs]
    by (simp add: ompi_group_intersection_def denotes_size [OF V(1)] denotes_size [OF V(3)] Let_def
        common_ranks_def)
qed

lemma intersection_makes:
  assumes inv: "gs_inv hmax s" "al_ok al s"
    and v: "valid_group s g1 ps P" "valid_group s g2 qs Q"
    and bm: "grp_my_rank P = MPI_UNDEFINED \<Longrightarrow> \<not> sparse"
  shows "makes_group hmax s (ompi_group_intersection sparse before hmax al s g1 g2)
    (filter (\<lambda>p. p \<in> set qs) ps)
    (rank_of (filter (\<lambda>i. ps ! nat i \<in> set qs) (idxs (int (length ps)))) (grp_my_rank P))"
  using incl_makes [where ranks = "common_ranks ps qs", OF inv v(1) common_ranks(1,2) bm] common_ranks(3) [of ps qs] intersection_incl [OF v]
  by (simp add: common_ranks_def)

section \<open>Comparison and translation\<close>

lemma denotes_unique: "denotes s g ps \<Longrightarrow> denotes s g qs \<Longrightarrow> ps = qs"
  using lookup_all [of s g ps] lookup_all [of s g qs] denotes_size [of s g ps] denotes_size [of s g qs]
  by simp

lemma compare_denotes:
  assumes d: "denotes s g1 ps" "denotes s g2 qs" and q: "distinct ps" "distinct qs"
    and e: "g1 \<noteq> MPI_GROUP_EMPTY" "g2 \<noteq> MPI_GROUP_EMPTY"
  shows "ompi_group_compare s g1 g2 = Some (OMPI_SUCCESS,
    if ps = qs then MPI_IDENT else if set ps = set qs then MPI_SIMILAR else MPI_UNEQUAL)"
proof (cases "g1 = g2")
  case True
  then have "ps = qs" using d denotes_unique by metis
  with True show ?thesis by (simp add: ompi_group_compare_def)
next
  case False
  show ?thesis
  proof (cases "length ps = length qs")
    case True
    have "set ps \<subseteq> set qs \<longleftrightarrow> set ps = set qs"
      using q True card_subset_eq [of "set qs" "set ps"] by (auto simp: distinct_card)
    with compare_loop_spec [OF d True [symmetric] q(2), of 0 True] False e show ?thesis
      using True by (simp add: ompi_group_compare_def denotes_size [OF d(1)] denotes_size [OF d(2)])
  next
    case ne: False
    then have "set ps \<noteq> set qs" using q by (metis distinct_card)
    with ne False e show ?thesis
      by (auto simp: ompi_group_compare_def denotes_size [OF d(1)] denotes_size [OF d(2)])
  qed
qed

lemma rank_of_nth: "distinct qs \<Longrightarrow> 0 \<le> r \<Longrightarrow> r < int (length qs) \<Longrightarrow> rank_of qs (qs ! nat r) = r"
  by (simp add: rank_of_def index_of_nth nat_less_iff)

lemma rank_to_parent_proc_null: "sparse_holds G n rs \<Longrightarrow> rank_to_parent G MPI_PROC_NULL = Some (Some MPI_PROC_NULL)"
  by (auto simp: sparse_holds_def rank_to_parent_def translate_rank_sporadic_reverse_def
      translate_rank_strided_reverse_def translate_rank_bmap_reverse_def split: sparse_data_t.splits)

lemma rank_to_child_proc_null: "sparse_holds G n rs \<Longrightarrow> rank_to_child G MPI_PROC_NULL = Some (Some MPI_PROC_NULL)"
  by (auto simp: sparse_holds_def rank_to_child_def translate_rank_sporadic_def
      translate_rank_strided_def translate_rank_bmap_def split: sparse_data_t.splits)

lemma write_ranks_all:
  assumes "length ranks2 = length ranks1" "\<And>r. r \<in> set ranks1 \<Longrightarrow> f r = Some (Some (h r))"
  shows "write_ranks f ranks1 ranks2 = Some (map h ranks1)"
proof -
  have "those (map (\<lambda>(r, old). map_option (case_option old id) (f r)) (zip ranks1 ranks2)) =
      Some (map (\<lambda>(r, old). h r) (zip ranks1 ranks2))"
    using assms(2) by (intro those_map) (auto dest: set_zip_leftD)
  also have "map (\<lambda>(r, old). h r) (zip ranks1 ranks2) = map h (map fst (zip ranks1 ranks2))"
    by (simp add: case_prod_beta comp_def)
  finally show ?thesis using assms(1) by (simp add: write_ranks_def)
qed

definition translated :: "ptr list \<Rightarrow> ptr list \<Rightarrow> int \<Rightarrow> int" where
  "translated ps qs r = (if r = MPI_PROC_NULL then MPI_PROC_NULL else rank_of qs (ps ! nat r))"

lemma translate_to_parent:
  assumes "denotes s g1 ps" "groups s g1 = Some G" "denotes s (grp_parent_group_ptr G) qs" "distinct qs"
    "groups s NULL = None" "r = MPI_PROC_NULL \<or> 0 \<le> r \<and> r < int (length ps)"
  shows "rank_to_parent G r = Some (Some (translated ps qs r))"
  using assms(1)
proof (cases rule: denotes.cases)
  case (dense G')
  with assms(2,3,5) denotes_live [of s NULL qs] show ?thesis by simp
next
  case (sparse G' qs' rs)
  with assms(2) have G: "G' = G" by simp
  with sparse assms(3) have q: "qs' = qs" using denotes_unique by metis
  note h = sparse(7) [unfolded G q]
  show ?thesis
  proof (cases "r = MPI_PROC_NULL")
    case True
    with rank_to_parent_proc_null [OF h] show ?thesis by (simp add: translated_def)
  next
    case False
    with assms(6) have r: "0 \<le> r" "nat r < length rs" using sparse(1) by auto
    then have "0 \<le> rs ! nat r" "rs ! nat r < int (length qs)"
      using sparse_holds_range [OF h] nth_mem [OF r(2)] by (auto simp: ranks_in_def)
    then have "translated ps qs r = rs ! nat r"
      using False r sparse(1) q rank_of_nth [OF assms(4)] by (simp add: translated_def)
    with sparse_holds_to_parent [OF h r(2)] r(1) show ?thesis by simp
  qed
qed

lemma translate_to_child:
  assumes "denotes s g2 qs" "groups s g2 = Some G" "denotes s (grp_parent_group_ptr G) ps"
    "distinct ps" "distinct qs" "groups s NULL = None" "r = MPI_PROC_NULL \<or> 0 \<le> r \<and> r < int (length ps)"
  shows "rank_to_child G r = Some (Some (translated ps qs r))"
  using assms(1)
proof (cases rule: denotes.cases)
  case (dense G')
  with assms(2,3,6) denotes_live [of s NULL ps] show ?thesis by simp
next
  case (sparse G' ps' rs)
  with assms(2) have G: "G' = G" by simp
  with sparse assms(3) have p: "ps' = ps" using denotes_unique by metis
  note h = sparse(7) [unfolded G p]
  have qs: "qs = sub_procs ps rs" using sparse(1) p by (simp add: sub_procs_def)
  then have "distinct rs" using assms(5) by (simp add: sub_procs_def distinct_map)
  with sparse_holds_to_child [OF h, of r] rank_to_child_proc_null [OF h]
    rank_of_sub_procs [OF assms(4) sparse_holds_range [OF h], of r] assms(7) qs
  show ?thesis by (auto simp: translated_def)
qed

lemma translate_search:
  assumes "denotes s g1 ps" "denotes s g2 qs" "r = MPI_PROC_NULL \<or> 0 \<le> r \<and> r < int (length ps)"
  shows "translate_by_search s g1 g2 r = Some (translated ps qs r)"
  using assms(3) denotes_lookup_int [OF assms(1), of r] find_proc_index [OF assms(2), of "ps ! nat r"]
  by (cases "index_of qs (ps ! nat r)")
    (auto simp: translate_by_search_def translated_def denotes_size [OF assms(2)] rank_of_def)

lemma translate_denotes:
  assumes d: "denotes s g1 ps" "denotes s g2 qs" and q: "distinct ps" "distinct qs"
    and e: "g1 \<noteq> MPI_GROUP_EMPTY" "g2 \<noteq> MPI_GROUP_EMPTY" "groups s NULL = None"
    and r: "\<And>r. r \<in> set ranks1 \<Longrightarrow> r = MPI_PROC_NULL \<or> 0 \<le> r \<and> r < int (length ps)"
      "length ranks2 = length ranks1"
  shows "ompi_group_translate_ranks s g1 ranks1 g2 ranks2 = Some (MPI_SUCCESS, map (translated ps qs) ranks1)"
proof -
  obtain G1 G2 where G: "groups s g1 = Some G1" "groups s g2 = Some G2"
    using denotes_live [OF d(1)] denotes_live [OF d(2)] by auto
  have p: "write_ranks (rank_to_parent G1) ranks1 ranks2 = Some (map (translated ps qs) ranks1)"
    if "grp_parent_group_ptr G1 = g2"
    using that d q e r by (intro write_ranks_all translate_to_parent [OF d(1) G(1)]) auto
  have c: "write_ranks (rank_to_child G2) ranks1 ranks2 = Some (map (translated ps qs) ranks1)"
    if "grp_parent_group_ptr G2 = g1"
    using that d q e r by (intro write_ranks_all translate_to_child [OF d(2) G(2)]) auto
  have "those (map (translate_by_search s g1 g2) ranks1) = Some (map (translated ps qs) ranks1)"
    using translate_search [OF d] r by (intro those_map) auto
  with p c e G show ?thesis by (simp add: ompi_group_translate_ranks_def)
qed

section \<open>Initialisation\<close>

lemma add_number_free:
  "opal_pointer_array_add mem hmax t p = Some (i, t') \<Longrightarrow> number_free t \<noteq> 0 \<Longrightarrow>
   number_free t' = number_free t - 1"
  by (auto simp: opal_pointer_array_add_def Let_def bind_eq_Some_conv)

lemma construct_ok:
  assumes "pa_inv (f_to_c s)" "max_size (f_to_c s) \<le> hmax" "g \<noteq> NULL" "0 < number_free (f_to_c s)"
  obtains i t where "ompi_group_construct hmax tm s g = Some (put_group g (new_group i) (s\<lparr>f_to_c := t\<rparr>))"
    "handle_added (f_to_c s) i g t" "number_free t = number_free (f_to_c s) - 1"
  using assms(1-3)
proof (cases rule: add_cases [where mem = tm])
  case (added i t)
  then show thesis
    using assms(4) add_number_free [OF added(1)]
    by (intro that [of i t]) (simp_all add: ompi_group_construct_def new_group_def handle_added_def)
next
  case full
  with assms(4) show thesis by simp
qed

lemma set_predefined_new:
  "set_predefined (put_group g (new_group i) b) g my =
   Some (put_group g \<lparr>grp_refcount = 1, grp_proc_count = 0, grp_my_rank = my, grp_f_to_c_index = i,
     grp_proc_pointers = None, grp_flags = OMPI_GROUP_DENSE OR OMPI_GROUP_INTRINSIC,
     grp_parent_group_ptr = NULL, sparse_data = No_sparse\<rparr> b)"
  by (simp add: set_predefined_def new_group_def)

lemma init_ok:
  assumes "64 \<le> hmax" "al_obj al \<notin> {NULL, MPI_GROUP_NULL, MPI_GROUP_EMPTY}" "groups s = Map.empty"
  shows "\<exists>s'. ompi_group_init hmax True al tm1 tm2 s = Some (OMPI_SUCCESS, s') \<and> gs_inv hmax s' \<and>
    denotes s' MPI_GROUP_EMPTY [] \<and> denotes s' MPI_GROUP_NULL [] \<and> denotes s' (all_failed_procs s') []"
proof -
  obtain r t where i: "opal_pointer_array_init True opal_pointer_array_construct 0 hmax 64 = (r, t)"
    by (metis surj_pair)
  note I = pa_inv_init [OF i]
  have nf: "number_free t = 64"
    using i assms(1) by (auto simp: opal_pointer_array_init_def opal_pointer_array_construct_def Let_def)
  let ?P = "\<lambda>i my. \<lparr>grp_refcount = 1, grp_proc_count = 0, grp_my_rank = my, grp_f_to_c_index = i,
     grp_proc_pointers = None, grp_flags = OMPI_GROUP_DENSE OR OMPI_GROUP_INTRINSIC,
     grp_parent_group_ptr = NULL, sparse_data = No_sparse\<rparr> :: ompi_group_t"
  let ?f = "al_obj al" and ?b0 = "s\<lparr>f_to_c := t\<rparr>"
  obtain i1 t1 where 1: "ompi_group_construct hmax (al_table al) ?b0 ?f =
      Some (put_group ?f (new_group i1) (s\<lparr>f_to_c := t1\<rparr>))" "handle_added t i1 ?f t1" "number_free t1 = 63"
    using construct_ok [of ?b0 hmax ?f "al_table al"] I nf assms by auto
  let ?b1 = "put_group ?f (?P i1 MPI_UNDEFINED) (s\<lparr>f_to_c := t1, all_failed_procs := ?f\<rparr>)"
  obtain i2 t2 where 2: "ompi_group_construct hmax tm1 ?b1 MPI_GROUP_NULL =
      Some (put_group MPI_GROUP_NULL (new_group i2) (?b1\<lparr>f_to_c := t2\<rparr>))"
      "handle_added t1 i2 MPI_GROUP_NULL t2" "number_free t2 = 62"
    using construct_ok [of ?b1 hmax MPI_GROUP_NULL tm1] I 1 assms
    by (auto simp: handle_added_def MPI_GROUP_NULL_def)
  let ?b2 = "put_group MPI_GROUP_NULL (?P i2 MPI_PROC_NULL) (?b1\<lparr>f_to_c := t2\<rparr>)"
  obtain i3 t3 where 3: "ompi_group_construct hmax tm2 ?b2 MPI_GROUP_EMPTY =
      Some (put_group MPI_GROUP_EMPTY (new_group i3) (?b2\<lparr>f_to_c := t3\<rparr>))"
      "handle_added t2 i3 MPI_GROUP_EMPTY t3"
  proof (rule construct_ok [of ?b2 hmax MPI_GROUP_EMPTY tm2])
    show "pa_inv (f_to_c ?b2)" "max_size (f_to_c ?b2) \<le> hmax"
      using I 1 2 assms by (simp_all add: handle_added_def)
    show "MPI_GROUP_EMPTY \<noteq> NULL" by (simp add: MPI_GROUP_EMPTY_def)
    show "0 < number_free (f_to_c ?b2)" using 2(3) by simp
  qed simp
  let ?s = "put_group MPI_GROUP_EMPTY (?P i3 MPI_UNDEFINED) (?b2\<lparr>f_to_c := t3\<rparr>)"
  have b1: "(put_group ?f (new_group i1) (s\<lparr>f_to_c := t1\<rparr>))\<lparr>all_failed_procs := ?f\<rparr> =
      put_group ?f (new_group i1) (s\<lparr>f_to_c := t1, all_failed_procs := ?f\<rparr>)" by (simp add: put_group_def)
  have run: "ompi_group_init hmax True al tm1 tm2 s = Some (OMPI_SUCCESS, ?s)"
    using I(1) assms
    by (simp add: ompi_group_init_def i OBJ_NEW_group_def 1(1) b1 set_predefined_new 2(1) 3(1))
  have fl: "has_flag OMPI_GROUP_DENSE (?P j my)" for j my
    by (simp add: has_flag_def OMPI_GROUP_DENSE_def OMPI_GROUP_INTRINSIC_def)
  have d: "denotes ?s g []" if "groups ?s g = Some (?P j my)" for g j my
    using that fl by (intro denotes.dense [of ?s g "?P j my"]) simp_all
  have ne: "MPI_GROUP_EMPTY \<noteq> MPI_GROUP_NULL" "MPI_GROUP_EMPTY \<noteq> NULL" "MPI_GROUP_NULL \<noteq> NULL"
    by (simp_all add: MPI_GROUP_EMPTY_def MPI_GROUP_NULL_def)
  have "gs_inv hmax ?s"
    using I 1(2) 2(2) 3(2) assms ne fl by (auto simp: gs_inv_def handle_added_def)
  moreover have "denotes ?s MPI_GROUP_EMPTY []" by (rule d) simp
  moreover have "denotes ?s MPI_GROUP_NULL []" using ne by (intro d) simp
  moreover have "denotes ?s (all_failed_procs ?s) []" using ne assms by (intro d) simp
  ultimately show ?thesis using run by blast
qed

section \<open>Undefined behaviour\<close>

lemma translate_bmap_undefined: "translate_rank_bmap bm MPI_UNDEFINED = None"
  by (simp add: translate_rank_bmap_def rc_defs BSIZE_def signed_modulo_int_def)

lemma incl_bmap_undefined:
  assumes "gs_inv hmax s" "al_ok al s" "valid_group s g ps P" "ranks \<noteq> []" "distinct ranks"
    "ranks_in (int (length ps)) ranks" "ompi_group_calc_bmap (int (length ps)) ranks \<noteq> - 1"
    "grp_my_rank P = MPI_UNDEFINED"
  shows "ompi_group_incl_bmap hmax al s g ranks = None"
proof -
  let ?g = "al_obj al"
  note pre = valid_group_incl_pre [OF assms(1-6)]
  note D = incl_preD [OF pre]
  obtain i t where new: "new_with_handle hmax al s =
      Some (?g, put_group ?g (new_group i) (s\<lparr>f_to_c := t\<rparr>))"
    by (rule new_with_handle_ok [OF D(1,2)])
  have "check_ranks ranks" using assms(7) by (auto simp: ompi_group_calc_bmap_def split: if_splits)
  from bmap_build_holds [OF this D(5,6)] obtain bm where
    bm: "bmap_build (int (length ps)) ranks = Some bm" "bmap_holds bm (int (length ps)) ranks" by auto
  have alloc: "ompi_group_allocate_bmap hmax al s n m =
      Some (?g, put_group ?g (sparse_group i m MPI_UNDEFINED OMPI_GROUP_BITMAP NULL No_sparse)
        (s\<lparr>f_to_c := t\<rparr>))" for n m
    using D(2) by (simp add: ompi_group_allocate_bmap_def new al_ok_def new_group_def sparse_group_def)
  let ?G = "sparse_group i (int (length ranks)) MPI_UNDEFINED OMPI_GROUP_BITMAP g (Grp_bitmap bm)"
  let ?b = "put_group g (retained P) (add_refs 1 ps (s\<lparr>f_to_c := t\<rparr>))"
  have p': "parent_ok (s\<lparr>f_to_c := t\<rparr>) ?g g ps P" using D(3) by (simp add: parent_ok_table)
  note L = parent_ok_linked [OF p']
  have "keeps ?b (put_group ?g ?G ?b)" by (rule keeps_put_new [OF L(3)])
  from denotes_keeps [OF L(1) this] have "denotes (put_group ?g ?G ?b) ?g (map (\<lambda>r. ps ! nat r) ranks)"
    using D(3) bm(2) L(3)
    by (intro denotes.sparse [of _ ?g ?G]) (simp_all add: parent_ok_def sparse_holds_def)
  moreover have "g \<noteq> ?g" using D(3) by (auto simp: parent_ok_def)
  ultimately have "adopt_rank (put_group ?g ?G ?b) ?g g = None"
    using D(3) assms(8) L(2,3) increment_proc_count
    by (simp add: adopt_rank_def ompi_group_rank_def ompi_group_translate_ranks_def write_ranks_def
        parent_ok_def rank_to_child_def translate_bmap_undefined)
  moreover have "ompi_group_size s g = Some (int (length ps))"
    using D(3) by (auto simp: parent_ok_def denotes_size)
  ultimately show ?thesis
    using assms(4) D(2) link_fresh [OF p']
    by (simp add: ompi_group_incl_bmap_def alloc al_ok_def bm(1))
qed

lemma allocate_undefined:
  assumes "pa_inv (f_to_c s)" "al_obj al \<noteq> NULL"
    "opal_pointer_array_add (al_table al) hmax (f_to_c s) (al_obj al) = Some (OPAL_ERR_OUT_OF_RESOURCE, f_to_c s)"
  shows "ompi_group_allocate hmax al s n = None"
proof -
  have "0 \<le> pa_size (f_to_c s)" using assms(1) by (simp add: pa_inv_def)
  then have "clear_handle b OPAL_ERR_OUT_OF_RESOURCE = None" if "f_to_c b = f_to_c s" for b
    using that by (simp add: clear_handle_def opal_pointer_array_get_item_def rd_def rc_defs)
  moreover have err: "OPAL_ERR_OUT_OF_RESOURCE < 0" by (simp add: rc_defs)
  ultimately show ?thesis
    using assms(2,3)
    by (simp add: ompi_group_allocate_def new_with_handle_def OBJ_NEW_group_def ompi_group_construct_def
        OBJ_RELEASE_group.simps err)
qed

section \<open>A sample state\<close>

definition sample_state :: group_state where
  "sample_state = \<lparr>groups = [MPI_GROUP_EMPTY \<mapsto> (dense_group 0 [] MPI_UNDEFINED)\<lparr>grp_proc_pointers := None\<rparr>,
       10 \<mapsto> dense_group 1 [101, 102, 103, 104, 105] 2, 11 \<mapsto> dense_group 2 [105, 102, 200] MPI_UNDEFINED],
     proc_refs = (\<lambda>_. 5),
     f_to_c = snd (opal_pointer_array_init True opal_pointer_array_construct 0 9 4),
     all_failed_procs = MPI_GROUP_EMPTY\<rparr>"

definition sample_alloc :: alloc where
  "sample_alloc = \<lparr>al_obj = 20, al_array = True, al_table = True\<rparr>"

lemma sample_inv: "gs_inv 9 sample_state"
  by (auto simp: gs_inv_def sample_state_def sample_table MPI_GROUP_EMPTY_def dense_group_def
      has_flag_def OMPI_GROUP_DENSE_def)

lemma sample_alloc_ok: "al_ok sample_alloc sample_state"
  by (simp add: al_ok_def sample_alloc_def sample_state_def MPI_GROUP_EMPTY_def
      opal_pointer_array_init_def)

lemma sample_groups [simp]:
  "groups sample_state 10 = Some (dense_group 1 [101, 102, 103, 104, 105] 2)"
  "groups sample_state 11 = Some (dense_group 2 [105, 102, 200] MPI_UNDEFINED)"
  by (simp_all add: sample_state_def)

lemma sample_valid:
  "valid_group sample_state 10 [101, 102, 103, 104, 105] (dense_group 1 [101, 102, 103, 104, 105] 2)"
  "valid_group sample_state 11 [105, 102, 200] (dense_group 2 [105, 102, 200] MPI_UNDEFINED)"
proof -
  show "valid_group sample_state 10 [101, 102, 103, 104, 105] (dense_group 1 [101, 102, 103, 104, 105] 2)"
    using denotes_dense_group [OF sample_groups(1)]
    by (simp add: valid_group_def my_rank_ok_def dense_group_def)
  show "valid_group sample_state 11 [105, 102, 200] (dense_group 2 [105, 102, 200] MPI_UNDEFINED)"
    using denotes_dense_group [OF sample_groups(2)]
    by (simp add: valid_group_def my_rank_ok_def dense_group_def)
qed

lemma dense_group_rank [simp]: "grp_my_rank (dense_group i ps my) = my"
  by (simp add: dense_group_def)

lemmas sample = sample_inv sample_alloc_ok sample_valid

section \<open>Properties\<close>

text \<open>C12: including ranks is correct in every storage format. For a valid group and a list of
  distinct valid ranks, \<^verbatim>\<open>ompi_group_incl\<close> makes a group whose members are the listed
  members in the listed order, with the right own rank, whichever of the dense, strided,
  sporadic and bitmap formats the size estimates choose; no other group changes; and
  \<^verbatim>\<open>ompi_group_free\<close> on the result restores every group object and every reference
  count. (With sparse storage the calling process has to be a member of the group.)\<close>

theorem incl_correct:
  assumes "gs_inv hmax s" "al_ok al s" "valid_group s g ps P"
    "distinct ranks" "ranks_in (int (length ps)) ranks"
    "grp_my_rank P = MPI_UNDEFINED \<Longrightarrow> \<not> sparse"
  shows "makes_group hmax s (ompi_group_incl sparse before hmax al s g ranks) (sub_procs ps ranks)
    (rank_of ranks (grp_my_rank P))"
  using assms by (rule incl_makes)

theorem incl_correct_witness:
  "makes_group 9 sample_state (ompi_group_incl True 0 9 sample_alloc sample_state 10 [1, 2, 3])
     [102, 103, 104] 1"
  using incl_correct [OF sample(1-3), of "[1, 2, 3]" True 0]
  by (simp add: ranks_in_def sub_procs_def rank_of_def rc_defs)

text \<open>Excluding ranks. \<^verbatim>\<open>ompi_group_excl\<close> on a valid group and distinct valid ranks
  never writes past the rank array it allocates, and makes the group of the members that are
  not listed, in their order.\<close>

theorem excl_correct:
  assumes "gs_inv hmax s" "al_ok al s" "valid_group s g ps P"
    "distinct ranks" "ranks_in (int (length ps)) ranks"
    "grp_my_rank P = MPI_UNDEFINED \<Longrightarrow> \<not> sparse"
  shows "makes_group hmax s (ompi_group_excl sparse before hmax al s g ranks) (excluded_procs ps ranks)
    (rank_of (filter (\<lambda>i. i \<notin> set ranks) (idxs (int (length ps)))) (grp_my_rank P))"
  using assms by (rule excl_makes)

theorem excl_correct_witness:
  "makes_group 9 sample_state (ompi_group_excl True 0 9 sample_alloc sample_state 10 [0, 3])
     [102, 103, 105] 1"
proof -
  have "idxs 5 = [0, 1, 2, 3, 4]" by code_simp
  then show ?thesis
    using excl_correct [OF sample(1-3), of "[0, 3]" True 0]
    by (simp add: ranks_in_def sub_procs_def excluded_procs_def rank_of_def rc_defs)
qed

text \<open>C28: the loops over rank triplets. On triplets of \<^verbatim>\<open>int\<close> values the loops of
  \<^verbatim>\<open>ompi_group_range_incl\<close> and \<^verbatim>\<open>ompi_group_range_excl\<close> return if and only if every stride leads
  from the first to the last rank, no index computed on the way, the one beyond the last rank
  included, overflows, and the ranks can be counted in an \<^verbatim>\<open>int\<close>; they then list the arithmetic
  progressions. Otherwise a zero stride makes them run for ever, and any other ends in an overflow.\<close>

theorem ranges_terminate:
  assumes "list_all int_triplet ts"
  shows "triplet_ranks ts [] =
    (if list_all proper_triplet ts \<and> int (length (concat (map progression ts))) \<le> INT_MAX
     then Some (concat (map progression ts)) else None)"
  using triplet_ranks_eq [OF assms, of "[]"] by simp

theorem ranges_terminate_witness:
  "triplet_ranks [(4, 0, - 2), (1, 2, 1)] [] = Some [4, 2, 0, 1, 2] \<and>
   triplet_ranks [(1, 2, INT_MAX)] [] = None \<and> triplet_ranks [(1, 2, 0)] [] = None"
proof -
  have i: "list_all int_triplet [(4, 0, - 2), (1, 2, 1)]" "list_all int_triplet [(1, 2, INT_MAX)]"
    "list_all int_triplet [(1, 2, 0)]" by simp_all
  have "list_all proper_triplet [(4, 0, - 2), (1, 2, 1)]" "\<not> list_all proper_triplet [(1, 2, INT_MAX)]"
    "\<not> list_all proper_triplet [(1, 2, 0)]" "concat (map progression [(4, 0, - 2), (1, 2, 1)]) = [4, 2, 0, 1, 2]"
    by code_simp+
  then show ?thesis using ranges_terminate [OF i(1)] ranges_terminate [OF i(2)] ranges_terminate [OF i(3)] by simp
qed

text \<open>Range inclusion and exclusion. When the progressions of the triplets are distinct valid
  ranks, the two range functions make the group of the listed and of the unlisted members.\<close>

theorem ranges_correct:
  assumes "gs_inv hmax s" "al_ok al s" "valid_group s g ps P" "list_all proper_triplet ts"
    "distinct (concat (map progression ts))" "ranks_in (int (length ps)) (concat (map progression ts))"
    "list_all int_triplet ts" "int (length (concat (map progression ts))) \<le> INT_MAX"
    "grp_my_rank P = MPI_UNDEFINED \<Longrightarrow> \<not> sparse"
  shows "makes_group hmax s (ompi_group_range_incl sparse before hmax al s g ts)
      (sub_procs ps (concat (map progression ts))) (rank_of (concat (map progression ts)) (grp_my_rank P)) \<and>
    makes_group hmax s (ompi_group_range_excl sparse before hmax al s g ts)
      (excluded_procs ps (concat (map progression ts)))
      (rank_of (filter (\<lambda>i. i \<notin> set (concat (map progression ts))) (idxs (int (length ps)))) (grp_my_rank P))"
  using range_incl_makes [OF assms] range_excl_makes [OF assms] by blast

theorem ranges_correct_witness:
  "makes_group 9 sample_state (ompi_group_range_incl True 0 9 sample_alloc sample_state 10 [(4, 0, - 2)])
     [105, 103, 101] 1"
proof -
  have p: "concat (map progression [(4, 0, - 2)]) = [4, 2, 0]" by code_simp
  show ?thesis
    using ranges_correct [OF sample(1-3), of "[(4, 0, - 2)]" True 0, unfolded p]
    by (simp add: ranks_in_def sub_procs_def rank_of_def rc_defs)
qed

text \<open>C21: union. \<^verbatim>\<open>ompi_group_union\<close> makes the group of the first group's members
  followed by the members of the second that are not in the first; the allocated array is
  filled exactly, and the own rank is found from whichever group contains the process.\<close>

theorem union_correct:
  assumes "gs_inv hmax s" "al_ok al s" "valid_group s g1 ps P" "valid_group s g2 qs Q"
  shows "makes_group hmax s (ompi_group_union hmax al s g1 g2) (ps @ filter (\<lambda>q. q \<notin> set ps) qs)
    (case_option MPI_UNDEFINED (rank_of (ps @ filter (\<lambda>q. q \<notin> set ps) qs)) (own_of_two ps P qs Q))"
  using assms by (rule union_makes)

theorem union_correct_witness:
  "makes_group 9 sample_state (ompi_group_union 9 sample_alloc sample_state 10 11)
     [101, 102, 103, 104, 105, 200] 2"
  using union_correct [OF sample] by (simp add: own_of_two_def rank_of_def rc_defs)

text \<open>Difference. \<^verbatim>\<open>ompi_group_difference\<close> makes the group of the first group's
  members that are not in the second, in their order.\<close>

theorem difference_correct:
  assumes "gs_inv hmax s" "al_ok al s" "valid_group s g1 ps P" "valid_group s g2 qs Q"
  shows "makes_group hmax s (ompi_group_difference hmax al s g1 g2) (filter (\<lambda>p. p \<notin> set qs) ps)
    (if filter (\<lambda>p. p \<notin> set qs) ps = [] then MPI_UNDEFINED
     else case_option MPI_UNDEFINED (rank_of (filter (\<lambda>p. p \<notin> set qs) ps)) (own_of_two ps P qs Q))"
  using assms by (rule difference_makes)

theorem difference_correct_witness:
  "makes_group 9 sample_state (ompi_group_difference 9 sample_alloc sample_state 10 11) [101, 103, 104] 1"
  using difference_correct [OF sample] by (simp add: own_of_two_def rank_of_def rc_defs)

text \<open>C27: intersection. \<^verbatim>\<open>ompi_group_intersection\<close> never overruns its rank array, whose
  size is that of the smaller group, and makes the group of the first group's members that
  are in the second, in the order of the first.\<close>

theorem intersection_correct:
  assumes "gs_inv hmax s" "al_ok al s" "valid_group s g1 ps P" "valid_group s g2 qs Q"
    "grp_my_rank P = MPI_UNDEFINED \<Longrightarrow> \<not> sparse"
  shows "makes_group hmax s (ompi_group_intersection sparse before hmax al s g1 g2)
    (filter (\<lambda>p. p \<in> set qs) ps)
    (rank_of (filter (\<lambda>i. ps ! nat i \<in> set qs) (idxs (int (length ps)))) (grp_my_rank P))"
  using assms by (rule intersection_makes)

theorem intersection_correct_witness:
  "\<exists>my. makes_group 9 sample_state (ompi_group_intersection True 0 9 sample_alloc sample_state 10 11)
     [102, 105] my"
  using intersection_correct [OF sample, of True 0] by (auto simp: rc_defs)

text \<open>C29: comparison. For two groups without repeated members, other than the predefined empty
  group, \<^verbatim>\<open>ompi_group_compare\<close> answers identical exactly when the member lists are equal,
  similar exactly when only their order differs, and unequal otherwise, in whatever format the
  groups are stored.\<close>

theorem compare_correct:
  assumes "denotes s g1 ps" "denotes s g2 qs" "distinct ps" "distinct qs"
    "g1 \<noteq> MPI_GROUP_EMPTY" "g2 \<noteq> MPI_GROUP_EMPTY"
  shows "ompi_group_compare s g1 g2 = Some (OMPI_SUCCESS,
    if ps = qs then MPI_IDENT else if set ps = set qs then MPI_SIMILAR else MPI_UNEQUAL)"
  using assms by (rule compare_denotes)

theorem compare_correct_witness:
  "ompi_group_compare sample_state 10 11 = Some (OMPI_SUCCESS, MPI_UNEQUAL)"
proof -
  have "200 \<in> set [105, 102, 200 :: ptr]" "200 \<notin> set [101, 102, 103, 104, 105 :: ptr]" by auto
  then have "set [101, 102, 103, 104, 105 :: ptr] \<noteq> set [105, 102, 200]" by blast
  then show ?thesis
    using sample_valid compare_correct [of sample_state 10 "[101, 102, 103, 104, 105]" 11 "[105, 102, 200]"]
    unfolding valid_group_def MPI_GROUP_EMPTY_def by simp
qed

text \<open>C13: rank translation. Between two groups without repeated members,
  \<^verbatim>\<open>ompi_group_translate_ranks\<close> writes, for every valid rank of the first, the rank of the
  same process in the second or undefined, and keeps the null rank; the shortcuts between a
  sparse group and its parent agree with the search through both groups.\<close>

theorem translate_correct:
  assumes "denotes s g1 ps" "denotes s g2 qs" "distinct ps" "distinct qs"
    "g1 \<noteq> MPI_GROUP_EMPTY" "g2 \<noteq> MPI_GROUP_EMPTY" "groups s NULL = None"
    "list_all (\<lambda>r. r = MPI_PROC_NULL \<or> 0 \<le> r \<and> r < int (length ps)) ranks1"
    "length ranks2 = length ranks1"
  shows "ompi_group_translate_ranks s g1 ranks1 g2 ranks2 =
    Some (MPI_SUCCESS, map (translated ps qs) ranks1)"
  using assms by (intro translate_denotes) (auto simp: list_all_iff)

theorem translate_correct_witness:
  "ompi_group_translate_ranks sample_state 10 [4, 0, MPI_PROC_NULL] 11 [0, 0, 0] =
    Some (MPI_SUCCESS, [0, MPI_UNDEFINED, MPI_PROC_NULL])"
proof -
  have "denotes sample_state 10 [101, 102, 103, 104, 105]" "denotes sample_state 11 [105, 102, 200]"
    using sample_valid by (auto simp: valid_group_def)
  moreover have "groups sample_state NULL = None" using sample_inv by (simp add: gs_inv_def)
  ultimately show ?thesis
    using translate_correct [of sample_state 10 "[101, 102, 103, 104, 105]" 11 "[105, 102, 200]"
        "[4, 0, MPI_PROC_NULL]" "[0, 0, 0]"]
    by (auto simp: MPI_GROUP_EMPTY_def translated_def rank_of_def rc_defs)
qed

text \<open>The bitmap format and processes outside the group. When the calling process is not a
  member of the parent group, \<^verbatim>\<open>ompi_group_incl_bmap\<close> runs into undefined behaviour for
  every non-empty list of ranks the format accepts: it translates the undefined own rank,
  which shifts by a negative amount and reads in front of the bit array.\<close>

theorem incl_bmap_nonmember:
  assumes "gs_inv hmax s" "al_ok al s" "valid_group s g ps P" "ranks \<noteq> []" "distinct ranks"
    "ranks_in (int (length ps)) ranks" "ompi_group_calc_bmap (int (length ps)) ranks \<noteq> - 1"
    "grp_my_rank P = MPI_UNDEFINED"
  shows "ompi_group_incl_bmap hmax al s g ranks = None"
  using assms by (rule incl_bmap_undefined)

theorem incl_bmap_nonmember_witness:
  "ompi_group_incl_bmap 9 sample_alloc sample_state 11 [0, 2] = None"
proof -
  have "ompi_group_calc_bmap 3 [0, 2] \<noteq> - 1" by code_simp
  then show ?thesis
    using incl_bmap_nonmember [OF sample(1,2,4), of "[0, 2]"] by (simp add: ranks_in_def)
qed

text \<open>Running out of handles. When the table of group handles is full,
  \<^verbatim>\<open>ompi_group_allocate\<close> does not report the failure: the clean-up of the half-built
  group looks its negative handle up in the table, an access in front of the array.\<close>

theorem allocate_without_handle:
  assumes "pa_inv (f_to_c s)" "al_obj al \<noteq> NULL"
    "opal_pointer_array_add (al_table al) hmax (f_to_c s) (al_obj al) = Some (OPAL_ERR_OUT_OF_RESOURCE, f_to_c s)"
  shows "ompi_group_allocate hmax al s n = None"
  using assms by (rule allocate_undefined)

theorem allocate_without_handle_witness:
  "ompi_group_allocate 1 \<lparr>al_obj = 20, al_array = True, al_table = False\<rparr>
     (sample_state\<lparr>f_to_c := opal_pointer_array_construct\<rparr>) 3 = None"
  using allocate_without_handle [of "sample_state\<lparr>f_to_c := opal_pointer_array_construct\<rparr>"
      "\<lparr>al_obj = 20, al_array = True, al_table = False\<rparr>" 1 3] pa_inv_construct
  by (simp add: opal_pointer_array_add_def opal_pointer_array_construct_def grow_table_def TABLE_INIT_def)

text \<open>Initialisation. With room for 64 handles and a working allocator
  \<^verbatim>\<open>ompi_group_init\<close> succeeds from a state without groups, establishes the consistency of
  the handle table and of the predefined groups that all group operations rely on, and
  leaves the null group, the empty group and the group of failed processes empty.\<close>

theorem init_correct:
  assumes "64 \<le> hmax" "al_obj al \<notin> {NULL, MPI_GROUP_NULL, MPI_GROUP_EMPTY}" "groups s = Map.empty"
  shows "\<exists>s'. ompi_group_init hmax True al tm1 tm2 s = Some (OMPI_SUCCESS, s') \<and> gs_inv hmax s' \<and>
    denotes s' MPI_GROUP_EMPTY [] \<and> denotes s' MPI_GROUP_NULL [] \<and> denotes s' (all_failed_procs s') []"
  using assms by (rule init_ok)

theorem init_correct_witness:
  "\<exists>s'. ompi_group_init 100 True sample_alloc True True (sample_state\<lparr>groups := Map.empty\<rparr>) =
      Some (OMPI_SUCCESS, s') \<and> gs_inv 100 s'"
  using init_correct [of 100 sample_alloc "sample_state\<lparr>groups := Map.empty\<rparr>" True True]
  by (auto simp: sample_alloc_def MPI_GROUP_NULL_def MPI_GROUP_EMPTY_def)

end
