(* ===== verification/Comm_Cid.thy ===== *)
theory Comm_Cid
  imports Pointer_Array "HOL-Library.Multiset"
begin

text \<open>
  Collective allocation of communicator identifiers, \<^verbatim>\<open>ompi/communicator/comm_cid.c\<close>.
  Every process proposes identifiers that are free in its table of communicators, a reduction
  with \<^verbatim>\<open>cid_redux_fn\<close> keeps those that all processes proposed, and the least of the
  survivors becomes the identifier of the new communicator; otherwise the processes retry.

  The tables are pointer arrays; an epoch is stored in its table as if it were a pointer.
  Identifiers are integers that index the tables, with 0 for none. The allocator is assumed
  to serve the growth of the tables when \<open>mem\<close> holds. The reduction itself belongs to the
  collective components: a process receives its result as an argument, and the runs of
  several processes are composed in the last part with the reduction function of the code.
\<close>

section \<open>The reduction\<close>

record cid_redux_elem_t =
  cid :: int
  epoch :: nat

abbreviation nothing :: cid_redux_elem_t where
  "nothing \<equiv> \<lparr>cid = 0, epoch = 0\<rparr>"

text \<open>The last position from \<open>n\<close> downwards that holds an identifier.\<close>

fun last_used :: "cid_redux_elem_t list \<Rightarrow> nat \<Rightarrow> nat" where
  "last_used xs n = (if 0 < n \<and> cid (xs ! n) = 0 then last_used xs (n - 1) else n)"

text \<open>The inner loop: the epoch under which \<open>ins\<close> proposes an identifier, at a position
  from \<open>i\<close> to \<open>m\<close>.\<close>

function find_cid :: "cid_redux_elem_t list \<Rightarrow> int \<Rightarrow> nat \<Rightarrow> nat \<Rightarrow> nat option" where
  "find_cid ins c i m =
     (if i \<le> m then if c = cid (ins ! i) then Some (epoch (ins ! i)) else find_cid ins c (i + 1) m
      else None)"
  by pat_completeness auto
termination
  by (relation "measure (\<lambda>(ins, c, i, m). Suc m - i)") auto

function redux_loop ::
  "cid_redux_elem_t list \<Rightarrow> nat \<Rightarrow> cid_redux_elem_t list \<Rightarrow> nat \<Rightarrow> nat \<Rightarrow> cid_redux_elem_t list" where
  "redux_loop ins m out j n =
     (if 0 < j \<and> j \<le> n then
        case find_cid ins (cid (out ! j)) 1 m of
          Some e \<Rightarrow>
            redux_loop ins m
              (if e > epoch (out ! j) then out[j := (out ! j)\<lparr>epoch := e\<rparr>] else out) (j + 1) n
        | None \<Rightarrow>
            redux_loop ins m
              (let out = out[j := \<lparr>cid = cid (out ! n), epoch = epoch (out ! n)\<rparr>]
               in out[n := (out ! n)\<lparr>cid := 0\<rparr>]) j (n - 1)
      else out)"
  by pat_completeness auto
termination
  by (relation "measure (\<lambda>(ins, m, out, j, n). Suc n - j)") auto

declare last_used.simps [simp del] find_cid.simps [simp del] redux_loop.simps [simp del]

definition cid_redux_fn :: "cid_redux_elem_t list \<Rightarrow> cid_redux_elem_t list \<Rightarrow> cid_redux_elem_t list" where
  "cid_redux_fn ins out =
     (let out = (if cid (ins ! 0) > cid (out ! 0)
                 then out[0 := (out ! 0)\<lparr>cid := cid (ins ! 0)\<rparr>] else out)
      in if cid (out ! 1) = 0 then out
         else if cid (ins ! 1) = 0 then
           out ! 0 # map (\<lambda>e. e\<lparr>cid := 0\<rparr>) (tl out)
         else
           redux_loop ins (last_used ins (length out - 1)) out 1 (last_used out (length out - 1)))"

section \<open>The registered communicators\<close>

text \<open>The sorted list of the identifiers on which an allocation is under way.\<close>

fun register_loop :: "bool \<Rightarrow> int \<Rightarrow> int list \<Rightarrow> int list option" where
  "register_loop mt c [] = Some [c]"
| "register_loop mt c (r # rs) =
     (if r > c then Some (c # r # rs)
      else if mt \<and> r = c then None
      else map_option ((#) r) (register_loop mt c rs))"

definition ompi_comm_register_cid :: "bool \<Rightarrow> int \<Rightarrow> int list \<Rightarrow> int \<times> int list" where
  "ompi_comm_register_cid mt c registered =
     (case register_loop mt c registered of
        Some rs \<Rightarrow> (OMPI_SUCCESS, rs)
      | None \<Rightarrow> (OMPI_ERROR, registered))"

definition ompi_comm_unregister_cid :: "int \<Rightarrow> int list \<Rightarrow> int \<times> int list" where
  "ompi_comm_unregister_cid c registered = (OMPI_SUCCESS, remove1 c registered)"

definition ompi_comm_lowest_cid :: "int list \<Rightarrow> int option" where
  "ompi_comm_lowest_cid registered = rd registered 0"

section \<open>Allocation by one process\<close>

record cid_state =
  communicators :: opal_pointer_array_t
  comm_epoch :: opal_pointer_array_t
  registered_comms :: "int list"

text \<open>The loop that reserves up to \<open>sz - 1\<close> free identifiers from \<open>i\<close> on.\<close>

function collect ::
  "bool \<Rightarrow> ptr \<Rightarrow> nat \<Rightarrow> int \<Rightarrow> cid_state \<Rightarrow> int \<Rightarrow> cid_redux_elem_t list \<Rightarrow>
   (cid_state \<times> cid_redux_elem_t list \<times> int) option" where
  "collect mem comm sz maxc s i acc =
     (if i < maxc then do {
        (flag, t) \<leftarrow> opal_pointer_array_test_and_set_item mem (communicators s) i comm;
        let s = s\<lparr>communicators := t\<rparr>;
        if flag then do {
          location \<leftarrow> opal_pointer_array_get_item (comm_epoch s) i;
          let acc = acc @ [\<lparr>cid = i, epoch = location\<rparr>];
          if length acc + 1 = sz then Some (s, acc, i)
          else collect mem comm sz maxc s (i + 1) acc }
        else collect mem comm sz maxc s (i + 1) acc }
      else Some (s, acc, i))"
  by pat_completeness auto
termination
  by (relation "measure (\<lambda>(mem, comm, sz, maxc, s, i, acc). nat (maxc - i))") auto

declare collect.simps [simp del]

text \<open>Position 0 of the array carries the position at which the loop stopped. The epochs at
  position 0 and of the unused entries are left over from earlier calls and never used; they
  are 0 here.\<close>

definition propose ::
  "bool \<Rightarrow> ptr \<Rightarrow> nat \<Rightarrow> int \<Rightarrow> cid_state \<Rightarrow> int \<Rightarrow> (cid_state \<times> cid_redux_elem_t list) option" where
  "propose mem comm sz maxc s start =
     do {
       (s, acc, i) \<leftarrow> collect mem comm sz maxc s start [];
       Some (s, \<lparr>cid = i, epoch = 0\<rparr> # acc @ replicate (sz - 1 - length acc) nothing) }"

function min_loop :: "cid_redux_elem_t list \<Rightarrow> nat \<Rightarrow> nat \<Rightarrow> nat" where
  "min_loop gs i best =
     (if i < length gs then min_loop gs (i + 1) (if cid (gs ! i) < cid (gs ! best) then i else best)
      else best)"
  by pat_completeness auto
termination
  by (relation "measure (\<lambda>(gs, i, best). length gs - i)") auto

declare min_loop.simps [simp del]

text \<open>Releasing the reserved identifiers other than \<open>keep\<close>.\<close>

fun release_loop :: "int \<Rightarrow> cid_state \<Rightarrow> cid_redux_elem_t list \<Rightarrow> cid_state option" where
  "release_loop keep s [] = Some s"
| "release_loop keep s (e # es) =
     (if cid e = 0 then Some s
      else if cid e \<noteq> keep then do {
        (_, t) \<leftarrow> opal_pointer_array_set_item True (communicators s) (cid e) NULL;
        release_loop keep (s\<lparr>communicators := t\<rparr>) es }
      else release_loop keep s es)"

text \<open>One pass of the loop of \<^verbatim>\<open>ompi_comm_nextcid\<close> after the reduction returned
  \<open>ret\<close> with \<open>gs\<close>: the failed allocation, the retry with a new start, or the new identifier
  with its epoch.\<close>

datatype cid_outcome = Failed int | Retry int | Chosen int nat

definition settle ::
  "cid_state \<Rightarrow> cid_redux_elem_t list \<Rightarrow> int \<Rightarrow> cid_redux_elem_t list \<Rightarrow> (cid_state \<times> cid_outcome) option" where
  "settle s lCIDs ret gs =
     (let nextcid_i = min_loop gs 2 1;
          nextcid = cid (gs ! nextcid_i);
          nextepoch = epoch (gs ! nextcid_i)
      in if ret \<noteq> OMPI_SUCCESS then do { s \<leftarrow> release_loop 0 s (tl lCIDs); Some (s, Failed ret) }
         else if nextcid = 0 then do { s \<leftarrow> release_loop 0 s (tl lCIDs); Some (s, Retry (cid (gs ! 0))) }
         else do { s \<leftarrow> release_loop nextcid s (tl lCIDs); Some (s, Chosen nextcid nextepoch) })"

record new_comm =
  c_contextid :: int
  c_f_to_c_index :: int
  c_epoch :: nat

definition adopt_cid ::
  "bool \<Rightarrow> ptr \<Rightarrow> cid_state \<Rightarrow> int \<Rightarrow> nat \<Rightarrow> (cid_state \<times> new_comm) option" where
  "adopt_cid mem newcomm s nextcid nextepoch =
     do {
       (_, t) \<leftarrow> opal_pointer_array_set_item mem (communicators s) nextcid newcomm;
       (_, e) \<leftarrow> opal_pointer_array_set_item mem (comm_epoch s) nextcid (nextepoch + 1);
       Some (s\<lparr>communicators := t, comm_epoch := e\<rparr>,
             \<lparr>c_contextid = nextcid, c_f_to_c_index = nextcid, c_epoch = nextepoch + 1\<rparr>) }"

text \<open>The loop, with the results of the successive reductions; \<open>None\<close> in the list's end is
  a call that is still waiting for a reduction.\<close>

fun nextcid_loop ::
  "bool \<Rightarrow> ptr \<Rightarrow> ptr \<Rightarrow> nat \<Rightarrow> int \<Rightarrow> cid_state \<Rightarrow> int \<Rightarrow> (int \<times> cid_redux_elem_t list) list \<Rightarrow>
   (int \<times> cid_state \<times> new_comm option) option" where
  "nextcid_loop mem comm newcomm sz maxc s start [] = None"
| "nextcid_loop mem comm newcomm sz maxc s start ((ret, gs) # reds) =
     do {
       (s, lCIDs) \<leftarrow> propose mem comm sz maxc s start;
       (s, r) \<leftarrow> settle s lCIDs ret gs;
       case r of
         Failed ret \<Rightarrow> Some (ret, s, None)
       | Retry start \<Rightarrow> nextcid_loop mem comm newcomm sz maxc s start reds
       | Chosen c e \<Rightarrow> do { (s, nc) \<leftarrow> adopt_cid mem newcomm s c e; Some (ret, s, Some nc) } }"

definition known_mode :: "int \<Rightarrow> bool" where
  "known_mode mode \<longleftrightarrow>
     mode \<in> {0x20, 0x40, 0x80, 0x100, 0x200, 0x400, 0x800, 0x1000}"

text \<open>The call on a communicator \<open>comm\<close> with identifier \<open>c\<close>. The two waiting loops of the code,
  until the identifier can be registered and until it is the lowest registered one, end only
  through other threads: where the test fails, this sequential model does not return.\<close>

definition ompi_comm_nextcid ::
  "bool \<Rightarrow> bool \<Rightarrow> ptr \<Rightarrow> int \<Rightarrow> ptr \<Rightarrow> nat \<Rightarrow> int \<Rightarrow> int \<Rightarrow> cid_state \<Rightarrow>
   (int \<times> cid_redux_elem_t list) list \<Rightarrow> (int \<times> cid_state \<times> new_comm option) option" where
  "ompi_comm_nextcid mem mt comm c newcomm sz maxc mode s reds =
     (if \<not> known_mode mode then Some (MPI_UNDEFINED, s, None)
      else
        let (r, regs) = ompi_comm_register_cid mt c (registered_comms s);
            s = s\<lparr>registered_comms := regs\<rparr>
        in if r \<noteq> OMPI_SUCCESS \<or> ompi_comm_lowest_cid regs \<noteq> Some c then None
           else do {
             (ret, s, nc) \<leftarrow>
               nextcid_loop mem comm newcomm sz maxc s (highest_taken (communicators s) + 1) reds;
             Some (ret, s\<lparr>registered_comms := snd (ompi_comm_unregister_cid c (registered_comms s))\<rparr>, nc) })"

end
