(* ===== verification/Comm_Cid_Correct.thy ===== *)
theory Comm_Cid_Correct
  imports Comm_Cid
begin

text \<open>
  Correctness of the allocation of communicator identifiers: the reduction computes the
  intersection of the proposals whatever the order in which the collective component combines
  them, a process reserves and releases exactly the slots it proposes, and the processes that
  settle on the result of one reduction agree on the identifier, which was free in all their
  tables, and on an epoch that none of them has used for it.
\<close>

section \<open>What the reduction computes\<close>

text \<open>The identifiers an array proposes, and the shape of all arrays: the proposals come first
  and are distinct.\<close>

definition cands :: "cid_redux_elem_t list \<Rightarrow> cid_redux_elem_t list" where
  "cands xs = takeWhile (\<lambda>e. cid e \<noteq> 0) (tl xs)"

definition redux_ok :: "nat \<Rightarrow> cid_redux_elem_t list \<Rightarrow> bool" where
  "redux_ok sz xs \<longleftrightarrow> length xs = sz \<and> 2 \<le> sz \<and>
     list_all (\<lambda>e. cid e = 0) (dropWhile (\<lambda>e. cid e \<noteq> 0) (tl xs)) \<and> distinct (map cid (cands xs))"

definition cand_map :: "cid_redux_elem_t list \<Rightarrow> int \<Rightarrow> nat option" where
  "cand_map xs = map_of (map (\<lambda>e. (cid e, epoch e)) (cands xs))"

lemma redux_ok_split:
  assumes "redux_ok sz xs"
  obtains h zs where "xs = h # cands xs @ zs" "\<forall>e \<in> set zs. cid e = 0"
    "\<forall>e \<in> set (cands xs). cid e \<noteq> 0" "distinct (map cid (cands xs))" "length xs = sz" "2 \<le> sz"
proof
  let ?zs = "dropWhile (\<lambda>e. cid e \<noteq> 0) (tl xs)"
  show "xs = hd xs # cands xs @ ?zs" proof -
    have "xs \<noteq> []" using assms by (auto simp: redux_ok_def)
    then show ?thesis by (cases xs) (simp_all add: cands_def)
  qed
  show "\<forall>e \<in> set (cands xs). cid e \<noteq> 0" by (auto simp: cands_def dest: set_takeWhileD)
  show "\<forall>e \<in> set ?zs. cid e = 0" "distinct (map cid (cands xs))" "length xs = sz" "2 \<le> sz"
    using assms by (auto simp only: redux_ok_def list_all_iff)
qed

lemma cands_append:
  "\<forall>e \<in> set ys. cid e \<noteq> 0 \<Longrightarrow> \<forall>e \<in> set zs. cid e = 0 \<Longrightarrow> cands (h # ys @ zs) = ys"
  by (cases zs) (auto simp: cands_def takeWhile_append)

lemma redux_okI:
  assumes "\<forall>e \<in> set ys. cid e \<noteq> 0" "\<forall>e \<in> set zs. cid e = 0" "distinct (map cid ys)"
    "length (h # ys @ zs) = sz" "2 \<le> sz"
  shows "redux_ok sz (h # ys @ zs)"
proof -
  have "dropWhile (\<lambda>e. cid e \<noteq> 0) (ys @ zs) = zs"
    using assms(1,2) by (cases zs) (auto simp: dropWhile_append)
  with assms cands_append [OF assms(1,2)] show ?thesis by (simp add: redux_ok_def list_all_iff)
qed

lemma last_used_cands:
  assumes "\<forall>e \<in> set zs. cid e = 0" "\<forall>e \<in> set ys. cid e \<noteq> 0" "k \<le> length zs"
  shows "last_used (h # ys @ zs) (length ys + k) = length ys"
  using assms(3)
proof (induction k)
  case 0
  have "\<not> (0 < length ys \<and> cid ((h # ys @ zs) ! length ys) = 0)"
    proof -
    have "cid ((h # us @ [u] @ zs) ! Suc (length us)) = cid u" for us u by simp
    then show ?thesis using assms(2) by (cases ys rule: rev_cases) auto
  qed
  then show ?case by (subst last_used.simps) (simp only: add_0_right if_False)
next
  case (Suc k)
  then have "(h # ys @ zs) ! (length ys + Suc k) = zs ! k" by (simp add: nth_append)
  moreover have "cid (zs ! k) = 0" using Suc.prems assms(1) by simp
  ultimately show ?case using Suc by (subst last_used.simps) simp
qed

lemma find_cid_map:
  "k \<le> length ys \<Longrightarrow> find_cid (h # ys @ zs) c (Suc k) (length ys) =
   map_of (map (\<lambda>e. (cid e, epoch e)) (drop k ys)) c"
proof (induction "length ys - k" arbitrary: k)
  case 0
  then show ?case by (subst find_cid.simps) simp
next
  case (Suc n)
  then have k: "k < length ys" by simp
  have d: "drop k ys = ys ! k # drop (Suc k) ys" using k by (simp add: Cons_nth_drop_Suc)
  have "(h # ys @ zs) ! Suc k = ys ! k" using k by (simp add: nth_append)
  moreover have "find_cid (h # ys @ zs) c (Suc (Suc k)) (length ys) =
      map_of (map (\<lambda>e. (cid e, epoch e)) (drop (Suc k) ys)) c"
    using Suc k by (intro Suc.hyps(1)) auto
  ultimately show ?case using k by (subst find_cid.simps) (simp add: d)
qed

text \<open>The loop on lists: a proposal the other side does not have is replaced by the last one.\<close>

function sweep :: "(int \<Rightarrow> nat option) \<Rightarrow> cid_redux_elem_t list \<Rightarrow> cid_redux_elem_t list" where
  "sweep M [] = []"
| "sweep M (x # xs) =
     (case M (cid x) of
        Some e \<Rightarrow> x\<lparr>epoch := max (epoch x) e\<rparr> # sweep M xs
      | None \<Rightarrow> if xs = [] then [] else sweep M (last xs # butlast xs))"
  by pat_completeness auto
termination
  by (relation "measure (\<lambda>(M, xs). length xs)") auto

lemma mset_sweep:
  "mset (sweep M xs) = mset (map (\<lambda>x. x\<lparr>epoch := max (epoch x) (the (M (cid x)))\<rparr>) (filter (\<lambda>x. M (cid x) \<noteq> None) xs))"
proof (induction M xs rule: sweep.induct)
  case (2 M x xs)
  show ?case
  proof (cases "M (cid x)")
    case None
    show ?thesis
    proof (cases "xs = []")
      case False
      then have "mset xs = mset (last xs # butlast xs)"
        by (metis append_butlast_last_id mset.simps(2) mset_append union_mset_add_mset_right mset.simps(1) add.right_neutral)
      with 2(1) [OF None False] None False show ?thesis
        by (simp add: mset_filter)
    qed (use None in simp)
  next
    case (Some e)
    with 2(2) [OF Some] show ?thesis by simp
  qed
qed simp

lemma cleared: "\<lparr>cid = c, epoch = epoch x\<rparr> = x\<lparr>cid := c\<rparr>"
  by (cases x) simp

lemma elem_eta: "\<lparr>cid = cid x, epoch = epoch x\<rparr> = x"
  by simp

lemma redux_loop_sweep:
  assumes M: "\<And>c. find_cid ins c 1 m = M c"
  shows "\<forall>e \<in> set zs. cid e = 0 \<Longrightarrow>
    \<exists>zs'. redux_loop ins m (h # pre @ todo @ zs) (Suc (length pre)) (length pre + length todo) =
        h # pre @ sweep M todo @ zs' \<and> (\<forall>e \<in> set zs'. cid e = 0) \<and>
        length (sweep M todo) + length zs' = length todo + length zs"
  using M
proof (induction M todo arbitrary: pre zs rule: sweep.induct)
  case (1 M)
  then show ?case by (subst redux_loop.simps) auto
next
  case (2 M x xs)
  let ?out = "h # pre @ (x # xs) @ zs" and ?j = "Suc (length pre)"
  let ?n = "length pre + length (x # xs)"
  have j: "?out ! ?j = x" by simp
  have f: "find_cid ins (cid x) 1 m = M (cid x)" by (rule "2.prems"(2))
  show ?case
  proof (cases "M (cid x)")
    case (Some e)
    let ?x = "x\<lparr>epoch := max (epoch x) e\<rparr>"
    have "(if e > epoch x then ?out[?j := x\<lparr>epoch := e\<rparr>] else ?out) = h # (pre @ [?x]) @ xs @ zs"
      by (auto simp: list_update_append max_def)
    then have "redux_loop ins m ?out ?j ?n =
        redux_loop ins m (h # (pre @ [?x]) @ xs @ zs) (Suc (length (pre @ [?x]))) (length (pre @ [?x]) + length xs)"
      by (subst redux_loop.simps) (simp add: f [simplified] Some)
    with "2.IH"(2) [OF Some "2.prems", of "pre @ [?x]"] Some show ?thesis by auto
  next
    case None
    show ?thesis
    proof (cases xs rule: rev_cases)
      case Nil
      have "redux_loop ins m ?out ?j ?n = redux_loop ins m (h # pre @ x\<lparr>cid := 0\<rparr> # zs) ?j (length pre)"
        by (subst redux_loop.simps) (simp add: f [simplified] None Nil list_update_append cleared)
      also have "\<dots> = h # pre @ x\<lparr>cid := 0\<rparr> # zs" by (subst redux_loop.simps) simp
      finally show ?thesis using None Nil "2.prems"(1) by (intro exI [of _ "x\<lparr>cid := 0\<rparr> # zs"]) simp
    next
      case (snoc ys y)
      have "redux_loop ins m ?out ?j ?n =
          redux_loop ins m (h # pre @ (y # ys) @ y\<lparr>cid := 0\<rparr> # zs) ?j (length pre + length (y # ys))"
        by (subst redux_loop.simps) (simp add: f [simplified] None snoc list_update_append nth_append elem_eta)
      moreover have "\<forall>e \<in> set (y\<lparr>cid := 0\<rparr> # zs). cid e = 0" using "2.prems"(1) by simp
      ultimately show ?thesis
        using "2.IH"(1) [OF None _ _ "2.prems"(2), of "y\<lparr>cid := 0\<rparr> # zs" pre] None snoc by force
    qed
  qed
qed

definition meet :: "(int \<Rightarrow> nat option) \<Rightarrow> (int \<Rightarrow> nat option) \<Rightarrow> int \<Rightarrow> nat option" where
  "meet A B c = (case (A c, B c) of (Some a, Some b) \<Rightarrow> Some (max a b) | _ \<Rightarrow> None)"

lemma meet_assoc: "meet (meet A B) C = meet A (meet B C)"
  by (auto simp: meet_def fun_eq_iff split: option.splits)

lemma meet_comm: "meet A B = meet B A"
  by (auto simp: meet_def fun_eq_iff split: option.splits)

lemma map_of_mset_cong:
  assumes "mset xs = mset ys" "distinct (map fst xs)"
  shows "map_of xs = map_of ys"
proof -
  have "distinct (map fst ys)" using assms mset_eq_imp_distinct_iff [of "map fst xs" "map fst ys"] by simp
  with assms show ?thesis
    by (intro map_of_inject_set [THEN iffD2]) (auto dest: mset_eq_setD)
qed

lemma sweep_map:
  assumes "distinct (map cid xs)"
  shows "distinct (map cid (sweep M xs))" "set (map cid (sweep M xs)) \<subseteq> set (map cid xs)"
    "map_of (map (\<lambda>e. (cid e, epoch e)) (sweep M xs)) = meet M (map_of (map (\<lambda>e. (cid e, epoch e)) xs))"
proof -
  let ?f = "\<lambda>x. x\<lparr>epoch := max (epoch x) (the (M (cid x)))\<rparr>" and ?k = "\<lambda>e. (cid e, epoch e)"
  let ?ys = "map ?f (filter (\<lambda>x. M (cid x) \<noteq> None) xs)"
  have m: "mset (sweep M xs) = mset ?ys" by (rule mset_sweep)
  have d: "distinct (map cid ?ys)" using assms by (simp add: comp_def distinct_map_filter)
  show dd: "distinct (map cid (sweep M xs))"
  proof -
    have "mset (map cid (sweep M xs)) = mset (map cid ?ys)" by (simp only: mset_map m)
    then show ?thesis using d mset_eq_imp_distinct_iff by blast
  qed
  show "set (map cid (sweep M xs)) \<subseteq> set (map cid xs)"
    using mset_eq_setD [OF m] by auto
  have "map_of (map ?k (sweep M xs)) = map_of (map ?k ?ys)"
  proof (rule map_of_mset_cong)
    show "mset (map ?k (sweep M xs)) = mset (map ?k ?ys)" by (simp only: mset_map m)
  qed (use dd in \<open>simp add: comp_def\<close>)
  also have "\<dots> = meet M (map_of (map ?k xs))"
    using assms by (induction xs) (auto simp: meet_def fun_eq_iff map_of_eq_None_iff image_iff split: option.splits)
  finally show "map_of (map ?k (sweep M xs)) = meet M (map_of (map ?k xs))" .
qed

lemma redux_ok_cands_Nil:
  assumes "redux_ok sz xs"
  shows "cid (xs ! 1) = 0 \<longleftrightarrow> cands xs = []"
proof -
  obtain h zs where x: "xs = h # cands xs @ zs" "\<forall>e \<in> set zs. cid e = 0"
    "\<forall>e \<in> set (cands xs). cid e \<noteq> 0" "length xs = sz" "2 \<le> sz"
    using redux_ok_split [OF assms] by metis
  have "xs ! 1 = (cands xs @ zs) ! 0" by (subst x(1)) simp
  moreover have "length xs = Suc (length (cands xs @ zs))" by (subst x(1)) simp
  then have "cands xs @ zs \<noteq> []" using x(4,5) by auto
  ultimately have "xs ! 1 = hd (cands xs @ zs)" by (simp add: hd_conv_nth)
  with \<open>cands xs @ zs \<noteq> []\<close> x(2,3) show ?thesis
    by (metis append_Nil hd_append2 list.set_sel(1))
qed

lemma redux_loop_correct:
  assumes i: "redux_ok sz ins" and o: "redux_ok sz out"
  defines "r \<equiv> redux_loop ins (last_used ins (length out - 1)) out 1 (last_used out (length out - 1))"
  shows "redux_ok sz r" "r ! 0 = out ! 0" "cand_map r = meet (cand_map ins) (cand_map out)"
    "set (map cid (cands r)) \<subseteq> set (map cid (cands out))"
proof -
  obtain hi zi where I: "ins = hi # cands ins @ zi" "\<forall>e \<in> set zi. cid e = 0"
    "\<forall>e \<in> set (cands ins). cid e \<noteq> 0" "length ins = sz"
    using redux_ok_split [OF i] by metis
  obtain h zs where O: "out = h # cands out @ zs" "\<forall>e \<in> set zs. cid e = 0"
    "\<forall>e \<in> set (cands out). cid e \<noteq> 0" "distinct (map cid (cands out))" "length out = sz" "2 \<le> sz"
    using redux_ok_split [OF o] by metis
  let ?ci = "cands ins" and ?co = "cands out" and ?M = "cand_map ins"
  have li: "length out - 1 = length ?ci + length zi"
    using I(4) O(5) by (subst (asm) I(1)) simp
  have lo: "length out - 1 = length ?co + length zs" by (subst O(1)) simp
  have m: "last_used ins (length out - 1) = length ?ci"
    unfolding li by (subst I(1)) (rule last_used_cands [OF I(2,3) order_refl])
  have n: "last_used out (length out - 1) = length ?co"
    unfolding lo by (subst O(1)) (rule last_used_cands [OF O(2,3) order_refl])
  have M: "find_cid ins c 1 (length ?ci) = ?M c" for c
    using find_cid_map [of 0 ?ci hi zi c] by (simp add: I(1) [symmetric] cand_map_def)
  from redux_loop_sweep [OF M O(2), of h "[]" ?co, unfolded list.size append_Nil add_0 O(1) [symmetric]] obtain zs' where
    z: "r = h # sweep ?M ?co @ zs'" "\<forall>e \<in> set zs'. cid e = 0"
       "length (sweep ?M ?co) + length zs' = length ?co + length zs"
    unfolding r_def m n by auto
  note sw = sweep_map [OF O(4), of ?M]
  have nz: "\<forall>e \<in> set (sweep ?M ?co). cid e \<noteq> 0" using sw(2) O(3) by auto
  have c: "cands r = sweep ?M ?co" unfolding z(1) by (rule cands_append [OF nz z(2)])
  have "length (h # sweep ?M ?co @ zs') = sz" using z(3) lo O(5,6) by (simp only: list.size length_append)
  then show "redux_ok sz r" unfolding z(1) by (intro redux_okI nz z(2) sw(1) O(6)) 
  show "r ! 0 = out ! 0" by (subst O(1)) (simp add: z(1))
  show "cand_map r = meet ?M (cand_map out)" using sw(3) by (simp add: cand_map_def c)
  show "set (map cid (cands r)) \<subseteq> set (map cid (cands out))" using sw(2) c by simp
qed

lemma redux_ok_head:
  assumes "redux_ok sz (x # xs)"
  shows "redux_ok sz (y # xs)" "cands (y # xs) = cands (x # xs)"
  using assms by (simp_all add: redux_ok_def cands_def)

lemma meet_empty: "meet Map.empty A = Map.empty" "meet A Map.empty = Map.empty"
  by (auto simp: meet_def fun_eq_iff split: option.splits)

lemma cand_map_Nil: "cands xs = [] \<Longrightarrow> cand_map xs = Map.empty"
  by (simp add: cand_map_def)

lemma redux_fn_spec:
  assumes i: "redux_ok sz ins" and o: "redux_ok sz out"
  shows "redux_ok sz (cid_redux_fn ins out) \<and>
    cid (cid_redux_fn ins out ! 0) = max (cid (ins ! 0)) (cid (out ! 0)) \<and>
    cand_map (cid_redux_fn ins out) = meet (cand_map ins) (cand_map out)"
proof -
  obtain x xs where out: "out = x # xs" using o by (cases out) (auto simp: redux_ok_def)
  define y where "y = (if cid (ins ! 0) > cid x then x\<lparr>cid := cid (ins ! 0)\<rparr> else x)"
  have y: "(if cid (ins ! 0) > cid (out ! 0) then out[0 := (out ! 0)\<lparr>cid := cid (ins ! 0)\<rparr>] else out) = y # xs"
    by (simp add: y_def out)
  have cy: "cid y = max (cid (ins ! 0)) (cid (out ! 0))" by (auto simp: y_def out)
  have oy: "redux_ok sz (y # xs)" and c: "cands (y # xs) = cands out"
    using redux_ok_head [of sz x xs y] o by (simp_all add: out)
  have cm: "cand_map (y # xs) = cand_map out" by (simp add: cand_map_def c)
  have len: "length (y # xs) = sz" "2 \<le> sz" using oy unfolding redux_ok_def by blast+
  let ?cl = "y # map (\<lambda>e. e\<lparr>cid := 0\<rparr>) xs"
  have z: "\<forall>e \<in> set (map (\<lambda>e. e\<lparr>cid := 0\<rparr>) xs). cid e = 0" by simp
  have cl: "redux_ok sz ?cl" "cands ?cl = []"
    using redux_okI [OF _ z, of "[]" y sz] cands_append [OF _ z, of "[]" y] len by auto
  consider (o0) "cands out = []" | (i0) "cands out \<noteq> []" "cands ins = []" | (both) "cands out \<noteq> []" "cands ins \<noteq> []"
    by blast
  then show ?thesis
  proof cases
    case o0
    then have "cid_redux_fn ins out = y # xs"
      using redux_ok_cands_Nil [OF oy] by (simp add: cid_redux_fn_def y Let_def c)
    with oy cy cm o0 show ?thesis by (simp add: cand_map_Nil meet_empty)
  next
    case i0
    then have "cid_redux_fn ins out = ?cl"
      using redux_ok_cands_Nil [OF oy] redux_ok_cands_Nil [OF i] by (simp add: cid_redux_fn_def y Let_def c)
    with i0 cl cy show ?thesis by (simp add: cand_map_Nil meet_empty)
  next
    case both
    then have "cid_redux_fn ins out = redux_loop ins (last_used ins (length (y # xs) - 1)) (y # xs) 1
        (last_used (y # xs) (length (y # xs) - 1))"
      using redux_ok_cands_Nil [OF oy] redux_ok_cands_Nil [OF i]
      by (simp only: cid_redux_fn_def y Let_def c if_False)
    with redux_loop_correct [OF i oy] cy cm show ?thesis by simp
  qed
qed

section \<open>What one process proposes\<close>

definition free_from :: "opal_pointer_array_t \<Rightarrow> int \<Rightarrow> int \<Rightarrow> int list" where
  "free_from t i n = filter (\<lambda>k. pa_lookup t k = NULL) [i..n - 1]"

definition cid_inv :: "int \<Rightarrow> cid_state \<Rightarrow> bool" where
  "cid_inv maxc s \<longleftrightarrow> pa_inv (communicators s) \<and> pa_inv (comm_epoch s) \<and>
     maxc + 1 < max_size (communicators s) \<and> maxc + 1 < max_size (comm_epoch s)"

abbreviation proposal :: "cid_state \<Rightarrow> int \<Rightarrow> cid_redux_elem_t" where
  "proposal s c \<equiv> \<lparr>cid = c, epoch = pa_lookup (comm_epoch s) c\<rparr>"

definition marked :: "cid_state \<Rightarrow> ptr \<Rightarrow> int set \<Rightarrow> cid_state \<Rightarrow> bool" where
  "marked s p C s' \<longleftrightarrow> comm_epoch s' = comm_epoch s \<and> registered_comms s' = registered_comms s \<and>
     max_size (communicators s') = max_size (communicators s) \<and> pa_inv (communicators s') \<and>
     (\<forall>k. pa_lookup (communicators s') k = (if k \<in> C then p else pa_lookup (communicators s) k))"

lemma marked_trans:
  "marked s p C s' \<Longrightarrow> marked s' p D s'' \<Longrightarrow> marked s p (C \<union> D) s''"
  by (auto simp: marked_def)

lemma marked_inv: "cid_inv maxc s \<Longrightarrow> marked s p C s' \<Longrightarrow> cid_inv maxc s'"
  by (simp add: cid_inv_def marked_def)

lemma upto_step: "i < n \<Longrightarrow> [i..n - 1] = i # [i + 1..n - (1::int)]"
  by (simp add: upto_rec1)

lemma free_from_step:
  "i < n \<Longrightarrow> free_from t i n = (if pa_lookup t i = NULL then i # free_from t (i + 1) n else free_from t (i + 1) n)"
  by (simp add: free_from_def upto_step)

lemma free_from_mark:
  assumes "marked s p {i} s'" "i < j"
  shows "free_from (communicators s') j n = free_from (communicators s) j n"
  using assms by (auto simp: free_from_def marked_def intro!: filter_cong)

lemma collect_step:
  assumes "cid_inv maxc s" "0 \<le> i" "i < maxc" "comm \<noteq> NULL"
  obtains t where "opal_pointer_array_test_and_set_item True (communicators s) i comm =
      Some (pa_lookup (communicators s) i = NULL, t)"
    "marked s comm (if pa_lookup (communicators s) i = NULL then {i} else {}) (s\<lparr>communicators := t\<rparr>)"
proof -
  have "i + 2 < max_size (communicators s)" "pa_inv (communicators s)" using assms by (auto simp: cid_inv_def)
  from bpa.reserve [OF this(2) assms(2) this(1) assms(4)] obtain t where
    "opal_pointer_array_test_and_set_item True (communicators s) i comm = Some (pa_lookup (communicators s) i = NULL, t)"
    "pa_inv t" "max_size t = max_size (communicators s)"
    "pa_lookup t = (if pa_lookup (communicators s) i = NULL then (pa_lookup (communicators s))(i := comm)
      else pa_lookup (communicators s))" .
  then show thesis by (intro that [of t]) (auto simp: marked_def)
qed

lemma collect_spec:
  assumes "cid_inv maxc s" "0 \<le> i" "comm \<noteq> NULL" "length acc + 1 < sz"
  defines "cs \<equiv> take (sz - 1 - length acc) (free_from (communicators s) i maxc)"
  shows "\<exists>s'. collect True comm sz maxc s i acc =
      Some (s', acc @ map (proposal s) cs, if length acc + length cs = sz - 1 then last cs else max i maxc) \<and>
      marked s comm (set cs) s'"
  using assms(1-4) unfolding cs_def
proof (induction "nat (maxc - i)" arbitrary: s i acc)
  case 0
  then show ?case
    by (subst collect.simps) (auto simp: free_from_def marked_def cid_inv_def)
next
  case (Suc n)
  then have i: "i < maxc" by simp
  let ?t = "communicators s"
  obtain t where t: "opal_pointer_array_test_and_set_item True ?t i comm = Some (pa_lookup ?t i = NULL, t)"
    "marked s comm (if pa_lookup ?t i = NULL then {i} else {}) (s\<lparr>communicators := t\<rparr>)"
    using collect_step [OF Suc.prems(1,2) i Suc.prems(3)] by blast
  let ?s = "s\<lparr>communicators := t\<rparr>"
  have inv: "cid_inv maxc ?s" by (rule marked_inv [OF Suc.prems(1) t(2)])
  have ge: "opal_pointer_array_get_item (comm_epoch s) i = Some (pa_lookup (comm_epoch s) i)"
    using Suc.prems by (simp add: get_item_lookup cid_inv_def)
  have mx: "max i maxc = maxc" "max (i + 1) maxc = maxc" using i by auto
  have n: "n = nat (maxc - (i + 1))" "0 \<le> i + 1" using Suc.hyps(2) Suc.prems(2) by auto
  show ?case
  proof (cases "pa_lookup ?t i = NULL")
    case False
    then have m: "marked s comm {} ?s" using t by simp
    have ff: "free_from t (i + 1) maxc = free_from ?t i maxc"
      using False i by (simp add: free_from_step) (use m in \<open>simp add: marked_def free_from_def\<close>)
    show ?thesis
      using Suc.hyps(1) [OF n(1) inv n(2) Suc.prems(3,4)] marked_trans [OF m] i False t(1)
      by (subst collect.simps) (auto simp: ff mx)
  next
    case True
    then have m: "marked s comm {i} ?s" using t by simp
    have ff: "free_from ?t i maxc = i # free_from t (i + 1) maxc"
      using free_from_mark [OF m, of "i + 1" maxc] True i by (simp add: free_from_step)
    show ?thesis
    proof (cases "length acc + 2 = sz")
      case True
      then have "sz - 1 - length acc = 1" by simp
      then show ?thesis using True \<open>pa_lookup ?t i = NULL\<close> i t(1) ge m
        by (subst collect.simps) (simp add: ff)
    next
      case False
      then have k: "sz - 1 - length acc = Suc (sz - 1 - length (acc @ [proposal s i]))"
        using Suc.prems(4) by simp
      define acc' where "acc' = acc @ [proposal s i]"
      define cs' where "cs' = take (sz - 1 - length acc') (free_from t (i + 1) maxc)"
      have la: "length acc' = Suc (length acc)" by (simp add: acc'_def)
      have cs: "take (sz - 1 - length acc) (free_from ?t i maxc) = i # cs'"
        by (simp only: k ff take_Suc_Cons cs'_def acc'_def)
      have "length acc' + 1 < sz" using False Suc.prems(4) la by simp
      have e: "communicators ?s = t" "comm_epoch ?s = comm_epoch s" by simp_all
      from Suc.hyps(1) [OF n(1) inv n(2) Suc.prems(3) \<open>length acc' + 1 < sz\<close>, unfolded e mx, folded cs'_def]
      obtain s' where
        s': "collect True comm sz maxc ?s (i + 1) acc' = Some (s', acc' @ map (proposal s) cs',
               if length acc' + length cs' = sz - 1 then last cs' else maxc)"
        "marked ?s comm (set cs') s'"
        by blast
      have "collect True comm sz maxc s i acc = collect True comm sz maxc ?s (i + 1) acc'"
        using True i t(1) ge False by (subst collect.simps) (simp add: acc'_def)
      moreover have "length acc + length (i # cs') = sz - 1 \<longleftrightarrow> length acc' + length cs' = sz - 1"
        by (simp add: la)
      moreover have "length acc' + length cs' = sz - 1 \<Longrightarrow> last (i # cs') = last cs'"
        using False la by auto
      ultimately show ?thesis using s' marked_trans [OF m s'(2)] unfolding cs mx
        by (auto simp: acc'_def)
    qed
  qed
qed

lemma set_free_from:
  "set (free_from t i n) = {k. i \<le> k \<and> k < n \<and> pa_lookup t k = NULL}"
  by (auto simp: free_from_def)

lemma distinct_free_from [simp]: "distinct (free_from t i n)"
  by (simp add: free_from_def)

definition choice :: "nat \<Rightarrow> int \<Rightarrow> cid_state \<Rightarrow> int \<Rightarrow> int list" where
  "choice sz maxc s start = take (sz - 1) (free_from (communicators s) start maxc)"

definition scan_end :: "nat \<Rightarrow> int \<Rightarrow> cid_state \<Rightarrow> int \<Rightarrow> int" where
  "scan_end sz maxc s start =
     (if length (choice sz maxc s start) = sz - 1 then last (choice sz maxc s start) else max start maxc)"

lemma in_choice:
  "c \<in> set (choice sz maxc s start) \<Longrightarrow> start \<le> c \<and> c < maxc \<and> pa_lookup (communicators s) c = NULL"
  unfolding choice_def by (drule in_set_takeD) (simp add: set_free_from)

lemma distinct_choice: "distinct (choice sz maxc s start)"
  by (simp add: choice_def)

definition offer :: "nat \<Rightarrow> int \<Rightarrow> cid_state \<Rightarrow> int \<Rightarrow> cid_redux_elem_t list" where
  "offer sz maxc s start = \<lparr>cid = scan_end sz maxc s start, epoch = 0\<rparr> #
     map (proposal s) (choice sz maxc s start) @
     replicate (sz - 1 - length (choice sz maxc s start)) nothing"

lemma propose_spec:
  assumes "cid_inv maxc s" "0 \<le> start" "comm \<noteq> NULL" "2 \<le> sz"
  obtains s' where "propose True comm sz maxc s start = Some (s', offer sz maxc s start)"
    "marked s comm (set (choice sz maxc s start)) s'"
proof -
  have "length [] + 1 < sz" using assms(4) by simp
  from collect_spec [OF assms(1-3) this] obtain s' where
    "collect True comm sz maxc s start [] =
       Some (s', map (proposal s) (choice sz maxc s start), scan_end sz maxc s start)"
    "marked s comm (set (choice sz maxc s start)) s'"
    by (auto simp: choice_def scan_end_def)
  then show thesis by (intro that [of s']) (simp_all add: propose_def offer_def)
qed

lemma offer_ok:
  assumes "1 \<le> start" "2 \<le> sz"
  shows "redux_ok sz (offer sz maxc s start)"
    "cands (offer sz maxc s start) = map (proposal s) (choice sz maxc s start)"
proof -
  have nz: "\<forall>e \<in> set (map (proposal s) (choice sz maxc s start)). cid e \<noteq> 0"
    using assms(1) in_choice by fastforce
  have z: "\<forall>e \<in> set (replicate (sz - 1 - length (choice sz maxc s start)) nothing). cid e = 0" by simp
  show "cands (offer sz maxc s start) = map (proposal s) (choice sz maxc s start)"
    unfolding offer_def by (rule cands_append [OF nz z])
  have "length (choice sz maxc s start) \<le> sz - 1" by (simp add: choice_def)
  then show "redux_ok sz (offer sz maxc s start)"
    unfolding offer_def using assms(2) distinct_choice
    by (intro redux_okI nz z) (simp_all add: comp_def)
qed

lemma map_of_proposals:
  "map_of (map (\<lambda>e. (cid e, epoch e)) (map (proposal s) cs)) c =
   (if c \<in> set cs then Some (pa_lookup (comm_epoch s) c) else None)"
  by (induction cs) auto

lemma offer_map:
  assumes "1 \<le> start" "2 \<le> sz"
  shows "cand_map (offer sz maxc s start) c =
    (if c \<in> set (choice sz maxc s start) then Some (pa_lookup (comm_epoch s) c) else None)"
  unfolding cand_map_def offer_ok(2) [OF assms] by (rule map_of_proposals)

lemma release_loop_spec:
  assumes "cid_inv maxc s" "\<forall>c \<in> set cs. 0 < c \<and> c < maxc"
  obtains s' where "release_loop keep s (map (proposal s0) cs @ replicate n nothing) = Some s'"
    "marked s NULL (set cs - {keep}) s'"
proof -
  have "\<exists>s'. release_loop keep s (map (proposal s0) cs @ replicate n nothing) = Some s' \<and>
      marked s NULL (set cs - {keep}) s'"
    using assms
  proof (induction cs arbitrary: s)
    case Nil
    then show ?case by (cases n) (auto simp: marked_def cid_inv_def)
  next
    case (Cons c cs)
    show ?case
    proof (cases "c = keep")
      case True
      with Cons.IH [OF Cons.prems(1)] Cons.prems(2) show ?thesis by auto
    next
      case False
      have "pa_inv (communicators s)" "0 \<le> c" "c + 2 < max_size (communicators s)"
        using Cons.prems by (auto simp: cid_inv_def)
      from bpa.store [OF this] obtain t where t:
        "opal_pointer_array_set_item True (communicators s) c NULL = Some (OPAL_SUCCESS, t)" "pa_inv t"
        "max_size t = max_size (communicators s)" "pa_lookup t = (pa_lookup (communicators s))(c := NULL)" .
      then have m: "marked s NULL {c} (s\<lparr>communicators := t\<rparr>)" by (auto simp: marked_def)
      from Cons.IH [OF marked_inv [OF Cons.prems(1) m]] Cons.prems(2) obtain s' where
        "release_loop keep (s\<lparr>communicators := t\<rparr>) (map (proposal s0) cs @ replicate n nothing) = Some s'"
        "marked (s\<lparr>communicators := t\<rparr>) NULL (set cs - {keep}) s'" by auto
      moreover have "{c} \<union> (set cs - {keep}) = set (c # cs) - {keep}" using False by auto
      ultimately show ?thesis
        using marked_trans [OF m, of "set cs - {keep}" s'] False Cons.prems(2) t(1) by (simp del: insert_Diff_if)
    qed
  qed
  then show thesis using that by blast
qed

section \<open>Reductions in any order\<close>

inductive reduction :: "cid_redux_elem_t list list \<Rightarrow> cid_redux_elem_t list \<Rightarrow> bool" where
  own: "reduction [a] a"
| combine: "reduction as a \<Longrightarrow> reduction bs b \<Longrightarrow> mset cs = mset (as @ bs) \<Longrightarrow>
    reduction cs (cid_redux_fn a b)"

lemma reduction_nonempty: "reduction as g \<Longrightarrow> as \<noteq> []"
  by (induction rule: reduction.induct) auto

definition common :: "(int \<Rightarrow> nat option) set \<Rightarrow> int \<Rightarrow> nat option" where
  "common Ms c = (if \<forall>M \<in> Ms. M c \<noteq> None then Some (Max ((\<lambda>M. the (M c)) ` Ms)) else None)"

lemma common_Un:
  assumes "finite A" "finite B" "A \<noteq> {}" "B \<noteq> {}"
  shows "common (A \<union> B) = meet (common A) (common B)"
proof
  fix c
  show "common (A \<union> B) c = meet (common A) (common B) c"
  proof (cases "(\<forall>M \<in> A. M c \<noteq> None) \<and> (\<forall>M \<in> B. M c \<noteq> None)")
    case True
    then have "common (A \<union> B) c = Some (Max ((\<lambda>M. the (M c)) ` A \<union> (\<lambda>M. the (M c)) ` B))"
      by (simp add: common_def ball_Un image_Un)
    also have "\<dots> = meet (common A) (common B) c"
      using True assms by (simp add: common_def meet_def Max_Un)
    finally show ?thesis .
  next
    case False
    then show ?thesis by (auto simp: common_def meet_def ball_Un)
  qed
qed

lemma reduction_spec:
  assumes "reduction as g" "\<forall>a \<in> set as. redux_ok sz a"
  shows "redux_ok sz g \<and> cid (g ! 0) = Max ((\<lambda>a. cid (a ! 0)) ` set as) \<and>
    cand_map g = common (cand_map ` set as)"
  using assms
proof (induction rule: reduction.induct)
  case (own a)
  then show ?case by (auto simp: common_def fun_eq_iff)
next
  case (combine as a bs b cs)
  have cs: "set cs = set as \<union> set bs" using mset_eq_setD [OF combine.hyps(3)] by simp
  have ne: "set as \<noteq> {}" "set bs \<noteq> {}" using combine.hyps(1,2) by (auto dest: reduction_nonempty)
  from combine cs have A: "redux_ok sz a" "cid (a ! 0) = Max ((\<lambda>a. cid (a ! 0)) ` set as)"
      "cand_map a = common (cand_map ` set as)"
    and B: "redux_ok sz b" "cid (b ! 0) = Max ((\<lambda>a. cid (a ! 0)) ` set bs)"
      "cand_map b = common (cand_map ` set bs)" by auto
  have "Max ((\<lambda>a. cid (a ! 0)) ` set cs) = max (cid (a ! 0)) (cid (b ! 0))"
    using ne by (simp add: cs image_Un Max_Un A B)
  moreover have "common (cand_map ` set cs) = meet (cand_map a) (cand_map b)"
    using ne by (simp add: cs image_Un common_Un A B)
  ultimately show ?case using redux_fn_spec [OF A(1) B(1)] by simp
qed

section \<open>Settling on the result\<close>

lemma min_loop_spec:
  assumes "1 \<le> best" "best < length gs" "i \<le> length gs" "best < i"
    "\<forall>k. 1 \<le> k \<and> k < i \<longrightarrow> cid (gs ! best) \<le> cid (gs ! k)"
  defines "r \<equiv> min_loop gs i best"
  shows "1 \<le> r \<and> r < length gs \<and> (\<forall>k. 1 \<le> k \<and> k < length gs \<longrightarrow> cid (gs ! r) \<le> cid (gs ! k))"
  using assms(1-5) unfolding r_def
proof (induction "length gs - i" arbitrary: i best)
  case 0
  then have "min_loop gs i best = best" by (subst min_loop.simps) simp
  with 0 show ?case by auto
next
  case (Suc n)
  let ?b = "if cid (gs ! i) < cid (gs ! best) then i else best"
  have i: "i < length gs" using Suc.hyps(2) by simp
  have "\<forall>k. 1 \<le> k \<and> k < i + 1 \<longrightarrow> cid (gs ! ?b) \<le> cid (gs ! k)"
    using Suc.prems by (auto simp: less_Suc_eq) 
  then have "1 \<le> min_loop gs (i + 1) ?b \<and> min_loop gs (i + 1) ?b < length gs \<and>
      (\<forall>k. 1 \<le> k \<and> k < length gs \<longrightarrow> cid (gs ! min_loop gs (i + 1) ?b) \<le> cid (gs ! k))"
    using Suc.hyps(2) Suc.prems i by (intro Suc.hyps(1)) auto
  moreover have "min_loop gs i best = min_loop gs (i + 1) ?b"
    using i by (subst min_loop.simps) (simp only: if_True)
  ultimately show ?case by simp
qed

definition verdict :: "nat \<Rightarrow> cid_redux_elem_t list \<Rightarrow> cid_outcome" where
  "verdict sz gs =
     (let D = dom (cand_map gs)
      in if card D = sz - 1 then Chosen (Min D) (the (cand_map gs (Min D))) else Retry (cid (gs ! 0)))"

lemma dom_cand_map: "dom (cand_map gs) = cid ` set (cands gs)"
  by (simp add: cand_map_def dom_map_of_conv_image_fst image_image)

lemma card_dom_cand_map:
  assumes "redux_ok sz gs" shows "card (dom (cand_map gs)) = length (cands gs)"
  using assms distinct_card [of "map cid (cands gs)"]
  by (simp only: redux_ok_def dom_cand_map set_map length_map)

lemma min_is_verdict:
  assumes ok: "redux_ok sz gs" and pos: "\<forall>c \<in> dom (cand_map gs). 0 < c"
  defines "r \<equiv> min_loop gs 2 1"
  shows "verdict sz gs = (if cid (gs ! r) = 0 then Retry (cid (gs ! 0)) else Chosen (cid (gs ! r)) (epoch (gs ! r)))"
proof -
  obtain h zs where g: "gs = h # cands gs @ zs" "\<forall>e \<in> set zs. cid e = 0"
    "\<forall>e \<in> set (cands gs). cid e \<noteq> 0" "distinct (map cid (cands gs))" "length gs = sz" "2 \<le> sz"
    using redux_ok_split [OF ok] by metis
  let ?cs = "cands gs"
  have len: "length gs = Suc (length ?cs + length zs)" by (subst g(1)) simp
  have r: "1 \<le> r" "r < length gs" "\<And>k. 1 \<le> k \<Longrightarrow> k < length gs \<Longrightarrow> cid (gs ! r) \<le> cid (gs ! k)"
    using min_loop_spec [of 1 gs 2] g(5,6) by (auto simp: r_def less_Suc_eq numeral_2_eq_2)
  have cand: "gs ! Suc k = ?cs ! k" if "k < length ?cs" for k
    using that by (subst g(1)) (simp add: nth_append)
  have pos': "0 < cid (?cs ! k)" if "k < length ?cs" for k
    using that pos by (simp add: dom_cand_map)
  show ?thesis
  proof (cases "zs = []")
    case True
    then have l: "length ?cs = sz - 1" "card (dom (cand_map gs)) = sz - 1"
      using len g(5) card_dom_cand_map [OF ok] by auto
    obtain q where q: "r = Suc q" "q < length ?cs" using r(1,2) len True by (cases r) auto
    have m: "Min (dom (cand_map gs)) = cid (gs ! r)"
    proof (rule Min_eqI)
      show "cid (gs ! r) \<in> dom (cand_map gs)" using q cand by (simp add: dom_cand_map)
      fix c assume "c \<in> dom (cand_map gs)"
      then obtain k where "k < length ?cs" "c = cid (?cs ! k)" by (auto simp: dom_cand_map in_set_conv_nth)
      then show "cid (gs ! r) \<le> c" using r(3) [of "Suc k"] cand len by simp
    qed (simp add: dom_cand_map)
    have "cand_map gs (cid (gs ! r)) = Some (epoch (gs ! r))"
      using g(4) q cand unfolding cand_map_def
      by (intro map_of_is_SomeI) (auto simp: comp_def)
    then show ?thesis using l m q cand pos' by (simp add: verdict_def Let_def less_le)
  next
    case False
    then have "card (dom (cand_map gs)) \<noteq> sz - 1" using len g(5) card_dom_cand_map [OF ok] by simp
    moreover have "cid (gs ! r) = 0"
    proof -
      have "cid (gs ! Suc (length ?cs)) = 0" using False g(2) by (subst g(1)) (simp add: nth_append)
      then have "cid (gs ! r) \<le> 0" using r(3) [of "Suc (length ?cs)"] False len by simp
      moreover have "0 \<le> cid (gs ! r)"
      proof (cases "r \<le> length ?cs")
        case True
        then obtain q where "r = Suc q" "q < length ?cs" using r(1) by (cases r) auto
        then show ?thesis using cand pos' by (simp add: less_imp_le)
      next
        case False
        then have "gs ! r = zs ! (r - Suc (length ?cs))" by (subst g(1)) (simp add: nth_append nth_Cons')
        then show ?thesis using False r(2) len g(2) by simp
      qed
      ultimately show ?thesis by simp
    qed
    ultimately show ?thesis by (simp add: verdict_def Let_def)
  qed
qed


fun kept :: "cid_outcome \<Rightarrow> int set" where
  "kept (Chosen c e) = {c}"
| "kept _ = {}"

lemma settle_spec:
  fixes ret :: int
  assumes inv: "cid_inv maxc s" and start: "1 \<le> start"
    and m: "marked s comm (set (choice sz maxc s start)) s1"
    and g: "redux_ok sz gs" "\<forall>c \<in> dom (cand_map gs). 0 < c"
  defines "v \<equiv> (if ret = OMPI_SUCCESS then verdict sz gs else Failed ret)"
  shows "\<exists>s2. settle s1 (offer sz maxc s start) ret gs = Some (s2, v) \<and>
    marked s1 NULL (set (choice sz maxc s start) - kept v) s2"
proof -
  let ?cs = "choice sz maxc s start" and ?r = "min_loop gs 2 1"
  have inv1: "cid_inv maxc s1" by (rule marked_inv [OF inv m])
  have cs: "\<forall>c \<in> set ?cs. 0 < c \<and> c < maxc" using in_choice start by fastforce
  have tl: "tl (offer sz maxc s start) = map (proposal s) ?cs @ replicate (sz - 1 - length ?cs) nothing"
    by (simp add: offer_def)
  define keep where "keep = (if ret = OMPI_SUCCESS then cid (gs ! ?r) else 0)"
  obtain s2 where s2: "release_loop keep s1 (tl (offer sz maxc s start)) = Some s2"
    "marked s1 NULL (set ?cs - {keep}) s2"
    unfolding tl using release_loop_spec [OF inv1 cs] by blast
  have v: "v = (if ret \<noteq> OMPI_SUCCESS then Failed ret
      else if cid (gs ! ?r) = 0 then Retry (cid (gs ! 0)) else Chosen (cid (gs ! ?r)) (epoch (gs ! ?r)))"
    using min_is_verdict [OF g] by (simp add: v_def)
  have k: "set ?cs - {keep} = set ?cs - kept v"
    using cs by (auto simp: v keep_def)
  have "settle s1 (offer sz maxc s start) ret gs = Some (s2, v)"
    using s2(1) by (auto simp: settle_def Let_def v keep_def)
  then show ?thesis using s2(2) k by simp
qed

lemma marked_settled:
  assumes "marked s comm (set (choice sz maxc s start)) s1"
    "marked s1 NULL (set (choice sz maxc s start) - K) s2" "K \<subseteq> set (choice sz maxc s start)"
  shows "marked s comm K s2"
  using assms in_choice [of _ sz maxc s start] by (auto simp: marked_def)

lemma nextcid_retry:
  assumes inv: "cid_inv maxc s" and start: "1 \<le> start" and "comm \<noteq> NULL" "2 \<le> sz"
    and g: "redux_ok sz gs" "\<forall>c \<in> dom (cand_map gs). 0 < c" and v: "verdict sz gs = Retry n"
  obtains s2 where "nextcid_loop True comm newcomm sz maxc s start ((OMPI_SUCCESS, gs) # reds) =
      nextcid_loop True comm newcomm sz maxc s2 n reds" "marked s comm {} s2"
proof -
  obtain s1 where s1: "propose True comm sz maxc s start = Some (s1, offer sz maxc s start)"
    "marked s comm (set (choice sz maxc s start)) s1"
  proof (rule propose_spec [OF inv _ assms(3,4)])
    show "0 \<le> start" using start by simp
  qed
  obtain s2 where s2: "settle s1 (offer sz maxc s start) OMPI_SUCCESS gs = Some (s2, Retry n)"
    "marked s1 NULL (set (choice sz maxc s start)) s2"
    using settle_spec [OF inv start s1(2) g, of OMPI_SUCCESS] v by auto
  have "marked s comm {} s2" using marked_settled [OF s1(2), of "{}"] s2(2) by simp
  then show thesis using s1(1) s2(1) by (intro that [of s2]) auto
qed

lemma nextcid_chosen:
  assumes inv: "cid_inv maxc s" and start: "1 \<le> start" and "comm \<noteq> NULL" "2 \<le> sz"
    and g: "redux_ok sz gs" "\<forall>c \<in> dom (cand_map gs). 0 < c" and v: "verdict sz gs = Chosen c e"
    and c: "c \<in> set (choice sz maxc s start)"
  obtains s' where "nextcid_loop True comm newcomm sz maxc s start ((OMPI_SUCCESS, gs) # reds) =
      Some (OMPI_SUCCESS, s', Some \<lparr>c_contextid = c, c_f_to_c_index = c, c_epoch = e + 1\<rparr>)"
    "cid_inv maxc s'" "pa_lookup (communicators s') = (pa_lookup (communicators s))(c := newcomm)"
    "pa_lookup (comm_epoch s') = (pa_lookup (comm_epoch s))(c := e + 1)"
    "registered_comms s' = registered_comms s"
proof -
  obtain s1 where s1: "propose True comm sz maxc s start = Some (s1, offer sz maxc s start)"
    "marked s comm (set (choice sz maxc s start)) s1"
  proof (rule propose_spec [OF inv _ assms(3,4)])
    show "0 \<le> start" using start by simp
  qed
  obtain s2 where s2: "settle s1 (offer sz maxc s start) OMPI_SUCCESS gs = Some (s2, Chosen c e)"
    "marked s1 NULL (set (choice sz maxc s start) - {c}) s2"
    using settle_spec [OF inv start s1(2) g, of OMPI_SUCCESS] v by auto
  have m: "marked s comm {c} s2" using marked_settled [OF s1(2) s2(2)] c by simp
  have c': "0 \<le> c" "c + 2 < max_size (communicators s2)" "c + 2 < max_size (comm_epoch s2)"
    "pa_inv (communicators s2)" "pa_inv (comm_epoch s2)"
    using in_choice [OF c] start marked_inv [OF inv m] by (auto simp: cid_inv_def)
  obtain t where t: "opal_pointer_array_set_item True (communicators s2) c newcomm = Some (OPAL_SUCCESS, t)"
    "pa_inv t" "max_size t = max_size (communicators s2)" "pa_lookup t = (pa_lookup (communicators s2))(c := newcomm)"
    using bpa.store [OF c'(4,1,2)] .
  obtain u where u: "opal_pointer_array_set_item True (comm_epoch s2) c (e + 1) = Some (OPAL_SUCCESS, u)"
    "pa_inv u" "max_size u = max_size (comm_epoch s2)" "pa_lookup u = (pa_lookup (comm_epoch s2))(c := e + 1)"
    using bpa.store [OF c'(5,1,3)] .
  show thesis
  proof (rule that [of "s2\<lparr>communicators := t, comm_epoch := u\<rparr>"])
    show "pa_lookup (communicators (s2\<lparr>communicators := t, comm_epoch := u\<rparr>)) =
        (pa_lookup (communicators s))(c := newcomm)"
      using t(4) m by (auto simp: marked_def fun_eq_iff)
    show "cid_inv maxc (s2\<lparr>communicators := t, comm_epoch := u\<rparr>)"
      using t u marked_inv [OF inv m] by (simp add: cid_inv_def)
  qed (use s1(1) s2(1) t u m in \<open>auto simp: adopt_cid_def marked_def\<close>)
qed


section \<open>All processes together\<close>

abbreviation offers :: "nat \<Rightarrow> nat \<Rightarrow> int \<Rightarrow> (nat \<Rightarrow> cid_state) \<Rightarrow> (nat \<Rightarrow> int) \<Rightarrow> cid_redux_elem_t list list" where
  "offers n sz maxc st start \<equiv> map (\<lambda>i. offer sz maxc (st i) (start i)) [0..<n]"

lemma offers_reduce:
  assumes g: "reduction (offers n sz maxc st start) g" and n: "0 < n" "2 \<le> sz" "\<forall>i<n. 1 \<le> start i"
  shows "redux_ok sz g" "cid (g ! 0) = Max ((\<lambda>i. scan_end sz maxc (st i) (start i)) ` {..<n})"
    "cand_map g = (\<lambda>c. if \<forall>i<n. c \<in> set (choice sz maxc (st i) (start i))
       then Some (Max ((\<lambda>i. pa_lookup (comm_epoch (st i)) c) ` {..<n})) else None)"
    "\<forall>c \<in> dom (cand_map g). 0 < c"
proof -
  let ?o = "\<lambda>i. offer sz maxc (st i) (start i)"
  have set: "set (offers n sz maxc st start) = ?o ` {..<n}" by (auto simp: atLeast0LessThan)
  have ok: "\<forall>a \<in> set (offers n sz maxc st start). redux_ok sz a"
    using offer_ok(1) n by (auto simp: set)
  note R = reduction_spec [OF g ok]
  then show "redux_ok sz g" by blast
  show "cid (g ! 0) = Max ((\<lambda>i. scan_end sz maxc (st i) (start i)) ` {..<n})"
    using R by (simp add: set image_image) (simp add: offer_def lessThan_atLeast0)
  show cm: "cand_map g = (\<lambda>c. if \<forall>i<n. c \<in> set (choice sz maxc (st i) (start i))
       then Some (Max ((\<lambda>i. pa_lookup (comm_epoch (st i)) c) ` {..<n})) else None)"
  proof
    fix c
    have "cand_map (?o i) c = (if c \<in> set (choice sz maxc (st i) (start i))
        then Some (pa_lookup (comm_epoch (st i)) c) else None)" if "i < n" for i
      using that n by (simp add: offer_map)
    note m = this
    show "cand_map g c = (if \<forall>i<n. c \<in> set (choice sz maxc (st i) (start i))
       then Some (Max ((\<lambda>i. pa_lookup (comm_epoch (st i)) c) ` {..<n})) else None)"
    proof (cases "\<forall>i<n. c \<in> set (choice sz maxc (st i) (start i))")
      case True
      then have "(\<lambda>i. the (cand_map (?o i) c)) ` {..<n} = (\<lambda>i. pa_lookup (comm_epoch (st i)) c) ` {..<n}"
        by (intro image_cong) (auto simp: m)
      then show ?thesis using R True m by (simp add: common_def set image_image lessThan_atLeast0)
    next
      case False
      then obtain i where i: "i < n" "c \<notin> set (choice sz maxc (st i) (start i))" by blast
      then have "cand_map (?o i) c = None" by (simp add: m)
      then have "common (cand_map ` ?o ` {..<n}) c = None" using i(1) by (auto simp: common_def)
      then show ?thesis using R False by (auto simp: set lessThan_atLeast0)
    qed
  qed
  show "\<forall>c \<in> dom (cand_map g). 0 < c"
  proof
    fix c assume "c \<in> dom (cand_map g)"
    then have "c \<in> set (choice sz maxc (st 0) (start 0))" using n(1) by (auto simp: cm split: if_splits)
    then show "0 < c" using in_choice n by fastforce
  qed
qed

lemma same_verdict:
  assumes "reduction (offers n sz maxc st start) g" "reduction (offers n sz maxc st start) g'"
    "0 < n" "2 \<le> sz" "\<forall>i<n. 1 \<le> start i"
  shows "verdict sz g = verdict sz g'"
proof -
  have "cand_map g = cand_map g'" "cid (g ! 0) = cid (g' ! 0)"
    using offers_reduce(2,3) [OF assms(1,3-5)] offers_reduce(2,3) [OF assms(2-5)] by simp_all
  then show ?thesis by (simp add: verdict_def Let_def)
qed

lemma verdict_chosenD:
  assumes g: "reduction (offers n sz maxc st start) g" and n: "0 < n" "2 \<le> sz" "\<forall>i<n. 1 \<le> start i"
    and v: "verdict sz g = Chosen c e"
  shows "\<forall>i<n. c \<in> set (choice sz maxc (st i) (start i))"
    "e = Max ((\<lambda>i. pa_lookup (comm_epoch (st i)) c) ` {..<n})"
proof -
  note R = offers_reduce [OF g n]
  have D: "card (dom (cand_map g)) = sz - 1" "c = Min (dom (cand_map g))" "e = the (cand_map g c)"
    using v by (auto simp: verdict_def Let_def split: if_splits)
  have "dom (cand_map g) \<noteq> {}" "finite (dom (cand_map g))"
    using D(1) n(2) by (auto simp: dom_cand_map)
  then have "c \<in> dom (cand_map g)" unfolding D(2) by (rule Min_in [rotated])
  then show "\<forall>i<n. c \<in> set (choice sz maxc (st i) (start i))"
    "e = Max ((\<lambda>i. pa_lookup (comm_epoch (st i)) c) ` {..<n})"
    using D(3) unfolding R(3) by (auto split: if_splits)
qed

lemma verdict_not_Failed: "verdict sz g \<noteq> Failed r"
  by (simp add: verdict_def Let_def)

text \<open>Above every slot in use the identifiers are free, so all processes that start at the
  same place propose the same ones.\<close>

lemma free_from_above:
  assumes "\<forall>k \<ge> i. pa_lookup t k = NULL" shows "free_from t i n = [i..n - 1]"
  using assms by (simp add: free_from_def)

lemma nth_upto_take: "i + int k \<le> n \<Longrightarrow> take k [i..n - 1] = [i..i + int k - 1]"
proof (induction k arbitrary: i)
  case (Suc k)
  then have "[i..n - 1] = i # [i + 1..n - 1]" "[i..i + int (Suc k) - 1] = i # [i + 1..i + 1 + int k - 1]"
    by (simp_all add: upto_rec1 add.commute)
  then show ?case using Suc.IH [of "i + 1"] Suc.prems by simp
qed simp

lemma choice_above:
  assumes "\<forall>k \<ge> i. pa_lookup (communicators s) k = NULL" "i + int (sz - 1) \<le> maxc"
  shows "choice sz maxc s i = [i..i + int (sz - 1) - 1]"
  using assms by (simp add: choice_def free_from_above nth_upto_take)

lemma scan_end_above:
  assumes "\<forall>k \<ge> i. pa_lookup (communicators s) k = NULL" "i + int (sz - 1) \<le> maxc" "2 \<le> sz"
  shows "scan_end sz maxc s i = i + int (sz - 1) - 1"
proof -
  have "[i..i + int (sz - 1) - 1] = [i..i + int (sz - 1) - 1 - 1] @ [i + int (sz - 1) - 1]"
    using assms(3) by (intro upto_rec2) simp
  then have "last [i..i + int (sz - 1) - 1] = i + int (sz - 1) - 1" by (metis last_snoc)
  then show ?thesis by (simp add: scan_end_def choice_above [OF assms(1,2)])
qed

lemma highest_taken_above:
  assumes "pa_inv t" "highest_taken t < k" shows "pa_lookup t k = NULL"
  using assms by (auto simp: pa_inv_def pa_lookup_def)


lemma scan_end_ge: "2 \<le> sz \<Longrightarrow> start \<le> scan_end sz maxc s start"
proof (cases "length (choice sz maxc s start) = sz - 1")
  case True
  assume "2 \<le> sz"
  with True have "last (choice sz maxc s start) \<in> set (choice sz maxc s start)" by (intro last_in_set) auto
  from in_choice [OF this] True show ?thesis by (simp add: scan_end_def)
qed (simp add: scan_end_def)

text \<open>One pass of all processes: \<open>st i\<close> is the table of process \<open>i\<close>, \<open>start i\<close> where it
  starts, and \<open>g i\<close> the result of the reduction there, which each process may get by an order of
  its own.\<close>

definition cid_round ::
  "nat \<Rightarrow> nat \<Rightarrow> int \<Rightarrow> (nat \<Rightarrow> cid_state) \<Rightarrow> (nat \<Rightarrow> int) \<Rightarrow> (nat \<Rightarrow> ptr) \<Rightarrow> (nat \<Rightarrow> cid_redux_elem_t list) \<Rightarrow> bool"
where
  "cid_round n sz maxc st start comm g \<longleftrightarrow> 0 < n \<and> 2 \<le> sz \<and>
     (\<forall>i<n. cid_inv maxc (st i) \<and> 1 \<le> start i \<and> comm i \<noteq> NULL \<and>
        reduction (offers n sz maxc st start) (g i))"

lemma cid_roundD:
  assumes "cid_round n sz maxc st start comm g"
  shows "0 < n" "2 \<le> sz" "\<forall>i<n. 1 \<le> start i"
    and "i < n \<Longrightarrow> cid_inv maxc (st i)" "i < n \<Longrightarrow> comm i \<noteq> NULL" "i < n \<Longrightarrow> 1 \<le> start i"
    and "i < n \<Longrightarrow> reduction (offers n sz maxc st start) (g i)"
  using assms by (auto simp: cid_round_def)

lemma round_reduced:
  assumes R: "cid_round n sz maxc st start comm g" and i: "i < n"
  shows "redux_ok sz (g i)" "\<forall>c \<in> dom (cand_map (g i)). 0 < c" "verdict sz (g i) = verdict sz (g 0)"
  using offers_reduce(1,4) [OF cid_roundD(7) [OF R i] cid_roundD(1-3) [OF R]]
    same_verdict [OF cid_roundD(7) [OF R i] cid_roundD(7) [OF R cid_roundD(1) [OF R]] cid_roundD(1-3) [OF R]]
  by auto

lemma round_retry:
  assumes R: "cid_round n sz maxc st start comm g" and v: "verdict sz (g 0) = Retry m"
  shows "m = Max ((\<lambda>i. scan_end sz maxc (st i) (start i)) ` {..<n})" "i < n \<Longrightarrow> start i \<le> m"
proof -
  note D = cid_roundD [OF R]
  show m: "m = Max ((\<lambda>i. scan_end sz maxc (st i) (start i)) ` {..<n})"
    using v offers_reduce(2) [OF D(7) [OF D(1)] D(1-3)] by (simp add: verdict_def Let_def split: if_splits)
  assume i: "i < n"
  have "scan_end sz maxc (st i) (start i) \<le> m" unfolding m using i by (intro Max_ge) auto
  then show "start i \<le> m" using scan_end_ge [OF D(2), of "start i" maxc "st i"] by simp
qed

lemma round_chosen:
  assumes R: "cid_round n sz maxc st start comm g" and v: "verdict sz (g 0) = Chosen c e" and i: "i < n"
  shows "c \<in> set (choice sz maxc (st i) (start i))" "pa_lookup (communicators (st i)) c = NULL"
    "pa_lookup (comm_epoch (st i)) c \<le> e"
proof -
  note D = cid_roundD [OF R]
  note V = verdict_chosenD [OF D(7) [OF D(1)] D(1-3) v]
  then show "c \<in> set (choice sz maxc (st i) (start i))" "pa_lookup (communicators (st i)) c = NULL"
    using i in_choice by blast+
  show "pa_lookup (comm_epoch (st i)) c \<le> e" unfolding V(2) using i by (intro Max_ge) auto
qed

lemma round_settles:
  assumes R: "cid_round n sz maxc st start comm g" and i: "i < n"
    and p: "propose True (comm i) sz maxc (st i) (start i) = Some (t, offer sz maxc (st i) (start i))"
  shows "\<exists>s. settle t (offer sz maxc (st i) (start i)) OMPI_SUCCESS (g i) = Some (s, verdict sz (g 0)) \<and>
    marked (st i) (comm i) (kept (verdict sz (g 0))) s"
proof -
  note D = cid_roundD [OF R]
  let ?cs = "set (choice sz maxc (st i) (start i))"
  have "0 \<le> start i" using D(6) [OF i] by simp
  then have t: "marked (st i) (comm i) ?cs t"
    using propose_spec [OF D(4) [OF i] _ D(5) [OF i] D(2)] p by (metis option.inject prod.inject)
  obtain s where s: "settle t (offer sz maxc (st i) (start i)) OMPI_SUCCESS (g i) = Some (s, verdict sz (g 0))"
    "marked t NULL (?cs - kept (verdict sz (g 0))) s"
    using settle_spec [OF D(4) [OF i] D(6) [OF i] t round_reduced(1,2) [OF R i], of OMPI_SUCCESS]
      round_reduced(3) [OF R i] by auto
  have "kept (verdict sz (g 0)) \<subseteq> ?cs"
    using round_chosen(1) [OF R _ i] by (cases "verdict sz (g 0)") auto
  from marked_settled [OF t s(2) this] show ?thesis using s(1) by blast
qed


lemma round_step:
  assumes R: "cid_round n sz maxc st start comm g" and i: "i < n"
  shows "case verdict sz (g 0) of
      Failed r \<Rightarrow> False
    | Retry m \<Rightarrow> \<exists>s. nextcid_loop True (comm i) nc sz maxc (st i) (start i) ((OMPI_SUCCESS, g i) # reds) =
          nextcid_loop True (comm i) nc sz maxc s m reds \<and> marked (st i) (comm i) {} s
    | Chosen c e \<Rightarrow> \<exists>s. nextcid_loop True (comm i) nc sz maxc (st i) (start i) ((OMPI_SUCCESS, g i) # reds) =
          Some (OMPI_SUCCESS, s, Some \<lparr>c_contextid = c, c_f_to_c_index = c, c_epoch = e + 1\<rparr>) \<and>
          cid_inv maxc s \<and>
          pa_lookup (communicators s) = (pa_lookup (communicators (st i)))(c := nc) \<and>
          pa_lookup (comm_epoch s) = (pa_lookup (comm_epoch (st i)))(c := e + 1)"
proof -
  note D = cid_roundD [OF R]
  note r = round_reduced [OF R i]
  show ?thesis
  proof (cases "verdict sz (g 0)")
    case (Failed r)
    then show ?thesis using verdict_not_Failed by blast
  next
    case (Retry m)
    with r(3) have "verdict sz (g i) = Retry m" by simp
    from nextcid_retry [OF D(4) [OF i] D(6) [OF i] D(5) [OF i] D(2) r(1,2) this]
    show ?thesis unfolding Retry cid_outcome.case by blast
  next
    case (Chosen c e)
    with r(3) have "verdict sz (g i) = Chosen c e" by simp
    from nextcid_chosen [OF D(4) [OF i] D(6) [OF i] D(5) [OF i] D(2) r(1,2) this round_chosen(1) [OF R Chosen i]]
    show ?thesis unfolding Chosen cid_outcome.case by blast
  qed
qed

lemma offer_marked:
  assumes "marked s p {} s'" shows "offer sz maxc s' start = offer sz maxc s start"
  using assms by (simp add: offer_def scan_end_def choice_def free_from_def marked_def)

text \<open>A second pass from a place above every slot in use always succeeds.\<close>

lemma verdict_above:
  assumes R: "cid_round n sz maxc st (\<lambda>_. m) comm g" and room: "m + int (sz - 1) \<le> maxc"
    and above: "\<forall>i<n. \<forall>k \<ge> m. pa_lookup (communicators (st i)) k = NULL"
  shows "\<exists>e. verdict sz (g 0) = Chosen m e"
proof -
  note D = cid_roundD [OF R]
  have ch: "choice sz maxc (st i) m = [m..m + int (sz - 1) - 1]" if "i < n" for i
    using that above room by (intro choice_above) auto
  have "dom (cand_map (g 0)) = {m..m + int (sz - 1) - 1}"
    using D(1) offers_reduce(3) [OF D(7) [OF D(1)] D(1-3)] ch by (auto simp: dom_def)
  moreover have "Min {m..m + int (sz - 1) - 1} = m" using D(2) by (intro Min_eqI) auto
  ultimately show ?thesis using D(2) by (auto simp: verdict_def Let_def)
qed

lemma offers_eq:
  assumes "\<forall>i<n. cid_inv maxc (st i) \<and> 1 \<le> start i \<and> comm i \<noteq> NULL \<and>
      propose True (comm i) sz maxc (st i) (start i) = Some (t i, a i)" "2 \<le> sz"
  shows "i < n \<Longrightarrow> a i = offer sz maxc (st i) (start i)" "map a [0..<n] = offers n sz maxc st start"
proof -
  show a: "a i = offer sz maxc (st i) (start i)" if "i < n" for i
  proof -
    from assms(1) that have A: "cid_inv maxc (st i)" "0 \<le> start i" "comm i \<noteq> NULL"
      "propose True (comm i) sz maxc (st i) (start i) = Some (t i, a i)" by auto
    from propose_spec [OF A(1-3) assms(2)] A(4) show ?thesis by (metis option.inject prod.inject)
  qed
  show "map a [0..<n] = offers n sz maxc st start" using a by simp
qed

lemma second_round:
  assumes R: "cid_round n sz maxc st start comm g" and v: "verdict sz (g 0) = Retry m"
    and st: "\<forall>i<n. propose True (comm i) sz maxc (st i) (start i) = Some (t i, offer sz maxc (st i) (start i))"
    and again: "\<forall>i<n. \<forall>s m. settle (t i) (offer sz maxc (st i) (start i)) OMPI_SUCCESS (g i) = Some (s, Retry m) \<longrightarrow>
      (\<exists>t'. propose True (comm i) sz maxc s m = Some (t', a' i)) \<and> reduction (map a' [0..<n]) (g' i)"
  shows "cid_round n sz maxc st (\<lambda>_. m) comm g'"
proof -
  note D = cid_roundD [OF R]
  have m: "1 \<le> m" using round_retry(2) [OF R v D(1)] D(6) [OF D(1)] by simp
  have a': "a' i = offer sz maxc (st i) m" "reduction (map a' [0..<n]) (g' i)" if i: "i < n" for i
  proof -
    obtain s where s: "settle (t i) (offer sz maxc (st i) (start i)) OMPI_SUCCESS (g i) = Some (s, Retry m)"
      "marked (st i) (comm i) {} s"
      using round_settles [OF R i, of "t i"] st i v by auto
    with again i obtain t' where t': "propose True (comm i) sz maxc s m = Some (t', a' i)" "reduction (map a' [0..<n]) (g' i)"
      by blast
    then show "reduction (map a' [0..<n]) (g' i)" by simp
    have "0 \<le> m" using m by simp
    from propose_spec [OF marked_inv [OF D(4) [OF i] s(2)] this D(5) [OF i] D(2)] t'(1)
    have "a' i = offer sz maxc s m" by (metis option.inject prod.inject)
    then show "a' i = offer sz maxc (st i) m" by (simp add: offer_marked [OF s(2)])
  qed
  have e: "map a' [0..<n] = offers n sz maxc st (\<lambda>_. m)" using a'(1) by simp
  show ?thesis using D m a'(2) [unfolded e] by (simp add: cid_round_def)
qed

lemma cid_round_marked:
  assumes R: "cid_round n sz maxc st start comm g" and S: "\<And>i. i < n \<Longrightarrow> marked (st i) (comm i) {} (S i)"
  shows "cid_round n sz maxc S start comm g"
proof -
  have e: "offers n sz maxc S start = offers n sz maxc st start" using offer_marked [OF S] by simp
  show ?thesis using R marked_inv [OF _ S] unfolding cid_round_def e by blast
qed

lemma first_retry_above:
  assumes R: "cid_round n sz maxc st (\<lambda>i. highest_taken (communicators (st i)) + 1) comm g"
    and v: "verdict sz (g 0) = Retry m"
    and room: "\<forall>i<n. highest_taken (communicators (st i)) + 2 * int sz \<le> maxc"
  shows "m + int (sz - 1) \<le> maxc" "\<forall>i<n. \<forall>k \<ge> m. pa_lookup (communicators (st i)) k = NULL"
proof -
  note D = cid_roundD [OF R]
  let ?h = "\<lambda>i. highest_taken (communicators (st i))"
  have above: "pa_lookup (communicators (st i)) k = NULL" if "i < n" "?h i + 1 \<le> k" for i k
    using that D(4) [OF that(1)] by (intro highest_taken_above) (auto simp: cid_inv_def)
  have e: "scan_end sz maxc (st i) (?h i + 1) = ?h i + 1 + int (sz - 1) - 1" if "i < n" for i
    using that above room D(2) by (intro scan_end_above) auto
  have "m \<in> (\<lambda>i. scan_end sz maxc (st i) (?h i + 1)) ` {..<n}"
    unfolding round_retry(1) [OF R v] using D(1) by (intro Max_in) auto
  then obtain i where "i < n" "m = ?h i + 1 + int (sz - 1) - 1" using e by auto
  then show "m + int (sz - 1) \<le> maxc" using room D(2) by (auto simp: of_nat_diff)
  show "\<forall>i<n. \<forall>k \<ge> m. pa_lookup (communicators (st i)) k = NULL"
    using above round_retry(2) [OF R v] by force
qed

text \<open>A table of four slots that holds \<open>xs\<close> at its start.\<close>

definition sample_tab :: "ptr list \<Rightarrow> opal_pointer_array_t" where
  "sample_tab xs =
     \<lparr>lowest_free = int (length xs), highest_taken = int (length xs) - 1,
      number_free = 4 - int (length xs), pa_size = 4, max_size = 9, block_size = 4,
      addr = Some (xs @ replicate (4 - length xs) NULL)\<rparr>"

definition sample_cids :: "nat \<Rightarrow> cid_state" where
  "sample_cids i =
     \<lparr>communicators = sample_tab (if i = 0 then [100] else [100, 101]),
      comm_epoch = sample_tab [1, 1, 7], registered_comms = []\<rparr>"

lemma cid_inv_sample: "cid_inv 5 (sample_cids i)"
  by (auto simp: cid_inv_def pa_inv_def first_free_def sample_cids_def sample_tab_def nth_Cons'
      less_Suc_eq numeral_eq_Suc)

abbreviation sample_offer :: "nat \<Rightarrow> int \<Rightarrow> cid_state \<times> cid_redux_elem_t list" where
  "sample_offer i start \<equiv> the (propose True (200 + i) 2 5 (sample_cids i) start)"

lemma sample_offers:
  "snd (sample_offer 0 1) = [\<lparr>cid = 1, epoch = 0\<rparr>, \<lparr>cid = 1, epoch = 1\<rparr>]"
  "snd (sample_offer 1 2) = [\<lparr>cid = 2, epoch = 0\<rparr>, \<lparr>cid = 2, epoch = 7\<rparr>]"
  "snd (sample_offer 0 2) = [\<lparr>cid = 2, epoch = 0\<rparr>, \<lparr>cid = 2, epoch = 7\<rparr>]"
  by code_simp+

lemma reduction_two: "reduction [a, b] (cid_redux_fn a b)"
  by (rule reduction.combine [OF reduction.own reduction.own]) simp


lemma settle_failed:
  assumes "cid_inv maxc s" "1 \<le> start" "marked s comm (set (choice sz maxc s start)) s1" "ret \<noteq> OMPI_SUCCESS"
  shows "\<exists>s2. settle s1 (offer sz maxc s start) ret gs = Some (s2, Failed ret) \<and> marked s comm {} s2"
proof -
  let ?cs = "choice sz maxc s start"
  have cs: "\<forall>c \<in> set ?cs. 0 < c \<and> c < maxc" using in_choice assms(2) by fastforce
  obtain s2 where "release_loop 0 s1 (tl (offer sz maxc s start)) = Some s2" "marked s1 NULL (set ?cs - {0}) s2"
    using release_loop_spec [OF marked_inv [OF assms(1,3)] cs] by (metis list.sel(3) offer_def)
  moreover have "set ?cs - {0} = set ?cs - {}" using cs by auto
  ultimately show ?thesis using assms(4) marked_settled [OF assms(3), of "{}" s2] by (simp add: settle_def Let_def)
qed

lemma choice_exhausted:
  assumes "card {k. start \<le> k \<and> k < maxc \<and> pa_lookup (communicators s) k = NULL} < sz - 1"
  shows "choice sz maxc s start = free_from (communicators s) start maxc"
    "length (choice sz maxc s start) < sz - 1" "scan_end sz maxc s start = max start maxc"
proof -
  have "length (free_from (communicators s) start maxc) < sz - 1"
    using assms distinct_card [OF distinct_free_from, of "communicators s" start maxc] by (simp add: set_free_from)
  then show "choice sz maxc s start = free_from (communicators s) start maxc"
    "length (choice sz maxc s start) < sz - 1" "scan_end sz maxc s start = max start maxc"
    by (simp_all add: choice_def scan_end_def)
qed

text \<open>The loop while all its passes tell it to retry: the table and the place to start after them.\<close>

fun nextcid_waits ::
  "bool \<Rightarrow> ptr \<Rightarrow> nat \<Rightarrow> int \<Rightarrow> cid_state \<Rightarrow> int \<Rightarrow> (int \<times> cid_redux_elem_t list) list \<Rightarrow> (cid_state \<times> int) option" where
  "nextcid_waits mem comm sz maxc s start [] = Some (s, start)"
| "nextcid_waits mem comm sz maxc s start ((ret, gs) # reds) =
     do {
       (s, lCIDs) \<leftarrow> propose mem comm sz maxc s start;
       (s, r) \<leftarrow> settle s lCIDs ret gs;
       case r of Retry start \<Rightarrow> nextcid_waits mem comm sz maxc s start reds | _ \<Rightarrow> None }"

lemma waits_loop:
  "nextcid_waits mem comm sz maxc s start reds = Some (s', m) \<Longrightarrow>
   nextcid_loop mem comm nc sz maxc s start (reds @ reds') = nextcid_loop mem comm nc sz maxc s' m reds'"
proof (induction reds arbitrary: s start)
  case (Cons r reds)
  obtain ret gs where r: "r = (ret, gs)" by fastforce
  with Cons.prems obtain t a u v where p: "propose mem comm sz maxc s start = Some (t, a)"
    "settle t a ret gs = Some (u, v)" "(case v of Retry start \<Rightarrow> nextcid_waits mem comm sz maxc u start reds | _ \<Rightarrow> None) = Some (s', m)"
    by (auto simp: bind_eq_Some_conv)
  then show ?case using Cons.IH by (cases v) (simp_all add: r)
qed simp

lemma waits_append:
  "nextcid_waits mem comm sz maxc s start (reds @ reds') =
   do { (s, m) \<leftarrow> nextcid_waits mem comm sz maxc s start reds; nextcid_waits mem comm sz maxc s m reds' }"
proof (induction reds arbitrary: s start)
  case (Cons r reds)
  obtain ret gs where "r = (ret, gs)" by fastforce
  with Cons.IH show ?case by (auto split: cid_outcome.splits Option.bind_splits)
qed simp

lemma finite_free: "finite {k. i \<le> k \<and> k < maxc \<and> pa_lookup t k = NULL}" for i :: int
  by (rule finite_subset [of _ "{i..<maxc}"]) auto

lemma round_exhausted:
  assumes R: "cid_round n sz maxc st start comm g"
    and j: "j < n" "card {k. start j \<le> k \<and> k < maxc \<and> pa_lookup (communicators (st j)) k = NULL} < sz - 1"
  obtains m where "verdict sz (g 0) = Retry m" "maxc \<le> m"
proof -
  note D = cid_roundD [OF R]
  note x = choice_exhausted [OF j(2)]
  have "dom (cand_map (g 0)) \<subseteq> set (choice sz maxc (st j) (start j))"
    using offers_reduce(3) [OF D(7) [OF D(1)] D(1-3)] j(1) by (auto split: if_splits)
  then have "card (dom (cand_map (g 0))) \<noteq> sz - 1"
    using card_mono [of "set (choice sz maxc (st j) (start j))"] card_length [of "choice sz maxc (st j) (start j)"] x(2)
    by (metis List.finite_set leD le_trans)
  then obtain m where v: "verdict sz (g 0) = Retry m" by (simp add: verdict_def Let_def)
  have "scan_end sz maxc (st j) (start j) \<le> m"
    unfolding round_retry(1) [OF R v] using j(1) by (intro Max_ge) auto
  then show thesis using that v x(3) by simp
qed

lemma exhausted_passes:
  assumes n: "0 < n" "2 \<le> sz"
    and st: "\<forall>i<n. cid_inv maxc (st i) \<and> 1 \<le> start i \<and> comm i \<noteq> NULL"
    and "\<forall>p<N. \<forall>k<n. \<forall>s m.
      nextcid_waits True (comm k) sz maxc (st k) (start k) (map (\<lambda>q. (OMPI_SUCCESS, g q k)) [0..<p]) = Some (s, m) \<longrightarrow>
      (\<exists>t. propose True (comm k) sz maxc s m = Some (t, a p k))"
    and "\<forall>p<N. \<forall>i<n. reduction (map (a p) [0..<n]) (g p i)"
    and j: "j < n" "card {k. start j \<le> k \<and> k < maxc \<and> pa_lookup (communicators (st j)) k = NULL} < sz - 1"
  shows "\<exists>S b. (\<forall>i<n. nextcid_waits True (comm i) sz maxc (st i) (start i) (map (\<lambda>q. (OMPI_SUCCESS, g q i)) [0..<N]) =
        Some (S i, b i) \<and> marked (st i) (comm i) {} (S i) \<and> (0 < N \<longrightarrow> maxc \<le> b i)) \<and> (\<forall>i<n. start i \<le> b i)"
  using assms(4,5)
proof (induction N)
  case 0
  have "marked (st i) (comm i) {} (st i)" if "i < n" for i using st that by (auto simp: marked_def cid_inv_def)
  then show ?case by (intro exI [of _ st] exI [of _ start]) simp
next
  case (Suc N)
  have "\<forall>p<N. \<forall>k<n. \<forall>s m.
      nextcid_waits True (comm k) sz maxc (st k) (start k) (map (\<lambda>q. (OMPI_SUCCESS, g q k)) [0..<p]) = Some (s, m) \<longrightarrow>
      (\<exists>t. propose True (comm k) sz maxc s m = Some (t, a p k))"
    "\<forall>p<N. \<forall>i<n. reduction (map (a p) [0..<n]) (g p i)"
    using Suc.prems by (blast intro: less_SucI)+
  from Suc.IH [OF this] obtain S b where S: "\<forall>i<n. nextcid_waits True (comm i) sz maxc (st i) (start i)
        (map (\<lambda>q. (OMPI_SUCCESS, g q i)) [0..<N]) = Some (S i, b i) \<and> marked (st i) (comm i) {} (S i)"
      "\<forall>i<n. start i \<le> b i" by blast
  then have "\<forall>i<n. \<exists>t. propose True (comm i) sz maxc (S i) (b i) = Some (t, a N i)"
    using Suc.prems(1) by simp
  then obtain t where t: "\<forall>i<n. propose True (comm i) sz maxc (S i) (b i) = Some (t i, a N i)" by metis
  have inv: "\<forall>i<n. cid_inv maxc (S i) \<and> 1 \<le> b i \<and> comm i \<noteq> NULL \<and>
      propose True (comm i) sz maxc (S i) (b i) = Some (t i, a N i)"
    using st S t marked_inv by force
  note o = offers_eq [OF inv n(2)]
  have "\<forall>i<n. reduction (map (a N) [0..<n]) (g N i)" using Suc.prems(2) by blast
  then have R: "cid_round n sz maxc S b comm (g N)" using n inv unfolding o(2) by (simp add: cid_round_def)
  have "{k. b j \<le> k \<and> k < maxc \<and> pa_lookup (communicators (S j)) k = NULL} \<subseteq>
      {k. start j \<le> k \<and> k < maxc \<and> pa_lookup (communicators (st j)) k = NULL}"
    using S j(1) by (auto simp: marked_def)
  then have "card {k. b j \<le> k \<and> k < maxc \<and> pa_lookup (communicators (S j)) k = NULL} < sz - 1"
    using j(2) card_mono [OF finite_free] le_less_trans by blast
  from round_exhausted [OF R j(1) this] obtain m where m: "verdict sz (g N 0) = Retry m" "maxc \<le> m" .
  have "\<exists>s. settle (t i) (a N i) OMPI_SUCCESS (g N i) = Some (s, Retry m) \<and> marked (S i) (comm i) {} s" if i: "i < n" for i
    using round_settles [OF R i, of "t i"] inv i o(1) [OF i] m(1) by simp
  then obtain S' where S': "\<forall>i<n. settle (t i) (a N i) OMPI_SUCCESS (g N i) = Some (S' i, Retry m) \<and>
      marked (S i) (comm i) {} (S' i)" by metis
  have "\<forall>i<n. start i \<le> m" using round_retry(2) [OF R m(1)] S(2) by force
  moreover have "nextcid_waits True (comm i) sz maxc (st i) (start i) (map (\<lambda>q. (OMPI_SUCCESS, g q i)) [0..<Suc N]) =
        Some (S' i, m) \<and> marked (st i) (comm i) {} (S' i)" if i: "i < n" for i
  proof -
    from S(1) S' t i have e: "nextcid_waits True (comm i) sz maxc (st i) (start i) (map (\<lambda>q. (OMPI_SUCCESS, g q i)) [0..<N]) =
        Some (S i, b i)" "propose True (comm i) sz maxc (S i) (b i) = Some (t i, a N i)"
      "settle (t i) (a N i) OMPI_SUCCESS (g N i) = Some (S' i, Retry m)"
      "marked (st i) (comm i) {} (S i)" "marked (S i) (comm i) {} (S' i)" by blast+
    show ?thesis using e(1-3) marked_trans [OF e(4,5)] by (simp add: waits_append)
  qed
  ultimately show ?case using m(2) by (intro exI [of _ S'] exI [of _ "\<lambda>_. m"]) simp
qed

lemma register_loop_spec:
  assumes "sorted rs"
  shows "case register_loop mt c rs of
      Some rs' \<Rightarrow> sorted rs' \<and> mset rs' = add_mset c (mset rs) \<and> remove1 c rs' = rs \<and> (mt \<longrightarrow> c \<notin> set rs)
    | None \<Rightarrow> mt \<and> c \<in> set rs"
  using assms
proof (induction mt c rs rule: register_loop.induct)
  case (2 mt c r rs)
  consider "r > c" | "r = c" "mt" | "r \<le> c" "\<not> (mt \<and> r = c)" by fastforce
  then show ?case
  proof cases
    case 1
    then have "c \<notin> set (r # rs)" using "2.prems" by auto
    with 1 "2.prems" show ?thesis by auto
  next
    case 3
    note IH = "2.IH" [OF _ 3(2)]
    show ?thesis
    proof (cases "register_loop mt c rs")
      case None
      then show ?thesis using 3 2 by auto
    next
      case (Some rs')
      have I: "sorted rs'" "mset rs' = add_mset c (mset rs)" "remove1 c rs' = rs" "mt \<longrightarrow> c \<notin> set rs"
        using IH 3 "2.prems" Some by auto
      have "set rs' = insert c (set rs)" using I(2) by (metis set_mset_add_mset_insert set_mset_mset)
      moreover have "r = c \<Longrightarrow> rs' = c # rs"
      proof -
        assume "r = c"
        have "sorted (c # rs)" using "2.prems" \<open>r = c\<close> by simp
        then show "rs' = c # rs" using I(1,2) by (metis mset.simps(2) sorted_sort_id properties_for_sort)
      qed
      ultimately show ?thesis using 3 I Some "2.prems" by auto
    qed
  qed simp
qed simp

section \<open>Properties\<close>

text \<open>C14: The allocation ends within two passes. When every process starts above the identifiers
  in use in its table and the range of identifiers has room for two proposals of the configured
  size, the first or the second reduction makes all processes return the same identifier, which
  was free in every table, with the same epoch, which exceeds every epoch recorded for it; each
  process ends with the new communicator in its table and nothing else changed.\<close>

theorem nextcid_two_rounds:
  assumes n: "0 < n" "2 \<le> sz"
    and st: "\<forall>i<n. cid_inv maxc (st i) \<and> 1 \<le> highest_taken (communicators (st i)) + 1 \<and> comm i \<noteq> NULL \<and>
      propose True (comm i) sz maxc (st i) (highest_taken (communicators (st i)) + 1) = Some (t i, a i)"
    and room: "\<forall>i<n. highest_taken (communicators (st i)) + 2 * int sz \<le> maxc"
    and g: "\<forall>i<n. reduction (map a [0..<n]) (g i)"
    and again: "\<forall>i<n. \<forall>s m. settle (t i) (a i) OMPI_SUCCESS (g i) = Some (s, Retry m) \<longrightarrow>
      (\<exists>t'. propose True (comm i) sz maxc s m = Some (t', a' i)) \<and> reduction (map a' [0..<n]) (g' i)"
  shows "\<exists>c e. \<forall>i<n. \<exists>s. nextcid_loop True (comm i) (nc i) sz maxc (st i)
        (highest_taken (communicators (st i)) + 1) [(OMPI_SUCCESS, g i), (OMPI_SUCCESS, g' i)] =
      Some (OMPI_SUCCESS, s, Some \<lparr>c_contextid = c, c_f_to_c_index = c, c_epoch = e + 1\<rparr>) \<and>
    pa_lookup (communicators (st i)) c = NULL \<and> pa_lookup (comm_epoch (st i)) c \<le> e \<and>
    pa_lookup (communicators s) = (pa_lookup (communicators (st i)))(c := nc i) \<and>
    pa_lookup (comm_epoch s) = (pa_lookup (comm_epoch (st i)))(c := e + 1)"
proof -
  let ?h = "\<lambda>i. highest_taken (communicators (st i)) + 1"
  note o = offers_eq [OF st n(2)]
  have R: "cid_round n sz maxc st ?h comm g" using n st g by (simp add: cid_round_def o(2))
  show ?thesis
  proof (cases "verdict sz (g 0)")
    case (Failed r)
    then show ?thesis using verdict_not_Failed by blast
  next
    case (Chosen c e)
    then show ?thesis
      using round_step [OF R, of _ "nc _" "[(OMPI_SUCCESS, g' _)]"] round_chosen(2,3) [OF R Chosen]
      by (intro exI [of _ c] exI [of _ e]) fastforce
  next
    case (Retry m)
    have R2: "cid_round n sz maxc st (\<lambda>_. m) comm g'"
      using second_round [OF R Retry, of t a' g'] st again o(1) by simp
    obtain e where V2: "verdict sz (g' 0) = Chosen m e"
      using verdict_above [OF R2 first_retry_above [OF R Retry room]] by blast
    have "\<forall>i<n. \<exists>s. nextcid_loop True (comm i) (nc i) sz maxc (st i) (?h i) [(OMPI_SUCCESS, g i), (OMPI_SUCCESS, g' i)] =
        nextcid_loop True (comm i) (nc i) sz maxc s m [(OMPI_SUCCESS, g' i)] \<and> marked (st i) (comm i) {} s"
      using round_step [OF R, of _ "nc _" "[(OMPI_SUCCESS, g' _)]"] Retry by auto
    then obtain S where S: "\<And>i. i < n \<Longrightarrow> nextcid_loop True (comm i) (nc i) sz maxc (st i) (?h i)
          [(OMPI_SUCCESS, g i), (OMPI_SUCCESS, g' i)] = nextcid_loop True (comm i) (nc i) sz maxc (S i) m [(OMPI_SUCCESS, g' i)]"
        "\<And>i. i < n \<Longrightarrow> marked (st i) (comm i) {} (S i)" by metis
    note RS = cid_round_marked [OF R2 S(2)]
    show ?thesis
    proof (rule exI [of _ m], rule exI [of _ e], intro allI impI)
      fix i assume i: "i < n"
      show "\<exists>s. nextcid_loop True (comm i) (nc i) sz maxc (st i) (?h i) [(OMPI_SUCCESS, g i), (OMPI_SUCCESS, g' i)] =
          Some (OMPI_SUCCESS, s, Some \<lparr>c_contextid = m, c_f_to_c_index = m, c_epoch = e + 1\<rparr>) \<and>
        pa_lookup (communicators (st i)) m = NULL \<and> pa_lookup (comm_epoch (st i)) m \<le> e \<and>
        pa_lookup (communicators s) = (pa_lookup (communicators (st i)))(m := nc i) \<and>
        pa_lookup (comm_epoch s) = (pa_lookup (comm_epoch (st i)))(m := e + 1)"
        using round_step [OF RS i, of "nc i" "[]"] round_chosen(2,3) [OF R2 V2 i] S [OF i] V2
        by (auto simp: marked_def fun_eq_iff)
    qed
  qed
qed

theorem nextcid_two_rounds_witness:
  "\<exists>c e. \<forall>i<2. \<exists>s. nextcid_loop True (200 + i) (300 + i) 2 5 (sample_cids i)
        (highest_taken (communicators (sample_cids i)) + 1)
        [(OMPI_SUCCESS, cid_redux_fn (snd (sample_offer 0 1)) (snd (sample_offer 1 2))),
         (OMPI_SUCCESS, cid_redux_fn (snd (sample_offer 0 2)) (snd (sample_offer 1 2)))] =
      Some (OMPI_SUCCESS, s, Some \<lparr>c_contextid = c, c_f_to_c_index = c, c_epoch = e + 1\<rparr>)"
proof -
  let ?h = "\<lambda>i. highest_taken (communicators (sample_cids i)) + 1"
  have h: "?h 0 = 1" "?h 1 = 2" by code_simp+
  have p: "propose True (200 + 0) 2 5 (sample_cids 0) 1 = Some (sample_offer 0 1)"
    "propose True (200 + 1) 2 5 (sample_cids 1) 2 = Some (sample_offer 1 2)"
    "propose True (200 + 0) 2 5 (sample_cids 0) 2 = Some (sample_offer 0 2)"
    by code_simp+
  have st: "\<forall>i<2. cid_inv 5 (sample_cids i) \<and> 1 \<le> ?h i \<and> 200 + i \<noteq> NULL \<and>
      propose True (200 + i) 2 5 (sample_cids i) (?h i) = Some (fst (sample_offer i (?h i)), snd (sample_offer i (?h i)))"
    using p h by (simp only: all_less_two cid_inv_sample) simp
  have room: "\<forall>i<2. highest_taken (communicators (sample_cids i)) + 2 * int 2 \<le> 5"
    using h by (auto simp: all_less_two)
  let ?g = "cid_redux_fn (snd (sample_offer 0 1)) (snd (sample_offer 1 2))"
  let ?g' = "cid_redux_fn (snd (sample_offer 0 2)) (snd (sample_offer 1 2))"
  have g: "\<forall>i<2. reduction (map (\<lambda>i. snd (sample_offer i (?h i))) [0..<2]) ?g"
    using reduction_two h by (simp add: upt_rec)
  have r: "settle (fst (sample_offer 0 1)) (snd (sample_offer 0 1)) OMPI_SUCCESS ?g = Some (sample_cids 0, Retry 2)"
    "settle (fst (sample_offer 1 2)) (snd (sample_offer 1 2)) OMPI_SUCCESS ?g = Some (sample_cids 1, Retry 2)"
    by code_simp+
  have again: "\<forall>i<2. \<forall>s m. settle (fst (sample_offer i (?h i))) (snd (sample_offer i (?h i))) OMPI_SUCCESS ?g = Some (s, Retry m) \<longrightarrow>
      (\<exists>t'. propose True (200 + i) 2 5 s m = Some (t', snd (sample_offer i 2))) \<and>
      reduction (map (\<lambda>i. snd (sample_offer i 2)) [0..<2]) ?g'"
  proof -
    have "\<exists>t'. propose True (200 + 0) 2 5 (sample_cids 0) 2 = Some (t', snd (sample_offer 0 2))"
      "\<exists>t'. propose True (200 + 1) 2 5 (sample_cids 1) 2 = Some (t', snd (sample_offer 1 2))"
      by (metis p(3) prod.collapse, metis p(2) prod.collapse)
    then show ?thesis using reduction_two r h by (auto simp: all_less_two upt_rec)
  qed
  show ?thesis
    using nextcid_two_rounds [of 2 2 5 sample_cids "\<lambda>i. 200 + i" "\<lambda>i. fst (sample_offer i (?h i))" "\<lambda>i. snd (sample_offer i (?h i))"
      "\<lambda>_. ?g" "\<lambda>i. snd (sample_offer i 2)" "\<lambda>_. ?g'" "\<lambda>i. 300 + i", OF _ _ st room g again]
    by (simp only: zero_less_numeral le_refl) blast
qed

text \<open>C15: Agreement in one pass. Whatever order each process combines the proposals in, all
  processes draw the same conclusion from the reduction. If it is an identifier, the identifier
  was free in every table, no process has recorded a greater epoch for it, and each process
  keeps reserved this slot and no other; if it is another pass, every table is as it was, and
  the next pass starts no earlier than any process started.\<close>

theorem nextcid_agreement:
  assumes n: "0 < n" "2 \<le> sz"
    and st: "\<forall>i<n. cid_inv maxc (st i) \<and> 1 \<le> start i \<and> comm i \<noteq> NULL \<and>
      propose True (comm i) sz maxc (st i) (start i) = Some (t i, a i)"
    and g: "\<forall>i<n. reduction (map a [0..<n]) (g i)"
  shows "\<exists>v. \<forall>i<n. \<exists>s. settle (t i) (a i) OMPI_SUCCESS (g i) = Some (s, v) \<and>
    (case v of
       Failed r \<Rightarrow> False
     | Retry m \<Rightarrow> pa_lookup (communicators s) = pa_lookup (communicators (st i)) \<and> (\<forall>j<n. start j \<le> m)
     | Chosen c e \<Rightarrow>
         pa_lookup (communicators s) = (pa_lookup (communicators (st i)))(c := comm i) \<and>
         (\<forall>j<n. pa_lookup (communicators (st j)) c = NULL \<and> pa_lookup (comm_epoch (st j)) c \<le> e))"
proof (rule exI [of _ "verdict sz (g 0)"], intro allI impI)
  note o = offers_eq [OF st n(2)]
  have R: "cid_round n sz maxc st start comm g" using n st g by (simp add: cid_round_def o(2))
  fix i assume i: "i < n"
  obtain s where s: "settle (t i) (a i) OMPI_SUCCESS (g i) = Some (s, verdict sz (g 0))"
    "marked (st i) (comm i) (kept (verdict sz (g 0))) s"
    using round_settles [OF R i, of "t i"] st i o(1) [OF i] by auto
  show "\<exists>s. settle (t i) (a i) OMPI_SUCCESS (g i) = Some (s, verdict sz (g 0)) \<and>
    (case verdict sz (g 0) of
       Failed r \<Rightarrow> False
     | Retry m \<Rightarrow> pa_lookup (communicators s) = pa_lookup (communicators (st i)) \<and> (\<forall>j<n. start j \<le> m)
     | Chosen c e \<Rightarrow>
         pa_lookup (communicators s) = (pa_lookup (communicators (st i)))(c := comm i) \<and>
         (\<forall>j<n. pa_lookup (communicators (st j)) c = NULL \<and> pa_lookup (comm_epoch (st j)) c \<le> e))"
    using s verdict_not_Failed [of sz "g 0"] round_retry(2) [OF R] round_chosen(2,3) [OF R]
    by (intro exI [of _ s]) (auto simp: marked_def fun_eq_iff split: cid_outcome.splits)
qed

theorem nextcid_agreement_witness:
  "\<exists>v. \<forall>i<2. \<exists>s. settle (fst (sample_offer i 2)) (snd (sample_offer i 2)) OMPI_SUCCESS
      (cid_redux_fn (snd (sample_offer 0 2)) (snd (sample_offer 1 2))) = Some (s, v)"
proof -
  let ?g = "cid_redux_fn (snd (sample_offer 0 2)) (snd (sample_offer 1 2))"
  have "propose True (200 + 0) 2 5 (sample_cids 0) 2 = Some (sample_offer 0 2)"
    "propose True (200 + 1) 2 5 (sample_cids 1) 2 = Some (sample_offer 1 2)" by code_simp+
  then have st: "\<forall>i<2. cid_inv 5 (sample_cids i) \<and> 1 \<le> (2::int) \<and> 200 + i \<noteq> NULL \<and>
      propose True (200 + i) 2 5 (sample_cids i) 2 = Some (fst (sample_offer i 2), snd (sample_offer i 2))"
    by (simp only: all_less_two cid_inv_sample) simp
  have g: "\<forall>i<2. reduction (map (\<lambda>i. snd (sample_offer i 2)) [0..<2]) ?g"
    using reduction_two by (simp add: upt_rec)
  from nextcid_agreement [OF zero_less_numeral le_refl st g] show ?thesis by blast
qed

text \<open>C35: The reduction function computes the same proposals in any order of combination: the
  head is the maximum of the heads, an identifier survives if and only if every process proposed
  it, with the greatest of the proposed epochs, and the result has the shape that the next
  combination needs.\<close>

theorem redux_order_independent:
  assumes "\<forall>a \<in> set as. redux_ok sz a" "reduction as g"
  shows "redux_ok sz g \<and> cid (g ! 0) = Max ((\<lambda>a. cid (a ! 0)) ` set as) \<and>
    (\<forall>c. cand_map g c = (if \<forall>a \<in> set as. c \<in> dom (cand_map a)
       then Some (Max ((\<lambda>a. the (cand_map a c)) ` set as)) else None))"
  using reduction_spec [OF assms(2,1)] by (auto simp: common_def image_image)

theorem redux_order_independent_witness:
  "let a = [\<lparr>cid = 4, epoch = 0\<rparr>, \<lparr>cid = 3, epoch = 1\<rparr>, \<lparr>cid = 4, epoch = 2\<rparr>];
       b = [\<lparr>cid = 9, epoch = 0\<rparr>, \<lparr>cid = 4, epoch = 5\<rparr>, \<lparr>cid = 9, epoch = 0\<rparr>]
   in cid (cid_redux_fn a b ! 0) = 9 \<and> cand_map (cid_redux_fn a b) 4 = Some 5"
proof -
  let ?a = "[\<lparr>cid = 4, epoch = 0\<rparr>, \<lparr>cid = 3, epoch = 1\<rparr>, \<lparr>cid = 4, epoch = 2\<rparr>]"
  let ?b = "[\<lparr>cid = 9, epoch = 0\<rparr>, \<lparr>cid = 4, epoch = 5\<rparr>, \<lparr>cid = 9, epoch = 0\<rparr>]"
  have "\<forall>a \<in> set [?a, ?b]. redux_ok 3 a" by (simp add: redux_ok_def cands_def)
  from redux_order_independent [OF this reduction_two] show ?thesis
    by (simp add: cand_map_def cands_def)
qed

text \<open>C37: Once a process has fewer free identifiers left than one proposal holds, the allocation
  never returns, at no process, even if free identifiers remain: the code takes the minimum over all
  entries of the result, the unused ones with identifier 0 included. Whatever the number \<open>N\<close> of
  passes and the orders in which their reductions combine the proposals \<open>a p k\<close> that the processes
  make in pass \<open>p\<close>, after them every process is still in the loop, about to
  start again at or above the limit and with its table as it was.\<close>

theorem nextcid_exhausted:
  assumes n: "0 < n" "2 \<le> sz"
    and st: "\<forall>i<n. cid_inv maxc (st i) \<and> 1 \<le> start i \<and> comm i \<noteq> NULL"
    and a: "\<forall>p<N. \<forall>k<n. \<forall>s m.
      nextcid_waits True (comm k) sz maxc (st k) (start k) (map (\<lambda>q. (OMPI_SUCCESS, g q k)) [0..<p]) = Some (s, m) \<longrightarrow>
      (\<exists>t. propose True (comm k) sz maxc s m = Some (t, a p k))"
    and g: "\<forall>p<N. \<forall>i<n. reduction (map (a p) [0..<n]) (g p i)"
    and j: "j < n" "card {k. start j \<le> k \<and> k < maxc \<and> pa_lookup (communicators (st j)) k = NULL} < sz - 1"
  shows "\<forall>i<n. nextcid_loop True (comm i) (nc i) sz maxc (st i) (start i) (map (\<lambda>q. (OMPI_SUCCESS, g q i)) [0..<N]) = None \<and>
    (\<exists>s m. nextcid_waits True (comm i) sz maxc (st i) (start i) (map (\<lambda>q. (OMPI_SUCCESS, g q i)) [0..<N]) = Some (s, m) \<and>
       pa_lookup (communicators s) = pa_lookup (communicators (st i)) \<and> (0 < N \<longrightarrow> maxc \<le> m))"
proof -
  from exhausted_passes [OF n st a g j] obtain S b where
    "\<forall>i<n. nextcid_waits True (comm i) sz maxc (st i) (start i) (map (\<lambda>q. (OMPI_SUCCESS, g q i)) [0..<N]) = Some (S i, b i) \<and>
      marked (st i) (comm i) {} (S i) \<and> (0 < N \<longrightarrow> maxc \<le> b i)" by metis
  then show ?thesis
    using waits_loop [of True _ sz maxc _ _ _ _ _ _ "[]"] by (fastforce simp: marked_def fun_eq_iff)
qed

theorem nextcid_exhausted_witness:
  "let reds = [(OMPI_SUCCESS, snd (the (propose True 200 4 4 (sample_cids 0) 2))),
               (OMPI_SUCCESS, snd (the (propose True 200 4 4 (sample_cids 0) 4)))]
   in nextcid_loop True 200 300 4 4 (sample_cids 0) 2 reds = None \<and>
      (\<exists>s m. nextcid_waits True 200 4 4 (sample_cids 0) 2 reds = Some (s, m) \<and>
         pa_lookup (communicators s) = pa_lookup (communicators (sample_cids 0)) \<and> 4 \<le> m)"
proof -
  define o1 o2 where o: "o1 = snd (the (propose True 200 4 4 (sample_cids 0) 2))"
    "o2 = snd (the (propose True 200 4 4 (sample_cids 0) 4))"
  let ?g = "\<lambda>(q::nat) (k::nat). if q = 0 then o1 else o2"
  have st: "\<forall>i<1::nat. cid_inv 4 (sample_cids 0) \<and> 1 \<le> (2::int) \<and> 200 \<noteq> NULL"
    using cid_inv_sample [of 0] by (simp add: cid_inv_def)
  have u: "[0..<2] = [0, 1::nat]" by (simp add: upt_rec)
  have w: "nextcid_waits True 200 4 4 (sample_cids 0) 2 [(OMPI_SUCCESS, o1)] = Some (sample_cids 0, 4)"
    unfolding o by code_simp
  have p: "propose True 200 4 4 (sample_cids 0) 2 = Some (fst (the (propose True 200 4 4 (sample_cids 0) 2)), o1)"
    "propose True 200 4 4 (sample_cids 0) 4 = Some (fst (the (propose True 200 4 4 (sample_cids 0) 4)), o2)"
    unfolding o by code_simp+
  have a: "\<forall>q<2. \<forall>k<1::nat. \<forall>s m.
      nextcid_waits True 200 4 4 (sample_cids 0) 2 (map (\<lambda>q. (OMPI_SUCCESS, ?g q k)) [0..<q]) = Some (s, m) \<longrightarrow>
      (\<exists>t. propose True 200 4 4 s m = Some (t, ?g q k))"
    unfolding all_less_two using w p by auto
  have g: "\<forall>q<2. \<forall>i<1::nat. reduction (map (?g q) [0..<1]) (?g q i)" using reduction.own by simp
  let ?F = "{k. 2 \<le> k \<and> k < 4 \<and> pa_lookup (communicators (sample_cids 0)) k = NULL}"
  have "card ?F \<le> card {2, 3::int}" by (rule card_mono) auto
  then have c: "card ?F < 4 - 1" by simp
  from nextcid_exhausted [OF _ _ st a g _ c, where nc = "\<lambda>_. 300"] show ?thesis
    by (simp add: u Let_def flip: o)
qed

text \<open>When the reduction reports an error, for instance a process failure, the allocation
  returns that error, gives back every identifier it had reserved, and takes the parent
  communicator off the list of registered ones.\<close>

theorem nextcid_failure_releases:
  assumes "cid_inv maxc s" "0 \<le> highest_taken (communicators s)" "comm \<noteq> NULL" "2 \<le> sz" "known_mode mode"
    and regs: "sorted (registered_comms s)" "\<forall>r \<in> set (registered_comms s). c < r"
    and ret: "ret \<noteq> OMPI_SUCCESS"
  shows "\<exists>s'. ompi_comm_nextcid True mt comm c newcomm sz maxc mode s ((ret, gs) # reds) = Some (ret, s', None) \<and>
    pa_lookup (communicators s') = pa_lookup (communicators s) \<and> comm_epoch s' = comm_epoch s \<and>
    registered_comms s' = registered_comms s"
proof -
  let ?start = "highest_taken (communicators s) + 1" and ?s = "s\<lparr>registered_comms := c # registered_comms s\<rparr>"
  have r: "ompi_comm_register_cid mt c (registered_comms s) = (OMPI_SUCCESS, c # registered_comms s)"
    using regs by (cases "registered_comms s") (auto simp: ompi_comm_register_cid_def)
  have inv: "cid_inv maxc ?s" using assms(1) by (simp add: cid_inv_def)
  obtain s1 where s1: "propose True comm sz maxc ?s ?start = Some (s1, offer sz maxc ?s ?start)"
    "marked ?s comm (set (choice sz maxc ?s ?start)) s1"
  proof (rule propose_spec [OF inv _ assms(3,4)])
    show "0 \<le> ?start" using assms(2) by simp
  qed
  obtain s2 where s2: "settle s1 (offer sz maxc ?s ?start) ret gs = Some (s2, Failed ret)" "marked ?s comm {} s2"
    using settle_failed [OF inv _ s1(2) ret] assms(2) by auto
  have "registered_comms s2 = c # registered_comms s" "comm_epoch s2 = comm_epoch s"
    "pa_lookup (communicators s2) = pa_lookup (communicators s)" using s2(2) by (auto simp: marked_def fun_eq_iff)
  then show ?thesis
    using s1(1) s2(1) r assms(5) by (simp add: ompi_comm_nextcid_def ompi_comm_lowest_cid_def ompi_comm_unregister_cid_def)
qed

theorem nextcid_failure_releases_witness:
  "\<exists>s'. ompi_comm_nextcid True False 200 3 300 4 5 0x20 (sample_cids 0) [(75, [])] = Some (75, s', None) \<and>
    pa_lookup (communicators s') = pa_lookup (communicators (sample_cids 0))"
proof -
  have "0 \<le> highest_taken (communicators (sample_cids 0))" "known_mode 0x20" "(75::int) \<noteq> OMPI_SUCCESS"
    "registered_comms (sample_cids 0) = []" by code_simp+
  then show ?thesis
    using nextcid_failure_releases [OF cid_inv_sample [of 0], of 200 4 "0x20" 3 75 False 300 "[]" "[]"] by auto
qed

text \<open>C36: Registering an identifier keeps the list sorted, so that the lowest registered
  identifier is the head; with thread support an identifier that is already registered is refused
  and the list unchanged; unregistering gives back the list from before.\<close>

theorem register_roundtrip:
  assumes "sorted rs" "ompi_comm_register_cid mt c rs = (r, rs')"
  shows "sorted rs' \<and>
    (r = OMPI_SUCCESS \<and> (mt \<longrightarrow> c \<notin> set rs) \<and> mset rs' = add_mset c (mset rs) \<and>
       ompi_comm_lowest_cid rs' = Some (Min (set rs')) \<and> ompi_comm_unregister_cid c rs' = (OMPI_SUCCESS, rs) \<or>
     r = OMPI_ERROR \<and> mt \<and> c \<in> set rs \<and> rs' = rs)"
proof (cases "register_loop mt c rs")
  case None
  then show ?thesis using assms register_loop_spec [OF assms(1), of mt c] by (auto simp: ompi_comm_register_cid_def)
next
  case (Some xs)
  have x: "sorted xs" "mset xs = add_mset c (mset rs)" "remove1 c xs = rs" "mt \<longrightarrow> c \<notin> set rs" "rs' = xs" "r = OMPI_SUCCESS"
    using Some assms(2) register_loop_spec [OF assms(1), of mt c] by (auto simp: ompi_comm_register_cid_def)
  then obtain y ys where "xs = y # ys" by (cases xs) auto
  moreover from this have "Min (set xs) = y" using x(1) by (intro Min_eqI) auto
  ultimately have "ompi_comm_lowest_cid xs = Some (Min (set xs))" by (simp add: ompi_comm_lowest_cid_def)
  with x show ?thesis by (simp add: ompi_comm_unregister_cid_def)
qed

theorem register_roundtrip_witness:
  "ompi_comm_unregister_cid 4 (snd (ompi_comm_register_cid True 4 [1, 3, 7])) = (OMPI_SUCCESS, [1, 3, 7])"
proof -
  have r: "sorted [1, 3, 7::int]" "ompi_comm_register_cid True 4 [1, 3, 7] = (OMPI_SUCCESS, [1, 3, 4, 7])"
    by (simp_all add: ompi_comm_register_cid_def)
  from register_roundtrip [OF r] r(2) show ?thesis by simp
qed

end
