(* ===== verification/Topology.thy ===== *)
theory Topology
  imports Prelude "HOL-Library.Multiset" "HOL-Library.Product_Lexorder"
begin

text \<open>
  Process topologies, \<^verbatim>\<open>ompi/mca/topo/base\<close>: the Cartesian and graph operations on the
  topology data of a communicator, the partition of a communicator into colours that
  \<^verbatim>\<open>ompi_comm_split\<close> computes, and the copy of topology data to the new communicator
  (\<^verbatim>\<open>ompi/communicator/comm.c\<close>). Arrays of the caller are lists that the operations update;
  \<open>None\<close> is an access outside an array or a division by zero. C division and remainder
  truncate towards zero. Process counts are below the range of C integers.
\<close>

section \<open>Topology data\<close>

record mca_topo_base_comm_t =
  mtc_ndims_or_nnodes :: int
  mtc_dims_or_index :: "int list"
  mtc_periods_or_edges :: "int list"
  mtc_reorder :: bool
  mtc_coords :: "int list"

text \<open>What the operations use of a communicator.\<close>

record topo_communicator =
  ompi_comm_size :: int
  ompi_comm_rank :: int
  c_topo_comm :: mca_topo_base_comm_t

abbreviation ndims :: "topo_communicator \<Rightarrow> int" where
  "ndims c \<equiv> mtc_ndims_or_nnodes (c_topo_comm c)"

abbreviation dims_of :: "topo_communicator \<Rightarrow> int list" where
  "dims_of c \<equiv> mtc_dims_or_index (c_topo_comm c)"

abbreviation periods_of :: "topo_communicator \<Rightarrow> int list" where
  "periods_of c \<equiv> mtc_periods_or_edges (c_topo_comm c)"

definition MPI_ERR_TOPOLOGY :: int where [rc_defs]: "MPI_ERR_TOPOLOGY = 11"
definition MPI_ERR_DIMS :: int where [rc_defs]: "MPI_ERR_DIMS = 12"
definition MPI_ERR_ARG :: int where [rc_defs]: "MPI_ERR_ARG = 13"

section \<open>Cartesian operations\<close>

text \<open>The loop that turns a rank into coordinates, shared by \<^verbatim>\<open>cart_coords\<close> and
  \<^verbatim>\<open>cart_create\<close>.\<close>

function coords_loop :: "int list \<Rightarrow> int \<Rightarrow> int \<Rightarrow> int \<Rightarrow> int \<Rightarrow> int list \<Rightarrow> int list option" where
  "coords_loop ds n i remprocs rank coords =
     (if i < n then do {
        dim \<leftarrow> rd ds i;
        remprocs \<leftarrow> cdiv remprocs dim;
        q \<leftarrow> cdiv rank remprocs;
        coords \<leftarrow> wr coords i q;
        rank \<leftarrow> cmod rank remprocs;
        coords_loop ds n (i + 1) remprocs rank coords }
      else Some coords)"
  by pat_completeness auto
termination
  by (relation "measure (\<lambda>(ds, n, i, remprocs, rank, coords). nat (n - i))") auto

declare coords_loop.simps [simp del]

definition mca_topo_base_cart_coords ::
  "topo_communicator \<Rightarrow> int \<Rightarrow> int \<Rightarrow> int list \<Rightarrow> (int \<times> int list) option" where
  "mca_topo_base_cart_coords comm rank maxdims coords =
     do {
       coords \<leftarrow> coords_loop (dims_of comm) (min (ndims comm) maxdims) 0 (ompi_comm_size comm) rank coords;
       Some (MPI_SUCCESS, coords) }"

function rank_loop_cart :: "int list \<Rightarrow> int list \<Rightarrow> int \<Rightarrow> int \<Rightarrow> int \<Rightarrow> int option" where
  "rank_loop_cart ds cs i factor prank =
     (if i \<ge> 0 then do {
        dim \<leftarrow> rd ds i;
        ord \<leftarrow> rd cs i;
        ord \<leftarrow> (if ord < 0 \<or> ord \<ge> dim
                then do { ord \<leftarrow> cmod ord dim; Some (if ord < 0 then ord + dim else ord) }
                else Some ord);
        rank_loop_cart ds cs (i - 1) (factor * dim) (prank + factor * ord) }
      else Some prank)"
  by pat_completeness auto
termination
  by (relation "measure (\<lambda>(ds, cs, i, factor, prank). nat (i + 1))") auto

declare rank_loop_cart.simps [simp del]

definition mca_topo_base_cart_rank :: "topo_communicator \<Rightarrow> int list \<Rightarrow> (int \<times> int) option" where
  "mca_topo_base_cart_rank comm coords =
     do {
       prank \<leftarrow> rank_loop_cart (dims_of comm) coords (ndims comm - 1) 1 0;
       Some (MPI_SUCCESS, prank) }"

text \<open>The call of the application on an intracommunicator with a Cartesian topology. With parameter
  checks, coordinates outside a dimension that is not periodic are refused; \<open>None\<close> in the
  second place is a rank that is not stored.\<close>

function coords_in_range :: "int list \<Rightarrow> int list \<Rightarrow> int list \<Rightarrow> int \<Rightarrow> int \<Rightarrow> bool option" where
  "coords_in_range ds ps cs n i =
     (if i < n then do {
        p \<leftarrow> rd ps i;
        if p \<noteq> 0 then coords_in_range ds ps cs n (i + 1)
        else do {
          c \<leftarrow> rd cs i;
          d \<leftarrow> rd ds i;
          if c < 0 \<or> c \<ge> d then Some False else coords_in_range ds ps cs n (i + 1) } }
      else Some True)"
  by pat_completeness auto
termination
  by (relation "measure (\<lambda>(ds, ps, cs, n, i). nat (n - i))") auto

declare coords_in_range.simps [simp del]

definition MPI_Cart_rank :: "bool \<Rightarrow> topo_communicator \<Rightarrow> int list \<Rightarrow> (int \<times> int option) option" where
  "MPI_Cart_rank param_check comm coords =
     do {
       ok \<leftarrow> (if param_check then coords_in_range (dims_of comm) (periods_of comm) coords (ndims comm) 0 else Some True);
       if \<not> ok then Some (MPI_ERR_ARG, None)
       else do {
         (err, rank) \<leftarrow> mca_topo_base_cart_rank comm coords;
         Some (err, Some rank) } }"

text \<open>The number of processes of the grid; \<open>Some None\<close> is a dimension that is not positive.\<close>

function grid_loop :: "int list \<Rightarrow> int \<Rightarrow> int \<Rightarrow> int \<Rightarrow> int option option" where
  "grid_loop ds n i nprocs =
     (if i < n then do {
        p \<leftarrow> rd ds i;
        if p \<le> 0 then Some None else grid_loop ds n (i + 1) (nprocs * p) }
      else Some (Some nprocs))"
  by pat_completeness auto
termination
  by (relation "measure (\<lambda>(ds, n, i, nprocs). nat (n - i))") auto

declare grid_loop.simps [simp del]

definition mca_topo_base_cart_create ::
  "mca_topo_base_comm_t \<Rightarrow> int \<Rightarrow> int \<Rightarrow> int \<Rightarrow> (int \<times> mca_topo_base_comm_t \<times> int \<times> int) option" where
  "mca_topo_base_cart_create topo_data proc_count new_rank ndim =
     do {
       g \<leftarrow> grid_loop (mtc_dims_or_index topo_data) (mtc_ndims_or_nnodes topo_data) 0 1;
       case g of
         None \<Rightarrow> Some (OMPI_ERROR, topo_data, proc_count, new_rank)
       | Some nprocs \<Rightarrow>
           if proc_count < nprocs then Some (MPI_ERR_DIMS, topo_data, proc_count, new_rank)
           else
             let proc_count = (if nprocs < proc_count then nprocs else proc_count)
             in if new_rank > nprocs - 1 then Some (OMPI_SUCCESS, topo_data, proc_count, MPI_UNDEFINED)
                else do {
                  coords \<leftarrow> coords_loop (mtc_dims_or_index topo_data)
                    (min (mtc_ndims_or_nnodes topo_data) ndim) 0 nprocs new_rank (mtc_coords topo_data);
                  Some (OMPI_SUCCESS, topo_data\<lparr>mtc_coords := coords\<rparr>, proc_count, new_rank) } }"

text \<open>\<^verbatim>\<open>memcpy\<close> of \<open>m\<close> elements; it must fit into both arrays.\<close>

definition memcpy_ints :: "int list \<Rightarrow> int list \<Rightarrow> int \<Rightarrow> int list option" where
  "memcpy_ints dst src m =
     (if 0 \<le> m \<and> m \<le> int (length src) \<and> m \<le> int (length dst)
      then Some (take (nat m) src @ drop (nat m) dst) else None)"

definition mca_topo_base_cart_get ::
  "topo_communicator \<Rightarrow> int \<Rightarrow> int list \<Rightarrow> int list \<Rightarrow> int list \<Rightarrow>
   (int \<times> int list \<times> int list \<times> int list) option" where
  "mca_topo_base_cart_get comm maxdims dims periods coords =
     (let m = (if maxdims \<le> ndims comm then maxdims else ndims comm)
      in do {
        dims \<leftarrow> memcpy_ints dims (dims_of comm) m;
        periods \<leftarrow> memcpy_ints periods (periods_of comm) m;
        coords \<leftarrow> memcpy_ints coords (mtc_coords (c_topo_comm comm)) m;
        Some (MPI_SUCCESS, dims, periods, coords) })"

definition mca_topo_base_cartdim_get :: "topo_communicator \<Rightarrow> int \<times> int" where
  "mca_topo_base_cartdim_get comm = (MPI_SUCCESS, ndims comm)"

text \<open>The loop of \<^verbatim>\<open>cart_shift\<close> over the dimensions up to \<open>direction\<close>: the extent and the
  period of the last one, the rank below the preceding ones, and the stride.\<close>

function shift_loop ::
  "int list \<Rightarrow> int list \<Rightarrow> int \<Rightarrow> int \<Rightarrow> int \<Rightarrow> int \<Rightarrow> int \<Rightarrow> int \<Rightarrow> (int \<times> int \<times> int \<times> int) option" where
  "shift_loop ds qs n i thisdirection thisperiod ord factor =
     (if i < n then do {
        thisdirection \<leftarrow> rd ds i;
        thisperiod \<leftarrow> rd qs i;
        ord \<leftarrow> cmod ord factor;
        factor \<leftarrow> cdiv factor thisdirection;
        shift_loop ds qs n (i + 1) thisdirection thisperiod ord factor }
      else Some (thisdirection, thisperiod, ord, factor))"
  by pat_completeness auto
termination
  by (relation "measure (\<lambda>(ds, qs, n, i, td, tp, ord, factor). nat (n - i))") auto

declare shift_loop.simps [simp del]

text \<open>The rank at ordinate \<open>neword\<close> of the shifted dimension.\<close>

definition shifted_rank :: "int \<Rightarrow> int \<Rightarrow> int \<Rightarrow> int \<Rightarrow> int \<Rightarrow> int \<Rightarrow> int option" where
  "shifted_rank rank thisdirection thisperiod ord factor neword =
     (if (neword < 0 \<or> neword \<ge> thisdirection) \<and> thisperiod = 0 then Some MPI_PROC_NULL
      else do {
        neword \<leftarrow> cmod neword thisdirection;
        let neword = (if neword < 0 then neword + thisdirection else neword);
        Some (rank + (neword - ord) * factor) })"

definition mca_topo_base_cart_shift ::
  "topo_communicator \<Rightarrow> int \<Rightarrow> int \<Rightarrow> (int \<times> int \<times> int) option" where
  "mca_topo_base_cart_shift comm direction disp =
     (let ord = ompi_comm_rank comm
      in if disp = 0 then Some (MPI_SUCCESS, ord, ord)
         else do {
           (thisdirection, thisperiod, ord, factor) \<leftarrow>
             shift_loop (dims_of comm) (periods_of comm) (min (ndims comm) (direction + 1)) 0 0 0
               ord (ompi_comm_size comm);
           ord \<leftarrow> cdiv ord factor;
           dest \<leftarrow> shifted_rank (ompi_comm_rank comm) thisdirection thisperiod ord factor (ord + disp);
           src \<leftarrow> shifted_rank (ompi_comm_rank comm) thisdirection thisperiod ord factor (ord - disp);
           Some (MPI_SUCCESS, src, dest) })"

section \<open>Splitting a communicator\<close>

text \<open>The comparison of pairs of a rank and a key, and sorting with a comparison.\<close>

definition rankkeycompare :: "int \<times> int \<Rightarrow> int \<times> int \<Rightarrow> int" where
  "rankkeycompare a b =
     (if snd a < snd b then - 1
      else if snd a > snd b then 1
      else if fst a < fst b then - 1
      else if fst a = fst b then 0
      else 1)"

fun insert_by :: "('a \<Rightarrow> 'a \<Rightarrow> int) \<Rightarrow> 'a \<Rightarrow> 'a list \<Rightarrow> 'a list" where
  "insert_by cmp x [] = [x]"
| "insert_by cmp x (y # ys) = (if cmp x y \<le> 0 then x # y # ys else y # insert_by cmp x ys)"

definition qsort :: "('a \<Rightarrow> 'a \<Rightarrow> int) \<Rightarrow> 'a list \<Rightarrow> 'a list" where
  "qsort cmp xs = foldr (insert_by cmp) xs []"

text \<open>The ranks of the processes of the colour of the caller, in the order of their keys; the
  colours and keys of all processes, by rank, are the result of an all-gather.\<close>

definition split_ranks :: "(int \<times> int) list \<Rightarrow> int \<Rightarrow> int list" where
  "split_ranks results color =
     (let sorted = map (\<lambda>(i, c, k). (i, k))
            (filter (\<lambda>(i, c, k). c = color) (zip [0..int (length results) - 1] results))
      in map fst (if length sorted > 1 then qsort rankkeycompare sorted else sorted))"

text \<open>The copy of the topology data; the allocator serves every request.\<close>

definition ompi_comm_copy_topo :: "bool \<Rightarrow> mca_topo_base_comm_t \<Rightarrow> mca_topo_base_comm_t option" where
  "ompi_comm_copy_topo cart oldt =
     (let n = mtc_ndims_or_nnodes oldt
      in if cart \<and> n = 0 then
           Some \<lparr>mtc_ndims_or_nnodes = n, mtc_dims_or_index = [], mtc_periods_or_edges = [],
                 mtc_reorder = mtc_reorder oldt, mtc_coords = []\<rparr>
         else do {
           dims \<leftarrow> memcpy_ints (replicate (nat n) 0) (mtc_dims_or_index oldt) n;
           if cart then do {
             periods \<leftarrow> memcpy_ints (replicate (nat n) 0) (mtc_periods_or_edges oldt) n;
             coords \<leftarrow> memcpy_ints (replicate (nat n) 0) (mtc_coords oldt) n;
             Some \<lparr>mtc_ndims_or_nnodes = n, mtc_dims_or_index = dims, mtc_periods_or_edges = periods,
                   mtc_reorder = mtc_reorder oldt, mtc_coords = coords\<rparr> }
           else do {
             index \<leftarrow> rd (mtc_dims_or_index oldt) (n - 1);
             let index = (if index > 0 then index else - index);
             edges \<leftarrow> memcpy_ints (replicate (nat index) 0) (mtc_periods_or_edges oldt) index;
             Some \<lparr>mtc_ndims_or_nnodes = n, mtc_dims_or_index = dims, mtc_periods_or_edges = edges,
                   mtc_reorder = mtc_reorder oldt, mtc_coords = []\<rparr> } })"

text \<open>The colour, the key and the number of kept dimensions of \<^verbatim>\<open>cart_sub\<close>.\<close>

function sub_loop ::
  "int list \<Rightarrow> int list \<Rightarrow> int list \<Rightarrow> int \<Rightarrow> int \<Rightarrow> int \<Rightarrow> int \<Rightarrow> int \<Rightarrow> int \<Rightarrow> (int \<times> int \<times> int) option" where
  "sub_loop ds cs rs i colour colfactor key keyfactor ndim =
     (if i \<ge> 0 then do {
        dim \<leftarrow> rd ds i;
        r \<leftarrow> rd rs i;
        c \<leftarrow> rd cs i;
        if r = 0
        then sub_loop ds cs rs (i - 1) (colour + colfactor * c) (colfactor * dim) key keyfactor ndim
        else sub_loop ds cs rs (i - 1) colour colfactor (key + keyfactor * c) (keyfactor * dim) (ndim + 1) }
      else Some (colour, key, ndim))"
  by pat_completeness auto
termination
  by (relation "measure (\<lambda>(ds, cs, rs, i, colour, colfactor, key, keyfactor, ndim). nat (i + 1))") auto

declare sub_loop.simps [simp del]

definition cart_sub_colour :: "topo_communicator \<Rightarrow> int list \<Rightarrow> (int \<times> int \<times> int) option" where
  "cart_sub_colour comm remain_dims =
     do {
       (colour, key, ndim) \<leftarrow>
         sub_loop (dims_of comm) (mtc_coords (c_topo_comm comm)) remain_dims (ndims comm - 1) 0 1 0 1 0;
       Some (if ndim = 0 then ompi_comm_rank comm else colour, key, ndim) }"

fun keep_loop :: "int list \<Rightarrow> int list \<Rightarrow> int list" where
  "keep_loop (d # ds) (r # rs) = (if r \<noteq> 0 then d # keep_loop ds rs else keep_loop ds rs)"
| "keep_loop _ _ = []"

text \<open>The dimensions kept are written to the front of the copied array, and the coordinates
  computed from the rank in the new communicator, whose group consists of \<open>lranks\<close>.\<close>

definition cart_sub_fill :: "topo_communicator \<Rightarrow> int list \<Rightarrow> int \<Rightarrow> int list \<Rightarrow> topo_communicator option" where
  "cart_sub_fill comm remain_dims ndim lranks =
     do {
       t \<leftarrow> ompi_comm_copy_topo True (c_topo_comm comm);
       r \<leftarrow> index_of lranks (ompi_comm_rank comm);
       let temp = \<lparr>ompi_comm_size = int (length lranks), ompi_comm_rank = int r,
                   c_topo_comm = t\<lparr>mtc_ndims_or_nnodes := ndim\<rparr>\<rparr>;
       if ndim \<ge> 1 then do {
         let kept = keep_loop (take (nat (ndims comm)) (dims_of comm)) remain_dims;
         dims \<leftarrow> memcpy_ints (mtc_dims_or_index t) kept (int (length kept));
         let temp = temp\<lparr>c_topo_comm := (c_topo_comm temp)\<lparr>mtc_dims_or_index := dims\<rparr>\<rparr>;
         (_, coords) \<leftarrow> mca_topo_base_cart_coords temp (int r) ndim (mtc_coords (c_topo_comm temp));
         Some (temp\<lparr>c_topo_comm := (c_topo_comm temp)\<lparr>mtc_coords := coords\<rparr>\<rparr>) }
       else Some temp }"

text \<open>The operation on the gathered colours and keys \<open>results\<close> of all processes.\<close>

definition mca_topo_base_cart_sub ::
  "topo_communicator \<Rightarrow> int list \<Rightarrow> (int \<times> int) list \<Rightarrow> (int \<times> topo_communicator) option" where
  "mca_topo_base_cart_sub comm remain_dims results =
     do {
       (colour, key, ndim) \<leftarrow> cart_sub_colour comm remain_dims;
       new_comm \<leftarrow> cart_sub_fill comm remain_dims ndim (split_ranks results colour);
       Some (MPI_SUCCESS, new_comm) }"

section \<open>Graph operations\<close>

function edge_loop :: "int list \<Rightarrow> int \<Rightarrow> int \<Rightarrow> int \<Rightarrow> bool option" where
  "edge_loop es nedges nnodes i =
     (if i < nedges then do {
        p \<leftarrow> rd es i;
        if p < 0 \<or> p \<ge> nnodes then Some False else edge_loop es nedges nnodes (i + 1) }
      else Some True)"
  by pat_completeness auto
termination
  by (relation "measure (\<lambda>(es, nedges, nnodes, i). nat (nedges - i))") auto

declare edge_loop.simps [simp del]

definition mca_topo_base_graph_create ::
  "mca_topo_base_comm_t \<Rightarrow> int \<Rightarrow> int \<Rightarrow> int \<Rightarrow> (int \<times> int \<times> int) option" where
  "mca_topo_base_graph_create topo_data proc_count new_rank nnodes =
     (if nnodes > proc_count then Some (MPI_ERR_DIMS, proc_count, new_rank)
      else do {
        nedges \<leftarrow> rd (mtc_dims_or_index topo_data) (nnodes - 1);
        ok \<leftarrow> edge_loop (mtc_periods_or_edges topo_data) nedges nnodes 0;
        if \<not> ok then Some (MPI_ERR_TOPOLOGY, proc_count, new_rank)
        else
          let proc_count = (if nnodes < proc_count then nnodes else proc_count)
          in if new_rank > nnodes - 1 then Some (MPI_SUCCESS, proc_count, MPI_UNDEFINED)
             else Some (MPI_SUCCESS, proc_count, new_rank) })"

text \<open>Copying elements one by one.\<close>

function copy_loop :: "int list \<Rightarrow> int \<Rightarrow> int \<Rightarrow> int \<Rightarrow> int list \<Rightarrow> int list option" where
  "copy_loop src off n i dst =
     (if i < n then do {
        p \<leftarrow> rd src (off + i);
        dst \<leftarrow> wr dst i p;
        copy_loop src off n (i + 1) dst }
      else Some dst)"
  by pat_completeness auto
termination
  by (relation "measure (\<lambda>(src, off, n, i, dst). nat (n - i))") auto

declare copy_loop.simps [simp del]

definition mca_topo_base_graph_get ::
  "topo_communicator \<Rightarrow> int \<Rightarrow> int \<Rightarrow> int list \<Rightarrow> int list \<Rightarrow> (int \<times> int list \<times> int list) option" where
  "mca_topo_base_graph_get comm maxindex maxedges index edges =
     do {
       index \<leftarrow> copy_loop (dims_of comm) 0 (min (ompi_comm_size comm) maxindex) 0 index;
       nedges \<leftarrow> rd (dims_of comm) (ompi_comm_size comm - 1);
       edges \<leftarrow> copy_loop (periods_of comm) 0 (min nedges maxedges) 0 edges;
       Some (MPI_SUCCESS, index, edges) }"

definition mca_topo_base_graph_neighbors ::
  "topo_communicator \<Rightarrow> int \<Rightarrow> int \<Rightarrow> int list \<Rightarrow> (int \<times> int list) option" where
  "mca_topo_base_graph_neighbors comm rank maxneighbors neighbors =
     do {
       nnbrs \<leftarrow> rd (dims_of comm) rank;
       i \<leftarrow> (if rank > 0 then rd (dims_of comm) (rank - 1) else Some 0);
       neighbors \<leftarrow> copy_loop (periods_of comm) i (min maxneighbors (nnbrs - i)) 0 neighbors;
       Some (MPI_SUCCESS, neighbors) }"

definition mca_topo_base_graph_neighbors_count :: "topo_communicator \<Rightarrow> int \<Rightarrow> (int \<times> int) option" where
  "mca_topo_base_graph_neighbors_count comm rank =
     do {
       nneighbors \<leftarrow> rd (dims_of comm) rank;
       i \<leftarrow> (if rank > 0 then rd (dims_of comm) (rank - 1) else Some 0);
       Some (MPI_SUCCESS, nneighbors - i) }"

definition mca_topo_base_graphdims_get :: "topo_communicator \<Rightarrow> (int \<times> int \<times> int) option" where
  "mca_topo_base_graphdims_get comm =
     do {
       nedges \<leftarrow> rd (dims_of comm) (ompi_comm_size comm - 1);
       Some (MPI_SUCCESS, ompi_comm_size comm, nedges) }"

end
