(* ===== verification/Topology_Correct.thy ===== *)
theory Topology_Correct
  imports Topology
begin

text \<open>
  Correctness of the process topologies: Cartesian ranks are the row-major numbering of the grid,
  shifts follow it, a split into subgrids numbers each subgrid again in row-major order, and the
  neighbour lists of a graph make up its edges.
\<close>

section \<open>Row-major numbering\<close>

fun enc :: "int list \<Rightarrow> int list \<Rightarrow> int" where
  "enc (d # ds) (c # cs) = c * prod_list ds + enc ds cs"
| "enc _ _ = 0"

fun dec :: "int list \<Rightarrow> int \<Rightarrow> int list" where
  "dec [] r = []"
| "dec (d # ds) r = (r div prod_list ds) # dec ds (r mod prod_list ds)"

definition in_grid :: "int list \<Rightarrow> int list \<Rightarrow> bool" where
  "in_grid ds cs \<longleftrightarrow> list_all2 (\<lambda>d c. 0 \<le> c \<and> c < d) ds cs"

lemma prod_list_pos: "pos ds \<Longrightarrow> 0 < prod_list ds"
  by (induction ds) auto

lemma in_grid_simps [simp]:
  "in_grid [] cs \<longleftrightarrow> cs = []"
  "in_grid (d # ds) (c # cs) \<longleftrightarrow> 0 \<le> c \<and> c < d \<and> in_grid ds cs"
  "in_grid ds [] \<longleftrightarrow> ds = []"
  by (auto simp: in_grid_def)

lemma in_grid_length: "in_grid ds cs \<Longrightarrow> length cs = length ds"
  by (simp add: in_grid_def list_all2_lengthD)

lemma in_grid_pos: "in_grid ds cs \<Longrightarrow> pos ds"
  by (induction ds cs rule: enc.induct) auto

lemma length_dec [simp]: "length (dec ds r) = length ds"
  by (induction ds r rule: dec.induct) auto

lemma enc_range: "in_grid ds cs \<Longrightarrow> 0 \<le> enc ds cs \<and> enc ds cs < prod_list ds"
proof (induction ds cs rule: enc.induct)
  case (1 d ds c cs)
  have "c * prod_list ds + enc ds cs < (c + 1) * prod_list ds" using 1 by (auto simp: algebra_simps)
  also have "\<dots> \<le> d * prod_list ds"
    using 1 prod_list_pos [OF in_grid_pos, of ds cs] by (intro mult_right_mono) auto
  finally show ?case using 1 prod_list_pos [OF in_grid_pos, of ds cs] by auto
qed auto

lemma dec_in_grid: "pos ds \<Longrightarrow> 0 \<le> r \<Longrightarrow> r < prod_list ds \<Longrightarrow> in_grid ds (dec ds r)"
proof (induction ds r rule: dec.induct)
  case (2 d ds r)
  have p: "0 < prod_list ds" using 2 by (intro prod_list_pos) auto
  have "r div prod_list ds < d"
  proof (rule ccontr)
    assume "\<not> r div prod_list ds < d"
    then have "d * prod_list ds \<le> r div prod_list ds * prod_list ds" using p by simp
    also have "\<dots> \<le> r" using p div_mult_mod_eq [of r "prod_list ds"] pos_mod_sign [OF p, of r] by linarith
    finally show False using 2 by simp
  qed
  then show ?case using 2 p by (simp add: pos_imp_zdiv_nonneg_iff)
qed auto

lemma enc_dec: "pos ds \<Longrightarrow> 0 \<le> r \<Longrightarrow> r < prod_list ds \<Longrightarrow> enc ds (dec ds r) = r"
proof (induction ds r rule: dec.induct)
  case (2 d ds r)
  have p: "0 < prod_list ds" using 2 by (intro prod_list_pos) auto
  then have "enc ds (dec ds (r mod prod_list ds)) = r mod prod_list ds" using 2 by simp
  then show ?case by simp
qed auto

lemma dec_enc: "in_grid ds cs \<Longrightarrow> dec ds (enc ds cs) = cs"
proof (induction ds cs rule: enc.induct)
  case (1 d ds c cs)
  have e: "0 \<le> enc ds cs" "enc ds cs < prod_list ds" using 1 enc_range by auto
  then have "(c * prod_list ds + enc ds cs) div prod_list ds = c" "(c * prod_list ds + enc ds cs) mod prod_list ds = enc ds cs"
    by (auto simp: div_pos_pos_trivial)
  then show ?case using 1 by simp
qed auto

lemma enc_inj: "in_grid ds cs \<Longrightarrow> in_grid ds cs' \<Longrightarrow> enc ds cs = enc ds cs' \<Longrightarrow> cs = cs'"
  by (metis dec_enc)

lemma enc_snoc: "length ds = length cs \<Longrightarrow> enc (ds @ [d]) (cs @ [c]) = enc ds cs * d + c"
  by (induction ds cs rule: enc.induct) (auto simp: algebra_simps)

lemma enc_update:
  "k < length ds \<Longrightarrow> length cs = length ds \<Longrightarrow>
   enc ds (cs[k := v]) = enc ds cs + (v - cs ! k) * prod_list (drop (Suc k) ds)"
proof (induction ds cs arbitrary: k rule: enc.induct)
  case (1 d ds c cs)
  then show ?case by (cases k) (auto simp: algebra_simps)
qed auto

section \<open>The loops\<close>

lemma coords_loop_dec:
  "pos rest \<Longrightarrow> 0 \<le> r \<Longrightarrow> r < prod_list rest \<Longrightarrow> length pre + length rest \<le> length coords \<Longrightarrow>
   coords_loop (pre @ rest @ ext) (int (length pre + length rest)) (int (length pre)) (prod_list rest) r coords =
   Some (take (length pre) coords @ dec rest r @ drop (length pre + length rest) coords)"
proof (induction rest arbitrary: pre r coords)
  case Nil
  then show ?case by (subst coords_loop.simps) simp
next
  case (Cons d ds)
  have p: "0 < prod_list ds" "0 < d" using Cons.prems by (auto intro: prod_list_pos)
  let ?q = "r div prod_list ds" and ?k = "length pre"
  let ?coords = "coords[?k := ?q]"
  have k: "?k < length coords" using Cons.prems(4) by simp
  have "coords_loop ((pre @ [d]) @ ds @ ext) (int (length (pre @ [d]) + length ds)) (int (length (pre @ [d])))
      (prod_list ds) (r mod prod_list ds) ?coords =
    Some (take (length (pre @ [d])) ?coords @ dec ds (r mod prod_list ds) @ drop (length (pre @ [d]) + length ds) ?coords)"
    using Cons.prems p by (intro Cons.IH) auto
  moreover have "take (length (pre @ [d])) ?coords = take ?k coords @ [?q]"
    using k by (simp add: take_Suc_conv_app_nth)
  moreover have "coords_loop (pre @ (d # ds) @ ext) (int (?k + length (d # ds))) (int ?k) (prod_list (d # ds)) r coords =
      coords_loop ((pre @ [d]) @ ds @ ext) (int (length (pre @ [d]) + length ds)) (int (length (pre @ [d])))
      (prod_list ds) (r mod prod_list ds) ?coords"
    using p Cons.prems k by (subst coords_loop.simps) (simp add: wr_def ac_simps)
  ultimately show ?case using k by simp
qed

lemma smod_norm: "0 < d \<Longrightarrow> (if c smod d < 0 then c smod d + d else c smod d) = c mod (d::int)"
proof (cases "0 \<le> c")
  case False
  assume d: "0 < d"
  have "c smod d = - ((- c) mod d)" using False d by (simp add: signed_modulo_int_def sgn_if)
  moreover have "0 \<le> (- c) mod d" "(- c) mod d < d" using d by simp_all
  ultimately show ?thesis using zmod_zminus1_eq_if [of "- c" d] by auto
qed (simp add: not_less)

lemma rank_loop_enc:
  "k \<le> length ds \<Longrightarrow> length ds \<le> length cs \<Longrightarrow> pos ds \<Longrightarrow>
   rank_loop_cart ds cs (int k - 1) factor prank =
   Some (prank + factor * enc (take k ds) (map2 (mod) (take k cs) (take k ds)))"
proof (induction k arbitrary: factor prank)
  case 0
  then show ?case by (subst rank_loop_cart.simps) simp
next
  case (Suc k)
  let ?d = "ds ! k" and ?c = "cs ! k"
  have k: "k < length ds" "k < length cs" and d: "0 < ?d" using Suc.prems by auto
  have "(if ?c < 0 \<or> ?c \<ge> ?d then do { ord \<leftarrow> cmod ?c ?d; Some (if ord < 0 then ord + ?d else ord) }
      else Some ?c) = Some (?c mod ?d)"
    using d smod_norm [OF d, of ?c] by (simp add: cmod_def)
  then have "rank_loop_cart ds cs (int (Suc k) - 1) factor prank =
      rank_loop_cart ds cs (int k - 1) (factor * ?d) (prank + factor * (?c mod ?d))"
    using k by (subst rank_loop_cart.simps) (simp add: rd_def)
  then show ?case using Suc k
    by (simp add: take_Suc_conv_app_nth enc_snoc algebra_simps)
qed

lemma prod_drop_dvd: "k \<le> l \<Longrightarrow> prod_list (drop l ds) dvd prod_list (drop k (ds :: int list))"
proof -
  assume "k \<le> l"
  then have "drop k ds = take (l - k) (drop k ds) @ drop l ds"
    by (metis append_take_drop_id drop_drop le_add_diff_inverse2)
  then have "prod_list (drop k ds) = prod_list (take (l - k) (drop k ds)) * prod_list (drop l ds)"
    by (metis prod_list.append)
  then show ?thesis by simp
qed

lemma nth_dec:
  "0 \<le> r \<Longrightarrow> pos ds \<Longrightarrow> r < prod_list ds \<Longrightarrow> k < length ds \<Longrightarrow>
   dec ds r ! k = (r mod prod_list (drop k ds)) div prod_list (drop (Suc k) ds)"
proof (induction ds r arbitrary: k rule: dec.induct)
  case (2 d ds r)
  have p: "0 < prod_list ds" using 2 by (intro prod_list_pos) auto
  show ?case
  proof (cases k)
    case (Suc j)
    have "prod_list (drop j ds) dvd prod_list ds" using prod_drop_dvd [of 0 j ds] by simp
    then show ?thesis using 2 p Suc by (simp add: mod_mod_cancel)
  qed (use 2 in simp)
qed simp

lemma shift_loop_spec:
  assumes "pos ds" "dir < length ds" "length qs = length ds" "k \<le> dir" "0 \<le> r"
  shows "shift_loop ds qs (int dir + 1) (int k) td tp r (prod_list (drop k ds)) =
    Some (ds ! dir, qs ! dir, r mod prod_list (drop dir ds), prod_list (drop (Suc dir) ds))"
  using assms(4,5)
proof (induction "dir - k" arbitrary: k td tp r)
  case 0
  have k: "k = dir" using 0 by simp
  have p: "0 < prod_list (drop dir ds)" "0 < ds ! dir" "0 < prod_list (drop (Suc dir) ds)"
    using assms by (auto intro!: prod_list_pos dest: in_set_dropD)
  have "prod_list (drop dir ds) = ds ! dir * prod_list (drop (Suc dir) ds)"
    using assms(2) by (simp add: Cons_nth_drop_Suc [symmetric])
  then have "prod_list (drop dir ds) div ds ! dir = prod_list (drop (Suc dir) ds)" using p by simp
  moreover have "shift_loop ds qs (int dir + 1) (int dir + 1) td tp r f = Some (td, tp, r, f)" for td tp r f
    by (subst shift_loop.simps) simp
  ultimately show ?case using 0 k p assms(2,3) by (subst shift_loop.simps) (simp add: less_imp_le)
next
  case (Suc n)
  have k: "k < dir" using Suc by simp
  have p: "0 < prod_list (drop k ds)" "0 < ds ! k" "0 < prod_list (drop (Suc k) ds)"
    using assms k by (auto intro!: prod_list_pos dest: in_set_dropD)
  have "prod_list (drop k ds) = ds ! k * prod_list (drop (Suc k) ds)"
    using assms(2) k by (simp add: Cons_nth_drop_Suc [symmetric])
  then have q: "prod_list (drop k ds) div ds ! k = prod_list (drop (Suc k) ds)" using p by simp
  have "shift_loop ds qs (int dir + 1) (int (Suc k)) (ds ! k) (qs ! k) (r mod prod_list (drop k ds)) (prod_list (drop (Suc k) ds)) =
      Some (ds ! dir, qs ! dir, r mod prod_list (drop k ds) mod prod_list (drop dir ds), prod_list (drop (Suc dir) ds))"
    using Suc.hyps(2) k p by (intro Suc.hyps(1)) auto
  moreover have "r mod prod_list (drop k ds) mod prod_list (drop dir ds) = r mod prod_list (drop dir ds)"
    using k by (intro mod_mod_cancel prod_drop_dvd) simp
  ultimately show ?case using Suc.prems k p q assms(2,3)
    by (subst shift_loop.simps) (simp add: less_imp_le add.commute)
qed

section \<open>Cartesian communicators\<close>

definition cart_ok :: "topo_communicator \<Rightarrow> bool" where
  "cart_ok comm \<longleftrightarrow> ndims comm = int (length (dims_of comm)) \<and> pos (dims_of comm) \<and>
     length (periods_of comm) = length (dims_of comm) \<and>
     ompi_comm_size comm = prod_list (dims_of comm) \<and>
     0 \<le> ompi_comm_rank comm \<and> ompi_comm_rank comm < ompi_comm_size comm \<and>
     mtc_coords (c_topo_comm comm) = dec (dims_of comm) (ompi_comm_rank comm)"

lemma cart_coords_dec:
  assumes "cart_ok comm" "0 \<le> r" "r < ompi_comm_size comm" "ndims comm \<le> maxdims" "maxdims \<le> int (length coords)"
  shows "mca_topo_base_cart_coords comm r maxdims coords =
    Some (MPI_SUCCESS, dec (dims_of comm) r @ drop (nat (ndims comm)) coords)"
  using assms coords_loop_dec [of "dims_of comm" r "[]" coords "[]"]
  by (simp add: mca_topo_base_cart_coords_def cart_ok_def)

lemma cart_rank_enc:
  assumes "cart_ok comm" "length coords = length (dims_of comm)"
  shows "mca_topo_base_cart_rank comm coords = Some (MPI_SUCCESS, enc (dims_of comm) (map2 (mod) coords (dims_of comm)))"
  using assms rank_loop_enc [of "length (dims_of comm)" "dims_of comm" coords 1 0]
  by (simp add: mca_topo_base_cart_rank_def cart_ok_def)

lemma in_grid_mod: "pos ds \<Longrightarrow> length cs = length ds \<Longrightarrow> in_grid ds (map2 (mod) cs ds)"
  by (induction ds cs rule: enc.induct) auto

lemma mod_in_grid: "in_grid ds cs \<Longrightarrow> map2 (mod) cs ds = cs"
  by (induction ds cs rule: enc.induct) auto

definition neighbour :: "topo_communicator \<Rightarrow> nat \<Rightarrow> int \<Rightarrow> int option" where
  "neighbour comm dir d =
     (let cs = mtc_coords (c_topo_comm comm); v = cs ! dir + d
      in if (v < 0 \<or> v \<ge> dims_of comm ! dir) \<and> periods_of comm ! dir = 0 then Some MPI_PROC_NULL
         else map_option snd (mca_topo_base_cart_rank comm (cs[dir := v])))"

lemma shifted_rank_enc:
  assumes ok: "cart_ok comm" and dir: "dir < length (dims_of comm)"
  defines "ord \<equiv> mtc_coords (c_topo_comm comm) ! dir"
  shows "shifted_rank (ompi_comm_rank comm) (dims_of comm ! dir) (periods_of comm ! dir) ord
      (prod_list (drop (Suc dir) (dims_of comm))) (ord + d) = neighbour comm dir d"
proof -
  let ?ds = "dims_of comm" and ?cs = "mtc_coords (c_topo_comm comm)" and ?d = "dims_of comm ! dir"
  have C: "pos ?ds" "ompi_comm_size comm = prod_list ?ds" "ndims comm = int (length ?ds)"
    "?cs = dec ?ds (ompi_comm_rank comm)" "0 \<le> ompi_comm_rank comm" "ompi_comm_rank comm < prod_list ?ds"
    using ok by (auto simp: cart_ok_def)
  have d: "0 < ?d" using C(1) dir by simp
  have g: "in_grid ?ds ?cs" unfolding C(4) using C by (intro dec_in_grid) auto
  have e: "enc ?ds ?cs = ompi_comm_rank comm" unfolding C(4) using C by (intro enc_dec) auto
  have m: "map2 (mod) (?cs[dir := v]) ?ds = ?cs[dir := v mod ?d]" for v
  proof -
    have "?cs ! j mod ?ds ! j = ?cs ! j" if "j < length ?ds" for j
      using arg_cong [OF mod_in_grid [OF g], of "\<lambda>xs. xs ! j"] that in_grid_length [OF g] by simp
    then show ?thesis using in_grid_length [OF g] dir
      by (intro nth_equalityI) (simp_all add: nth_list_update)
  qed
  have E: "(do { neword \<leftarrow> cmod v ?d; Some (ompi_comm_rank comm + ((if neword < 0 then neword + ?d else neword) - ord) *
      prod_list (drop (Suc dir) ?ds)) }) = Some (enc ?ds (?cs[dir := v mod ?d]))" for v
    using d smod_norm [OF d, of v] e dir in_grid_length [OF g] by (simp add: cmod_def enc_update ord_def)
  define v where "v = ord + d"
  show ?thesis
    unfolding shifted_rank_def neighbour_def Let_def ord_def [symmetric] v_def [symmetric] E
    using cart_rank_enc [OF ok, of "?cs[dir := v]"] in_grid_length [OF g] by (simp add: m)
qed

lemma neighbour_zero:
  assumes ok: "cart_ok comm" and dir: "dir < length (dims_of comm)"
  shows "neighbour comm dir 0 = Some (ompi_comm_rank comm)"
proof -
  let ?ds = "dims_of comm" and ?cs = "mtc_coords (c_topo_comm comm)"
  have C: "?cs = dec ?ds (ompi_comm_rank comm)" "pos ?ds" "0 \<le> ompi_comm_rank comm" "ompi_comm_rank comm < prod_list ?ds"
    using ok by (auto simp: cart_ok_def)
  have g: "in_grid ?ds ?cs" unfolding C(1) using C by (intro dec_in_grid) auto
  have "0 \<le> ?cs ! dir \<and> ?cs ! dir < ?ds ! dir"
    using g dir by (auto simp: in_grid_def list_all2_conv_all_nth)
  moreover have "enc ?ds ?cs = ompi_comm_rank comm" unfolding C(1) using C by (intro enc_dec) auto
  ultimately show ?thesis
    using cart_rank_enc [OF ok, of ?cs] in_grid_length [OF g] by (simp add: neighbour_def Let_def mod_in_grid [OF g])
qed

section \<open>Subgrids\<close>

abbreviation dropped :: "int list \<Rightarrow> int list" where
  "dropped rs \<equiv> map (\<lambda>r. if r = 0 then 1 else 0) rs"

lemma keep_loop_snoc:
  "length xs = length rs \<Longrightarrow> keep_loop (xs @ [x]) (rs @ [r]) = keep_loop xs rs @ (if r \<noteq> 0 then [x] else [])"
  by (induction xs rs rule: keep_loop.induct) auto

lemma length_keep_loop:
  "length xs = length rs \<Longrightarrow> length (keep_loop xs rs) = length (filter (\<lambda>r. r \<noteq> 0) rs)"
  by (induction xs rs rule: list_induct2) auto

lemma length_keep_le: "length (keep_loop xs rs) \<le> length xs"
  by (induction xs rs rule: keep_loop.induct) auto

lemma sub_loop_spec:
  assumes "length cs = length ds" "length rs = length ds"
  shows "k \<le> length ds \<Longrightarrow> sub_loop ds cs rs (int k - 1) co cf ke kf nd =
    Some (co + cf * enc (keep_loop (take k ds) (dropped (take k rs))) (keep_loop (take k cs) (dropped (take k rs))),
          ke + kf * enc (keep_loop (take k ds) (take k rs)) (keep_loop (take k cs) (take k rs)),
          nd + int (length (keep_loop (take k ds) (take k rs))))"
proof (induction k arbitrary: co cf ke kf nd)
  case 0
  then show ?case by (subst sub_loop.simps) simp
next
  case (Suc k)
  have k: "k < length ds" "k < length cs" "k < length rs" using Suc.prems assms by auto
  have l: "length (keep_loop (take k ds) (take k rs)) = length (keep_loop (take k cs) (take k rs))"
    "length (keep_loop (take k ds) (dropped (take k rs))) = length (keep_loop (take k cs) (dropped (take k rs)))"
    using assms by (simp_all add: length_keep_loop)
  show ?case using Suc k l assms
    by (subst sub_loop.simps)
      (simp add: take_Suc_conv_app_nth keep_loop_snoc enc_snoc algebra_simps)
qed

lemma in_grid_keep: "in_grid ds cs \<Longrightarrow> length rs = length ds \<Longrightarrow> in_grid (keep_loop ds rs) (keep_loop cs rs)"
proof (induction ds cs arbitrary: rs rule: enc.induct)
  case (1 d ds c cs)
  then show ?case by (cases rs) auto
qed auto

text \<open>The grid point with the dropped coordinates of one point and given kept coordinates.\<close>

fun merge :: "int list \<Rightarrow> int list \<Rightarrow> int list \<Rightarrow> int list" where
  "merge (r # rs) (c # cs) ks = (if r \<noteq> 0 then hd ks # merge rs cs (tl ks) else c # merge rs cs ks)"
| "merge _ _ _ = []"

lemma merge_spec:
  assumes "length rs = length ds"
  shows "in_grid ds cs \<Longrightarrow> in_grid (keep_loop ds rs) ks \<Longrightarrow>
    in_grid ds (merge rs cs ks) \<and> keep_loop (merge rs cs ks) rs = ks \<and>
    keep_loop (merge rs cs ks) (dropped rs) = keep_loop cs (dropped rs)"
  using assms
proof (induction ds rs arbitrary: cs ks rule: list_induct2')
  case (4 d ds r rs)
  then obtain c cs' where cs: "cs = c # cs'" by (cases cs) auto
  show ?case
  proof (cases "r \<noteq> 0")
    case True
    then obtain k ks' where "ks = k # ks'" using 4 by (cases ks) auto
    then show ?thesis using 4 cs True by auto
  next
    case False
    then show ?thesis using 4 cs by auto
  qed
qed auto

lemma keep_both_inj:
  "length cs = length rs \<Longrightarrow> length cs' = length rs \<Longrightarrow> keep_loop cs rs = keep_loop cs' rs \<Longrightarrow>
   keep_loop cs (dropped rs) = keep_loop cs' (dropped rs) \<Longrightarrow> cs = cs'"
proof (induction rs arbitrary: cs cs')
  case (Cons r rs)
  obtain c ds c' ds' where "cs = c # ds" "cs' = c' # ds'" using Cons.prems(1,2) by (cases cs; cases cs') auto
  then show ?case using Cons.IH [of ds ds'] Cons.prems by (cases "r = 0") simp_all
qed simp

lemma merge_unique:
  assumes "in_grid ds cs" "in_grid ds cs'" "length rs = length ds" "keep_loop cs (dropped rs) = keep_loop cs' (dropped rs)"
  shows "merge rs cs' (keep_loop cs rs) = cs"
proof (rule keep_both_inj)
  note M = merge_spec [OF assms(3,2) in_grid_keep [OF assms(1,3)]]
  show "length (merge rs cs' (keep_loop cs rs)) = length rs" using in_grid_length [OF M [THEN conjunct1]] assms(3) by simp
  show "length cs = length rs" using in_grid_length [OF assms(1)] assms(3) by simp
qed (use merge_spec [OF assms(3,2) in_grid_keep [OF assms(1,3)]] assms in auto)

text \<open>The communicator as the process with rank \<open>q\<close> holds it, and what it contributes to the
  split.\<close>

definition at_rank :: "topo_communicator \<Rightarrow> int \<Rightarrow> topo_communicator" where
  "at_rank comm q = comm\<lparr>ompi_comm_rank := q,
     c_topo_comm := (c_topo_comm comm)\<lparr>mtc_coords := dec (dims_of comm) q\<rparr>\<rparr>"

lemma at_rank_ok: "cart_ok comm \<Longrightarrow> 0 \<le> q \<Longrightarrow> q < ompi_comm_size comm \<Longrightarrow> cart_ok (at_rank comm q)"
  by (simp add: cart_ok_def at_rank_def)

lemma at_own_rank: "cart_ok comm \<Longrightarrow> at_rank comm (ompi_comm_rank comm) = comm"
  by (simp add: cart_ok_def at_rank_def)

definition sub_key :: "int list \<Rightarrow> int list \<Rightarrow> int \<Rightarrow> int" where
  "sub_key ds rs q = enc (keep_loop ds rs) (keep_loop (dec ds q) rs)"

lemma keep_none: "length xs = length rs \<Longrightarrow> keep_loop xs rs = [] \<Longrightarrow> keep_loop xs (dropped rs) = xs"
  by (induction xs rs rule: list_induct2) (auto split: if_splits)

lemma cart_sub_colour_spec:
  assumes "cart_ok comm" "length rs = length (dims_of comm)"
  shows "cart_sub_colour comm rs =
    Some (sub_key (dims_of comm) (dropped rs) (ompi_comm_rank comm), sub_key (dims_of comm) rs (ompi_comm_rank comm),
      int (length (keep_loop (dims_of comm) rs)))"
proof -
  let ?ds = "dims_of comm" and ?q = "ompi_comm_rank comm"
  have C: "pos ?ds" "0 \<le> ?q" "?q < prod_list ?ds" "ndims comm = int (length ?ds)" "mtc_coords (c_topo_comm comm) = dec ?ds ?q"
    using assms(1) by (auto simp: cart_ok_def)
  have "sub_key ?ds (dropped rs) ?q = ?q" if "keep_loop ?ds rs = []"
  proof -
    have "keep_loop (dec ?ds ?q) rs = []"
      using that length_keep_loop [of ?ds rs] length_keep_loop [of "dec ?ds ?q" rs] assms(2) by simp
    then show ?thesis using that assms(2) C keep_none by (simp add: sub_key_def enc_dec)
  qed
  then show ?thesis
    using sub_loop_spec [of "dec ?ds ?q" ?ds rs "length ?ds" 0 1 0 1 0] assms(2) C
    by (simp add: cart_sub_colour_def sub_key_def)
qed

lemma insert_by_insort:
  "(\<And>a b. cmp a b \<le> 0 \<longleftrightarrow> f a \<le> f b) \<Longrightarrow> insert_by cmp x xs = insort_key f x xs"
  by (induction xs) auto

lemma qsort_rankkey: "qsort rankkeycompare xs = sort_key prod.swap xs"
proof -
  have "rankkeycompare a b \<le> 0 \<longleftrightarrow> prod.swap a \<le> prod.swap b" for a b
    by (cases a; cases b) (auto simp: rankkeycompare_def less_eq_prod_def)
  then have "insert_by rankkeycompare = insort_key prod.swap" by (intro ext insert_by_insort)
  then show ?thesis by (simp add: qsort_def sort_key_def)
qed

lemma split_ranks_sort:
  assumes "length results = nat n" "0 \<le> n"
    "\<And>q. 0 \<le> q \<Longrightarrow> q < n \<Longrightarrow> results ! nat q = (col q, key q)"
  shows "split_ranks results c =
    map fst (sort_key prod.swap (map (\<lambda>q. (q, key q)) (filter (\<lambda>q. col q = c) [0..n - 1])))"
proof -
  have r: "results = map (\<lambda>q. (col q, key q)) [0..n - 1]"
  proof (rule nth_equalityI)
    fix i assume "i < length results"
    then show "results ! i = map (\<lambda>q. (col q, key q)) [0..n - 1] ! i"
      using assms(1,2) assms(3) [of "int i"] by simp
  qed (use assms in simp)
  have z: "zip xs (map g xs) = map (\<lambda>q. (q, g q)) xs" for g :: "int \<Rightarrow> int \<times> int" and xs
    by (induction xs) auto
  have "map (\<lambda>(i, c, k). (i, k)) (filter (\<lambda>(i, c', k). c' = c) (zip [0..int (length results) - 1] results)) =
      map (\<lambda>q. (q, key q)) (filter (\<lambda>q. col q = c) [0..n - 1])"
    using assms(1,2) by (simp add: r z filter_map comp_def)
  moreover have "(if length xs > 1 then qsort rankkeycompare xs else xs) = sort_key prod.swap xs" for xs
    by (cases xs rule: remdups_adj.cases) (auto simp: qsort_rankkey)
  ultimately show ?thesis by (simp add: split_ranks_def Let_def)
qed

lemma sub_key_range:
  assumes "pos ds" "0 \<le> q" "q < prod_list ds" "length rs = length ds"
  shows "0 \<le> sub_key ds rs q \<and> sub_key ds rs q < prod_list (keep_loop ds rs)"
    "dec (keep_loop ds rs) (sub_key ds rs q) = keep_loop (dec ds q) rs"
proof -
  have "in_grid (keep_loop ds rs) (keep_loop (dec ds q) rs)"
    using assms by (intro in_grid_keep dec_in_grid) auto
  then show "0 \<le> sub_key ds rs q \<and> sub_key ds rs q < prod_list (keep_loop ds rs)"
    "dec (keep_loop ds rs) (sub_key ds rs q) = keep_loop (dec ds q) rs"
    unfolding sub_key_def by (auto simp: enc_range dec_enc)
qed

text \<open>The members of the class of a process, by key.\<close>

definition member :: "int list \<Rightarrow> int list \<Rightarrow> int \<Rightarrow> int \<Rightarrow> int" where
  "member ds rs me k = enc ds (merge rs (dec ds me) (dec (keep_loop ds rs) k))"

lemma member_spec:
  assumes "pos ds" "0 \<le> me" "me < prod_list ds" "length rs = length ds"
    "0 \<le> k" "k < prod_list (keep_loop ds rs)"
  shows "0 \<le> member ds rs me k \<and> member ds rs me k < prod_list ds"
    "sub_key ds rs (member ds rs me k) = k"
    "sub_key ds (dropped rs) (member ds rs me k) = sub_key ds (dropped rs) me"
proof -
  let ?ks = "dec (keep_loop ds rs) k"
  have p: "pos (keep_loop ds rs)" using in_grid_pos [OF in_grid_keep [OF dec_in_grid [OF assms(1-3)] assms(4)]] .
  have M: "in_grid ds (merge rs (dec ds me) ?ks)" "keep_loop (merge rs (dec ds me) ?ks) rs = ?ks"
    "keep_loop (merge rs (dec ds me) ?ks) (dropped rs) = keep_loop (dec ds me) (dropped rs)"
    using merge_spec [OF assms(4) dec_in_grid [OF assms(1-3)] dec_in_grid [OF p assms(5,6)]] by auto
  then show "0 \<le> member ds rs me k \<and> member ds rs me k < prod_list ds"
    "sub_key ds rs (member ds rs me k) = k" "sub_key ds (dropped rs) (member ds rs me k) = sub_key ds (dropped rs) me"
    using enc_range [OF M(1)] dec_enc [OF M(1)] enc_dec [OF p assms(5,6)] by (auto simp: member_def sub_key_def)
qed

lemma member_key:
  assumes "pos ds" "0 \<le> me" "me < prod_list ds" "length rs = length ds" "0 \<le> q" "q < prod_list ds"
    "sub_key ds (dropped rs) q = sub_key ds (dropped rs) me"
  shows "member ds rs me (sub_key ds rs q) = q"
proof -
  have l: "length (dropped rs) = length ds" using assms(4) by simp
  have "keep_loop (dec ds q) (dropped rs) = keep_loop (dec ds me) (dropped rs)"
    using sub_key_range(2) [OF assms(1,5,6) l] sub_key_range(2) [OF assms(1,2,3) l] assms(7) by simp
  from merge_unique [OF dec_in_grid [OF assms(1,5,6)] dec_in_grid [OF assms(1-3)] assms(4) this]
  show ?thesis using sub_key_range(2) [OF assms(1,5,6,4)] enc_dec [OF assms(1,5,6)] by (simp add: member_def)
qed

lemma split_ranks_members:
  assumes ds: "pos ds" "0 \<le> me" "me < prod_list ds" "length rs = length ds"
    and res: "length results = nat (prod_list ds)"
      "\<And>q. 0 \<le> q \<Longrightarrow> q < prod_list ds \<Longrightarrow> results ! nat q = (sub_key ds (dropped rs) q, sub_key ds rs q)"
  shows "split_ranks results (sub_key ds (dropped rs) me) = map (member ds rs me) [0..prod_list (keep_loop ds rs) - 1]"
proof -
  let ?P = "prod_list (keep_loop ds rs)" and ?n = "prod_list ds"
  let ?L = "map (\<lambda>q. (q, sub_key ds rs q)) (filter (\<lambda>q. sub_key ds (dropped rs) q = sub_key ds (dropped rs) me) [0..?n - 1])"
  let ?R = "map (\<lambda>k. (member ds rs me k, k)) [0..?P - 1]"
  have "set ?L = set ?R"
  proof (intro set_eqI iffI)
    fix x assume "x \<in> set ?L"
    then obtain q where q: "x = (q, sub_key ds rs q)" "0 \<le> q" "q < ?n" "sub_key ds (dropped rs) q = sub_key ds (dropped rs) me" by auto
    have "member ds rs me (sub_key ds rs q) = q" by (rule member_key [OF ds q(2-4)])
    then show "x \<in> set ?R" using q sub_key_range(1) [OF ds(1) q(2,3) ds(4)] by (auto intro!: rev_image_eqI [of "sub_key ds rs q"])
  next
    fix x assume "x \<in> set ?R"
    then obtain k where k: "x = (member ds rs me k, k)" "0 \<le> k" "k < ?P" by auto
    then show "x \<in> set ?L" using member_spec [OF ds k(2,3)] by (auto intro!: rev_image_eqI [of "member ds rs me k"])
  qed
  moreover have "distinct ?L" "distinct ?R" by (auto simp: distinct_map inj_on_def)
  ultimately have "mset ?L = mset ?R" by (simp only: set_eq_iff_mset_eq_distinct)
  moreover have "sorted (map prod.swap ?R)"
    by (simp add: comp_def sorted_map sorted_wrt_map) (simp add: less_eq_prod_def sorted_wrt_upto [THEN sorted_wrt_mono_rel [rotated]])
  ultimately have "sort_key prod.swap ?L = ?R"
    by (intro sort_key_inj_key_eq) auto
  then show ?thesis using split_ranks_sort [OF res(1) _ res(2)] prod_list_pos [OF ds(1)] by (simp add: comp_def)
qed

lemma copy_topo_cart:
  assumes "cart_ok comm"
  shows "ompi_comm_copy_topo True (c_topo_comm comm) = Some (c_topo_comm comm)"
  using assms by (cases "dims_of comm") (auto simp: ompi_comm_copy_topo_def memcpy_ints_def cart_ok_def Let_def)

lemma cart_sub_fill_spec:
  assumes ok: "cart_ok comm" and rs: "length rs = length (dims_of comm)"
  defines "kept \<equiv> keep_loop (dims_of comm) rs" and "me \<equiv> ompi_comm_rank comm"
  defines "key \<equiv> sub_key (dims_of comm) rs me"
  shows "cart_sub_fill comm rs (int (length kept)) (map (member (dims_of comm) rs me) [0..prod_list kept - 1]) =
    Some \<lparr>ompi_comm_size = prod_list kept, ompi_comm_rank = key,
      c_topo_comm = (c_topo_comm comm)\<lparr>mtc_ndims_or_nnodes := int (length kept),
        mtc_dims_or_index := kept @ drop (length kept) (dims_of comm),
        mtc_coords := keep_loop (mtc_coords (c_topo_comm comm)) rs @ drop (length kept) (mtc_coords (c_topo_comm comm))\<rparr>\<rparr>"
proof -
  let ?ds = "dims_of comm" and ?lr = "map (member (dims_of comm) rs me) [0..prod_list kept - 1]"
  have C: "pos ?ds" "0 \<le> me" "me < prod_list ?ds" "ndims comm = int (length ?ds)" "mtc_coords (c_topo_comm comm) = dec ?ds me"
    using ok by (auto simp: cart_ok_def me_def)
  have k: "0 \<le> key" "key < prod_list kept" "dec kept key = keep_loop (dec ?ds me) rs"
    using sub_key_range [OF C(1-3) rs] by (auto simp: key_def kept_def)
  have pk: "pos kept" unfolding kept_def using in_grid_pos [OF in_grid_keep [OF dec_in_grid [OF C(1-3)] rs]] .
  have inj: "inj_on (member ?ds rs me) {0..prod_list kept - 1}"
    using member_spec(2) [OF C(1-3) rs] by (intro inj_on_inverseI [of _ "sub_key ?ds rs"]) (simp add: kept_def)
  have "?lr ! nat key = me" using k member_key [OF C(1-3) rs C(2,3) refl] by (simp add: key_def)
  then have idx: "index_of ?lr me = Some (nat key)"
    using index_of_nth [of ?lr "nat key"] k inj by (simp add: distinct_map)
  have lk: "length kept \<le> length ?ds" by (simp add: kept_def length_keep_le)
  have lc: "length (keep_loop (dec ?ds me) rs) = length kept" using rs by (simp add: kept_def length_keep_loop)
  have sz: "int (nat (prod_list kept)) = prod_list kept" using prod_list_pos [OF pk] by simp
  have co: "coords_loop (kept @ drop (length kept) ?ds) (int (length kept)) 0 (prod_list kept) key (dec ?ds me) =
      Some (keep_loop (dec ?ds me) rs @ drop (length kept) (dec ?ds me))"
    using coords_loop_dec [OF pk k(1,2), of "[]" "dec ?ds me" "drop (length kept) ?ds"] lk k(3) by simp
  show ?thesis
  proof (cases "kept = []")
    case True
    then show ?thesis using copy_topo_cart [OF ok] idx k C sz lc
      by (simp add: cart_sub_fill_def me_def [symmetric] Let_def)
  next
    case False
    then have "1 \<le> int (length kept)" by (cases kept) auto
    moreover have "memcpy_ints ?ds kept (int (length kept)) = Some (kept @ drop (length kept) ?ds)"
      using lk by (simp add: memcpy_ints_def)
    ultimately show ?thesis using copy_topo_cart [OF ok] idx k C sz co
      by (simp add: cart_sub_fill_def me_def [symmetric] Let_def kept_def [symmetric] mca_topo_base_cart_coords_def)
  qed
qed

lemma grid_loop_spec:
  "k \<le> length ds \<Longrightarrow> grid_loop ds (int (length ds)) (int k) a =
    (if pos (drop k ds) then Some (Some (a * prod_list (drop k ds))) else Some None)"
proof (induction "length ds - k" arbitrary: k a)
  case 0
  then show ?case by (subst grid_loop.simps) simp
next
  case (Suc n)
  then have k: "k < length ds" by simp
  have d: "drop k ds = ds ! k # drop (Suc k) ds" using k by (simp add: Cons_nth_drop_Suc)
  have "grid_loop ds (int (length ds)) (int (Suc k)) (a * ds ! k) =
      (if pos (drop (Suc k) ds) then Some (Some (a * ds ! k * prod_list (drop (Suc k) ds))) else Some None)"
    using Suc k by (intro Suc.hyps(1)) auto
  then show ?case using k by (subst grid_loop.simps) (auto simp: d add.commute mult.assoc)
qed

lemma coords_in_range_spec:
  "k \<le> length ds \<Longrightarrow> length ps = length ds \<Longrightarrow> length cs = length ds \<Longrightarrow>
   coords_in_range ds ps cs (int (length ds)) (int k) =
     Some (\<forall>i. k \<le> i \<longrightarrow> i < length ds \<and> ps ! i = 0 \<longrightarrow> 0 \<le> cs ! i \<and> cs ! i < ds ! i)"
proof (induction "length ds - k" arbitrary: k)
  case 0
  then show ?case by (subst coords_in_range.simps) simp
next
  case (Suc n)
  then have k: "k < length ds" by simp
  let ?P = "\<lambda>i. i < length ds \<and> ps ! i = 0 \<longrightarrow> 0 \<le> cs ! i \<and> cs ! i < ds ! i"
  have "coords_in_range ds ps cs (int (length ds)) (int k + 1) = Some (\<forall>i. Suc k \<le> i \<longrightarrow> ?P i)"
    using Suc(1) [of "Suc k"] Suc(2-) k by (simp add: add.commute)
  moreover have "(\<forall>i. k \<le> i \<longrightarrow> ?P i) \<longleftrightarrow> ?P k \<and> (\<forall>i. Suc k \<le> i \<longrightarrow> ?P i)"
    by (metis Suc_leD le_antisym not_less_eq_eq)
  ultimately show ?case using k Suc(2-) by (subst coords_in_range.simps) auto
qed

section \<open>Graphs\<close>

lemma copy_loop_spec:
  assumes "0 \<le> off" "off + int n \<le> int (length src)" "n \<le> length dst"
  shows "k \<le> n \<Longrightarrow> copy_loop src off (int n) (int k) (take k (drop (nat off) src) @ drop k dst) =
    Some (take n (drop (nat off) src) @ drop n dst)"
proof (induction "n - k" arbitrary: k)
  case 0
  then show ?case by (subst copy_loop.simps) simp
next
  case (Suc m)
  then have k: "k < n" by simp
  have l: "length (take k (drop (nat off) src)) = k" using k assms by auto
  have s: "rd src (off + int k) = Some (drop (nat off) src ! k)"
    using k assms by (auto simp: rd_def nth_drop nat_add_distrib)
  have w: "wr (take k (drop (nat off) src) @ drop k dst) (int k) (drop (nat off) src ! k) =
      Some (take (Suc k) (drop (nat off) src) @ drop (Suc k) dst)"
  proof -
    have "drop k dst = dst ! k # drop (Suc k) dst" using k assms(3) by (simp add: Cons_nth_drop_Suc)
    moreover have "take (Suc k) (drop (nat off) src) = take k (drop (nat off) src) @ [drop (nat off) src ! k]"
      using k assms by (intro take_Suc_conv_app_nth) auto
    ultimately show ?thesis using l by (simp add: wr_def list_update_append)
  qed
  have "copy_loop src off (int n) (int (Suc k)) (take (Suc k) (drop (nat off) src) @ drop (Suc k) dst) =
      Some (take n (drop (nat off) src) @ drop n dst)"
    using Suc k by (intro Suc.hyps(1)) auto
  then show ?case using k s w by (subst copy_loop.simps) (simp add: add.commute)
qed

definition graph_ok :: "topo_communicator \<Rightarrow> bool" where
  "graph_ok comm \<longleftrightarrow> dims_of comm \<noteq> [] \<and> ompi_comm_size comm = int (length (dims_of comm)) \<and>
     sorted (dims_of comm) \<and> 0 \<le> hd (dims_of comm) \<and> last (dims_of comm) = int (length (periods_of comm))"

definition first_edge :: "topo_communicator \<Rightarrow> nat \<Rightarrow> int" where
  "first_edge comm r = (if r = 0 then 0 else dims_of comm ! (r - 1))"

definition neighbours_of :: "topo_communicator \<Rightarrow> nat \<Rightarrow> int list" where
  "neighbours_of comm r = take (nat (dims_of comm ! r - first_edge comm r)) (drop (nat (first_edge comm r)) (periods_of comm))"

lemma graph_index:
  assumes "graph_ok comm" "r < length (dims_of comm)"
  shows "0 \<le> first_edge comm r" "first_edge comm r \<le> dims_of comm ! r" "dims_of comm ! r \<le> int (length (periods_of comm))"
proof -
  let ?ix = "dims_of comm"
  have G: "sorted ?ix" "?ix \<noteq> []" "0 \<le> ?ix ! 0" "?ix ! (length ?ix - 1) = int (length (periods_of comm))"
    using assms(1) by (auto simp: graph_ok_def hd_conv_nth last_conv_nth)
  have m: "i \<le> j \<Longrightarrow> j < length ?ix \<Longrightarrow> ?ix ! i \<le> ?ix ! j" for i j using G(1) by (simp add: sorted_nth_mono)
  have nn: "0 \<le> ?ix ! i" if "i < length ?ix" for i using m [of 0 i] G(3) that by simp
  show "0 \<le> first_edge comm r" using nn [of "r - 1"] assms(2) by (simp add: first_edge_def)
  show "first_edge comm r \<le> ?ix ! r" using m [of "r - 1" r] nn [OF assms(2)] assms(2) by (cases r) (auto simp: first_edge_def)
  show "?ix ! r \<le> int (length (periods_of comm))" using m [of r "length ?ix - 1"] G(2,4) assms(2) by simp
qed

lemma length_neighbours_of:
  assumes "graph_ok comm" "r < length (dims_of comm)"
  shows "int (length (neighbours_of comm r)) = dims_of comm ! r - first_edge comm r"
  using graph_index [OF assms] by (simp add: neighbours_of_def)

lemma concat_neighbours:
  assumes "graph_ok comm"
  shows "k \<le> length (dims_of comm) \<Longrightarrow> concat (map (neighbours_of comm) [0..<k]) = take (nat (first_edge comm k)) (periods_of comm)"
proof (induction k)
  case 0
  then show ?case by (simp add: first_edge_def)
next
  case (Suc k)
  then have k: "k < length (dims_of comm)" by simp
  note I = graph_index [OF assms k]
  have "first_edge comm (Suc k) = dims_of comm ! k" by (simp add: first_edge_def)
  moreover have "nat (dims_of comm ! k) = nat (first_edge comm k) + nat (dims_of comm ! k - first_edge comm k)" using I by simp
  ultimately show ?case using Suc k by (simp add: neighbours_of_def take_add)
qed

definition sample_cart :: topo_communicator where
  "sample_cart = \<lparr>ompi_comm_size = 6, ompi_comm_rank = 4, c_topo_comm = \<lparr>mtc_ndims_or_nnodes = 2,
     mtc_dims_or_index = [2, 3], mtc_periods_or_edges = [1, 0], mtc_reorder = False, mtc_coords = [1, 1]\<rparr>\<rparr>"

lemma sample_cart_ok: "cart_ok sample_cart"
  by (simp add: cart_ok_def sample_cart_def)

definition sample_graph :: topo_communicator where
  "sample_graph = \<lparr>ompi_comm_size = 3, ompi_comm_rank = 0, c_topo_comm = \<lparr>mtc_ndims_or_nnodes = 3,
     mtc_dims_or_index = [1, 3, 4], mtc_periods_or_edges = [1, 0, 2, 1], mtc_reorder = False, mtc_coords = []\<rparr>\<rparr>"

section \<open>Properties\<close>

text \<open>C38: Ranks and coordinates. On a Cartesian communicator the coordinates of every rank lie in
  the grid and lead back to the rank. Any other coordinates lead to a rank of the
  communicator whose coordinates are the given ones reduced modulo the dimensions: the operation
  of the topology component does so in every dimension, although the comment in it and the manual
  page call a coordinate outside a dimension that is not periodic an error. That is left
  to the check in \<^verbatim>\<open>MPI_Cart_rank\<close>, which refuses exactly these coordinates when parameters are
  checked. No access leaves an array and no division is by zero.\<close>

theorem cart_rank_coords_inverse:
  assumes "cart_ok comm" "length coords = length (dims_of comm)"
  shows "(\<forall>r. 0 \<le> r \<and> r < ompi_comm_size comm \<longrightarrow>
      (\<exists>cs. mca_topo_base_cart_coords comm r (ndims comm) coords = Some (MPI_SUCCESS, cs) \<and>
            in_grid (dims_of comm) cs \<and> mca_topo_base_cart_rank comm cs = Some (MPI_SUCCESS, r))) \<and>
    (\<exists>r. mca_topo_base_cart_rank comm coords = Some (MPI_SUCCESS, r) \<and> 0 \<le> r \<and> r < ompi_comm_size comm \<and>
         mca_topo_base_cart_coords comm r (ndims comm) coords = Some (MPI_SUCCESS, map2 (mod) coords (dims_of comm)) \<and>
         MPI_Cart_rank check comm coords = Some
           (if check \<and> (\<exists>i < length coords. periods_of comm ! i = 0 \<and> \<not> (0 \<le> coords ! i \<and> coords ! i < dims_of comm ! i))
            then (MPI_ERR_ARG, None) else (MPI_SUCCESS, Some r)))"
proof (intro conjI allI impI)
  let ?ds = "dims_of comm"
  have C: "pos ?ds" "ompi_comm_size comm = prod_list ?ds" "ndims comm = int (length ?ds)" using assms(1) by (auto simp: cart_ok_def)
  fix r assume r: "0 \<le> r \<and> r < ompi_comm_size comm"
  have g: "in_grid ?ds (dec ?ds r)" using r C by (intro dec_in_grid) auto
  show "\<exists>cs. mca_topo_base_cart_coords comm r (ndims comm) coords = Some (MPI_SUCCESS, cs) \<and>
            in_grid ?ds cs \<and> mca_topo_base_cart_rank comm cs = Some (MPI_SUCCESS, r)"
    using cart_coords_dec [OF assms(1), of r "ndims comm" coords] cart_rank_enc [OF assms(1), of "dec ?ds r"] g r C assms(2)
    by (simp add: mod_in_grid enc_dec)
next
  let ?ds = "dims_of comm" and ?cs = "map2 (mod) coords (dims_of comm)"
  let ?bad = "\<exists>i < length coords. periods_of comm ! i = 0 \<and> \<not> (0 \<le> coords ! i \<and> coords ! i < ?ds ! i)"
  have C: "pos ?ds" "ompi_comm_size comm = prod_list ?ds" "ndims comm = int (length ?ds)" "length (periods_of comm) = length ?ds"
    using assms(1) by (auto simp: cart_ok_def)
  have g: "in_grid ?ds ?cs" using C assms(2) by (intro in_grid_mod) auto
  have "coords_in_range ?ds (periods_of comm) coords (ndims comm) 0 = Some (\<not> ?bad)"
    using coords_in_range_spec [of 0 ?ds "periods_of comm" coords] C(3,4) assms(2) by auto
  moreover have R: "mca_topo_base_cart_rank comm coords = Some (MPI_SUCCESS, enc ?ds ?cs)" by (rule cart_rank_enc [OF assms])
  ultimately have "MPI_Cart_rank check comm coords =
      Some (if check \<and> ?bad then (MPI_ERR_ARG, None) else (MPI_SUCCESS, Some (enc ?ds ?cs)))"
    by (cases check; cases ?bad) (simp_all add: MPI_Cart_rank_def)
  then show "\<exists>r. mca_topo_base_cart_rank comm coords = Some (MPI_SUCCESS, r) \<and> 0 \<le> r \<and> r < ompi_comm_size comm \<and>
         mca_topo_base_cart_coords comm r (ndims comm) coords = Some (MPI_SUCCESS, ?cs) \<and>
         MPI_Cart_rank check comm coords = Some (if check \<and> ?bad then (MPI_ERR_ARG, None) else (MPI_SUCCESS, Some r))"
    using R enc_range [OF g] C assms(2) cart_coords_dec [OF assms(1), of "enc ?ds ?cs" "ndims comm" coords]
    by (intro exI [of _ "enc ?ds ?cs"] conjI) (simp_all add: dec_enc [OF g])
qed

theorem cart_rank_coords_inverse_witness:
  "(\<exists>cs. mca_topo_base_cart_coords sample_cart 4 2 [- 1, 5] = Some (MPI_SUCCESS, cs) \<and>
      mca_topo_base_cart_rank sample_cart cs = Some (MPI_SUCCESS, 4)) \<and>
   MPI_Cart_rank True sample_cart [- 1, 5] = Some (MPI_ERR_ARG, None) \<and>
   (\<exists>r. MPI_Cart_rank True sample_cart [- 1, 2] = Some (MPI_SUCCESS, Some r) \<and> 0 \<le> r \<and> r < 6 \<and>
     mca_topo_base_cart_coords sample_cart r 2 [- 1, 2] = Some (MPI_SUCCESS, [1, 2]))"
proof -
  have l: "length [- 1, 5 :: int] = length (dims_of sample_cart)" "length [- 1, 2 :: int] = length (dims_of sample_cart)"
    by (simp_all add: sample_cart_def)
  have bad: "\<exists>i < length [- 1, 5 :: int]. periods_of sample_cart ! i = 0 \<and>
      \<not> (0 \<le> [- 1, 5 :: int] ! i \<and> [- 1, 5] ! i < dims_of sample_cart ! i)"
    by (rule exI [of _ 1]) (simp add: sample_cart_def)
  have good: "\<not> (\<exists>i < length [- 1, 2 :: int]. periods_of sample_cart ! i = 0 \<and>
      \<not> (0 \<le> [- 1, 2 :: int] ! i \<and> [- 1, 2] ! i < dims_of sample_cart ! i))"
    by (auto simp: sample_cart_def less_Suc_eq nth_Cons' split: if_splits)
  have d: "ndims sample_cart = 2" "ompi_comm_size sample_cart = 6" "map2 (mod) [- 1, 2] (dims_of sample_cart) = [1, 2]"
    by (simp_all add: sample_cart_def)
  note c = cart_rank_coords_inverse [OF sample_cart_ok l(1), of True] cart_rank_coords_inverse [OF sample_cart_ok l(2), of True]
  have "\<exists>cs. mca_topo_base_cart_coords sample_cart 4 2 [- 1, 5] = Some (MPI_SUCCESS, cs) \<and>
      mca_topo_base_cart_rank sample_cart cs = Some (MPI_SUCCESS, 4)"
    using spec [OF conjunct1 [OF c(1)], of 4] by (auto simp: d(1,2))
  moreover have "MPI_Cart_rank True sample_cart [- 1, 5] = Some (MPI_ERR_ARG, None)"
    using conjunct2 [OF c(1)] unfolding eqTrueI [OF bad] by auto
  moreover have "\<exists>r. MPI_Cart_rank True sample_cart [- 1, 2] = Some (MPI_SUCCESS, Some r) \<and> 0 \<le> r \<and> r < 6 \<and>
     mca_topo_base_cart_coords sample_cart r 2 [- 1, 2] = Some (MPI_SUCCESS, [1, 2])"
    using conjunct2 [OF c(2)] unfolding good [THEN iffD2 [OF eq_False]] d by auto
  ultimately show ?thesis by blast
qed

text \<open>The shift agrees with the numbering of the grid. In every direction and for every
  displacement it returns the rank at the shifted coordinates, forward as the destination and
  backward as the source, wrapping around in a periodic dimension, and
  \<^verbatim>\<open>MPI_PROC_NULL\<close> beyond the edge of one that is not periodic.\<close>

theorem cart_shift_correct:
  assumes ok: "cart_ok comm" and dir: "0 \<le> direction" "direction < ndims comm"
  shows "\<exists>src dest. mca_topo_base_cart_shift comm direction disp = Some (MPI_SUCCESS, src, dest) \<and>
    neighbour comm (nat direction) disp = Some dest \<and> neighbour comm (nat direction) (- disp) = Some src"
proof -
  let ?ds = "dims_of comm" and ?k = "nat direction" and ?r = "ompi_comm_rank comm"
  have C: "pos ?ds" "ompi_comm_size comm = prod_list ?ds" "ndims comm = int (length ?ds)" "length (periods_of comm) = length ?ds"
    "mtc_coords (c_topo_comm comm) = dec ?ds ?r" "0 \<le> ?r" "?r < prod_list ?ds"
    using ok by (auto simp: cart_ok_def)
  have k: "?k < length ?ds" "min (ndims comm) (direction + 1) = int ?k + 1" using dir C(3) by auto
  show ?thesis
  proof (cases "disp = 0")
    case True
    then show ?thesis using neighbour_zero [OF ok k(1)] by (simp add: mca_topo_base_cart_shift_def Let_def)
  next
    case False
    let ?f = "prod_list (drop (Suc ?k) ?ds)"
    have L: "shift_loop ?ds (periods_of comm) (min (ndims comm) (direction + 1)) 0 0 0 ?r (ompi_comm_size comm) =
        Some (?ds ! ?k, periods_of comm ! ?k, ?r mod prod_list (drop ?k ?ds), ?f)"
      using shift_loop_spec [OF C(1) k(1) C(4), of 0 ?r 0 0] C k by simp
    have "0 < ?f" "0 < prod_list (drop ?k ?ds)" using C(1) by (auto intro!: prod_list_pos dest: in_set_dropD)
    then have o: "cdiv (?r mod prod_list (drop ?k ?ds)) ?f = Some (mtc_coords (c_topo_comm comm) ! ?k)"
      using C k by (simp add: nth_dec)
    have "\<exists>d. neighbour comm ?k x = Some d" for x
      using cart_rank_enc [OF ok] C by (simp add: neighbour_def Let_def)
    then obtain src dest where n: "neighbour comm ?k disp = Some dest" "neighbour comm ?k (- disp) = Some src" by metis
    then show ?thesis
      using False L o shifted_rank_enc [OF ok k(1), of disp] shifted_rank_enc [OF ok k(1), of "- disp"]
      by (simp add: mca_topo_base_cart_shift_def Let_def)
  qed
qed

theorem cart_shift_correct_witness:
  "\<exists>src dest. mca_topo_base_cart_shift sample_cart 1 2 = Some (MPI_SUCCESS, src, dest) \<and> dest = MPI_PROC_NULL"
proof -
  have "neighbour sample_cart 1 2 = Some MPI_PROC_NULL"
    by (simp add: neighbour_def sample_cart_def Let_def)
  moreover have "\<exists>src dest. mca_topo_base_cart_shift sample_cart 1 2 = Some (MPI_SUCCESS, src, dest) \<and>
    neighbour sample_cart (nat 1) 2 = Some dest \<and> neighbour sample_cart (nat 1) (- 2) = Some src"
    by (rule cart_shift_correct [OF sample_cart_ok]) (simp_all add: sample_cart_def)
  ultimately show ?thesis by auto
qed

text \<open>C39: Splitting into subgrids. Given the colours and keys of all processes, the new
  communicator of a process has the kept dimensions, one process for each point of the subgrid,
  and the kept coordinates of the process, which are those of its new rank. The periods are those
  of the parent and not the ones of the kept dimensions.\<close>

theorem cart_sub_correct:
  assumes ok: "cart_ok comm" and rs: "length remain_dims = length (dims_of comm)"
    and res: "length results = nat (ompi_comm_size comm)"
      "\<forall>q. 0 \<le> q \<and> q < ompi_comm_size comm \<longrightarrow>
         (\<exists>n. cart_sub_colour (at_rank comm q) remain_dims = Some (fst (results ! nat q), snd (results ! nat q), n))"
  shows "\<exists>new. mca_topo_base_cart_sub comm remain_dims results = Some (MPI_SUCCESS, new) \<and>
    (let kept = keep_loop (dims_of comm) remain_dims
     in ndims new = int (length kept) \<and> take (length kept) (dims_of new) = kept \<and>
        ompi_comm_size new = prod_list kept \<and>
        take (length kept) (mtc_coords (c_topo_comm new)) = keep_loop (mtc_coords (c_topo_comm comm)) remain_dims \<and>
        mtc_coords (c_topo_comm comm) = dec (dims_of comm) (ompi_comm_rank comm) \<and>
        dec kept (ompi_comm_rank new) = keep_loop (mtc_coords (c_topo_comm comm)) remain_dims \<and>
        periods_of new = periods_of comm)"
proof -
  let ?ds = "dims_of comm" and ?me = "ompi_comm_rank comm"
  have C: "pos ?ds" "0 \<le> ?me" "?me < prod_list ?ds" "ompi_comm_size comm = prod_list ?ds" "mtc_coords (c_topo_comm comm) = dec ?ds ?me"
    using ok by (auto simp: cart_ok_def)
  have r: "results ! nat q = (sub_key ?ds (dropped remain_dims) q, sub_key ?ds remain_dims q)" if "0 \<le> q" "q < prod_list ?ds" for q
    using res(2) that C(4) cart_sub_colour_spec [OF at_rank_ok [OF ok, of q], of remain_dims] rs
    by (auto simp: at_rank_def prod_eq_iff)
  have "split_ranks results (sub_key ?ds (dropped remain_dims) ?me) = map (member ?ds remain_dims ?me) [0..prod_list (keep_loop ?ds remain_dims) - 1]"
    using split_ranks_members [OF C(1-3) rs _ r] res(1) C(4) by simp
  then show ?thesis
    using cart_sub_colour_spec [OF ok rs] cart_sub_fill_spec [OF ok rs] sub_key_range(2) [OF C(1-3) rs] C rs
    by (simp add: mca_topo_base_cart_sub_def Let_def length_keep_loop)
qed

theorem cart_sub_correct_witness:
  "\<exists>new. mca_topo_base_cart_sub sample_cart [0, 1] [(0, 0), (0, 1), (0, 2), (1, 0), (1, 1), (1, 2)] =
     Some (MPI_SUCCESS, new) \<and> ompi_comm_size new = 3 \<and> periods_of new = [1, 0]"
proof -
  let ?res = "[(0, 0), (0, 1), (0, 2), (1, 0), (1, 1), (1, 2)] :: (int \<times> int) list"
  have "\<forall>q. 0 \<le> q \<and> q < ompi_comm_size sample_cart \<longrightarrow>
      (\<exists>n. cart_sub_colour (at_rank sample_cart q) [0, 1] = Some (fst (?res ! nat q), snd (?res ! nat q), n))"
  proof (intro allI impI)
    fix q :: int assume "0 \<le> q \<and> q < ompi_comm_size sample_cart"
    then have q: "0 \<le> q" "q < ompi_comm_size sample_cart" "q \<in> {0, 1, 2, 3, 4, 5}" by (auto simp: sample_cart_def)
    have "length [0, 1 :: int] = length (dims_of (at_rank sample_cart q))" by (simp add: at_rank_def sample_cart_def)
    from cart_sub_colour_spec [OF at_rank_ok [OF sample_cart_ok q(1,2)] this] q(3)
    show "\<exists>n. cart_sub_colour (at_rank sample_cart q) [0, 1] = Some (fst (?res ! nat q), snd (?res ! nat q), n)"
      by (auto simp: at_rank_def sample_cart_def sub_key_def)
  qed
  then have "\<exists>new. mca_topo_base_cart_sub sample_cart [0, 1] ?res = Some (MPI_SUCCESS, new) \<and>
    (let kept = keep_loop (dims_of sample_cart) [0, 1]
     in ndims new = int (length kept) \<and> take (length kept) (dims_of new) = kept \<and>
        ompi_comm_size new = prod_list kept \<and>
        take (length kept) (mtc_coords (c_topo_comm new)) = keep_loop (mtc_coords (c_topo_comm sample_cart)) [0, 1] \<and>
        mtc_coords (c_topo_comm sample_cart) = dec (dims_of sample_cart) (ompi_comm_rank sample_cart) \<and>
        dec kept (ompi_comm_rank new) = keep_loop (mtc_coords (c_topo_comm sample_cart)) [0, 1] \<and>
        periods_of new = periods_of sample_cart)"
    by (intro cart_sub_correct [OF sample_cart_ok]) (simp_all add: sample_cart_def)
  then show ?thesis by (auto simp: sample_cart_def Let_def)
qed

text \<open>Creating a grid. A dimension that is not positive and a grid larger than the number of
  processes are refused; otherwise the process count is trimmed to the grid, the processes that
  are left over get an undefined rank, and the others their coordinates, which makes a consistent
  Cartesian communicator.\<close>

theorem cart_create_correct:
  assumes "mtc_ndims_or_nnodes t = int (length (mtc_dims_or_index t))" "0 \<le> rank" "rank < procs"
    "length (mtc_coords t) = length (mtc_dims_or_index t)" "length (mtc_periods_or_edges t) = length (mtc_dims_or_index t)"
  defines "n \<equiv> prod_list (mtc_dims_or_index t)"
  shows "mca_topo_base_cart_create t procs rank (mtc_ndims_or_nnodes t) =
     Some (if \<not> pos (mtc_dims_or_index t) then (OMPI_ERROR, t, procs, rank)
           else if procs < n then (MPI_ERR_DIMS, t, procs, rank)
           else if n \<le> rank then (OMPI_SUCCESS, t, n, MPI_UNDEFINED)
           else (OMPI_SUCCESS, t\<lparr>mtc_coords := dec (mtc_dims_or_index t) rank\<rparr>, n, rank)) \<and>
    (pos (mtc_dims_or_index t) \<and> n \<le> procs \<and> rank < n \<longrightarrow>
       cart_ok \<lparr>ompi_comm_size = n, ompi_comm_rank = rank, c_topo_comm = t\<lparr>mtc_coords := dec (mtc_dims_or_index t) rank\<rparr>\<rparr>)"
proof
  let ?ds = "mtc_dims_or_index t"
  have g: "grid_loop ?ds (mtc_ndims_or_nnodes t) 0 1 = (if pos ?ds then Some (Some n) else Some None)"
    using grid_loop_spec [of 0 ?ds 1] assms(1) by (simp add: n_def)
  have "coords_loop ?ds (mtc_ndims_or_nnodes t) 0 n rank (mtc_coords t) = Some (dec ?ds rank)" if "pos ?ds" "rank < n"
    using coords_loop_dec [OF that(1) assms(2), of "[]" "mtc_coords t" "[]"] that(2) assms by (simp add: n_def)
  then show "mca_topo_base_cart_create t procs rank (mtc_ndims_or_nnodes t) =
     Some (if \<not> pos (mtc_dims_or_index t) then (OMPI_ERROR, t, procs, rank)
           else if procs < n then (MPI_ERR_DIMS, t, procs, rank)
           else if n \<le> rank then (OMPI_SUCCESS, t, n, MPI_UNDEFINED)
           else (OMPI_SUCCESS, t\<lparr>mtc_coords := dec (mtc_dims_or_index t) rank\<rparr>, n, rank))"
    using g assms(3) by (auto simp: mca_topo_base_cart_create_def Let_def)
  show "pos ?ds \<and> n \<le> procs \<and> rank < n \<longrightarrow>
       cart_ok \<lparr>ompi_comm_size = n, ompi_comm_rank = rank, c_topo_comm = t\<lparr>mtc_coords := dec ?ds rank\<rparr>\<rparr>"
    using assms by (simp add: cart_ok_def)
qed

theorem cart_create_correct_witness:
  "mca_topo_base_cart_create ((c_topo_comm sample_cart)\<lparr>mtc_coords := [0, 0]\<rparr>) 8 5 2 =
     Some (OMPI_SUCCESS, (c_topo_comm sample_cart)\<lparr>mtc_coords := [1, 2]\<rparr>, 6, 5)"
  using cart_create_correct [of "(c_topo_comm sample_cart)\<lparr>mtc_coords := [0, 0]\<rparr>" 5 8]
  by (simp add: sample_cart_def)

text \<open>Graph neighbours. The count and the list of the neighbours of a rank agree, the list is
  copied without leaving the arrays, and the lists of all ranks make up the edges.\<close>

theorem graph_neighbours_correct:
  assumes ok: "graph_ok comm" and r: "0 \<le> rank" "rank < ompi_comm_size comm"
    and buf: "length (neighbours_of comm (nat rank)) \<le> length buf"
  shows "mca_topo_base_graph_neighbors_count comm rank = Some (MPI_SUCCESS, int (length (neighbours_of comm (nat rank)))) \<and>
    mca_topo_base_graph_neighbors comm rank (int (length buf)) buf =
      Some (MPI_SUCCESS, neighbours_of comm (nat rank) @ drop (length (neighbours_of comm (nat rank))) buf) \<and>
    concat (map (neighbours_of comm) [0..<nat (ompi_comm_size comm)]) = periods_of comm"
proof -
  let ?r = "nat rank" and ?ns = "neighbours_of comm (nat rank)"
  have k: "?r < length (dims_of comm)" using ok r by (auto simp: graph_ok_def)
  note I = graph_index [OF ok k]
  note L = length_neighbours_of [OF ok k]
  have o: "(if rank > 0 then rd (dims_of comm) (rank - 1) else Some 0) = Some (first_edge comm ?r)"
    using r k by (auto simp: first_edge_def rd_def nat_diff_distrib)
  have n: "rd (dims_of comm) rank = Some (dims_of comm ! ?r)" using r k by (simp add: rd_def)
  have m: "min (int (length buf)) (dims_of comm ! ?r - first_edge comm ?r) = int (length ?ns)" using L buf by simp
  have c: "copy_loop (periods_of comm) (first_edge comm ?r) (int (length ?ns)) 0 buf = Some (?ns @ drop (length ?ns) buf)"
  proof -
    have "take (length ?ns) (drop (nat (first_edge comm ?r)) (periods_of comm)) = ?ns"
      using I by (simp add: neighbours_of_def min_def)
    then show ?thesis
      using copy_loop_spec [of "first_edge comm ?r" "length ?ns" "periods_of comm" buf 0] I L buf by simp
  qed
  have "concat (map (neighbours_of comm) [0..<length (dims_of comm)]) = periods_of comm"
  proof -
    have "first_edge comm (length (dims_of comm)) = int (length (periods_of comm))"
      using ok by (auto simp: first_edge_def graph_ok_def last_conv_nth)
    then show ?thesis using concat_neighbours [OF ok order_refl] by simp
  qed
  then show ?thesis using o n m c L ok
    by (simp add: mca_topo_base_graph_neighbors_def mca_topo_base_graph_neighbors_count_def graph_ok_def)
qed

theorem graph_neighbours_correct_witness:
  "mca_topo_base_graph_neighbors sample_graph 1 2 [9, 9] = Some (MPI_SUCCESS, [0, 2])"
proof -
  have "graph_ok sample_graph" by (simp add: graph_ok_def sample_graph_def)
  moreover have "neighbours_of sample_graph (nat 1) = [0, 2]"
    by (simp add: neighbours_of_def first_edge_def sample_graph_def)
  ultimately show ?thesis using graph_neighbours_correct [of sample_graph 1 "[9, 9]"] by (simp add: sample_graph_def)
qed

end
