(* ===== verification/Dims_Create.thy ===== *)
theory Dims_Create
  imports Topology
begin

text \<open>
  The balanced choice of grid dimensions, \<^verbatim>\<open>ompi/mpi/c/dims_create.c\<close>: the primes up to the
  number of free processes, its factorisation, and the distribution of the factors over the free
  dimensions. The allocator's answers to the three requests for memory are the predicate \<open>al\<close>.
  Errors are the codes that the handler of \<^verbatim>\<open>MPI_COMM_WORLD\<close> returns when it does not abort.
  The counters stay in the range of C integers.
\<close>

definition MPI_ERR_INTERN :: int where [rc_defs]: "MPI_ERR_INTERN = 17"
definition MPI_ERR_NO_MEM :: int where [rc_defs]: "MPI_ERR_NO_MEM = 39"

section \<open>Primes\<close>

text \<open>Whether one of the primes after the first divides \<open>n\<close>.\<close>

function has_divisor :: "int list \<Rightarrow> int \<Rightarrow> int \<Rightarrow> bool option" where
  "has_divisor primes n j =
     (if j < int (length primes) then do {
        p \<leftarrow> rd primes j;
        r \<leftarrow> cmod n p;
        if r = 0 then Some True else has_divisor primes n (j + 1) }
      else Some False)"
  by pat_completeness auto
termination
  by (relation "measure (\<lambda>(primes, n, j). nat (int (length primes) - j))") auto

declare has_divisor.simps [simp del]

text \<open>The filled part of the array is the list; \<open>sz\<close> is what was allocated.\<close>

function primes_loop :: "int \<Rightarrow> int \<Rightarrow> int \<Rightarrow> int list \<Rightarrow> (int \<times> int list) option" where
  "primes_loop num sz n primes =
     (if n \<le> num then do {
        d \<leftarrow> has_divisor primes n 1;
        if d then primes_loop num sz (n + 2) primes
        else if int (length primes) \<ge> sz then Some (MPI_ERR_DIMS, primes)
        else primes_loop num sz (n + 2) (primes @ [n]) }
      else Some (MPI_SUCCESS, primes))"
  by pat_completeness auto
termination
  by (relation "measure (\<lambda>(num, sz, n, primes). nat (num + 1 - n))") auto

declare primes_loop.simps [simp del]

definition getprimes :: "bool \<Rightarrow> int \<Rightarrow> (int \<times> int list) option" where
  "getprimes mem num =
     do {
       h \<leftarrow> cdiv num 2;
       let sz = h + 1;
       if \<not> mem then Some (MPI_ERR_NO_MEM, [])
       else if sz < 1 then None
       else primes_loop num sz 3 [2] }"

section \<open>Factors\<close>

text \<open>Dividing by a prime as often as possible; the loop would not end for 0.\<close>

partial_function (option) divide_out :: "int \<Rightarrow> int \<Rightarrow> int \<Rightarrow> (int \<times> int) option" where
  "divide_out num p c =
     do {
       r \<leftarrow> cmod num p;
       if r = 0 then do { q \<leftarrow> cdiv num p; divide_out q p (c + 1) }
       else Some (c, num) }"

declare divide_out.simps [code]

function factors_loop :: "int list \<Rightarrow> int \<Rightarrow> int \<Rightarrow> int list \<Rightarrow> (int \<times> int list) option" where
  "factors_loop primes i num counts =
     (if i \<ge> 0 then do {
        p \<leftarrow> rd primes i;
        (c, num) \<leftarrow> divide_out num p 0;
        counts \<leftarrow> wr counts i c;
        factors_loop primes (i - 1) num counts }
      else Some (num, counts))"
  by pat_completeness auto
termination
  by (relation "measure (\<lambda>(primes, i, num, counts). nat (i + 1))") auto

declare factors_loop.simps [simp del]

definition getfactors :: "bool \<Rightarrow> int \<Rightarrow> int \<Rightarrow> int list \<Rightarrow> (int \<times> int list) option" where
  "getfactors mem num nprime primes =
     (if 0 \<ge> nprime then Some (MPI_ERR_INTERN, [])
      else if \<not> mem then Some (MPI_ERR_NO_MEM, [])
      else do {
        (num, counts) \<leftarrow> factors_loop primes (nprime - 1) num (replicate (nat nprime) 0);
        Some (if 1 \<noteq> num then MPI_ERR_INTERN else MPI_SUCCESS, counts) })"

section \<open>Assignment\<close>

function min_bin :: "int list \<Rightarrow> nat \<Rightarrow> nat \<Rightarrow> nat" where
  "min_bin bins i pmin =
     (if i < length bins then min_bin bins (i + 1) (if bins ! i < bins ! pmin then i else pmin) else pmin)"
  by pat_completeness auto
termination
  by (relation "measure (\<lambda>(bins, i, pmin). length bins - i)") auto

declare min_bin.simps [simp del]

fun assign_factor :: "nat \<Rightarrow> int \<Rightarrow> int list \<Rightarrow> int list" where
  "assign_factor 0 f bins = bins"
| "assign_factor (Suc n) f bins =
     (let pmin = min_bin bins 1 0 in assign_factor n f (bins[pmin := bins ! pmin * f]))"

function assign_loop :: "int list \<Rightarrow> int list \<Rightarrow> int \<Rightarrow> int list \<Rightarrow> int list option" where
  "assign_loop pfacts counts j bins =
     (if j \<ge> 0 then do {
        f \<leftarrow> rd pfacts j;
        n \<leftarrow> rd counts j;
        assign_loop pfacts counts (j - 1) (assign_factor (nat n) f bins) }
      else Some bins)"
  by pat_completeness auto
termination
  by (relation "measure (\<lambda>(pfacts, counts, j, bins). nat (j + 1))") auto

declare assign_loop.simps [simp del]

text \<open>The exchange sort in decreasing order.\<close>

function sort_inner :: "nat \<Rightarrow> nat \<Rightarrow> int list \<Rightarrow> int list" where
  "sort_inner i j bins =
     (if j < length bins then
        sort_inner i (j + 1)
          (if bins ! j > bins ! i then bins[j := bins ! i, i := bins ! j] else bins)
      else bins)"
  by pat_completeness auto
termination
  by (relation "measure (\<lambda>(i, j, bins). length bins - j)") auto

declare sort_inner.simps [simp del]

lemma length_sort_inner [simp]: "length (sort_inner i j bins) = length bins"
proof (induction i j bins rule: sort_inner.induct)
  case (1 i j bins)
  then show ?case by (subst sort_inner.simps) auto
qed

function sort_outer :: "nat \<Rightarrow> int list \<Rightarrow> int list" where
  "sort_outer i bins =
     (if int i < int (length bins) - 1 then sort_outer (i + 1) (sort_inner i (i + 1) bins) else bins)"
  by pat_completeness auto
termination
  by (relation "measure (\<lambda>(i, bins). length bins - i)") auto

declare sort_outer.simps [simp del]

definition assignnodes :: "bool \<Rightarrow> int \<Rightarrow> int \<Rightarrow> int list \<Rightarrow> int list \<Rightarrow> (int \<times> int list) option" where
  "assignnodes mem ndim nfactor pfacts counts =
     (if 0 \<ge> ndim then Some (MPI_ERR_DIMS, [])
      else if \<not> mem then Some (MPI_ERR_NO_MEM, [])
      else do {
        bins \<leftarrow> assign_loop pfacts counts (nfactor - 1) (replicate (nat ndim) 1);
        Some (MPI_SUCCESS, sort_outer 0 bins) })"

section \<open>The operation\<close>

text \<open>The free processes and dimensions; \<open>Some None\<close> is a dimension that cannot be met.\<close>

fun free_loop :: "int \<Rightarrow> int list \<Rightarrow> int \<Rightarrow> int \<Rightarrow> (int \<times> int) option option" where
  "free_loop nnodes [] freeprocs freedims = Some (Some (freeprocs, freedims))"
| "free_loop nnodes (p # ps) freeprocs freedims =
     (if p = 0 then free_loop nnodes ps freeprocs (freedims + 1)
      else if p < 0 then Some None
      else do {
        r \<leftarrow> cmod nnodes p;
        if r \<noteq> 0 then Some None
        else do { q \<leftarrow> cdiv freeprocs p; free_loop nnodes ps q freedims } })"

text \<open>Storing the results in the free dimensions.\<close>

fun fill_loop :: "int list \<Rightarrow> int list \<Rightarrow> int list option" where
  "fill_loop [] procs = Some []"
| "fill_loop (d # ds) procs =
     (if d = 0 then (case procs of [] \<Rightarrow> None | p # ps \<Rightarrow> map_option ((#) p) (fill_loop ds ps))
      else map_option ((#) d) (fill_loop ds procs))"

definition MPI_Dims_create ::
  "bool \<Rightarrow> (nat \<Rightarrow> bool) \<Rightarrow> int \<Rightarrow> int \<Rightarrow> int list option \<Rightarrow> (int \<times> int list option) option" where
  "MPI_Dims_create param_check al nnodes nd dims =
     (if param_check \<and> dims = None then Some (MPI_ERR_ARG, dims)
      else if param_check \<and> 1 > nd then Some (MPI_ERR_DIMS, dims)
      else case dims of
        None \<Rightarrow> if nd \<le> 0 then Some (if nnodes = 1 then MPI_SUCCESS else MPI_ERR_DIMS, dims) else None
      | Some ds \<Rightarrow>
          if nd > int (length ds) then None
          else do {
            free \<leftarrow> free_loop nnodes (take (nat nd) ds) nnodes 0;
            case free of
              None \<Rightarrow> Some (MPI_ERR_DIMS, dims)
            | Some (freeprocs, freedims) \<Rightarrow>
                if freedims = 0 then Some (if freeprocs = 1 then MPI_SUCCESS else MPI_ERR_DIMS, dims)
                else if freeprocs < 1 then Some (MPI_ERR_DIMS, dims)
                else if freeprocs = 1 then
                  Some (MPI_SUCCESS, Some (map (\<lambda>d. if d = 0 then 1 else d) (take (nat nd) ds) @
                                          drop (nat nd) ds))
                else do {
                  (err, primes) \<leftarrow> getprimes (al 0) freeprocs;
                  if MPI_SUCCESS \<noteq> err then Some (err, dims)
                  else do {
                    (err, factors) \<leftarrow> getfactors (al 1) freeprocs (int (length primes)) primes;
                    if MPI_SUCCESS \<noteq> err then Some (err, dims)
                    else do {
                      (err, procs) \<leftarrow> assignnodes (al 2) freedims (int (length primes)) primes factors;
                      if MPI_SUCCESS \<noteq> err then Some (err, dims)
                      else do {
                        ds' \<leftarrow> fill_loop (take (nat nd) ds) procs;
                        Some (MPI_SUCCESS, Some (ds' @ drop (nat nd) ds)) } } } } })"

end
