(* ===== verification/Dims_Create_Correct.thy ===== *)
theory Dims_Create_Correct
  imports Dims_Create
begin

text \<open>
  Correctness of the choice of grid dimensions: the list of primes has a divisor of every number
  up to the number of free processes, so that the factorisation is complete; the greedy
  assignment distributes all factors; the exchange sort orders the result.
\<close>

section \<open>The list of primes\<close>

lemma has_divisor_spec:
  assumes "\<forall>p \<in> set primes. 2 \<le> p" "0 \<le> n"
  shows "k \<le> length primes \<Longrightarrow> has_divisor primes n (int k) = Some (\<exists>p \<in> set (drop k primes). p dvd n)"
proof (induction "length primes - k" arbitrary: k)
  case 0
  then show ?case by (subst has_divisor.simps) simp
next
  case (Suc m)
  then have k: "k < length primes" by simp
  have d: "drop k primes = primes ! k # drop (Suc k) primes" using k by (simp add: Cons_nth_drop_Suc)
  have p: "0 < primes ! k" using assms(1) k by (auto dest!: nth_mem)
  have "has_divisor primes n (int (Suc k)) = Some (\<exists>p \<in> set (drop (Suc k) primes). p dvd n)"
    using Suc k by (intro Suc.hyps(1)) auto
  then show ?case using k p assms(2) by (subst has_divisor.simps) (auto simp: d add.commute dvd_eq_mod_eq_0)
qed

text \<open>Every number from 2 to \<open>n\<close> has a divisor in the list.\<close>

definition covers :: "int list \<Rightarrow> int \<Rightarrow> bool" where
  "covers primes n \<longleftrightarrow> (\<forall>m. 2 \<le> m \<and> m \<le> n \<longrightarrow> (\<exists>p \<in> set primes. p dvd m))"

lemma primes_loop_spec:
  assumes "odd n" "3 \<le> n" "\<forall>p \<in> set primes. 2 \<le> p" "primes \<noteq> []" "hd primes = 2"
    "covers primes (n - 1)" "2 * int (length primes) \<le> n - 1" "sz = num div 2 + 1"
  shows "\<exists>ps. primes_loop num sz n primes = Some (MPI_SUCCESS, ps) \<and> (\<forall>p \<in> set ps. 2 \<le> p) \<and> ps \<noteq> [] \<and> covers ps num"
  using assms
proof (induction num sz n primes rule: primes_loop.induct)
  case (1 num sz n primes)
  show ?case
  proof (cases "n \<le> num")
    case False
    then have "covers primes num" using "1.prems"(6) by (auto simp: covers_def)
    then show ?thesis using False "1.prems" by (subst primes_loop.simps) auto
  next
    case True
    let ?d = "\<exists>p \<in> set (drop 1 primes). p dvd n"
    have two: "2 \<in> set primes" using "1.prems"(4,5) by (cases primes) auto
    have h: "has_divisor primes n 1 = Some ?d"
      using has_divisor_spec [of primes n 1] "1.prems" by (cases primes) auto
    define qs where "qs = (if ?d then primes else primes @ [n])"
    have cov: "covers qs (n + 1)"
      unfolding covers_def
    proof (intro allI impI)
      fix m :: int assume m: "2 \<le> m \<and> m \<le> n + 1"
      consider "m \<le> n - 1" | "m = n" | "m = n + 1" using m by linarith
      then show "\<exists>p \<in> set qs. p dvd m"
      proof cases
        case 1
        then show ?thesis using "1.prems"(6) m by (auto simp: covers_def qs_def)
      next
        case 2
        then show ?thesis by (auto simp: qs_def dest: in_set_dropD)
      next
        case 3
        then have "2 dvd m" using "1.prems"(1) by simp
        then show ?thesis using two by (auto simp: qs_def)
      qed
    qed
    have sz: "int (length primes) < sz" using "1.prems"(7,8) True by linarith
    have step: "primes_loop num sz n primes = primes_loop num sz (n + 2) qs"
      using True h sz by (subst primes_loop.simps) (auto simp: qs_def)
    have c: "covers qs (n + 2 - 1)" using cov by (simp add: add.commute)
    have P: "odd (n + 2)" "3 \<le> n + 2" "\<forall>p \<in> set qs. 2 \<le> p" "qs \<noteq> []" "hd qs = 2" "2 * int (length qs) \<le> n + 2 - 1"
      using "1.prems"(1-5,7) by (simp_all add: qs_def)
    show ?thesis
    proof (cases ?d)
      case True
      with "1.IH"(1) [OF \<open>n \<le> num\<close> h True] P c step "1.prems"(8) show ?thesis by (simp add: qs_def)
    next
      case False
      with "1.IH"(2) [OF \<open>n \<le> num\<close> h False] P c step sz "1.prems"(8) show ?thesis by (simp add: qs_def)
    qed
  qed
qed

lemma getprimes_spec:
  assumes "2 \<le> num"
  obtains ps where "getprimes True num = Some (MPI_SUCCESS, ps)" "\<forall>p \<in> set ps. 2 \<le> p" "ps \<noteq> []" "covers ps num"
proof -
  have "covers [2] 2"
    unfolding covers_def by (metis dvd_refl list.set_intros(1) order_antisym)
  then have "\<exists>ps. primes_loop num (num div 2 + 1) 3 [2] = Some (MPI_SUCCESS, ps) \<and> (\<forall>p \<in> set ps. 2 \<le> p) \<and> ps \<noteq> [] \<and> covers ps num"
    by (intro primes_loop_spec) auto
  then show thesis using that assms by (auto simp: getprimes_def)
qed

section \<open>The factorisation\<close>

lemma divide_out_spec:
  assumes "1 \<le> num" "2 \<le> p"
  shows "\<exists>c r. divide_out num p c0 = Some (c0 + int c, r) \<and> num = p ^ c * r \<and> \<not> p dvd r \<and> 1 \<le> r"
  using assms(1)
proof (induction "nat num" arbitrary: num c0 rule: less_induct)
  case less
  have m: "cmod num p = Some (num mod p)" "cdiv num p = Some (num div p)" using less.prems assms(2) by simp_all
  show ?case
  proof (cases "p dvd num")
    case True
    then have q: "1 \<le> num div p" "num div p < num"
      using less.prems assms(2) by (auto simp: zdvd_imp_le pos_imp_zdiv_pos_iff int_div_less_self intro!: int_one_le_iff_zero_less [THEN iffD2])
    from less.hyps [of "num div p" "c0 + 1"] q obtain c r where
      r: "divide_out (num div p) p (c0 + 1) = Some (c0 + 1 + int c, r)" "num div p = p ^ c * r" "\<not> p dvd r" "1 \<le> r" by auto
    have "num = p * (num div p)" using True by simp
    then have "num = p ^ Suc c * r" using r(2) by (simp add: mult.assoc)
    moreover have "divide_out num p c0 = Some (c0 + int (Suc c), r)"
      using True r(1) m by (subst divide_out.simps) (simp add: dvd_eq_mod_eq_0 ac_simps)
    ultimately show ?thesis using r(3,4) by blast
  next
    case False
    then have "divide_out num p c0 = Some (c0, num)"
      using m by (subst divide_out.simps) (simp add: dvd_eq_mod_eq_0)
    then show ?thesis using False less.prems by (intro exI [of _ 0] exI [of _ num]) simp
  qed
qed

abbreviation powers :: "int list \<Rightarrow> int list \<Rightarrow> int" where
  "powers ps cs \<equiv> prod_list (map2 (\<lambda>p c. p ^ nat c) ps cs)"

lemma factors_loop_spec:
  assumes "\<forall>p \<in> set ps. 2 \<le> p"
  shows "k \<le> length ps \<Longrightarrow> length counts = length ps \<Longrightarrow> 1 \<le> num \<Longrightarrow>
    \<exists>r cs. factors_loop ps (int k - 1) num counts = Some (r, cs @ drop k counts) \<and> length cs = k \<and>
      (\<forall>c \<in> set cs. 0 \<le> c) \<and> num = powers (take k ps) cs * r \<and> 1 \<le> r \<and> (\<forall>p \<in> set (take k ps). \<not> p dvd r)"
proof (induction k arbitrary: num counts)
  case 0
  then show ?case by (subst factors_loop.simps) auto
next
  case (Suc k)
  have k: "k < length ps" using Suc.prems by simp
  obtain c r1 where d: "divide_out num (ps ! k) 0 = Some (int c, r1)" "num = (ps ! k) ^ c * r1" "\<not> ps ! k dvd r1" "1 \<le> r1"
    using divide_out_spec [OF Suc.prems(3), of "ps ! k" 0] assms k by (auto dest!: nth_mem)
  let ?counts = "counts[k := int c]"
  have "length ?counts = length ps" using Suc.prems(2) by simp
  from Suc.IH [OF _ this d(4)] k obtain r cs where
    I: "factors_loop ps (int k - 1) r1 ?counts = Some (r, cs @ drop k ?counts)" "length cs = k" "\<forall>c \<in> set cs. 0 \<le> c"
      "r1 = powers (take k ps) cs * r" "1 \<le> r" "\<forall>p \<in> set (take k ps). \<not> p dvd r" by auto
  have dk: "drop k ?counts = int c # drop (Suc k) counts"
    using k Suc.prems(2) by (simp add: Cons_nth_drop_Suc [symmetric] drop_update_cancel)
  have "factors_loop ps (int (Suc k) - 1) num counts = Some (r, (cs @ [int c]) @ drop (Suc k) counts)"
    using k d(1) I(1) dk Suc.prems(2) by (subst factors_loop.simps) (simp add: rd_def wr_def)
  moreover have "num = powers (take (Suc k) ps) (cs @ [int c]) * r"
    using d(2) I(2,4) k by (simp add: take_Suc_conv_app_nth ac_simps)
  moreover have "\<not> ps ! k dvd r" using d(3) I(4) by (metis dvd_mult)
  ultimately show ?case using I k
    by (intro exI [of _ r] exI [of _ "cs @ [int c]"]) (auto simp: take_Suc_conv_app_nth)
qed

lemma getfactors_spec:
  assumes "\<forall>p \<in> set ps. 2 \<le> p" "ps \<noteq> []" "covers ps num" "1 \<le> num"
  obtains cs where "getfactors True num (int (length ps)) ps = Some (MPI_SUCCESS, cs)" "length cs = length ps"
    "\<forall>c \<in> set cs. 0 \<le> c" "powers ps cs = num"
proof -
  obtain r cs where f: "factors_loop ps (int (length ps) - 1) num (replicate (length ps) 0) = Some (r, cs)" "length cs = length ps"
      "\<forall>c \<in> set cs. 0 \<le> c" "num = powers ps cs * r" "1 \<le> r" "\<forall>p \<in> set ps. \<not> p dvd r"
    using factors_loop_spec [OF assms(1) order_refl, of "replicate (length ps) 0" num] assms(4) by auto
  have "r dvd num" using f(4) by simp
  then have "r \<le> num" using assms(4) by (intro zdvd_imp_le) auto
  have "r = 1"
  proof (rule ccontr)
    assume "r \<noteq> 1"
    then have "2 \<le> r" using f(5) by simp
    then show False using \<open>r \<le> num\<close> assms(3) f(6) unfolding covers_def by blast
  qed
  then show thesis using that f assms(2) by (auto simp: getfactors_def)
qed


section \<open>The assignment\<close>

lemma min_bin_range: "pmin < length bins \<Longrightarrow> min_bin bins i pmin < length bins"
proof (induction bins i pmin rule: min_bin.induct)
  case (1 bins i pmin)
  then show ?case by (subst min_bin.simps) auto
qed

lemma prod_list_update: "i < length xs \<Longrightarrow> prod_list (xs[i := xs ! i * f]) = prod_list xs * (f :: int)"
proof (induction xs arbitrary: i)
  case (Cons x xs)
  then show ?case by (cases i) (auto simp: ac_simps)
qed simp

lemma assign_factor_spec:
  "bins \<noteq> [] \<Longrightarrow> pos bins \<Longrightarrow> 0 < f \<Longrightarrow>
   length (assign_factor n f bins) = length bins \<and> pos (assign_factor n f bins) \<and>
   prod_list (assign_factor n f bins) = prod_list bins * f ^ n"
proof (induction n f bins rule: assign_factor.induct)
  case (2 n f bins)
  let ?m = "min_bin bins 1 0"
  have m: "?m < length bins" using 2 by (intro min_bin_range) auto
  then have "pos (bins[?m := bins ! ?m * f])" using 2 set_update_subset_insert [of bins ?m] by fastforce
  then show ?case using 2 m by (auto simp: Let_def prod_list_update)
qed simp

lemma assign_loop_spec:
  assumes "\<forall>p \<in> set ps. 2 \<le> p" "length cs = length ps" "\<forall>c \<in> set cs. 0 \<le> c"
  shows "k \<le> length ps \<Longrightarrow> bins \<noteq> [] \<Longrightarrow> pos bins \<Longrightarrow>
    \<exists>bins'. assign_loop ps cs (int k - 1) bins = Some bins' \<and> length bins' = length bins \<and> pos bins' \<and>
      prod_list bins' = prod_list bins * powers (take k ps) (take k cs)"
proof (induction k arbitrary: bins)
  case 0
  then show ?case by (subst assign_loop.simps) auto
next
  case (Suc k)
  have k: "k < length ps" "k < length cs" using Suc.prems assms by auto
  let ?b = "assign_factor (nat (cs ! k)) (ps ! k) bins"
  have "0 < ps ! k" using assms(1) k by (auto dest!: nth_mem)
  note A = assign_factor_spec [OF Suc.prems(2,3) this, of "nat (cs ! k)"]
  have "?b \<noteq> []" using A Suc.prems(2) by (metis length_0_conv)
  from Suc.IH [OF _ this] A k obtain bins' where "assign_loop ps cs (int k - 1) ?b = Some bins'"
    "length bins' = length bins" "pos bins'" "prod_list bins' = prod_list bins * (ps ! k) ^ nat (cs ! k) * powers (take k ps) (take k cs)"
    by auto
  then show ?case using k
    by (subst assign_loop.simps) (auto simp: rd_def take_Suc_conv_app_nth ac_simps)
qed

lemma mset_exchange:
  "i < length xs \<Longrightarrow> j < length xs \<Longrightarrow> mset (xs[j := xs ! i, i := xs ! j]) = mset xs"
  by (cases "i = j") (simp_all add: mset_update)

lemma sort_inner_spec:
  "i < j \<Longrightarrow> j \<le> length bins \<Longrightarrow> (\<forall>k. i < k \<and> k < j \<longrightarrow> bins ! k \<le> bins ! i) \<Longrightarrow>
   mset (sort_inner i j bins) = mset bins \<and> take i (sort_inner i j bins) = take i bins \<and>
   (\<forall>k. i < k \<and> k < length bins \<longrightarrow> sort_inner i j bins ! k \<le> sort_inner i j bins ! i)"
proof (induction i j bins rule: sort_inner.induct)
  case (1 i j bins)
  show ?case
  proof (cases "j < length bins")
    case False
    then show ?thesis using "1.prems" by (subst (1 2 3 4) sort_inner.simps) simp
  next
    case True
    let ?b = "if bins ! j > bins ! i then bins[j := bins ! i, i := bins ! j] else bins"
    have s: "sort_inner i j bins = sort_inner i (j + 1) ?b" using True by (subst sort_inner.simps) simp
    have m: "mset ?b = mset bins" "take i ?b = take i bins" "length ?b = length bins"
      using mset_exchange [of i bins j] "1.prems" True by auto
    have "\<forall>k. i < k \<and> k < j + 1 \<longrightarrow> ?b ! k \<le> ?b ! i"
      using "1.prems" True by (auto simp: nth_list_update less_Suc_eq intro: order.trans [OF _ less_imp_le])
    then show ?thesis using "1.IH" [OF True] "1.prems" True m unfolding s by (auto simp del: mset_update)
  qed
qed

lemma sort_outer_spec:
  assumes "sorted_wrt (\<ge>) (take i bins)" "\<forall>x \<in> set (take i bins). \<forall>y \<in> set (drop i bins). y \<le> x" "i \<le> length bins"
  shows "mset (sort_outer i bins) = mset bins \<and> sorted_wrt (\<ge>) (sort_outer i bins)"
  using assms
proof (induction i bins rule: sort_outer.induct)
  case (1 i bins)
  show ?case
  proof (cases "int i < int (length bins) - 1")
    case False
    then have "length (drop i bins) \<le> 1" using "1.prems"(3) by auto
    then have "sorted_wrt (\<ge>) (drop i bins)" by (cases "drop i bins" rule: remdups_adj.cases) auto
    then have "sorted_wrt (\<ge>) (take i bins @ drop i bins)"
      using "1.prems"(1,2) by (simp only: sorted_wrt_append)
    then show ?thesis using False by (subst (1 2) sort_outer.simps) simp
  next
    case True
    let ?b = "sort_inner i (i + 1) bins"
    have I: "mset ?b = mset bins" "take i ?b = take i bins" "\<forall>k. i < k \<and> k < length bins \<longrightarrow> ?b ! k \<le> ?b ! i"
      using sort_inner_spec [of i "i + 1" bins] True by auto
    have len: "length ?b = length bins" by simp
    have d: "mset (drop i ?b) = mset (drop i bins)"
    proof -
      have "mset (take i ?b) + mset (drop i ?b) = mset (take i bins) + mset (drop i bins)"
        using I(1) by (metis append_take_drop_id mset_append)
      then show ?thesis using I(2) by simp
    qed
    have t: "take (i + 1) ?b = take i bins @ [?b ! i]" using True len I(2) by (simp add: take_Suc_conv_app_nth)
    have dd: "drop i ?b = ?b ! i # drop (i + 1) ?b" using True len by (simp add: Cons_nth_drop_Suc)
    then have sub: "insert (?b ! i) (set (drop (i + 1) ?b)) = set (drop i bins)" using mset_eq_setD [OF d] by simp
    have "\<forall>y \<in> set (drop (i + 1) ?b). y \<le> ?b ! i"
      using I(3) by (auto simp: in_set_conv_nth)
    then have "\<forall>x \<in> set (take (i + 1) ?b). \<forall>y \<in> set (drop (i + 1) ?b). y \<le> x"
      using "1.prems"(2) sub unfolding t by auto
    moreover have "sorted_wrt (\<ge>) (take (i + 1) ?b)"
      unfolding t using "1.prems"(1,2) sub by (auto simp: sorted_wrt_append)
    ultimately have "mset (sort_outer (i + 1) ?b) = mset ?b \<and> sorted_wrt (\<ge>) (sort_outer (i + 1) ?b)"
      using True len by (intro "1.IH") auto
    then show ?thesis using True I(1) by (subst (1 2) sort_outer.simps) simp
  qed
qed

lemma assignnodes_spec:
  assumes "\<forall>p \<in> set ps. 2 \<le> p" "length cs = length ps" "\<forall>c \<in> set cs. 0 \<le> c" "0 < nd"
  obtains bins where "assignnodes True nd (int (length ps)) ps cs = Some (MPI_SUCCESS, bins)"
    "int (length bins) = nd" "pos bins" "prod_list bins = powers ps cs" "sorted_wrt (\<ge>) bins"
proof -
  have "replicate (nat nd) (1 :: int) \<noteq> []" using assms(4) by simp
  from assign_loop_spec [OF assms(1-3) order_refl this] obtain b where
    b: "assign_loop ps cs (int (length ps) - 1) (replicate (nat nd) 1) = Some b" "length b = nat nd" "pos b"
      "prod_list b = powers ps cs" using assms(2) by auto
  have s: "mset (sort_outer 0 b) = mset b" "sorted_wrt (\<ge>) (sort_outer 0 b)" using sort_outer_spec [of 0 b] by auto
  have "prod_list (sort_outer 0 b) = powers ps cs" "pos (sort_outer 0 b)" "length (sort_outer 0 b) = nat nd"
    using b s(1) mset_eq_setD [OF s(1)] mset_eq_length [OF s(1)] by (simp_all add: prod_mset_prod_list [symmetric])
  then show thesis using that b(1) s(2) assms(4) by (auto simp: assignnodes_def)
qed


section \<open>The operation\<close>

abbreviation fixed :: "int list \<Rightarrow> int list" where
  "fixed ds \<equiv> filter (\<lambda>d. d \<noteq> 0) ds"

text \<open>What was stored in the free dimensions.\<close>

definition chosen :: "int list \<Rightarrow> int list \<Rightarrow> int list" where
  "chosen ds ds' = map snd (filter (\<lambda>(d, d'). d = 0) (zip ds ds'))"

lemma free_loop_spec:
  "0 \<le> n \<Longrightarrow> 0 \<le> a \<Longrightarrow> \<forall>d \<in> set ds. 0 \<le> d \<and> (d \<noteq> 0 \<longrightarrow> d dvd n) \<Longrightarrow>
   free_loop n ds a b = Some (Some (foldl (div) a (fixed ds), b + int (length (filter (\<lambda>d. d = 0) ds))))"
proof (induction ds arbitrary: a b)
  case (Cons d ds)
  then show ?case by (cases "d = 0") (auto simp: pos_imp_zdiv_nonneg_iff dvd_eq_mod_eq_0)
qed simp

lemma foldl_div_exact:
  "pos fs \<Longrightarrow> prod_list fs dvd n \<Longrightarrow> prod_list fs * foldl (div) n fs = (n :: int)"
proof (induction fs arbitrary: n)
  case (Cons f fs)
  have "f dvd n" using Cons.prems(2) by (metis dvd_mult_left prod_list.Cons)
  then have "n = f * (n div f)" by simp
  moreover from this have "prod_list fs dvd n div f" using Cons.prems by (metis dvd_mult_cancel_left less_irrefl list.set_intros(1) prod_list.Cons)
  then have "prod_list fs * foldl (div) (n div f) fs = n div f" using Cons by simp
  ultimately show ?case by (metis foldl_Cons mult.assoc prod_list.Cons)
qed simp

lemma fill_loop_spec:
  assumes "\<forall>d \<in> set ds. 0 \<le> d"
  shows "length procs = length (filter (\<lambda>d. d = 0) ds) \<Longrightarrow> pos procs \<Longrightarrow>
    \<exists>ds'. fill_loop ds procs = Some ds' \<and> length ds' = length ds \<and> pos ds' \<and> chosen ds ds' = procs \<and>
      (\<forall>i < length ds. ds ! i \<noteq> 0 \<longrightarrow> ds' ! i = ds ! i) \<and> prod_list ds' = prod_list (fixed ds) * prod_list procs"
  using assms
proof (induction ds procs rule: fill_loop.induct)
  case (2 d ds procs)
  show ?case
  proof (cases "d = 0")
    case True
    then obtain p ps where p: "procs = p # ps" using 2 by (cases procs) auto
    from 2(1) [OF True p] 2 True p obtain ds' where "fill_loop ds ps = Some ds'" "length ds' = length ds" "pos ds'"
      "chosen ds ds' = ps" "\<forall>i < length ds. ds ! i \<noteq> 0 \<longrightarrow> ds' ! i = ds ! i" "prod_list ds' = prod_list (fixed ds) * prod_list ps" by auto
    then show ?thesis using True p 2 by (auto simp: chosen_def nth_Cons' ac_simps)
  next
    case False
    from 2(2) [OF False] 2 False obtain ds' where "fill_loop ds procs = Some ds'" "length ds' = length ds" "pos ds'"
      "chosen ds ds' = procs" "\<forall>i < length ds. ds ! i \<noteq> 0 \<longrightarrow> ds' ! i = ds ! i" "prod_list ds' = prod_list (fixed ds) * prod_list procs" by auto
    then show ?thesis using False 2 by (auto simp: chosen_def nth_Cons' ac_simps)
  qed
qed (simp add: chosen_def)

lemma fill_ones: "fill_loop ds (replicate (length (filter (\<lambda>d. d = 0) ds)) 1) = Some (map (\<lambda>d. if d = 0 then 1 else d) ds)"
  by (induction ds) auto

lemma dims_create_run:
  assumes free: "free_loop nnodes ds nnodes 0 = Some (Some (q, int (length (filter (\<lambda>d. d = 0) ds))))"
    and z: "0 \<in> set ds" and nn: "\<forall>d \<in> set ds. 0 \<le> d" and q: "1 \<le> q"
  shows "\<exists>procs ds'. length procs = length (filter (\<lambda>d. d = 0) ds) \<and> pos procs \<and> prod_list procs = q \<and>
    sorted_wrt (\<ge>) procs \<and> fill_loop ds procs = Some ds' \<and>
    MPI_Dims_create check (\<lambda>_. True) nnodes (int (length ds)) (Some ds) = Some (MPI_SUCCESS, Some ds')"
proof -
  let ?z = "length (filter (\<lambda>d. d = 0) ds)"
  have z': "0 < int ?z" "ds \<noteq> []" using z by (auto simp: filter_empty_conv)
  show ?thesis
  proof (cases "q = 1")
    case True
    let ?ones = "replicate ?z (1 :: int)" and ?ds = "map (\<lambda>d. if d = 0 then 1 else d) ds"
    have "sorted_wrt (\<ge>) ?ones" by (simp add: sorted_wrt_iff_nth_less)
    moreover have "MPI_Dims_create check (\<lambda>_. True) nnodes (int (length ds)) (Some ds) = Some (MPI_SUCCESS, Some ?ds)"
      using True free z' by (simp add: MPI_Dims_create_def)
    moreover have "length ?ones = ?z" "pos ?ones" "prod_list ?ones = q" using True by auto
    ultimately show ?thesis using fill_ones [of ds] by blast
  next
    case False
    then have q2: "2 \<le> q" using q by simp
    obtain ps where ps: "getprimes True q = Some (MPI_SUCCESS, ps)" "\<forall>p \<in> set ps. 2 \<le> p" "ps \<noteq> []" "covers ps q"
      by (rule getprimes_spec [OF q2])
    obtain cs where cs: "getfactors True q (int (length ps)) ps = Some (MPI_SUCCESS, cs)" "length cs = length ps"
      "\<forall>c \<in> set cs. 0 \<le> c" "powers ps cs = q" by (rule getfactors_spec [OF ps(2-4) q])
    obtain b where b: "assignnodes True (int ?z) (int (length ps)) ps cs = Some (MPI_SUCCESS, b)"
      "int (length b) = int ?z" "pos b" "prod_list b = powers ps cs" "sorted_wrt (\<ge>) b"
      by (rule assignnodes_spec [OF ps(2) cs(2,3) z'(1)])
    obtain ds' where "fill_loop ds b = Some ds'" using fill_loop_spec [OF nn, of b] b by auto
    then show ?thesis using free z' ps(1) cs(1,4) b q2
      by (intro exI [of _ b] exI [of _ ds']) (simp add: MPI_Dims_create_def)
  qed
qed

section \<open>Properties\<close>

text \<open>C40: When every fixed dimension divides the number of processes and some dimension is free,
  the operation keeps the fixed dimensions and fills the free ones, in decreasing order, with
  positive numbers, so that the product of all dimensions is the product of the fixed ones with
  the free processes that the code computes by truncating divisions; this is the number of
  processes if the product of the fixed dimensions divides it. When the divisions leave less than
  one process, the dimensions are refused.\<close>

theorem dims_create_correct:
  assumes n: "1 \<le> nnodes" and ds: "\<forall>d \<in> set ds. 0 \<le> d \<and> (d \<noteq> 0 \<longrightarrow> d dvd nnodes)" "0 \<in> set ds"
  defines "q \<equiv> foldl (div) nnodes (fixed ds)"
  shows "if q < 1 then MPI_Dims_create check (\<lambda>_. True) nnodes (int (length ds)) (Some ds) = Some (MPI_ERR_DIMS, Some ds)
    else \<exists>ds'. MPI_Dims_create check (\<lambda>_. True) nnodes (int (length ds)) (Some ds) = Some (MPI_SUCCESS, Some ds') \<and>
      length ds' = length ds \<and> pos ds' \<and> (\<forall>i < length ds. ds ! i \<noteq> 0 \<longrightarrow> ds' ! i = ds ! i) \<and>
      sorted_wrt (\<ge>) (chosen ds ds') \<and> prod_list ds' = prod_list (fixed ds) * q \<and>
      (prod_list (fixed ds) dvd nnodes \<longrightarrow> prod_list ds' = nnodes)"
proof -
  have nn: "\<forall>d \<in> set ds. 0 \<le> d" using ds(1) by blast
  have free: "free_loop nnodes ds nnodes 0 = Some (Some (q, int (length (filter (\<lambda>d. d = 0) ds))))"
    using free_loop_spec [of nnodes nnodes ds 0] n ds(1) by (simp add: q_def)
  have ex: "prod_list (fixed ds) dvd nnodes \<longrightarrow> prod_list (fixed ds) * q = nnodes"
    unfolding q_def using ds(1) by (intro impI foldl_div_exact) (auto simp: less_le)
  show ?thesis
  proof (cases "q < 1")
    case True
    then show ?thesis using free ds(2) by (auto simp: MPI_Dims_create_def filter_empty_conv Let_def)
  next
    case False
    then have "1 \<le> q" by simp
    from dims_create_run [OF free ds(2) nn this] obtain procs ds' where
      p: "length procs = length (filter (\<lambda>d. d = 0) ds)" "pos procs" "prod_list procs = q" "sorted_wrt (\<ge>) procs"
         "fill_loop ds procs = Some ds'"
      and M: "MPI_Dims_create check (\<lambda>_. True) nnodes (int (length ds)) (Some ds) = Some (MPI_SUCCESS, Some ds')" by blast
    from fill_loop_spec [OF nn p(1,2)] p(5) have
      "length ds' = length ds \<and> pos ds' \<and> chosen ds ds' = procs \<and> (\<forall>i < length ds. ds ! i \<noteq> 0 \<longrightarrow> ds' ! i = ds ! i) \<and>
       prod_list ds' = prod_list (fixed ds) * prod_list procs" by auto
    then show ?thesis using False M p(3,4) ex by auto
  qed
qed

theorem dims_create_correct_witness:
  "\<exists>ds'. MPI_Dims_create True (\<lambda>_. True) 36 3 (Some [0, 3, 0]) = Some (MPI_SUCCESS, Some ds') \<and> prod_list ds' = 36"
  using dims_create_correct [of 36 "[0, 3, 0]" True] by simp blast

text \<open>The quotients are truncated one after the other: with a fixed part that does not divide the
  number of processes the result has a different product.\<close>

lemma dims_create_truncates:
  "MPI_Dims_create True (\<lambda>_. True) 36 3 (Some [4, 6, 0]) = Some (MPI_SUCCESS, Some [4, 6, 1])"
  by code_simp

end
