(* ===== verification/Comm_FT.thy ===== *)
theory Comm_FT
  imports Group
begin

text \<open>
  The fault-tolerance layer of one process: \<^verbatim>\<open>ompi/communicator/comm_ft.c\<close>,
  \<^verbatim>\<open>comm_ft_reliable_bcast.c\<close>, \<^verbatim>\<open>comm_ft_revoke.c\<close>,
  \<^verbatim>\<open>comm_ft_propagate.c\<close>, the accessors of \<^verbatim>\<open>communicator.h\<close>, the marking of
  failed peers in \<^verbatim>\<open>ompi/errhandler/errhandler_rte.c\<close>, and
  \<^verbatim>\<open>mca_pml_ob1_revoke_comm\<close> of \<^verbatim>\<open>ompi/mca/pml/ob1/pml_ob1_recvfrag.c\<close>.

  The state \<open>ft_node\<close> holds the groups, the process and communicator objects by address,
  the table of communicators and the static variables of the layer. What a function does to
  the outside (a fragment given to the transport, a negative acknowledgement, a call of the
  registered failure callback, a turn of the progress engine) is a list of effects. The
  answers of the transport and of the allocators are arguments. \<open>None\<close> is undefined
  behaviour.
\<close>

section \<open>Processes and their names\<close>

record orte_process_name_t =
  jobid :: "32 word"
  vpid :: "32 word"

definition OPAL_EQUAL :: int where [rc_defs]: "OPAL_EQUAL = 0"
definition OPAL_VALUE1_GREATER :: int where [rc_defs]: "OPAL_VALUE1_GREATER = 1"
definition OPAL_VALUE2_GREATER :: int where [rc_defs]: "OPAL_VALUE2_GREATER = - 1"

text \<open>The comparison with the mask of job and process number, as all callers here use it.\<close>

definition orte_util_compare_name_fields :: "orte_process_name_t \<Rightarrow> orte_process_name_t \<Rightarrow> int" where
  "orte_util_compare_name_fields name1 name2 =
     (if jobid name1 < jobid name2 then OPAL_VALUE2_GREATER
      else if jobid name1 > jobid name2 then OPAL_VALUE1_GREATER
      else if vpid name1 < vpid name2 then OPAL_VALUE2_GREATER
      else if vpid name1 > vpid name2 then OPAL_VALUE1_GREATER
      else OPAL_EQUAL)"

record ompi_proc_t =
  proc_name :: orte_process_name_t
  proc_active :: bool

section \<open>Communicators\<close>

datatype hdr_type_t = HDR_TYPE_MATCH | HDR_TYPE_RNDV | HDR_TYPE_RGET

text \<open>A received fragment that waits for a matching request, and the two queues the
  matching layer keeps for every peer.\<close>

record recv_frag_t =
  hdr_type :: hdr_type_t
  hdr_tag :: int
  hdr_src :: int
  hdr_src_req :: nat

record ob1_comm_proc_t =
  unexpected_frags :: "recv_frag_t list"
  frags_cant_match :: "recv_frag_t list"

record ompi_communicator_t =
  c_contextid :: "32 word"
  c_epoch :: "32 word"
  c_inter :: bool
  c_local_group :: ptr
  c_remote_group :: ptr
  any_source_enabled :: bool
  any_source_offset :: int
  comm_revoked :: bool
  coll_revoked :: bool
  num_active_local :: int
  num_active_remote :: int
  c_pml_procs :: "ob1_comm_proc_t list"

definition OMPI_COMM_SET_FT :: "ompi_communicator_t \<Rightarrow> int \<Rightarrow> 32 word \<Rightarrow> ompi_communicator_t" where
  "OMPI_COMM_SET_FT comm nprocs epch =
     comm\<lparr>any_source_enabled := True, any_source_offset := 0, comm_revoked := False,
          coll_revoked := False, num_active_local := nprocs, num_active_remote := nprocs,
          c_epoch := epch\<rparr>"

definition ompi_comm_is_any_source_enabled :: "ompi_communicator_t \<Rightarrow> bool" where
  "ompi_comm_is_any_source_enabled comm = any_source_enabled comm"

definition ompi_comm_coll_revoked :: "ompi_communicator_t \<Rightarrow> bool" where
  "ompi_comm_coll_revoked comm = coll_revoked comm"

definition ompi_comm_is_revoked :: "ompi_communicator_t \<Rightarrow> bool" where
  "ompi_comm_is_revoked comm = comm_revoked comm"

section \<open>Messages, effects and the state of a process\<close>

text \<open>A broadcast message; the payload is that of a failure notice (a process and its state),
  which extends the plain message.\<close>

record ompi_comm_rbcast_message_t =
  cid :: "32 word"
  epoch :: "32 word"
  msg_type :: "8 word"
  payload :: "(orte_process_name_t \<times> 32 word) option"

datatype effect =
    Send orte_process_name_t ompi_comm_rbcast_message_t
  | Nack int nat
  | Rank_failure_cb ptr int bool
  | Progress

datatype rbcast_fn = Rbcast_null | Rbcast_bmg | Rbcast_n2

datatype rbcast_cb_t = Revoke_local | Failure_propagate_local

record ft_node =
  grps :: group_state
  procs :: "ptr \<Rightarrow> ompi_proc_t option"
  proc_list :: "ptr list"
  proc_local_proc :: ptr
  comms :: "ptr \<Rightarrow> ompi_communicator_t option"
  mpi_communicators :: opal_pointer_array_t
  mpi_comm_world :: ptr
  rank_failure_cbfunc :: bool
  rbcast :: rbcast_fn
  rbcast_fw :: rbcast_fn
  rbcast_cb :: "rbcast_cb_t option list"
  rbcast_listener_started :: bool
  revoke_cb_type :: int
  propagate_cb_type :: int

text \<open>The answers of the transport to one handler: whether a descriptor for the process can
  be allocated, and the status of the send.\<close>

record bml_t =
  bml_alloc :: "ptr \<Rightarrow> bool"
  bml_send :: "ptr \<Rightarrow> int"

definition put_comm :: "ptr \<Rightarrow> ompi_communicator_t \<Rightarrow> ft_node \<Rightarrow> ft_node" where
  "put_comm c C n = n\<lparr>comms := (comms n)(c \<mapsto> C)\<rparr>"

definition ompi_comm_lookup :: "ft_node \<Rightarrow> 32 word \<Rightarrow> ptr option" where
  "ompi_comm_lookup n ctx = opal_pointer_array_get_item (mpi_communicators n) (sint ctx)"

primrec find_in_list :: "ft_node \<Rightarrow> orte_process_name_t \<Rightarrow> ptr list \<Rightarrow> ptr option" where
  "find_in_list n name [] = Some NULL"
| "find_in_list n name (p # ps) =
     do {
       P \<leftarrow> procs n p;
       if orte_util_compare_name_fields (proc_name P) name = OPAL_EQUAL then Some p
       else find_in_list n name ps }"

definition ompi_proc_find :: "ft_node \<Rightarrow> orte_process_name_t \<Rightarrow> ptr option" where
  "ompi_proc_find n name = find_in_list n name (proc_list n)"

definition ompi_proc_is_active :: "ft_node \<Rightarrow> ptr \<Rightarrow> bool option" where
  "ompi_proc_is_active n p = (if p = NULL then None else map_option proc_active (procs n p))"

definition ompi_proc_mark_as_failed :: "ft_node \<Rightarrow> ptr \<Rightarrow> ft_node option" where
  "ompi_proc_mark_as_failed n p =
     do { P \<leftarrow> procs n p; Some (n\<lparr>procs := (procs n)(p \<mapsto> P\<lparr>proc_active := False\<rparr>)\<rparr>) }"

section \<open>The reliable broadcast\<close>

definition ompi_comm_determine_first_auto :: "ft_node \<Rightarrow> ompi_communicator_t \<Rightarrow> bool option" where
  "ompi_comm_determine_first_auto n comm =
     do {
       ourproc \<leftarrow> ompi_group_peer_lookup (grps n) (c_local_group comm) 0;
       theirproc \<leftarrow> ompi_group_peer_lookup (grps n) (c_remote_group comm) 0;
       P \<leftarrow> procs n ourproc;
       Q \<leftarrow> procs n theirproc;
       Some (0 > orte_util_compare_name_fields (proc_name P) (proc_name Q)) }"

definition ompi_comm_rbcast_bml_send_msg ::
  "bml_t \<Rightarrow> ft_node \<Rightarrow> ptr \<Rightarrow> ompi_comm_rbcast_message_t \<Rightarrow> (int \<times> effect list) option" where
  "ompi_comm_rbcast_bml_send_msg bml n proc msg =
     do {
       P \<leftarrow> procs n proc;
       if \<not> bml_alloc bml proc then Some (OMPI_ERR_OUT_OF_RESOURCE, [])
       else let ret = bml_send bml proc in
         if ret \<ge> 0 then Some (OMPI_SUCCESS, [Send (proc_name P) msg]) else Some (ret, []) }"

text \<open>The sending loop of both algorithms: an unreachable peer is skipped, any other error
  ends the loop.\<close>

primrec send_loop ::
  "bml_t \<Rightarrow> ft_node \<Rightarrow> ompi_comm_rbcast_message_t \<Rightarrow> ptr option list \<Rightarrow> (int \<times> effect list) option" where
  "send_loop bml n msg [] = Some (OMPI_SUCCESS, [])"
| "send_loop bml n msg (peer # peers) =
     do {
       proc \<leftarrow> peer;
       (ret, out) \<leftarrow> ompi_comm_rbcast_bml_send_msg bml n proc msg;
       if ret \<noteq> OMPI_SUCCESS \<and> ret \<noteq> OMPI_ERR_UNREACH then Some (ret, out)
       else do {
         (ret, out') \<leftarrow> send_loop bml n msg peers;
         Some (ret, out @ out') } }"

text \<open>The offsets \<open>d * i\<close> of the double loop: \<open>i\<close> doubles while it is at most half
  the number of processes, \<open>d\<close> is first 1 and then -1.\<close>

function bmg_offsets :: "int \<Rightarrow> int \<Rightarrow> int list" where
  "bmg_offsets np i = (if 0 < i \<and> i \<le> np div 2 then i # (- i) # bmg_offsets np (i * 2) else [])"
  by pat_completeness auto
termination
  by (relation "measure (\<lambda>(np, i). nat (np - i))") auto

declare bmg_offsets.simps [simp del]

definition bmg_peer ::
  "ft_node \<Rightarrow> ptr \<Rightarrow> ptr option \<Rightarrow> int \<Rightarrow> int \<Rightarrow> int \<Rightarrow> ptr option" where
  "bmg_peer n lgrp hgrp np me off =
     do {
       idx \<leftarrow> cmod (np + me + off) np;
       sz \<leftarrow> ompi_group_size (grps n) lgrp;
       if idx < sz then ompi_group_peer_lookup (grps n) lgrp idx
       else do {
         h \<leftarrow> hgrp;
         ompi_group_peer_lookup (grps n) h (idx - sz) } }"

definition ompi_comm_rbcast_bmg ::
  "bml_t \<Rightarrow> ft_node \<Rightarrow> ompi_communicator_t \<Rightarrow> ompi_comm_rbcast_message_t \<Rightarrow>
   (int \<times> effect list) option" where
  "ompi_comm_rbcast_bmg bml n comm msg =
     do {
       lsize \<leftarrow> ompi_group_size (grps n) (c_local_group comm);
       rank \<leftarrow> ompi_group_rank (grps n) (c_local_group comm);
       if c_inter comm then do {
         first \<leftarrow> ompi_comm_determine_first_auto n comm;
         rsize \<leftarrow> ompi_group_size (grps n) (c_remote_group comm);
         let np = lsize + rsize;
         let lgrp = (if first then c_local_group comm else c_remote_group comm);
         let hgrp = (if first then c_remote_group comm else c_local_group comm);
         let me = (if first then rank else rank + rsize);
         send_loop bml n msg (map (bmg_peer n lgrp (Some hgrp) np me) (bmg_offsets np 1)) }
       else send_loop bml n msg
              (map (bmg_peer n (c_local_group comm) None lsize rank) (bmg_offsets lsize 1)) }"

text \<open>The outer loop of the second algorithm runs once when the groups differ, and not at all
  when they are the same.\<close>

definition ompi_comm_rbcast_n2 ::
  "bml_t \<Rightarrow> ft_node \<Rightarrow> ompi_communicator_t \<Rightarrow> ompi_comm_rbcast_message_t \<Rightarrow>
   (int \<times> effect list) option" where
  "ompi_comm_rbcast_n2 bml n comm msg =
     (if c_local_group comm \<noteq> c_remote_group comm then do {
        sz \<leftarrow> ompi_group_size (grps n) (c_local_group comm);
        send_loop bml n msg
          (filter (\<lambda>p. p \<noteq> Some (proc_local_proc n))
             (map (ompi_group_peer_lookup (grps n) (c_local_group comm)) (idxs sz))) }
      else Some (OMPI_SUCCESS, []))"

fun run_rbcast ::
  "rbcast_fn \<Rightarrow> bml_t \<Rightarrow> ft_node \<Rightarrow> ompi_communicator_t \<Rightarrow> ompi_comm_rbcast_message_t \<Rightarrow>
   (int \<times> effect list) option" where
  "run_rbcast Rbcast_null bml n comm msg = Some (OMPI_SUCCESS, [])"
| "run_rbcast Rbcast_bmg bml n comm msg = ompi_comm_rbcast_bmg bml n comm msg"
| "run_rbcast Rbcast_n2 bml n comm msg = ompi_comm_rbcast_n2 bml n comm msg"

definition RBCAST_CB_TYPE_MAX :: int where "RBCAST_CB_TYPE_MAX = 7"

definition ompi_comm_rbcast_register_cb_type :: "rbcast_cb_t \<Rightarrow> ft_node \<Rightarrow> int \<times> ft_node" where
  "ompi_comm_rbcast_register_cb_type callback n =
     (case find (\<lambda>i. rbcast_cb n ! nat i = None) (idxs RBCAST_CB_TYPE_MAX) of
        Some i \<Rightarrow> (i, n\<lparr>rbcast_cb := (rbcast_cb n)[nat i := Some callback]\<rparr>)
      | None \<Rightarrow> (OMPI_ERR_OUT_OF_RESOURCE, n))"

definition ompi_comm_rbcast_unregister_cb_type :: "int \<Rightarrow> ft_node \<Rightarrow> int \<times> ft_node" where
  "ompi_comm_rbcast_unregister_cb_type ty n =
     (if RBCAST_CB_TYPE_MAX < ty \<or> 0 > ty then (OMPI_ERR_BAD_PARAM, n)
      else (OMPI_SUCCESS, n\<lparr>rbcast_cb := (rbcast_cb n)[nat ty := None]\<rparr>))"

text \<open>\<open>param\<close> is the run-time parameter that selects the algorithm, \<open>reg\<close> the answer of
  the transport to the registration of the receive callback.\<close>

definition ompi_comm_init_rbcast :: "int \<Rightarrow> int \<Rightarrow> ft_node \<Rightarrow> int \<times> ft_node" where
  "ompi_comm_init_rbcast param reg n =
     (if param = 0 then (OMPI_SUCCESS, n)
      else if param = 1 \<or> param = 2 then
        let f = (if param = 1 then Rbcast_bmg else Rbcast_n2);
            n = n\<lparr>rbcast := f, rbcast_fw := f\<rparr>
        in if rbcast_listener_started n then (OMPI_SUCCESS, n)
           else (reg, n\<lparr>rbcast_listener_started := (reg = OMPI_SUCCESS)\<rparr>)
      else (OMPI_ERR_BAD_PARAM, n))"

definition ompi_comm_finalize_rbcast :: "ft_node \<Rightarrow> int \<times> ft_node" where
  "ompi_comm_finalize_rbcast n = (OMPI_SUCCESS, n)"

section \<open>Revocation\<close>

definition ompi_request_tag_is_ft :: "int \<Rightarrow> bool" where
  "ompi_request_tag_is_ft tag \<longleftrightarrow> tag \<le> - 26 \<and> tag \<ge> - 31"

definition ompi_request_tag_is_collective :: "int \<Rightarrow> bool" where
  "ompi_request_tag_is_collective tag \<longleftrightarrow> tag \<le> - 10 \<and> tag \<ge> - 25"

definition purged :: "ompi_communicator_t \<Rightarrow> recv_frag_t \<Rightarrow> bool" where
  "purged comm frag \<longleftrightarrow>
     (ompi_comm_is_revoked comm \<and> \<not> ompi_request_tag_is_ft (hdr_tag frag)) \<or>
     (ompi_comm_coll_revoked comm \<and> ompi_request_tag_is_collective (hdr_tag frag))"

text \<open>The queues are purged peer by peer; the fragments taken out are answered in that order,
  those that announce a longer message with a negative acknowledgement.\<close>

definition mca_pml_ob1_revoke_comm ::
  "ompi_communicator_t \<Rightarrow> bool \<Rightarrow> ompi_communicator_t \<times> effect list" where
  "mca_pml_ob1_revoke_comm comm coll_only =
     (let comm = comm\<lparr>coll_revoked := True\<rparr>;
          comm = (if \<not> coll_only then comm\<lparr>comm_revoked := True\<rparr> else comm);
          nack_list = concat (map (\<lambda>p. filter (purged comm) (unexpected_frags p @ frags_cant_match p))
                        (c_pml_procs comm));
          keep = filter (\<lambda>f. \<not> purged comm f)
      in (comm\<lparr>c_pml_procs := map (\<lambda>p. p\<lparr>unexpected_frags := keep (unexpected_frags p),
                                          frags_cant_match := keep (frags_cant_match p)\<rparr>)
                                  (c_pml_procs comm)\<rparr>,
          map (\<lambda>f. Nack (hdr_src f) (hdr_src_req f))
            (filter (\<lambda>f. hdr_type f \<noteq> HDR_TYPE_MATCH) nack_list)))"

definition ompi_comm_revoke_local :: "ft_node \<Rightarrow> ptr \<Rightarrow> (bool \<times> ft_node \<times> effect list) option" where
  "ompi_comm_revoke_local n c =
     do {
       comm \<leftarrow> comms n c;
       if comm_revoked comm then Some (False, n, [])
       else let (comm, out) = mca_pml_ob1_revoke_comm (comm\<lparr>any_source_enabled := False\<rparr>) False
            in Some (True, put_comm c comm n, out) }"

text \<open>The message type is the low byte of the registered callback number.\<close>

definition ompi_comm_revoke_internal ::
  "bml_t \<Rightarrow> ft_node \<Rightarrow> ptr \<Rightarrow> (int \<times> ft_node \<times> effect list) option" where
  "ompi_comm_revoke_internal bml n c =
     do {
       (fresh, n, out) \<leftarrow> ompi_comm_revoke_local n c;
       if fresh then do {
         comm \<leftarrow> comms n c;
         (ret, out') \<leftarrow> run_rbcast (rbcast n) bml n comm
           \<lparr>cid = c_contextid comm, epoch = c_epoch comm, msg_type = word_of_int (revoke_cb_type n),
            payload = None\<rparr>;
         Some (ret, n, out @ out') }
       else Some (OMPI_SUCCESS, n, out) }"

definition ompi_comm_init_revoke :: "int \<Rightarrow> int \<Rightarrow> ft_node \<Rightarrow> int \<times> ft_node" where
  "ompi_comm_init_revoke param reg n =
     (let (ret, n) = ompi_comm_init_rbcast param reg n
      in if ret \<noteq> OMPI_SUCCESS then (ret, n)
         else let (ret, n) = ompi_comm_rbcast_register_cb_type Revoke_local n
              in if 0 \<le> ret then (OMPI_SUCCESS, n\<lparr>revoke_cb_type := ret\<rparr>) else (ret, n))"

definition ompi_comm_finalize_revoke :: "ft_node \<Rightarrow> int \<times> ft_node" where
  "ompi_comm_finalize_revoke n =
     (let (ret, n) = ompi_comm_rbcast_unregister_cb_type (revoke_cb_type n) n
      in (ret, n\<lparr>revoke_cb_type := - 1\<rparr>))"

section \<open>Failed processes\<close>

text \<open>The answers used by the functions below: those of the transport, the storage switches of
  the groups, and those of the allocators.\<close>

record ft_env =
  e_bml :: bml_t
  e_sparse :: bool
  e_before :: int
  e_hmax :: int
  e_al_new :: alloc
  e_al_incl :: "int \<Rightarrow> alloc"
  e_al_set :: alloc


definition ompi_comm_set_rank_failed ::
  "ft_node \<Rightarrow> ptr \<Rightarrow> int \<Rightarrow> bool \<Rightarrow> (ft_node \<times> effect list) option" where
  "ompi_comm_set_rank_failed n c peer_id remote =
     do {
       comm \<leftarrow> comms n c;
       let (comm, out) = mca_pml_ob1_revoke_comm (comm\<lparr>any_source_enabled := False\<rparr>) True;
       let comm = (if \<not> remote then comm\<lparr>num_active_local := num_active_local comm - 1\<rparr>
                   else comm\<lparr>num_active_remote := num_active_remote comm - 1\<rparr>);
       Some (put_comm c comm n,
             out @ (if rank_failure_cbfunc n then [Rank_failure_cb c peer_id remote] else [])) }"

text \<open>The rank of the process in the local group or, when the groups differ, in the remote
  one; it is negative when the process is in neither.\<close>

definition rank_in_comm :: "ft_node \<Rightarrow> ompi_communicator_t \<Rightarrow> ptr \<Rightarrow> (int \<times> bool) option" where
  "rank_in_comm n comm proc =
     do {
       r \<leftarrow> ompi_group_peer_lookup_id (grps n) (c_local_group comm) proc;
       if r < 0 \<and> c_local_group comm \<noteq> c_remote_group comm then do {
         r \<leftarrow> ompi_group_peer_lookup_id (grps n) (c_remote_group comm) proc;
         Some (r, True) }
       else Some (r, False) }"

text \<open>The loop over the table of communicators; \<open>fgrp\<close> becomes the group of the failed
  process, made from the first communicator it belongs to.\<close>

primrec mark_loop ::
  "ft_env \<Rightarrow> ptr \<Rightarrow> int list \<Rightarrow> ft_node \<Rightarrow> ptr \<Rightarrow> (ft_node \<times> ptr \<times> effect list) option" where
  "mark_loop env proc [] n fgrp = Some (n, fgrp, [])"
| "mark_loop env proc (i # is) n fgrp =
     do {
       c \<leftarrow> opal_pointer_array_get_item (mpi_communicators n) i;
       if c = NULL then mark_loop env proc is n fgrp
       else do {
         comm \<leftarrow> comms n c;
         (proc_rank, remote) \<leftarrow> rank_in_comm n comm proc;
         if proc_rank < 0 then mark_loop env proc is n fgrp
         else do {
           (n, out) \<leftarrow> ompi_comm_set_rank_failed n c proc_rank remote;
           (n, fgrp) \<leftarrow>
             (if fgrp = NULL then do {
                (_, g, s) \<leftarrow> ompi_group_incl (e_sparse env) (e_before env) (e_hmax env)
                  (e_al_incl env i) (grps n)
                  (if remote then c_remote_group comm else c_local_group comm) [proc_rank];
                Some (n\<lparr>grps := s\<rparr>, g) }
              else Some (n, fgrp));
           (n, fgrp, out') \<leftarrow> mark_loop env proc is n fgrp;
           Some (n, fgrp, out @ out') } } }"

definition add_failed :: "ft_env \<Rightarrow> ft_node \<Rightarrow> ptr \<Rightarrow> ft_node option" where
  "add_failed env n fgrp =
     do {
       let old_failed = all_failed_procs (grps n);
       (ret, g, s) \<leftarrow> ompi_group_union (e_hmax env) (e_al_set env) (grps n) old_failed fgrp;
       s \<leftarrow> OBJ_RELEASE_group
              (if ret = OMPI_SUCCESS then s\<lparr>all_failed_procs := g\<rparr> else s) old_failed;
       Some (n\<lparr>grps := s\<rparr>) }"

definition ompi_comm_failure_propagate ::
  "bml_t \<Rightarrow> ft_node \<Rightarrow> ptr \<Rightarrow> ptr \<Rightarrow> 32 word \<Rightarrow> (int \<times> effect list) option" where
  "ompi_comm_failure_propagate bml n c proc state =
     (if propagate_cb_type n = - 1 then Some (OMPI_SUCCESS, [])
      else do {
        comm \<leftarrow> comms n c;
        P \<leftarrow> procs n proc;
        run_rbcast (rbcast n) bml n comm
          \<lparr>cid = c_contextid comm, epoch = c_epoch comm,
           msg_type = word_of_int (propagate_cb_type n),
           payload = Some (proc_name P, state)\<rparr> })"

definition ompi_errmgr_mark_failed_peer_fw ::
  "ft_env \<Rightarrow> ft_node \<Rightarrow> ptr \<Rightarrow> 32 word \<Rightarrow> bool \<Rightarrow> (int \<times> ft_node \<times> effect list) option" where
  "ompi_errmgr_mark_failed_peer_fw env n proc state forward =
     do {
       active \<leftarrow> ompi_proc_is_active n proc;
       if \<not> active then Some (OMPI_SUCCESS, n, [])
       else do {
         n \<leftarrow> ompi_proc_mark_as_failed n proc;
         (n, fgrp, out) \<leftarrow> mark_loop env proc
           (idxs (pa_size (mpi_communicators n))) n NULL;
         n \<leftarrow> (if fgrp \<noteq> NULL then add_failed env n fgrp else Some n);
         (_, out') \<leftarrow> (if forward
                      then ompi_comm_failure_propagate (e_bml env) n (mpi_comm_world n) proc state
                      else Some (OMPI_SUCCESS, []));
         Some (OMPI_SUCCESS, n, out @ out') } }"

definition ompi_errmgr_rte_callback ::
  "ft_env \<Rightarrow> ft_node \<Rightarrow> orte_process_name_t \<Rightarrow> 32 word \<Rightarrow> (int \<times> ft_node \<times> effect list) option" where
  "ompi_errmgr_rte_callback env n name state =
     do {
       proc \<leftarrow> ompi_proc_find n name;
       if proc = NULL then Some (OMPI_SUCCESS, n, [])
       else ompi_errmgr_mark_failed_peer_fw env n proc state True }"

definition ompi_comm_failure_propagate_local ::
  "ft_env \<Rightarrow> ft_node \<Rightarrow> ompi_comm_rbcast_message_t \<Rightarrow> (bool \<times> ft_node \<times> effect list) option" where
  "ompi_comm_failure_propagate_local env n msg =
     do {
       (name, state) \<leftarrow> payload msg;
       proc \<leftarrow> ompi_proc_find n name;
       active \<leftarrow> ompi_proc_is_active n proc;
       if \<not> active then Some (False, n, [])
       else do {
         (_, n, out) \<leftarrow> ompi_errmgr_mark_failed_peer_fw env n proc state False;
         Some (True, n, out) } }"

definition ompi_comm_init_failure_propagate :: "bool \<Rightarrow> int \<Rightarrow> int \<Rightarrow> ft_node \<Rightarrow> int \<times> ft_node" where
  "ompi_comm_init_failure_propagate with_rbcast param reg n =
     (if \<not> with_rbcast then (OMPI_SUCCESS, n)
      else let (ret, n) = ompi_comm_init_rbcast param reg n
           in if ret \<noteq> OMPI_SUCCESS then (ret, n)
              else let (ret, n) = ompi_comm_rbcast_register_cb_type Failure_propagate_local n
                   in if 0 \<le> ret then (OMPI_SUCCESS, n\<lparr>propagate_cb_type := ret\<rparr>) else (ret, n))"

definition ompi_comm_finalize_failure_propagate :: "ft_node \<Rightarrow> int \<times> ft_node" where
  "ompi_comm_finalize_failure_propagate n =
     (if propagate_cb_type n = - 1 then (OMPI_SUCCESS, n)
      else let (ret, n) = ompi_comm_rbcast_unregister_cb_type (propagate_cb_type n) n
           in (ret, n\<lparr>propagate_cb_type := - 1\<rparr>))"

section \<open>Receiving a broadcast\<close>

definition ompi_comm_rbcast_bml_recv_cb ::
  "ft_env \<Rightarrow> ft_node \<Rightarrow> ompi_comm_rbcast_message_t \<Rightarrow> (ft_node \<times> effect list) option" where
  "ompi_comm_rbcast_bml_recv_cb env n msg =
     do {
       c \<leftarrow> ompi_comm_lookup n (cid msg);
       if c = NULL then Some (n, [])
       else do {
         comm \<leftarrow> comms n c;
         if cid msg \<noteq> c_contextid comm then Some (n, [])
         else if c_epoch comm \<noteq> epoch msg then Some (n, [])
         else do {
           slot \<leftarrow> rd (rbcast_cb n) (uint (msg_type msg));
           cb \<leftarrow> slot;
           (again, n, out) \<leftarrow> (case cb of
              Revoke_local \<Rightarrow> ompi_comm_revoke_local n c
            | Failure_propagate_local \<Rightarrow> ompi_comm_failure_propagate_local env n msg);
           if again then do {
             comm \<leftarrow> comms n c;
             (_, out') \<leftarrow> run_rbcast (rbcast_fw n) (e_bml env) n comm msg;
             Some (n, out @ out') }
           else Some (n, out) } } }"

section \<open>What the other layers ask\<close>

definition ompi_comm_is_proc_active :: "ft_node \<Rightarrow> ompi_communicator_t \<Rightarrow> int \<Rightarrow> bool \<Rightarrow> bool option" where
  "ompi_comm_is_proc_active n comm peer_id remote =
     (if peer_id = MPI_ANY_SOURCE then Some (ompi_comm_is_any_source_enabled comm)
      else if peer_id = MPI_PROC_NULL then Some True
      else do {
        p \<leftarrow> ompi_group_get_proc_ptr (grps n)
               (if remote then c_remote_group comm else c_local_group comm) peer_id;
        if p = NULL then Some False else ompi_proc_is_active n p })"

text \<open>The checks at the entry of the communication calls: an error code, or none.\<close>

definition ompi_comm_iface_p2p_check_proc ::
  "ft_node \<Rightarrow> ompi_communicator_t \<Rightarrow> int \<Rightarrow> (int option \<times> effect list) option" where
  "ompi_comm_iface_p2p_check_proc n comm peer_id =
     (if ompi_comm_is_revoked comm then Some (Some MPI_ERR_REVOKED, [])
      else do {
        active \<leftarrow> ompi_comm_is_proc_active n comm peer_id (c_inter comm);
        if \<not> active then Some (Some MPI_ERR_PROC_FAILED, [Progress]) else Some (None, []) })"

definition ompi_comm_iface_coll_check :: "ompi_communicator_t \<Rightarrow> int option \<times> effect list" where
  "ompi_comm_iface_coll_check comm =
     (if ompi_comm_is_revoked comm then (Some MPI_ERR_REVOKED, [])
      else if ompi_comm_coll_revoked comm then (Some MPI_ERR_PROC_FAILED, [Progress])
      else (None, []))"

definition ompi_comm_failure_ack_internal :: "ft_node \<Rightarrow> ptr \<Rightarrow> (int \<times> ft_node) option" where
  "ompi_comm_failure_ack_internal n c =
     do {
       comm \<leftarrow> comms n c;
       k \<leftarrow> ompi_group_size (grps n) (all_failed_procs (grps n));
       Some (OMPI_SUCCESS, put_comm c (comm\<lparr>any_source_enabled := True, any_source_offset := k\<rparr>) n) }"

text \<open>The object made first is lost when the range function stores its result over it.\<close>

definition ompi_comm_failure_get_acked_internal ::
  "ft_env \<Rightarrow> ft_node \<Rightarrow> ptr \<Rightarrow> (int \<times> ptr \<times> ft_node) option" where
  "ompi_comm_failure_get_acked_internal env n c =
     do {
       comm \<leftarrow> comms n c;
       if any_source_offset comm = 0 then do {
         s \<leftarrow> OBJ_RETAIN_group (grps n) MPI_GROUP_EMPTY;
         Some (OMPI_SUCCESS, MPI_GROUP_EMPTY, n\<lparr>grps := s\<rparr>) }
       else do {
         (tmp, s) \<leftarrow> OBJ_NEW_group (e_hmax env) (e_al_new env) (grps n);
         (ret, sub, s) \<leftarrow> ompi_group_range_incl (e_sparse env) (e_before env) (e_hmax env)
            (e_al_incl env 0) s (all_failed_procs s) [(0, any_source_offset comm - 1, 1)];
         let tmp = (if ret = OMPI_SUCCESS then sub else tmp);
         (ret, g, s) \<leftarrow>
           (if ret \<noteq> OMPI_SUCCESS then Some (ret, NULL, s)
            else ompi_group_intersection (e_sparse env) (e_before env) (e_hmax env)
                   (e_al_set env) s tmp
                   (if c_inter comm then c_local_group comm else c_remote_group comm));
         s \<leftarrow> (if tmp \<noteq> NULL then OBJ_RELEASE_group s tmp else Some s);
         Some (ret, g, n\<lparr>grps := s\<rparr>) } }"

end
