(* ===== verification/Comm_FT_Correct.thy ===== *)
theory Comm_FT_Correct
  imports Comm_FT Group_Correct
begin

text \<open>
  What the fault-tolerance layer of one process guarantees: the peers the reliable broadcast
  reaches, the effect of a revocation and of a broadcast message, and the bookkeeping of failed
  processes.
\<close>

section \<open>Sending\<close>

text \<open>A transport that only fails to reach the processes in \<open>dead\<close>.\<close>

definition bml_ok :: "orte_process_name_t set \<Rightarrow> ft_node \<Rightarrow> bml_t \<Rightarrow> bool" where
  "bml_ok dead n bml \<longleftrightarrow> (\<forall>p P. procs n p = Some P \<longrightarrow> bml_alloc bml p \<and>
     (0 \<le> bml_send bml p \<or> bml_send bml p = OMPI_ERR_UNREACH \<and> proc_name P \<in> dead))"

text \<open>The process objects \<open>ps\<close> are those of the processes \<open>names\<close>.\<close>

definition named :: "ft_node \<Rightarrow> ptr list \<Rightarrow> orte_process_name_t list \<Rightarrow> bool" where
  "named n ps names \<longleftrightarrow> map (\<lambda>p. map_option proc_name (procs n p)) ps = map Some names"

lemma named_append [simp]:
  "named n (ps @ qs) (xs @ ys) \<longleftrightarrow> named n ps xs \<and> named n qs ys" if "length ps = length xs"
  using that by (simp add: named_def)

lemma named_length: "named n ps names \<Longrightarrow> length ps = length names"
  unfolding named_def using map_eq_imp_length_eq by blast

lemma named_nth:
  assumes "named n ps names" "i < length names"
  shows "\<exists>P. procs n (ps ! i) = Some P \<and> proc_name P = names ! i"
proof -
  have "i < length ps" using assms named_length by metis
  with assms have "map_option proc_name (procs n (ps ! i)) = Some (names ! i)"
    unfolding named_def by (metis nth_map)
  then show ?thesis by auto
qed

definition reached :: "bml_t \<Rightarrow> ptr \<Rightarrow> bool" where
  "reached bml p \<longleftrightarrow> 0 \<le> bml_send bml p"

definition name_at :: "ft_node \<Rightarrow> ptr \<Rightarrow> orte_process_name_t" where
  "name_at n p = proc_name (the (procs n p))"

lemma send_loop_ok:
  assumes "bml_ok dead n bml" "\<forall>p \<in> set ps. procs n p \<noteq> None"
  shows "send_loop bml n msg (map Some ps) =
    Some (OMPI_SUCCESS, map (\<lambda>p. Send (name_at n p) msg) (filter (reached bml) ps))"
  using assms(2)
proof (induction ps)
  case (Cons p ps)
  then obtain P where P: "procs n p = Some P" by auto
  with assms(1) have a: "bml_alloc bml p" "0 \<le> bml_send bml p \<or> bml_send bml p = OMPI_ERR_UNREACH"
    by (auto simp: bml_ok_def)
  from a P Cons show ?case
    by (auto simp: ompi_comm_rbcast_bml_send_msg_def reached_def name_at_def Let_def rc_defs)
qed simp

section \<open>The binomial graph\<close>

lemma bmg_offsets_range:
  "o' \<in> set (bmg_offsets np i) \<Longrightarrow> - (np div 2) \<le> o' \<and> o' \<le> np div 2 \<and> 2 \<le> np"
  by (induction np i rule: bmg_offsets.induct) (subst (asm) (2) bmg_offsets.simps, auto split: if_splits)

lemma bmg_offsets_one: "2 \<le> np \<Longrightarrow> 1 \<in> set (bmg_offsets np 1) \<and> - 1 \<in> set (bmg_offsets np 1)"
  by (subst (1 2) bmg_offsets.simps) auto

text \<open>The view a process has of the ring of all processes of a communicator: their names in
  ring order (local group first on an intracommunicator; on an intercommunicator the group
  whose first process has the lower name goes first) and the own position.\<close>

definition ring_view :: "ft_node \<Rightarrow> ompi_communicator_t \<Rightarrow> orte_process_name_t list \<Rightarrow> nat \<Rightarrow> bool" where
  "ring_view n comm names me \<longleftrightarrow> me < length names \<and>
     (\<exists>ps r. denotes (grps n) (c_local_group comm) ps \<and>
        ompi_group_rank (grps n) (c_local_group comm) = Some r \<and>
        (if c_inter comm then
           \<exists>qs first. denotes (grps n) (c_remote_group comm) qs \<and>
             ompi_comm_determine_first_auto n comm = Some first \<and>
             named n (if first then ps @ qs else qs @ ps) names \<and>
             r = int me - (if first then 0 else int (length qs))
         else named n ps names \<and> r = int me))"

lemma bmg_peer_ring:
  assumes "denotes (grps n) lgrp ps" "hgrp = None \<and> qs = [] \<or> (\<exists>h. hgrp = Some h \<and> denotes (grps n) h qs)"
    and np: "np = int (length (ps @ qs))" and me: "0 \<le> me" "me < np" and off: "off \<in> set (bmg_offsets np i)"
  shows "bmg_peer n lgrp hgrp np me off = Some ((ps @ qs) ! nat ((me + off) mod np))"
proof -
  define idx where "idx = (me + off) mod np"
  have idx: "0 \<le> idx" "idx < np" using me by (auto simp: idx_def)
  have "np + me + off \<ge> 0" using bmg_offsets_range [OF off] me by auto
  then have c: "cmod (np + me + off) np = Some idx" using me by (simp add: idx_def add.assoc)
  have sz: "ompi_group_size (grps n) lgrp = Some (int (length ps))" by (rule denotes_size [OF assms(1)])
  show ?thesis
  proof (cases "idx < int (length ps)")
    case True
    with denotes_lookup_int [OF assms(1) idx(1) True] idx c sz show ?thesis
      by (simp add: bmg_peer_def nth_append idx_def [symmetric] nat_less_iff)
  next
    case False
    with idx np obtain h where h: "hgrp = Some h" "denotes (grps n) h qs" using assms(2) by auto
    have "ompi_group_peer_lookup (grps n) h (idx - int (length ps)) = Some (qs ! nat (idx - int (length ps)))"
      using denotes_lookup_int [OF h(2)] False idx np by simp
    with False idx c sz h(1) show ?thesis
      by (simp add: bmg_peer_def nth_append idx_def [symmetric] nat_less_iff nat_diff_distrib)
  qed
qed

text \<open>The neighbours of a position.\<close>

definition neighbours :: "nat \<Rightarrow> nat \<Rightarrow> nat list" where
  "neighbours np me = map (\<lambda>off. nat ((int me + off) mod int np)) (bmg_offsets (int np) 1)"

lemma neighbours_less: "j \<in> set (neighbours np i) \<Longrightarrow> j < np"
proof -
  assume "j \<in> set (neighbours np i)"
  then obtain off where "off \<in> set (bmg_offsets (int np) 1)" "j = nat ((int i + off) mod int np)"
    by (auto simp: neighbours_def)
  with bmg_offsets_range [OF this(1)] show ?thesis by (simp add: nat_less_iff)
qed

lemma rbcast_bmg_ring:
  assumes "ring_view n comm names me" "bml_ok dead n bml"
  obtains ps where "named n ps names"
    "ompi_comm_rbcast_bmg bml n comm msg = Some (OMPI_SUCCESS,
       map (\<lambda>p. Send (name_at n p) msg) (filter (reached bml) (map ((!) ps) (neighbours (length names) me))))"
proof -
  have *: "send_loop bml n msg (map (bmg_peer n lgrp hgrp (int (length names)) (int me))
        (bmg_offsets (int (length names)) 1)) = Some (OMPI_SUCCESS,
       map (\<lambda>p. Send (name_at n p) msg)
         (filter (reached bml) (map ((!) (ps @ qs)) (neighbours (length names) me))))"
    if "denotes (grps n) lgrp ps" "hgrp = None \<and> qs = [] \<or> (\<exists>h. hgrp = Some h \<and> denotes (grps n) h qs)"
      "named n (ps @ qs) names" "me < length names" for lgrp hgrp ps qs
  proof -
    have len: "length (ps @ qs) = length names" using named_length [OF that(3)] .
    have "map (bmg_peer n lgrp hgrp (int (length names)) (int me)) (bmg_offsets (int (length names)) 1) =
        map Some (map ((!) (ps @ qs)) (neighbours (length names) me))"
      using bmg_peer_ring [OF that(1,2) refl, of "int me"] that(4)
      by (simp only: len neighbours_def map_map o_def map_eq_conv) simp
    moreover have "\<forall>p \<in> set (map ((!) (ps @ qs)) (neighbours (length names) me)). procs n p \<noteq> None"
      using named_nth [OF that(3)] neighbours_less by fastforce
    ultimately show ?thesis by (simp only: send_loop_ok [OF assms(2)])
  qed
  from assms(1) obtain ps r where v: "me < length names" "denotes (grps n) (c_local_group comm) ps"
    "ompi_group_rank (grps n) (c_local_group comm) = Some r" unfolding ring_view_def by auto
  note sz = denotes_size [OF v(2)]
  show ?thesis
  proof (cases "c_inter comm")
    case False
    with assms(1) v have w: "named n ps names" "r = int me"
      unfolding ring_view_def using denotes_unique by fastforce+
    from * [OF v(2), of None "[]"] w v(1) have
      "ompi_comm_rbcast_bmg bml n comm msg = Some (OMPI_SUCCESS,
       map (\<lambda>p. Send (name_at n p) msg) (filter (reached bml) (map ((!) ps) (neighbours (length names) me))))"
      using False v(3) sz named_length [OF w(1)] by (simp add: ompi_comm_rbcast_bmg_def)
    with w(1) that show ?thesis by blast
  next
    case True
    with assms(1) v obtain qs first where w: "denotes (grps n) (c_remote_group comm) qs"
      "ompi_comm_determine_first_auto n comm = Some first"
      "named n (if first then ps @ qs else qs @ ps) names"
      "r = int me - (if first then 0 else int (length qs))"
      unfolding ring_view_def using denotes_unique by fastforce
    note sz' = denotes_size [OF w(1)]
    have len: "int (length ps) + int (length qs) = int (length names)"
      using named_length [OF w(3)] by (simp split: if_splits)
    have "ompi_comm_rbcast_bmg bml n comm msg = Some (OMPI_SUCCESS,
       map (\<lambda>p. Send (name_at n p) msg)
         (filter (reached bml) (map ((!) (if first then ps @ qs else qs @ ps)) (neighbours (length names) me))))"
      using * [OF v(2), of "Some (c_remote_group comm)" qs] * [OF w(1), of "Some (c_local_group comm)" ps]
        v w sz sz' len True
      by (cases first) (simp_all add: ompi_comm_rbcast_bmg_def Let_def)
    with w(3) that show ?thesis by blast
  qed
qed

section \<open>Revoking a communicator\<close>

text \<open>The parts of a communicator that revocation and failures leave alone.\<close>

definition same_comm :: "ompi_communicator_t \<Rightarrow> ompi_communicator_t \<Rightarrow> bool" where
  "same_comm comm comm' \<longleftrightarrow> c_contextid comm' = c_contextid comm \<and> c_epoch comm' = c_epoch comm \<and>
     c_inter comm' = c_inter comm \<and> c_local_group comm' = c_local_group comm \<and>
     c_remote_group comm' = c_remote_group comm"

lemma ring_view_cong:
  "same_comm comm comm' \<Longrightarrow> grps n' = grps n \<Longrightarrow> procs n' = procs n \<Longrightarrow>
   ring_view n comm names me \<Longrightarrow> ring_view n' comm' names me"
  unfolding ring_view_def same_comm_def named_def ompi_comm_determine_first_auto_def
  by (elim conjE) (simp split del: if_split cong: if_cong)

fun sends :: "effect list \<Rightarrow> (orte_process_name_t \<times> ompi_comm_rbcast_message_t) list" where
  "sends [] = []"
| "sends (Send d m # out) = (d, m) # sends out"
| "sends (_ # out) = sends out"

lemma sends_append [simp]: "sends (xs @ ys) = sends xs @ sends ys"
  by (induction xs rule: sends.induct) auto

lemma sends_Nack [simp]: "sends (map (\<lambda>f. Nack (a f) (b f)) fs) = []"
  by (induction fs) auto

lemma sends_Send [simp]: "sends (map (\<lambda>p. Send (d p) m) ps) = map (\<lambda>p. (d p, m)) ps"
  by (induction ps) auto

lemma revoke_comm_spec:
  assumes "mca_pml_ob1_revoke_comm comm coll_only = (comm', out)"
  shows "same_comm comm comm'" "coll_revoked comm'" "comm_revoked comm' \<longleftrightarrow> comm_revoked comm \<or> \<not> coll_only"
    "any_source_enabled comm' = any_source_enabled comm" "sends out = []"
    "num_active_local comm' = num_active_local comm" "num_active_remote comm' = num_active_remote comm"
    "any_source_offset comm' = any_source_offset comm"
  using assms by (auto simp: mca_pml_ob1_revoke_comm_def Let_def same_comm_def split: if_splits)

definition revoked :: "ft_node \<Rightarrow> ptr \<Rightarrow> bool" where
  "revoked n c \<longleftrightarrow> (case comms n c of Some comm \<Rightarrow> comm_revoked comm | None \<Rightarrow> False)"

lemma revoke_local_fresh:
  assumes "comms n c = Some comm" "\<not> comm_revoked comm"
  obtains comm' out where "ompi_comm_revoke_local n c = Some (True, put_comm c comm' n, out)"
    "same_comm comm comm'" "comm_revoked comm'" "sends out = []"
proof -
  obtain comm' out where e:
    "mca_pml_ob1_revoke_comm (comm\<lparr>any_source_enabled := False\<rparr>) False = (comm', out)" by force
  from revoke_comm_spec [OF e] have "same_comm comm comm'" "comm_revoked comm'" "sends out = []"
    by (auto simp: same_comm_def)
  with e assms show ?thesis by (intro that [of comm' out]) (simp_all add: ompi_comm_revoke_local_def)
qed

lemma revoke_local_again:
  "comms n c = Some comm \<Longrightarrow> comm_revoked comm \<Longrightarrow> ompi_comm_revoke_local n c = Some (False, n, [])"
  by (simp add: ompi_comm_revoke_local_def)

section \<open>A member of a communicator\<close>

text \<open>A process at position \<open>me\<close> of the ring \<open>names\<close> that has the communicator
  \<open>ctx\<close>, epoch \<open>ep\<close>, at address \<open>c\<close>, and the revocation callback at number \<open>k\<close>.\<close>

definition member_node ::
  "32 word \<Rightarrow> 32 word \<Rightarrow> nat \<Rightarrow> orte_process_name_t list \<Rightarrow> nat \<Rightarrow> ptr \<Rightarrow> ft_node \<Rightarrow> bool" where
  "member_node ctx ep k names me c n \<longleftrightarrow>
     ompi_comm_lookup n ctx = Some c \<and> c \<noteq> NULL \<and>
     (\<exists>comm. comms n c = Some comm \<and> c_contextid comm = ctx \<and> c_epoch comm = ep \<and>
        ring_view n comm names me) \<and>
     rbcast n = Rbcast_bmg \<and> rbcast_fw n = Rbcast_bmg \<and> k < 8 \<and> length (rbcast_cb n) = 8 \<and>
     rbcast_cb n ! k = Some Revoke_local \<and> revoke_cb_type n = int k"

definition rev_msg :: "32 word \<Rightarrow> 32 word \<Rightarrow> nat \<Rightarrow> ompi_comm_rbcast_message_t" where
  "rev_msg ctx ep k = \<lparr>cid = ctx, epoch = ep, msg_type = word_of_int (int k), payload = None\<rparr>"

text \<open>What a process does when it learns of the revocation: it records it and notifies every
  neighbour that is not dead.\<close>

definition learns ::
  "32 word \<Rightarrow> 32 word \<Rightarrow> nat \<Rightarrow> orte_process_name_t list \<Rightarrow> nat \<Rightarrow> ptr \<Rightarrow>
   orte_process_name_t set \<Rightarrow> ft_node \<Rightarrow> effect list \<Rightarrow> bool" where
  "learns ctx ep k names me c dead n' out \<longleftrightarrow>
     member_node ctx ep k names me c n' \<and> revoked n' c \<and>
     (\<forall>(d, m) \<in> set (sends out). m = rev_msg ctx ep k \<and> d \<in> set names) \<and>
     (\<forall>j \<in> set (neighbours (length names) me).
        names ! j \<in> dead \<or> (names ! j, rev_msg ctx ep k) \<in> set (sends out)) \<and>
     length (sends out) \<le> length (bmg_offsets (int (length names)) 1)"

lemma member_node_put:
  assumes "member_node ctx ep k names me c n" "comms n c = Some comm" "same_comm comm comm'"
  shows "member_node ctx ep k names me c (put_comm c comm' n)"
  using assms ring_view_cong [of comm comm' "put_comm c comm' n" n]
  by (auto simp: member_node_def put_comm_def ompi_comm_lookup_def same_comm_def)

lemma bmg_notifies:
  assumes "member_node ctx ep k names me c n" "comms n c = Some comm" "comm_revoked comm"
    "bml_ok dead n bml" "sends out = []"
  obtains out' where
    "ompi_comm_rbcast_bmg bml n comm (rev_msg ctx ep k) = Some (OMPI_SUCCESS, out')"
    "learns ctx ep k names me c dead n (out @ out')"
proof -
  have rv: "ring_view n comm names me" using assms(1,2) by (auto simp: member_node_def)
  then obtain ps where ps: "named n ps names"
    "ompi_comm_rbcast_bmg bml n comm (rev_msg ctx ep k) = Some (OMPI_SUCCESS,
       map (\<lambda>p. Send (name_at n p) (rev_msg ctx ep k))
         (filter (reached bml) (map ((!) ps) (neighbours (length names) me))))"
    using rbcast_bmg_ring [OF _ assms(4)] by metis
  have nb: "procs n (ps ! j) \<noteq> None \<and> name_at n (ps ! j) = names ! j \<and> j < length names"
    if "j \<in> set (neighbours (length names) me)" for j
    using named_nth [OF ps(1) neighbours_less [OF that]] neighbours_less [OF that]
    by (auto simp: name_at_def)
  have "names ! j \<in> dead \<or> reached bml (ps ! j)" if "j \<in> set (neighbours (length names) me)" for j
    using nb [OF that] assms(4) unfolding bml_ok_def reached_def name_at_def by force
  then show ?thesis
    using assms(1,2,3,5) ps(2) nb
    by (intro that [of "map (\<lambda>p. Send (name_at n p) (rev_msg ctx ep k))
         (filter (reached bml) (map ((!) ps) (neighbours (length names) me)))"])
      (force simp: learns_def revoked_def neighbours_def intro: le_trans [OF length_filter_le])+
qed

lemma learn_step:
  assumes "member_node ctx ep k names me c n" "\<not> revoked n c" "bml_ok dead n bml"
  obtains n' comm out out' where "ompi_comm_revoke_local n c = Some (True, n', out)"
    "comms n' c = Some comm"
    "ompi_comm_rbcast_bmg bml n' comm (rev_msg ctx ep k) = Some (OMPI_SUCCESS, out')"
    "learns ctx ep k names me c dead n' (out @ out')"
proof -
  from assms obtain comm where comm: "comms n c = Some comm" "\<not> comm_revoked comm"
    by (auto simp: member_node_def revoked_def)
  from revoke_local_fresh [OF this] obtain comm' out where l:
    "ompi_comm_revoke_local n c = Some (True, put_comm c comm' n, out)"
    "same_comm comm comm'" "comm_revoked comm'" "sends out = []" .
  define n' where "n' = put_comm c comm' n"
  have m: "member_node ctx ep k names me c n'"
    unfolding n'_def using assms(1) comm(1) l(2) by (rule member_node_put)
  have b: "bml_ok dead n' bml" using assms(3) by (simp add: n'_def bml_ok_def put_comm_def)
  have c: "comms n' c = Some comm'" by (simp add: n'_def put_comm_def)
  from bmg_notifies [OF m c l(3) b l(4)] l(1) c that show ?thesis unfolding n'_def by metis
qed

lemma revoke_internal_fresh:
  assumes "member_node ctx ep k names me c n" "\<not> revoked n c" "bml_ok dead n bml"
  obtains n' out where "ompi_comm_revoke_internal bml n c = Some (OMPI_SUCCESS, n', out)"
    "learns ctx ep k names me c dead n' out"
proof -
  from learn_step [OF assms] obtain n' comm out out' where l:
    "ompi_comm_revoke_local n c = Some (True, n', out)" "comms n' c = Some comm"
    "ompi_comm_rbcast_bmg bml n' comm (rev_msg ctx ep k) = Some (OMPI_SUCCESS, out')"
    "learns ctx ep k names me c dead n' (out @ out')" .
  then have "c_contextid comm = ctx" "c_epoch comm = ep" "revoke_cb_type n' = int k" "rbcast n' = Rbcast_bmg"
    by (auto simp: member_node_def learns_def)
  with l show ?thesis
    by (intro that [of n' "out @ out'"]) (simp_all add: ompi_comm_revoke_internal_def rev_msg_def)
qed

lemma revoke_internal_again:
  assumes "member_node ctx ep k names me c n" "revoked n c"
  shows "ompi_comm_revoke_internal bml n c = Some (OMPI_SUCCESS, n, [])"
  using assms by (auto simp: member_node_def revoked_def ompi_comm_revoke_internal_def revoke_local_again)

text \<open>The first part of the receive callback, up to the call of the registered function.\<close>

lemma recv_dispatch:
  assumes "member_node ctx ep k names me c n" "cid msg = ctx" "epoch msg = ep"
    "msg_type msg = word_of_int (int k)"
  shows "ompi_comm_rbcast_bml_recv_cb env n msg =
    do { (again, n, out) \<leftarrow> ompi_comm_revoke_local n c;
         if again then do {
           comm \<leftarrow> comms n c;
           (_, out') \<leftarrow> run_rbcast (rbcast_fw n) (e_bml env) n comm msg;
           Some (n, out @ out') }
         else Some (n, out) }"
proof -
  have "uint (word_of_int (int k) :: 8 word) = int k"
    using assms(1) by (simp add: member_node_def unsigned_of_nat take_bit_nat_eq_self)
  with assms show ?thesis by (auto simp: ompi_comm_rbcast_bml_recv_cb_def member_node_def)
qed

lemma recv_fresh:
  assumes "member_node ctx ep k names me c n" "\<not> revoked n c" "bml_ok dead n (e_bml env)"
  obtains n' out where "ompi_comm_rbcast_bml_recv_cb env n (rev_msg ctx ep k) = Some (n', out)"
    "learns ctx ep k names me c dead n' out"
proof -
  from learn_step [OF assms] obtain n' comm out out' where l:
    "ompi_comm_revoke_local n c = Some (True, n', out)" "comms n' c = Some comm"
    "ompi_comm_rbcast_bmg (e_bml env) n' comm (rev_msg ctx ep k) = Some (OMPI_SUCCESS, out')"
    "learns ctx ep k names me c dead n' (out @ out')" .
  then have "rbcast_fw n' = Rbcast_bmg" by (simp add: member_node_def learns_def)
  with l show ?thesis
    by (intro that [of n' "out @ out'"]) (simp_all add: recv_dispatch [OF assms(1)] rev_msg_def)
qed

lemma recv_again:
  assumes "member_node ctx ep k names me c n" "revoked n c"
  shows "ompi_comm_rbcast_bml_recv_cb env n (rev_msg ctx ep k) = Some (n, [])"
proof -
  have "ompi_comm_revoke_local n c = Some (False, n, [])"
    using assms by (auto simp: member_node_def revoked_def revoke_local_again)
  then show ?thesis by (simp add: recv_dispatch [OF assms(1)] rev_msg_def)
qed

lemma recv_stale:
  assumes "member_node ctx ep k names me c n" "cid msg = ctx" "epoch msg \<noteq> ep"
  shows "ompi_comm_rbcast_bml_recv_cb env n msg = Some (n, [])"
  using assms by (auto simp: ompi_comm_rbcast_bml_recv_cb_def member_node_def)

end
