(* ===== verification/Revoke_Protocol.thy ===== *)
theory Revoke_Protocol
  imports Comm_FT_Correct "HOL-Library.Multiset"
begin

text \<open>
  The processes of one communicator together: every process runs the handlers of
  \<^verbatim>\<open>comm_ft_revoke.c\<close> and \<^verbatim>\<open>comm_ft_reliable_bcast.c\<close> on its own state, and the
  messages between them are in transit in no particular order. A process may stop at any time,
  and messages it sent and that have not arrived may be lost with it.
\<close>

section \<open>The system\<close>

record net =
  nodes :: "orte_process_name_t \<Rightarrow> ft_node"
  dead :: "orte_process_name_t set"
  transit :: "(orte_process_name_t \<times> orte_process_name_t \<times> ompi_comm_rbcast_message_t) multiset"

definition posted ::
  "orte_process_name_t \<Rightarrow> effect list \<Rightarrow>
   (orte_process_name_t \<times> orte_process_name_t \<times> ompi_comm_rbcast_message_t) multiset" where
  "posted p out = mset (map (Pair p) (sends out))"

text \<open>The steps: a process calls \<^verbatim>\<open>MPI_Comm_revoke\<close> on a communicator that is not revoked
  yet (on a revoked one the call does nothing), a process handles a message, a process stops, a
  message to a stopped process disappears. \<open>at p\<close> is the address of the communicator in
  the memory of \<open>p\<close>.\<close>

datatype label = Call orte_process_name_t | Handle orte_process_name_t | Stop orte_process_name_t | Vanish

inductive net_step ::
  "(orte_process_name_t \<Rightarrow> ptr) \<Rightarrow> orte_process_name_t set \<Rightarrow> label \<Rightarrow> net \<Rightarrow> net \<Rightarrow> bool"
  for at members where
  revoke: "p \<in> members \<Longrightarrow> p \<notin> dead w \<Longrightarrow> \<not> revoked (nodes w p) (at p) \<Longrightarrow>
    bml_ok (dead w) (nodes w p) bml \<Longrightarrow>
    ompi_comm_revoke_internal bml (nodes w p) (at p) = Some (ret, n', out) \<Longrightarrow>
    net_step at members (Call p) w
      (w\<lparr>nodes := (nodes w)(p := n'), transit := transit w + posted p out\<rparr>)"
| deliver: "(src, p, msg) \<in># transit w \<Longrightarrow> p \<notin> dead w \<Longrightarrow> bml_ok (dead w) (nodes w p) (e_bml env) \<Longrightarrow>
    ompi_comm_rbcast_bml_recv_cb env (nodes w p) msg = Some (n', out) \<Longrightarrow>
    net_step at members (Handle p) w (w\<lparr>nodes := (nodes w)(p := n'),
      transit := transit w - {#(src, p, msg)#} + posted p out\<rparr>)"
| crash: "p \<in> members \<Longrightarrow> p \<notin> dead w \<Longrightarrow> lost \<subseteq># transit w \<Longrightarrow> (\<forall>(src, d, m) \<in># lost. src = p) \<Longrightarrow>
    net_step at members (Stop p) w (w\<lparr>dead := insert p (dead w), transit := transit w - lost\<rparr>)"
| vanish: "(src, p, msg) \<in># transit w \<Longrightarrow> p \<in> dead w \<Longrightarrow>
    net_step at members Vanish w (w\<lparr>transit := transit w - {#(src, p, msg)#}\<rparr>)"

section \<open>The invariant\<close>

text \<open>Late messages for an earlier communicator with the same number may be in transit; they
  carry another epoch.\<close>

definition net_start ::
  "32 word \<Rightarrow> 32 word \<Rightarrow> nat \<Rightarrow> orte_process_name_t list \<Rightarrow> (orte_process_name_t \<Rightarrow> ptr) \<Rightarrow> net \<Rightarrow> bool" where
  "net_start ctx ep k names at w \<longleftrightarrow> distinct names \<and>
     (\<forall>i < length names. member_node ctx ep k names i (at (names ! i)) (nodes w (names ! i))) \<and>
     (\<forall>p \<in> set names. \<not> revoked (nodes w p) (at p)) \<and>
     (\<forall>(src, d, m) \<in># transit w. d \<in> set names \<and> cid m = ctx \<and> epoch m \<noteq> ep)"

definition net_inv ::
  "32 word \<Rightarrow> 32 word \<Rightarrow> nat \<Rightarrow> orte_process_name_t list \<Rightarrow> (orte_process_name_t \<Rightarrow> ptr) \<Rightarrow> net \<Rightarrow> bool" where
  "net_inv ctx ep k names at w \<longleftrightarrow> distinct names \<and>
     (\<forall>i < length names. member_node ctx ep k names i (at (names ! i)) (nodes w (names ! i))) \<and>
     (\<forall>(src, d, m) \<in># transit w. d \<in> set names \<and> cid m = ctx \<and>
        (epoch m \<noteq> ep \<or> m = rev_msg ctx ep k \<and> (\<exists>p \<in> set names. revoked (nodes w p) (at p)))) \<and>
     (\<forall>i < length names. names ! i \<notin> dead w \<longrightarrow> revoked (nodes w (names ! i)) (at (names ! i)) \<longrightarrow>
        (\<forall>j \<in> set (neighbours (length names) i). names ! j \<in> dead w \<or>
           revoked (nodes w (names ! j)) (at (names ! j)) \<or>
           (names ! i, names ! j, rev_msg ctx ep k) \<in># transit w))"

lemma net_start_inv: "net_start ctx ep k names at w \<Longrightarrow> net_inv ctx ep k names at w"
  unfolding net_start_def net_inv_def by auto

lemmas net_invD = net_inv_def [THEN iffD1, THEN conjunct1]
  net_inv_def [THEN iffD1, THEN conjunct2, THEN conjunct1]
  net_inv_def [THEN iffD1, THEN conjunct2, THEN conjunct2, THEN conjunct1]
  net_inv_def [THEN iffD1, THEN conjunct2, THEN conjunct2, THEN conjunct2]

text \<open>The state after the process at position \<open>i\<close> has learned of the revocation; a message
  for it may have been consumed.\<close>

lemma learns_inv:
  assumes inv: "net_inv ctx ep k names at w" and i: "i < length names"
    and l: "learns ctx ep k names i (at (names ! i)) (dead w) n' out"
    and t: "t \<subseteq># transit w" "\<forall>(src, d, m) \<in># transit w - t. d = names ! i"
  shows "net_inv ctx ep k names at
    (w\<lparr>nodes := (nodes w)(names ! i := n'), transit := t + posted (names ! i) out\<rparr>)"
proof -
  let ?w = "w\<lparr>nodes := (nodes w)(names ! i := n'), transit := t + posted (names ! i) out\<rparr>"
  let ?p = "names ! i"
  have d: "distinct names" and p: "?p \<in> set names" using net_invD(1) [OF inv] i by auto
  have rp: "revoked n' (at ?p)" using l by (simp add: learns_def)
  have up: "revoked (nodes ?w q) (at q)" if "revoked (nodes w q) (at q)" for q
    using that rp by simp
  have post: "x \<in># posted ?p out \<longleftrightarrow> (\<exists>d m. x = (?p, d, m) \<and> (d, m) \<in> set (sends out))" for x
    by (auto simp: posted_def)
  have member: "member_node ctx ep k names j (at (names ! j)) (nodes ?w (names ! j))"
    if "j < length names" for j
    using that net_invD(2) [OF inv] l d i by (auto simp: learns_def nth_eq_iff_index_eq)
  have msgs: "d \<in> set names \<and> cid m = ctx \<and>
      (epoch m \<noteq> ep \<or> m = rev_msg ctx ep k \<and> (\<exists>p \<in> set names. revoked (nodes ?w p) (at p)))"
    if "(src, d, m) \<in># transit ?w" for src d m
  proof (cases "(src, d, m) \<in># t")
    case True
    then have "(src, d, m) \<in># transit w" using t(1) by (meson mset_subset_eqD)
    from bspec [OF net_invD(3) [OF inv] this] p rp show ?thesis by auto
  next
    case False
    with that have "(d, m) \<in> set (sends out)" by (auto simp: post)
    with l p rp show ?thesis by (auto simp: learns_def rev_msg_def)
  qed
  have closed: "names ! j \<in> dead ?w \<or> revoked (nodes ?w (names ! j)) (at (names ! j)) \<or>
      (names ! q, names ! j, rev_msg ctx ep k) \<in># transit ?w"
    if q: "q < length names" "names ! q \<notin> dead ?w" "revoked (nodes ?w (names ! q)) (at (names ! q))"
      "j \<in> set (neighbours (length names) q)" for q j
  proof (cases "q = i")
    case True
    with l q(4) show ?thesis by (auto simp: learns_def post)
  next
    case False
    with q i d have "revoked (nodes w (names ! q)) (at (names ! q))" by (auto simp: nth_eq_iff_index_eq)
    with q net_invD(4) [OF inv] have "names ! j \<in> dead w \<or> revoked (nodes w (names ! j)) (at (names ! j)) \<or>
      (names ! q, names ! j, rev_msg ctx ep k) \<in># transit w" by auto
    moreover have "(names ! q, names ! j, rev_msg ctx ep k) \<in># t \<or> names ! j = ?p"
      if "(names ! q, names ! j, rev_msg ctx ep k) \<in># transit w"
      using t that by (metis (mono_tags, lifting) case_prodD diff_union_cancelL subset_mset.add_diff_inverse union_iff)
    ultimately show ?thesis using up [of "names ! j"] rp by auto
  qed
  show ?thesis unfolding net_inv_def using d member msgs closed by blast
qed

text \<open>A step tells a live process of the revocation (by a call or by a message), or only
  removes a message, or is the end of a process.\<close>

definition spreads ::
  "32 word \<Rightarrow> 32 word \<Rightarrow> nat \<Rightarrow> orte_process_name_t list \<Rightarrow> (orte_process_name_t \<Rightarrow> ptr) \<Rightarrow>
   label \<Rightarrow> net \<Rightarrow> net \<Rightarrow> bool" where
  "spreads ctx ep k names at l w w' \<longleftrightarrow>
     (\<exists>i < length names. \<exists>n' out t. names ! i \<notin> dead w \<and> \<not> revoked (nodes w (names ! i)) (at (names ! i)) \<and>
        learns ctx ep k names i (at (names ! i)) (dead w) n' out \<and>
        (l = Call (names ! i) \<and> t = transit w \<or>
         l = Handle (names ! i) \<and> (\<exists>src. (src, names ! i, rev_msg ctx ep k) \<in># transit w \<and>
           t = transit w - {#(src, names ! i, rev_msg ctx ep k)#})) \<and>
        w' = w\<lparr>nodes := (nodes w)(names ! i := n'), transit := t + posted (names ! i) out\<rparr>)"

definition discards ::
  "32 word \<Rightarrow> (orte_process_name_t \<Rightarrow> ptr) \<Rightarrow> label \<Rightarrow> net \<Rightarrow> net \<Rightarrow> bool" where
  "discards ep at l w w' \<longleftrightarrow> (\<exists>src d m. (src, d, m) \<in># transit w \<and> (l = Handle d \<or> l = Vanish) \<and>
     (d \<in> dead w \<or> revoked (nodes w d) (at d) \<or> epoch m \<noteq> ep) \<and>
     w' = w\<lparr>transit := transit w - {#(src, d, m)#}\<rparr>)"

definition crashes :: "orte_process_name_t set \<Rightarrow> label \<Rightarrow> net \<Rightarrow> net \<Rightarrow> bool" where
  "crashes members l w w' \<longleftrightarrow> (\<exists>p \<in> members. \<exists>lost. l = Stop p \<and> p \<notin> dead w \<and> lost \<subseteq># transit w \<and>
     (\<forall>(src, d, m) \<in># lost. src = p) \<and>
     w' = w\<lparr>dead := insert p (dead w), transit := transit w - lost\<rparr>)"

lemma nodes_same [simp]: "w\<lparr>nodes := (nodes w)(p := nodes w p), transit := t\<rparr> = w\<lparr>transit := t\<rparr>"
  by simp

lemma posted_Nil [simp]: "posted p [] = {#}"
  by (simp add: posted_def)

lemma net_step_cases:
  assumes inv: "net_inv ctx ep k names at w" and step: "net_step at (set names) l w w'"
  shows "spreads ctx ep k names at l w w' \<or> discards ep at l w w' \<or> crashes (set names) l w w'"
  using step
proof (cases rule: net_step.cases)
  case (revoke p bml ret n' out)
  then obtain i where i: "i < length names" "p = names ! i" by (auto simp: in_set_conv_nth)
  note m = net_invD(2) [OF inv, rule_format, OF i(1)]
  obtain n1 out1 where r: "ompi_comm_revoke_internal bml (nodes w p) (at p) = Some (OMPI_SUCCESS, n1, out1)"
    "learns ctx ep k names i (at (names ! i)) (dead w) n1 out1"
    using revoke_internal_fresh [OF m] revoke i(2) by metis
  with revoke i have "spreads ctx ep k names at l w w'"
    unfolding spreads_def by (intro exI [of _ i] conjI exI [of _ n'] exI [of _ out] exI [of _ "transit w"]) auto
  then show ?thesis by simp
next
  case (deliver src p msg env n' out)
  from bspec [OF net_invD(3) [OF inv] deliver(3)]
  have msg: "p \<in> set names" "cid msg = ctx" "epoch msg \<noteq> ep \<or> msg = rev_msg ctx ep k" by auto
  then obtain i where i: "i < length names" "p = names ! i" by (auto simp: in_set_conv_nth)
  note m = net_invD(2) [OF inv, rule_format, OF i(1)]
  show ?thesis
  proof (cases "epoch msg \<noteq> ep \<or> revoked (nodes w p) (at p)")
    case True
    have "ompi_comm_rbcast_bml_recv_cb env (nodes w p) msg = Some (nodes w p, [])"
    proof (cases "epoch msg = ep")
      case True
      with msg \<open>epoch msg \<noteq> ep \<or> revoked (nodes w p) (at p)\<close> show ?thesis
        using recv_again [OF m] i(2) by auto
    next
      case False
      with recv_stale [OF m msg(2)] i(2) show ?thesis by simp
    qed
    with deliver have "n' = nodes w p" "out = []" by auto
    with deliver(2) have "w' = w\<lparr>transit := transit w - {#(src, p, msg)#}\<rparr>" by simp
    with True deliver(1,3) show ?thesis unfolding discards_def by blast
  next
    case False
    with msg have e: "msg = rev_msg ctx ep k" "\<not> revoked (nodes w p) (at p)" by auto
    obtain n1 out1 where r: "ompi_comm_rbcast_bml_recv_cb env (nodes w p) msg = Some (n1, out1)"
      "learns ctx ep k names i (at (names ! i)) (dead w) n1 out1"
      using recv_fresh [OF m] deliver e i(2) by metis
    with deliver r e i have "spreads ctx ep k names at l w w'"
      unfolding spreads_def
      by (intro exI [of _ i] conjI exI [of _ n'] exI [of _ out] exI [of _ "transit w - {#(src, p, msg)#}"]) auto
    then show ?thesis by simp
  qed
next
  case (crash p lost)
  then show ?thesis unfolding crashes_def by blast
next
  case (vanish src p msg)
  then show ?thesis unfolding discards_def by blast
qed

lemma net_inv_fewer:
  assumes inv: "net_inv ctx ep k names at w" and same: "nodes w' = nodes w" "dead w \<subseteq> dead w'"
    and sub: "\<And>y. y \<in># transit w' \<Longrightarrow> y \<in># transit w"
    and keep: "\<And>i j. (names ! i, names ! j, rev_msg ctx ep k) \<in># transit w \<Longrightarrow> names ! i \<notin> dead w' \<Longrightarrow>
      (names ! i, names ! j, rev_msg ctx ep k) \<in># transit w' \<or> names ! j \<in> dead w' \<or>
      revoked (nodes w (names ! j)) (at (names ! j))"
  shows "net_inv ctx ep k names at w'"
proof -
  have "names ! j \<in> dead w' \<or> revoked (nodes w' (names ! j)) (at (names ! j)) \<or>
      (names ! i, names ! j, rev_msg ctx ep k) \<in># transit w'"
    if "i < length names" "names ! i \<notin> dead w'" "revoked (nodes w' (names ! i)) (at (names ! i))"
      "j \<in> set (neighbours (length names) i)" for i j
  proof -
    have "names ! i \<notin> dead w" "revoked (nodes w (names ! i)) (at (names ! i))" using that same by auto
    with net_invD(4) [OF inv] that(1,4) have "names ! j \<in> dead w \<or>
      revoked (nodes w (names ! j)) (at (names ! j)) \<or>
      (names ! i, names ! j, rev_msg ctx ep k) \<in># transit w" by blast
    with keep [OF _ that(2)] same show ?thesis by auto
  qed
  moreover have "\<forall>x \<in># transit w'. case x of (src, d, m) \<Rightarrow> d \<in> set names \<and> cid m = ctx \<and>
      (epoch m \<noteq> ep \<or> m = rev_msg ctx ep k \<and> (\<exists>p \<in> set names. revoked (nodes w' p) (at p)))"
    using net_invD(3) [OF inv] sub same(1) by simp
  ultimately show ?thesis unfolding net_inv_def using net_invD(1,2) [OF inv] same(1) by simp
qed

lemma net_inv_step:
  assumes inv: "net_inv ctx ep k names at w" and step: "net_step at (set names) l w w'"
  shows "net_inv ctx ep k names at w'"
proof -
  consider "spreads ctx ep k names at l w w'" | "discards ep at l w w'" | "crashes (set names) l w w'"
    using net_step_cases [OF assms] by blast
  then show ?thesis
  proof cases
    case 1
    then obtain i n' out t where x: "i < length names"
      "learns ctx ep k names i (at (names ! i)) (dead w) n' out"
      "t = transit w \<or> (\<exists>src. (src, names ! i, rev_msg ctx ep k) \<in># transit w \<and>
         t = transit w - {#(src, names ! i, rev_msg ctx ep k)#})"
      "w' = w\<lparr>nodes := (nodes w)(names ! i := n'), transit := t + posted (names ! i) out\<rparr>"
      unfolding spreads_def by blast
    have "t \<subseteq># transit w" "\<forall>(src, d, m) \<in># transit w - t. d = names ! i"
      using x(3) by (auto simp: insert_subset_eq_iff subset_mset.diff_diff_right)
    with learns_inv [OF inv x(1,2)] x(4) show ?thesis by simp
  next
    case 2
    then obtain src d m where x: "(src, d, m) \<in># transit w"
      "d \<in> dead w \<or> revoked (nodes w d) (at d) \<or> epoch m \<noteq> ep"
      "w' = w\<lparr>transit := transit w - {#(src, d, m)#}\<rparr>" unfolding discards_def by blast
    have sub: "y \<in># transit w' \<Longrightarrow> y \<in># transit w" for y using x(3) by (auto dest: in_diffD)
    have keep: "(names ! i, names ! j, rev_msg ctx ep k) \<in># transit w' \<or> names ! j \<in> dead w \<or>
        revoked (nodes w (names ! j)) (at (names ! j))"
      if "(names ! i, names ! j, rev_msg ctx ep k) \<in># transit w" for i j
    proof (cases "(names ! i, names ! j, rev_msg ctx ep k) = (src, d, m)")
      case True
      with x(2) show ?thesis by (auto simp: rev_msg_def)
    next
      case False
      with that x(3) show ?thesis by (auto simp: in_diff_count)
    qed
    show ?thesis by (rule net_inv_fewer [OF inv]) (use x(3) sub keep in auto)
  next
    case 3
    then obtain p lost where x: "p \<in> set names" "lost \<subseteq># transit w" "\<forall>(src, d, m) \<in># lost. src = p"
      "w' = w\<lparr>dead := insert p (dead w), transit := transit w - lost\<rparr>" unfolding crashes_def by blast
    have sub: "y \<in># transit w' \<Longrightarrow> y \<in># transit w" for y using x(4) by (auto dest: in_diffD)
    have keep: "(q, d, m) \<in># transit w'" if "(q, d, m) \<in># transit w" "q \<noteq> p" for q d m
    proof -
      have "(q, d, m) \<notin># lost" using x(3) that(2) by auto
      with that(1) x(4) show ?thesis by (simp add: in_diff_count not_in_iff)
    qed
    show ?thesis by (rule net_inv_fewer [OF inv]) (use x(4) sub keep in auto)
  qed
qed

section \<open>The specification\<close>

text \<open>What the processes agree on: a set of processes that know of the revocation. It starts with
  a call; afterwards any live process may learn of it, and nobody forgets it.\<close>

inductive revoke_spec ::
  "orte_process_name_t set \<Rightarrow> label \<Rightarrow> orte_process_name_t set \<times> orte_process_name_t set \<Rightarrow>
   orte_process_name_t set \<times> orte_process_name_t set \<Rightarrow> bool"
  for members where
  call: "p \<in> members \<Longrightarrow> p \<notin> D \<Longrightarrow> revoke_spec members (Call p) (R, D) (insert p R, D)"
| learn: "p \<in> members \<Longrightarrow> p \<notin> D \<Longrightarrow> R \<noteq> {} \<Longrightarrow> revoke_spec members (Handle p) (R, D) (insert p R, D)"
| ignore: "revoke_spec members (Handle p) (R, D) (R, D)"
| stop: "p \<in> members \<Longrightarrow> p \<notin> D \<Longrightarrow> revoke_spec members (Stop p) (R, D) (R, insert p D)"
| lose: "revoke_spec members Vanish (R, D) (R, D)"

definition knowing ::
  "orte_process_name_t list \<Rightarrow> (orte_process_name_t \<Rightarrow> ptr) \<Rightarrow> net \<Rightarrow>
   orte_process_name_t set \<times> orte_process_name_t set" where
  "knowing names at w = ({p \<in> set names. revoked (nodes w p) (at p)}, dead w)"

lemma spreads_knowing:
  assumes "net_inv ctx ep k names at w" "spreads ctx ep k names at l w w'"
  obtains p where "p \<in> set names" "p \<notin> dead w" "\<not> revoked (nodes w p) (at p)"
    "l = Call p \<or> l = Handle p \<and> fst (knowing names at w) \<noteq> {}"
    "knowing names at w' = (insert p (fst (knowing names at w)), dead w)"
    "size (transit w') \<le> size (transit w) + length (bmg_offsets (int (length names)) 1)"
proof -
  from assms(2) obtain i n' out t where x: "i < length names" "names ! i \<notin> dead w"
    "\<not> revoked (nodes w (names ! i)) (at (names ! i))"
    "learns ctx ep k names i (at (names ! i)) (dead w) n' out"
    "l = Call (names ! i) \<and> t = transit w \<or>
     l = Handle (names ! i) \<and> (\<exists>src. (src, names ! i, rev_msg ctx ep k) \<in># transit w \<and>
       t = transit w - {#(src, names ! i, rev_msg ctx ep k)#})"
    "w' = w\<lparr>nodes := (nodes w)(names ! i := n'), transit := t + posted (names ! i) out\<rparr>"
    unfolding spreads_def by blast
  have "\<exists>p \<in> set names. revoked (nodes w p) (at p)" if "(src, d, rev_msg ctx ep k) \<in># transit w" for src d
    using bspec [OF net_invD(3) [OF assms(1)] that] by (auto simp: rev_msg_def)
  then have "l = Call (names ! i) \<or> l = Handle (names ! i) \<and> fst (knowing names at w) \<noteq> {}"
    using x(5) by (auto simp: knowing_def)
  moreover have "knowing names at w' = (insert (names ! i) (fst (knowing names at w)), dead w)"
    using x(1,4,6) by (auto simp: knowing_def learns_def)
  moreover have "size t \<le> size (transit w)" using x(5) by (auto simp: size_Diff_singleton)
  then have "size (transit w') \<le> size (transit w) + length (bmg_offsets (int (length names)) 1)"
    using x(4,6) by (simp add: posted_def learns_def)
  ultimately show ?thesis using that [of "names ! i"] x(1-3) by simp
qed

lemma net_step_spec:
  assumes "net_inv ctx ep k names at w" "net_step at (set names) l w w'"
  shows "revoke_spec (set names) l (knowing names at w) (knowing names at w')"
proof -
  consider "spreads ctx ep k names at l w w'" | "discards ep at l w w'" | "crashes (set names) l w w'"
    using net_step_cases [OF assms] by blast
  then show ?thesis
  proof cases
    case 1
    from spreads_knowing [OF assms(1) this] obtain p where "p \<in> set names" "p \<notin> dead w"
      "l = Call p \<or> l = Handle p \<and> fst (knowing names at w) \<noteq> {}"
      "knowing names at w' = (insert p (fst (knowing names at w)), dead w)" by metis
    then show ?thesis by (auto simp: knowing_def intro: revoke_spec.intros)
  next
    case 2
    then show ?thesis by (auto simp: discards_def knowing_def intro: revoke_spec.intros)
  next
    case 3
    then show ?thesis by (auto simp: crashes_def knowing_def intro: revoke_spec.intros)
  qed
qed

text \<open>The number of steps that are left: each process can learn once, and then posts a message
  per offset of the graph; each message is handled or lost once; each process stops once.\<close>

definition net_budget :: "orte_process_name_t list \<Rightarrow> (orte_process_name_t \<Rightarrow> ptr) \<Rightarrow> net \<Rightarrow> nat" where
  "net_budget names at w =
     (length (bmg_offsets (int (length names)) 1) + 1) * card (set names - fst (knowing names at w)) +
     size (transit w) + card (set names - dead w)"

lemma net_step_budget:
  assumes "net_inv ctx ep k names at w" "net_step at (set names) l w w'"
  shows "net_budget names at w' < net_budget names at w"
proof -
  consider "spreads ctx ep k names at l w w'" | "discards ep at l w w'" | "crashes (set names) l w w'"
    using net_step_cases [OF assms] by blast
  then show ?thesis
  proof cases
    case 1
    let ?D = "length (bmg_offsets (int (length names)) 1)" and ?R = "fst (knowing names at w)"
    from spreads_knowing [OF assms(1) 1] obtain p where p: "p \<in> set names" "p \<notin> ?R"
      "knowing names at w' = (insert p ?R, dead w)" "size (transit w') \<le> size (transit w) + ?D"
      by (metis (mono_tags, lifting) fst_conv knowing_def mem_Collect_eq)
    have d: "dead w' = dead w" using p(3) by (simp add: knowing_def)
    have "set names - insert p ?R = (set names - ?R) - {p}" by auto
    then have "card (set names - ?R) = Suc (card (set names - insert p ?R))"
      using p(1,2) by (metis DiffI card.remove finite_Diff finite_set)
    with p(3,4) d show ?thesis by (simp add: net_budget_def)
  next
    case 2
    then obtain src d m where x: "(src, d, m) \<in># transit w"
      "w' = w\<lparr>transit := transit w - {#(src, d, m)#}\<rparr>" unfolding discards_def by blast
    then have "size (transit w') < size (transit w)" "knowing names at w' = knowing names at w"
      "dead w' = dead w" by (auto simp: knowing_def size_Diff1_less)
    then show ?thesis by (simp add: net_budget_def)
  next
    case 3
    then obtain p lost where x: "p \<in> set names" "p \<notin> dead w" "lost \<subseteq># transit w"
      "w' = w\<lparr>dead := insert p (dead w), transit := transit w - lost\<rparr>" unfolding crashes_def by blast
    have "set names - insert p (dead w) \<subset> set names - dead w" using x(1,2) by auto
    then have "card (set names - insert p (dead w)) < card (set names - dead w)"
      by (simp add: psubset_card_mono)
    moreover have "size (transit w') \<le> size (transit w)" using x(4) by (simp add: size_mset_mono)
    moreover have "fst (knowing names at w') = fst (knowing names at w)" using x(4) by (simp add: knowing_def)
    ultimately show ?thesis using x(4) by (simp add: net_budget_def)
  qed
qed

interpretation net: terminating "net_step at (set names)" "revoke_spec (set names)" "knowing names at"
  "net_inv ctx ep k names at" "net_budget names at" for at names ctx ep k
  by unfold_locales (rule net_inv_step net_step_spec net_step_budget; assumption)+

section \<open>Connectivity\<close>

text \<open>The position \<open>m\<close> steps along the ring in direction \<open>d\<close>.\<close>

definition along :: "nat \<Rightarrow> int \<Rightarrow> nat \<Rightarrow> nat \<Rightarrow> nat" where
  "along np d i m = nat ((int i + d * int m) mod int np)"

lemma along_less: "0 < np \<Longrightarrow> along np d i m < np"
  by (simp add: along_def nat_less_iff)

lemma along_0: "i < np \<Longrightarrow> along np d i 0 = i"
  by (simp add: along_def nat_mod_as_int)

lemma along_neighbour:
  assumes "2 \<le> np" "d = 1 \<or> d = - 1"
  shows "along np d i (Suc m) \<in> set (neighbours np (along np d i m))"
proof -
  have "(int (along np d i m) + d) mod int np = (int i + d * int (Suc m)) mod int np"
    using assms(1) by (simp add: along_def algebra_simps mod_simps)
  moreover have "d \<in> set (bmg_offsets (int np) 1)" using bmg_offsets_one [of "int np"] assms by auto
  ultimately show ?thesis
    unfolding neighbours_def along_def [of np d i "Suc m"] set_map by (metis (no_types, lifting) image_eqI)
qed

lemma along_closed:
  assumes "2 \<le> np" "d = 1 \<or> d = - 1" "i < np" "i \<in> R"
    and closed: "\<And>i j. i < np \<Longrightarrow> i \<notin> F \<Longrightarrow> i \<in> R \<Longrightarrow> j \<in> set (neighbours np i) \<Longrightarrow> j \<in> F \<or> j \<in> R"
    and path: "\<forall>t \<le> m. along np d i t \<notin> F"
  shows "along np d i m \<in> R"
  using path
proof (induction m)
  case 0
  then show ?case using assms by (simp add: along_0)
next
  case (Suc m)
  then have "along np d i m \<in> R" "along np d i m \<notin> F" by auto
  moreover have "along np d i m < np" using along_less assms(1) by simp
  ultimately show ?case using closed along_neighbour [OF assms(1,2)] Suc.prems by blast
qed

text \<open>Without the processes of \<open>F\<close>, at most one, the ring stays connected.\<close>

lemma ring_connected:
  assumes i: "i < np" "i \<notin> F" "i \<in> R" and j: "j < np" "j \<notin> F" and F: "F \<subseteq> {f}"
    and closed: "\<And>i j. i < np \<Longrightarrow> i \<notin> F \<Longrightarrow> i \<in> R \<Longrightarrow> j \<in> set (neighbours np i) \<Longrightarrow> j \<in> F \<or> j \<in> R"
  shows "j \<in> R"
proof (cases "i = j")
  case False
  then have np: "2 \<le> np" using i j by linarith
  define m where "m = nat ((int j - int i) mod int np)"
  have m: "int m = (int j - int i) mod int np" "m < np" using np by (auto simp: m_def nat_less_iff)
  have fwd: "along np 1 i m = j" using m(1) j(1) by (simp add: along_def mod_simps)
  have bwd: "along np (- 1) i (np - m) = j"
  proof -
    have "(int i + - 1 * int (np - m)) mod int np = (int i + int m - int np) mod int np"
      using m(2) by (simp add: of_nat_diff algebra_simps)
    also have "\<dots> = (int i + int m) mod int np" by simp
    also have "\<dots> = int j" using m(1) j(1) by (simp add: mod_simps)
    finally show ?thesis by (simp add: along_def)
  qed
  show ?thesis
  proof (cases "\<forall>t \<le> m. along np 1 i t \<notin> F")
    case True
    with along_closed [where d = 1 and m = m, OF np _ i(1,3) closed] fwd show ?thesis by auto
  next
    case False
    then obtain t where t: "t \<le> m" "along np 1 i t = f" "f \<in> F" using F by blast
    with fwd j(2) have "t < m" by (metis le_neq_implies_less)
    have "t \<noteq> 0" using t i by (metis along_0)
    have "along np (- 1) i u \<notin> F" if "u \<le> np - m" for u
    proof
      assume "along np (- 1) i u \<in> F"
      with F t have "along np (- 1) i u = along np 1 i t" by blast
      then have "(int i - int u) mod int np = (int i + int t) mod int np"
        using np by (simp add: along_def nat_eq_iff)
      then have "int np dvd (int i + int t) - (int i - int u)" by (metis mod_eq_dvd_iff)
      then have "int np dvd int (t + u)" by simp
      then have "np dvd t + u" by presburger
      then show False using that \<open>t < m\<close> \<open>t \<noteq> 0\<close> m(2) by (auto dest: dvd_imp_le)
    qed
    with along_closed [where d = "- 1" and m = "np - m", OF np _ i(1,3) closed] bwd show ?thesis by auto
  qed
qed (use i in simp)

section \<open>Progress\<close>

text \<open>A transport that accepts every message.\<close>

definition sample_bml :: bml_t where
  "sample_bml = \<lparr>bml_alloc = (\<lambda>_. True), bml_send = (\<lambda>_. 1)\<rparr>"

lemma sample_bml_ok: "bml_ok D n sample_bml"
  by (simp add: bml_ok_def sample_bml_def)

definition sample_env :: ft_env where
  "sample_env = \<lparr>e_bml = sample_bml, e_sparse = False, e_before = 0, e_hmax = 9,
     e_al_new = \<lparr>al_obj = 20, al_array = True, al_table = True\<rparr>,
     e_al_incl = (\<lambda>i. \<lparr>al_obj = 30 + nat i, al_array = True, al_table = True\<rparr>),
     e_al_set = \<lparr>al_obj = 50, al_array = True, al_table = True\<rparr>\<rparr>"

lemma handle_enabled:
  assumes inv: "net_inv ctx ep k names at w" and m: "(src, p, msg) \<in># transit w" "p \<notin> dead w"
  obtains w' where "net_step at (set names) (Handle p) w w'" "dead w' = dead w"
proof -
  from bspec [OF net_invD(3) [OF inv] m(1)]
  have msg: "p \<in> set names" "cid msg = ctx" "epoch msg \<noteq> ep \<or> msg = rev_msg ctx ep k" by auto
  then obtain i where i: "i < length names" "p = names ! i" by (auto simp: in_set_conv_nth)
  note mem = net_invD(2) [OF inv, rule_format, OF i(1), folded i(2)]
  have ok: "bml_ok (dead w) (nodes w p) (e_bml sample_env)"
    by (simp add: sample_env_def sample_bml_ok)
  have "\<exists>n' out. ompi_comm_rbcast_bml_recv_cb sample_env (nodes w p) msg = Some (n', out)"
    using recv_stale [OF mem msg(2)] recv_again [OF mem] recv_fresh [OF mem _ ok] msg(3) by metis
  with that net_step.deliver [OF m ok] show ?thesis by fastforce
qed

definition quiet :: "net \<Rightarrow> bool" where
  "quiet w \<longleftrightarrow> (\<forall>(src, d, m) \<in># transit w. d \<in> dead w)"

text \<open>When no more processes stop, all messages get handled.\<close>

lemma run_append: "run step (ls @ ls') s s' \<longleftrightarrow> (\<exists>t. run step ls s t \<and> run step ls' t s')"
  by (induction ls arbitrary: s) auto

lemma reaches_quiet:
  assumes "net_inv ctx ep k names at w"
  shows "\<exists>ls w'. run (net_step at (set names)) ls w w' \<and> quiet w' \<and> dead w' = dead w"
  using assms
proof (induction "net_budget names at w" arbitrary: w rule: less_induct)
  case less
  show ?case
  proof (cases "quiet w")
    case True
    then show ?thesis by (intro exI [of _ "[]"] exI [of _ w]) simp
  next
    case False
    then obtain src p msg where "(src, p, msg) \<in># transit w" "p \<notin> dead w" by (auto simp: quiet_def)
    with handle_enabled [OF less.prems] obtain w1 where w1:
      "net_step at (set names) (Handle p) w w1" "dead w1 = dead w" by metis
    obtain ls w' where "run (net_step at (set names)) ls w1 w'" "quiet w'" "dead w' = dead w1"
      using less.hyps [OF net_step_budget [OF less.prems w1(1)] net_inv_step [OF less.prems w1(1)]] by auto
    with w1 show ?thesis by (intro exI [of _ "Handle p # ls"] exI [of _ w']) auto
  qed
qed

lemma call_enabled:
  assumes inv: "net_inv ctx ep k names at w" and p: "p \<in> set names" "p \<notin> dead w"
    "\<not> revoked (nodes w p) (at p)"
  obtains w' where "net_step at (set names) (Call p) w w'" "dead w' = dead w" "revoked (nodes w' p) (at p)"
proof -
  from p obtain i where i: "i < length names" "p = names ! i" by (auto simp: in_set_conv_nth)
  obtain n' out where r: "ompi_comm_revoke_internal sample_bml (nodes w p) (at p) = Some (OMPI_SUCCESS, n', out)"
    "learns ctx ep k names i (at p) (dead w) n' out"
    using revoke_internal_fresh [OF net_invD(2) [OF inv, rule_format, OF i(1), folded i(2)] p(3) sample_bml_ok]
    by metis
  show ?thesis
    using that [OF net_step.revoke [where at = at, OF p sample_bml_ok r(1)]] r(2) by (simp add: learns_def)
qed

lemma spec_mono: "run (revoke_spec M) ls x y \<Longrightarrow> fst x \<subseteq> fst y \<and> snd x \<subseteq> snd y"
proof (induction ls arbitrary: x)
  case (Cons l ls)
  then obtain z where z: "revoke_spec M l x z" "run (revoke_spec M) ls z y" by auto
  from z(1) have "fst x \<subseteq> fst z \<and> snd x \<subseteq> snd z" by cases auto
  with Cons.IH [OF z(2)] show ?case by blast
qed simp

lemma spec_no_call:
  "run (revoke_spec M) ls x y \<Longrightarrow> fst x = {} \<Longrightarrow> \<forall>p. Call p \<notin> set ls \<Longrightarrow> fst y = {}"
proof (induction ls arbitrary: x)
  case (Cons l ls)
  then obtain z where z: "revoke_spec M l x z" "run (revoke_spec M) ls z y" by auto
  from z(1) Cons.prems(2,3) have "fst z = {}" by cases auto
  with Cons z(2) show ?case by auto
qed simp

lemma start_knowing: "net_start ctx ep k names at w \<Longrightarrow> fst (knowing names at w) = {}"
  by (auto simp: net_start_def knowing_def)

section \<open>An example of four processes\<close>

definition sample_names :: "orte_process_name_t list" where
  "sample_names = map (\<lambda>v. \<lparr>jobid = 1, vpid = v\<rparr>) [0, 1, 2, 3]"

definition sample_comm :: ompi_communicator_t where
  "sample_comm = \<lparr>c_contextid = 0, c_epoch = 7, c_inter = False, c_local_group = 10, c_remote_group = 10,
     any_source_enabled = True, any_source_offset = 0, comm_revoked = False, coll_revoked = False,
     num_active_local = 4, num_active_remote = 4, c_pml_procs = []\<rparr>"

definition sample_node :: "int \<Rightarrow> ft_node" where
  "sample_node i =
     \<lparr>grps = \<lparr>groups = [MPI_GROUP_EMPTY \<mapsto> (dense_group 0 [] MPI_UNDEFINED)\<lparr>grp_proc_pointers := None\<rparr>,
                      10 \<mapsto> dense_group 1 [101, 102, 103, 104] i],
              proc_refs = (\<lambda>_. 5),
              f_to_c = snd (opal_pointer_array_init True opal_pointer_array_construct 0 9 4),
              all_failed_procs = MPI_GROUP_EMPTY\<rparr>,
      procs = (\<lambda>p. if 101 \<le> p \<and> p \<le> 104
               then Some \<lparr>proc_name = sample_names ! (p - 101), proc_active = True\<rparr> else None),
      proc_list = [101, 102, 103, 104], proc_local_proc = 101 + nat i,
      comms = [5 \<mapsto> sample_comm],
      mpi_communicators = \<lparr>lowest_free = 1, highest_taken = 0, number_free = 3, pa_size = 4,
        max_size = 9, block_size = 4, addr = Some [5, 0, 0, 0]\<rparr>,
      mpi_comm_world = 5, rank_failure_cbfunc = False, rbcast = Rbcast_bmg, rbcast_fw = Rbcast_bmg,
      rbcast_cb = [Some Revoke_local, Some Failure_propagate_local, None, None, None, None, None, None],
      rbcast_listener_started = True, revoke_cb_type = 0, propagate_cb_type = 1\<rparr>"

definition sample_net :: net where
  "sample_net = \<lparr>nodes = (\<lambda>p. sample_node (uint (vpid p))), dead = {},
     transit = {#(sample_names ! 0, sample_names ! 1, \<lparr>cid = 0, epoch = 6, msg_type = 0, payload = None\<rparr>)#}\<rparr>"

abbreviation sample_at :: "orte_process_name_t \<Rightarrow> ptr" where
  "sample_at \<equiv> \<lambda>_. 5"

lemma sample_member:
  assumes "i < 4"
  shows "member_node 0 7 0 sample_names i 5 (sample_node (int i))"
proof -
  have d: "denotes (grps (sample_node (int i))) 10 [101, 102, 103, 104]"
    by (rule denotes_dense_group [where i = 1 and my = "int i"])
      (simp_all add: sample_node_def MPI_GROUP_EMPTY_def)
  have r: "ompi_group_rank (grps (sample_node (int i))) 10 = Some (int i)"
    by (simp add: ompi_group_rank_def sample_node_def MPI_GROUP_EMPTY_def)
  have "ring_view (sample_node (int i)) sample_comm sample_names i"
    unfolding ring_view_def using d r assms
    by (auto simp: sample_comm_def named_def sample_node_def sample_names_def)
  then show ?thesis
    by (simp add: member_node_def sample_node_def sample_comm_def ompi_comm_lookup_def
        opal_pointer_array_get_item_def)
qed

lemma all_less_four: "(\<forall>i < (4 :: nat). P i) \<longleftrightarrow> P 0 \<and> P 1 \<and> P 2 \<and> P 3"
  by (auto simp: numeral_eq_Suc less_Suc_eq)

lemma sample_start: "net_start 0 7 0 sample_names sample_at sample_net"
proof -
  have l: "length sample_names = 4" by (simp add: sample_names_def)
  have "\<forall>i < 4. uint (vpid (sample_names ! i)) = int i"
    unfolding all_less_four by (simp add: sample_names_def)
  then have "\<forall>i < 4. nodes sample_net (sample_names ! i) = sample_node (int i)"
    by (simp add: sample_net_def)
  then show ?thesis
    using sample_member l unfolding net_start_def
    by (auto simp: sample_net_def sample_names_def revoked_def sample_node_def sample_comm_def)
qed

section \<open>Properties\<close>

text \<open>C22: a revocation reaches every process. Take a communicator whose processes all have the
  same view of its ring, not revoked anywhere, with arbitrary late messages of earlier epochs in
  transit. After any sequence of calls of \<^verbatim>\<open>MPI_Comm_revoke\<close>, messages handled in any order
  and processes that stop, once no message to a live process is left: if one live process knows of
  the revocation, so do all live neighbours in the binomial graph and hence all processes that are
  connected to it through live processes; and if at most one process has stopped, all live
  processes know.\<close>

theorem revoke_reaches_all:
  assumes "net_start ctx ep k names at w0" "run (net_step at (set names)) ls w0 w" "quiet w"
    and i: "i < length names" "names ! i \<notin> dead w" "revoked (nodes w (names ! i)) (at (names ! i))"
  shows "(\<forall>j \<in> set (neighbours (length names) i). names ! j \<in> dead w \<or>
            revoked (nodes w (names ! j)) (at (names ! j))) \<and>
    (card (dead w \<inter> set names) \<le> 1 \<longrightarrow>
       (\<forall>p \<in> set names - dead w. revoked (nodes w p) (at p)))"
proof -
  have inv: "net_inv ctx ep k names at w"
    using net.inv_run [OF assms(2) net_start_inv [OF assms(1)]] .
  have closed: "names ! j \<in> dead w \<or> revoked (nodes w (names ! j)) (at (names ! j))"
    if "q < length names" "names ! q \<notin> dead w" "revoked (nodes w (names ! q)) (at (names ! q))"
      "j \<in> set (neighbours (length names) q)" for q j
    using net_invD(4) [OF inv] that \<open>quiet w\<close> unfolding quiet_def by fastforce
  have "revoked (nodes w p) (at p)" if one: "card (dead w \<inter> set names) \<le> 1" and p: "p \<in> set names - dead w" for p
  proof -
    define F where "F = {j. j < length names \<and> names ! j \<in> dead w}"
    define R where "R = {j. revoked (nodes w (names ! j)) (at (names ! j))}"
    obtain j where j: "j < length names" "p = names ! j" using p by (auto simp: in_set_conv_nth)
    have "(!) names ` F \<subseteq> dead w \<inter> set names" by (auto simp: F_def)
    then have "card ((!) names ` F) \<le> 1" using one by (meson card_mono finite_Int finite_set le_trans)
    moreover have "inj_on ((!) names) F"
      using net_invD(1) [OF inv] by (auto simp: F_def inj_on_def nth_eq_iff_index_eq)
    ultimately have "card F \<le> Suc 0" by (simp add: card_image)
    then have "\<forall>x \<in> F. \<forall>y \<in> F. x = y" using card_le_Suc0_iff_eq [of F] by (simp add: F_def)
    then obtain f where f: "F \<subseteq> {f}" by blast
    have "j \<in> R"
      by (rule ring_connected [of i "length names" F R j f])
        (use i j p f closed neighbours_less in \<open>auto simp: F_def R_def\<close>)
    with j show ?thesis by (simp add: R_def)
  qed
  with closed i show ?thesis by blast
qed

theorem revoke_reaches_all_witness:
  "\<exists>ls w. run (net_step sample_at (set sample_names)) ls sample_net w \<and> quiet w \<and>
     (\<forall>p \<in> set sample_names. revoked (nodes w p) 5)"
proof -
  let ?p = "sample_names ! 0"
  have p: "?p \<in> set sample_names" "0 < length sample_names" by (simp_all add: sample_names_def)
  note inv = net_start_inv [OF sample_start]
  have "?p \<notin> dead sample_net" "\<not> revoked (nodes sample_net ?p) 5"
    using sample_start p by (auto simp: net_start_def sample_net_def)
  from call_enabled [OF inv p(1) this] obtain w1 where w1:
    "net_step sample_at (set sample_names) (Call ?p) sample_net w1" "dead w1 = {}" "revoked (nodes w1 ?p) 5"
    by (auto simp: sample_net_def)
  from reaches_quiet [OF net_inv_step [OF inv w1(1)]] obtain ls w where w:
    "run (net_step sample_at (set sample_names)) ls w1 w" "quiet w" "dead w = {}" using w1(2) by auto
  have run: "run (net_step sample_at (set sample_names)) (Call ?p # ls) sample_net w" using w1(1) w(1) by auto
  have "?p \<in> fst (knowing sample_names sample_at w1)" using w1(3) p(1) by (simp add: knowing_def)
  then have "?p \<in> fst (knowing sample_names sample_at w)"
    using spec_mono [OF net.refines [OF w(1) net_inv_step [OF inv w1(1)]]] by blast
  then have "revoked (nodes w ?p) 5" by (simp add: knowing_def)
  from revoke_reaches_all [OF sample_start run w(2) p(2)] this w(3)
  have "\<forall>p \<in> set sample_names. revoked (nodes w p) 5" by simp
  with run w(2) show ?thesis by blast
qed

text \<open>C24: the propagation ends and does not get stuck. From such a start no sequence of steps is
  longer than a bound that depends on the number of processes and on the messages in transit at
  the start: a process forwards the message once, to two peers per power of two up to half the
  number of processes. And as long as a message to a live process is in transit, the receive
  callback of that process can handle it.\<close>

theorem revoke_terminates:
  assumes "net_start ctx ep k names at w0" "run (net_step at (set names)) ls w0 w"
  shows "length ls \<le> (length (bmg_offsets (int (length names)) 1) + 2) * length names + size (transit w0) \<and>
    (\<forall>(src, p, msg) \<in># transit w. p \<notin> dead w \<longrightarrow> (\<exists>w'. net_step at (set names) (Handle p) w w'))"
proof
  note inv = net_start_inv [OF assms(1)]
  have "card (set names - X) \<le> length names" for X
    by (meson List.finite_set card_length card_mono Diff_subset le_trans)
  then have "net_budget names at w0 \<le>
      (length (bmg_offsets (int (length names)) 1) + 1) * length names + size (transit w0) + length names"
    unfolding net_budget_def by (intro add_mono mult_le_mono2 order_refl) auto
  with net.run_bounded [OF assms(2) inv]
  show "length ls \<le> (length (bmg_offsets (int (length names)) 1) + 2) * length names + size (transit w0)"
    by simp
  have "\<exists>w'. net_step at (set names) (Handle p) w w'" if "(src, p, msg) \<in># transit w" "p \<notin> dead w" for src p msg
    using handle_enabled [OF net.inv_run [OF assms(2) inv] that] by blast
  then show "\<forall>(src, p, msg) \<in># transit w. p \<notin> dead w \<longrightarrow> (\<exists>w'. net_step at (set names) (Handle p) w w')"
    by auto
qed

theorem revoke_terminates_witness:
  "\<exists>w. run (net_step sample_at (set sample_names)) [] sample_net w \<and>
     (\<exists>w'. net_step sample_at (set sample_names) (Handle (sample_names ! 1)) w w')"
  using revoke_terminates [OF sample_start, of "[]" sample_net] by (simp add: sample_net_def)

text \<open>C23: the protocol implements its specification. Every sequence of steps of the processes
  is, label by label, a sequence of the specification in which a set of informed processes only
  grows, a process that handles a message becomes informed only when some process already is, and
  messages of earlier epochs inform nobody. In particular no communicator gets revoked unless some
  process called \<^verbatim>\<open>MPI_Comm_revoke\<close>.\<close>

theorem revoke_refines:
  assumes "net_start ctx ep k names at w0" "run (net_step at (set names)) ls w0 w"
  shows "run (revoke_spec (set names)) ls (knowing names at w0) (knowing names at w) \<and>
    ((\<forall>p. Call p \<notin> set ls) \<longrightarrow> (\<forall>p \<in> set names. \<not> revoked (nodes w p) (at p)))"
proof -
  have r: "run (revoke_spec (set names)) ls (knowing names at w0) (knowing names at w)"
    by (rule net.refines [OF assms(2) net_start_inv [OF assms(1)]])
  with spec_no_call [OF r start_knowing [OF assms(1)]] show ?thesis by (auto simp: knowing_def)
qed

theorem revoke_refines_witness:
  "\<exists>ls w. run (net_step sample_at (set sample_names)) ls sample_net w \<and> ls \<noteq> [] \<and>
     run (revoke_spec (set sample_names)) ls (knowing sample_names sample_at sample_net)
       (knowing sample_names sample_at w)"
proof -
  let ?p = "sample_names ! 0"
  have "?p \<in> set sample_names" "?p \<notin> dead sample_net" "\<not> revoked (nodes sample_net ?p) 5"
    using sample_start by (auto simp: net_start_def sample_net_def sample_names_def)
  from call_enabled [OF net_start_inv [OF sample_start] this] obtain w1 where
    "net_step sample_at (set sample_names) (Call ?p) sample_net w1" by auto
  then have r: "run (net_step sample_at (set sample_names)) [Call ?p] sample_net w1" by simp
  with revoke_refines [OF sample_start r] show ?thesis by blast
qed

end
