(* ===== verification/Request_FT.thy ===== *)
theory Request_FT
  imports Comm_FT
begin

text \<open>
  The state check of a pending request, \<^verbatim>\<open>ompi/request/req_ft.c\<close>, which every wait and
  test function calls: it decides whether a request can still complete or has to end with an
  error because its communicator was revoked or a process failed. The function that cancels a
  request is a field of the request in the code and an argument here, \<open>None\<close> when the request has
  none; the functions that the point-to-point layer puts there for its send and receive requests
  (\<^verbatim>\<open>ompi/mca/pml/ob1\<close>) are modelled at the end.
\<close>

datatype pml_request_type_t =
    MCA_PML_REQUEST_NULL
  | MCA_PML_REQUEST_SEND
  | MCA_PML_REQUEST_RECV
  | MCA_PML_REQUEST_IPROBE
  | MCA_PML_REQUEST_PROBE
  | MCA_PML_REQUEST_IMPROBE
  | MCA_PML_REQUEST_MPROBE

record ompi_status_public_t =
  MPI_SOURCE :: int
  MPI_TAG :: int
  MPI_ERROR :: int
  st_cancelled :: int
  st_ucount :: nat

record ompi_request_t =
  req_type :: pml_request_type_t
  req_status :: ompi_status_public_t
  req_complete :: bool
  req_comm :: ptr
  req_peer :: int
  req_tag :: int
  req_any_source_pending :: bool
  req_free_called :: bool
  req_posted :: bool
  req_pml_complete :: bool
  req_bytes_packed :: nat
  req_bytes_expected :: nat
  req_bytes_received :: nat

text \<open>\<open>req_posted\<close> says that the request is in a queue of posted receives.\<close>

type_synonym cancel_fn = "ompi_request_t \<Rightarrow> ompi_request_t option"

definition ompi_request_cancel :: "cancel_fn option \<Rightarrow> ompi_request_t \<Rightarrow> ompi_request_t option" where
  "ompi_request_cancel req_cancel req = (case req_cancel of Some f \<Rightarrow> f req | None \<Rightarrow> Some req)"

definition set_error :: "int \<Rightarrow> ompi_request_t \<Rightarrow> ompi_request_t" where
  "set_error e req = req\<lparr>req_status := (req_status req)\<lparr>MPI_ERROR := e\<rparr>\<rparr>"

definition set_source :: "int \<Rightarrow> ompi_request_t \<Rightarrow> ompi_request_t" where
  "set_source r req = req\<lparr>req_status := (req_status req)\<lparr>MPI_SOURCE := r\<rparr>\<rparr>"

definition set_cancelled :: "int \<Rightarrow> ompi_request_t \<Rightarrow> ompi_request_t" where
  "set_cancelled b req = req\<lparr>req_status := (req_status req)\<lparr>st_cancelled := b\<rparr>\<rparr>"

text \<open>The code after the label \<^verbatim>\<open>return_with_error\<close>.\<close>

definition return_with_error :: "cancel_fn option \<Rightarrow> ompi_request_t \<Rightarrow> (bool \<times> ompi_request_t) option" where
  "return_with_error req_cancel req =
     (if MPI_ERROR (req_status req) \<noteq> MPI_ERR_PROC_FAILED_PENDING then do {
        let cancelled = st_cancelled (req_status req);
        req \<leftarrow> ompi_request_cancel req_cancel req;
        let req = set_cancelled cancelled req;
        Some (\<not> req_complete req, req) }
      else Some (MPI_ERROR (req_status req) = MPI_SUCCESS, req))"

definition ompi_request_state_ok ::
  "bool \<Rightarrow> cancel_fn option \<Rightarrow> ft_node \<Rightarrow> ompi_request_t \<Rightarrow> (bool \<times> ompi_request_t) option" where
  "ompi_request_state_ok ftmpi_enabled req_cancel n req =
     (if \<not> ftmpi_enabled then Some (True, req)
      else let req = req\<lparr>req_any_source_pending := False\<rparr> in
        if req_complete req then Some (True, req)
        else do {
          comm \<leftarrow> comms n (req_comm req);
          if ompi_comm_is_revoked comm \<and> \<not> ompi_request_tag_is_ft (req_tag req)
          then return_with_error req_cancel (set_error MPI_ERR_REVOKED req)
          else do {
            my_rank \<leftarrow> ompi_group_rank (grps n) (c_local_group comm);
            if req_peer req = MPI_PROC_NULL \<or> (\<not> c_inter comm \<and> req_peer req = my_rank)
            then Some (True, req)
            else if MPI_ANY_SOURCE = req_peer req \<and> \<not> ompi_comm_is_any_source_enabled comm \<and>
                    \<not> ompi_request_tag_is_ft (req_tag req)
            then return_with_error req_cancel
                   ((set_error (if req_type req = MCA_PML_REQUEST_MPROBE \<or>
                                   req_type req = MCA_PML_REQUEST_PROBE
                                then MPI_ERR_PROC_FAILED else MPI_ERR_PROC_FAILED_PENDING) req)
                      \<lparr>req_any_source_pending := True\<rparr>)
            else do {
              active \<leftarrow> ompi_comm_is_proc_active n comm (req_peer req) (c_inter comm);
              if \<not> active
              then return_with_error req_cancel
                     (let req = set_error MPI_ERR_PROC_FAILED (set_source (req_peer req) req)
                      in if MPI_ANY_SOURCE = req_peer req then req\<lparr>req_any_source_pending := True\<rparr>
                         else req)
              else if ompi_comm_coll_revoked comm \<and> ompi_request_tag_is_collective (req_tag req)
              then return_with_error req_cancel
                     (set_error MPI_ERR_PROC_FAILED (set_source (req_peer req) req))
              else Some (True, req) } } })"

section \<open>Cancellation of point-to-point requests\<close>

definition OMPI_ANY_TAG :: int where [rc_defs]: "OMPI_ANY_TAG = - 1"
definition MPI_ERR_TRUNCATE :: int where [rc_defs]: "MPI_ERR_TRUNCATE = 15"

text \<open>A request that the application has freed goes back to a list of free requests and cannot be used
  any more.\<close>

definition recv_request_pml_complete :: "ompi_request_t \<Rightarrow> ompi_request_t option" where
  "recv_request_pml_complete req =
     (if req_free_called req then None
      else
        let trunc = req_bytes_packed req > req_bytes_expected req;
            st = (req_status req)\<lparr>st_ucount := (if trunc then req_bytes_packed req else req_bytes_received req)\<rparr>;
            st = (if trunc then st\<lparr>MPI_ERROR := MPI_ERR_TRUNCATE\<rparr> else st)
        in Some (req\<lparr>req_pml_complete := True, req_status := st, req_complete := True\<rparr>))"

definition mca_pml_ob1_recv_request_cancel :: "ft_node \<Rightarrow> cancel_fn" where
  "mca_pml_ob1_recv_request_cancel n req =
     (if req_complete req then Some req
      else if MPI_TAG (req_status req) = OMPI_ANY_TAG
      then recv_request_pml_complete (set_cancelled 1 (req\<lparr>req_posted := False\<rparr>))
      else do {
        comm \<leftarrow> comms n (req_comm req);
        active \<leftarrow> ompi_comm_is_proc_active n comm (req_peer req) (c_inter comm);
        if \<not> active then recv_request_pml_complete (set_cancelled 1 req) else Some req })"

definition mca_pml_ob1_send_request_cancel :: "ft_node \<Rightarrow> cancel_fn" where
  "mca_pml_ob1_send_request_cancel n req =
     (if req_complete req then Some req
      else do {
        comm \<leftarrow> comms n (req_comm req);
        active \<leftarrow> ompi_comm_is_proc_active n comm (req_peer req) (c_inter comm);
        if \<not> active then do {
          my_rank \<leftarrow> ompi_group_rank (grps n) (c_local_group comm);
          Some (req\<lparr>req_status := (req_status req)\<lparr>st_cancelled := 1, MPI_SOURCE := my_rank, MPI_TAG := req_tag req,
                  st_ucount := req_bytes_packed req\<rparr>, req_complete := True\<rparr>) }
        else Some req })"

text \<open>The constructors of the requests set these functions; probes are made as receive requests.\<close>

definition ob1_req_cancel :: "ft_node \<Rightarrow> cancel_fn" where
  "ob1_req_cancel n req =
     (if req_type req = MCA_PML_REQUEST_SEND then mca_pml_ob1_send_request_cancel n req
      else mca_pml_ob1_recv_request_cancel n req)"

end
