(* ===== verification/Request_FT_Correct.thy ===== *)
theory Request_FT_Correct
  imports Request_FT Revoke_Protocol
begin

text \<open>
  What pending requests observe of revocations, failures and their acknowledgement: the
  functions of \<open>Comm_FT\<close> composed with the state check of \<open>Request_FT\<close>.
\<close>

section \<open>The communicator after each operation\<close>








section \<open>Properties\<close>





end
