(* ===== verification/Failure_Ack.thy ===== *)
theory Failure_Ack
  imports Comm_FT_Correct
begin

text \<open>
  The groups of failed processes: the functions of \<^verbatim>\<open>comm_ft.c\<close> and
  \<^verbatim>\<open>errhandler_rte.c\<close> on top of the group operations.
\<close>

section \<open>Releasing a dense group\<close>

lemma clear_handle_inv:
  assumes "pa_inv (f_to_c s)" "0 \<le> i"
  obtains t where "clear_handle s i = Some (s\<lparr>f_to_c := t\<rparr>)" "pa_inv t" "max_size t = max_size (f_to_c s)"
proof (cases "pa_lookup (f_to_c s) i = NULL")
  case True
  with get_item_lookup [OF assms] show ?thesis
    using assms(1) by (intro that [of "f_to_c s"]) (simp_all add: clear_handle_def)
next
  case False
  then have "i < int (length (arr (f_to_c s)))" unfolding pa_lookup_def by (auto split: if_splits)
  then have "i < pa_size (f_to_c s)" using assms(1) by (simp add: pa_inv_def)
  from set_item_in_range [OF assms this, of True NULL] obtain t where
    "opal_pointer_array_set_item True (f_to_c s) i NULL = Some (OPAL_SUCCESS, t)" "pa_inv t"
    "max_size t = max_size (f_to_c s)" by blast
  with False get_item_lookup [OF assms] show ?thesis
    by (intro that [of t]) (simp_all add: clear_handle_def)
qed

text \<open>The last reference to a group that has no parent.\<close>

lemma release_dense:
  assumes "groups s g = Some G" "grp_refcount G = 1" "grp_parent_group_ptr G = NULL"
    "pa_inv (f_to_c s)" "0 \<le> grp_f_to_c_index G"
  obtains s' where "OBJ_RELEASE_group s g = Some s'" "groups s' = (groups s)(g := None)"
    "all_failed_procs s' = all_failed_procs s" "pa_inv (f_to_c s')" "max_size (f_to_c s') = max_size (f_to_c s)"
proof -
  let ?s0 = "put_group g (G\<lparr>grp_refcount := 0\<rparr>) s"
  obtain t where t: "clear_handle ?s0 (grp_f_to_c_index G) = Some (?s0\<lparr>f_to_c := t\<rparr>)" "pa_inv t"
    "max_size t = max_size (f_to_c s)"
    using clear_handle_inv [of ?s0 "grp_f_to_c_index G"] assms(4,5) by auto
  have "OBJ_RELEASE_group s g = Some (?s0\<lparr>f_to_c := t, groups := (groups s)(g := None)\<rparr>)"
    using assms(1-3) t(1) by (subst OBJ_RELEASE_group.simps) (simp add: Let_def)
  with t show ?thesis
    by (intro that [of "?s0\<lparr>f_to_c := t, groups := (groups s)(g := None)\<rparr>"]) simp_all
qed

section \<open>The acknowledged failures\<close>

lemma valid_group_extends: "valid_group s g ps P \<Longrightarrow> extends s s' \<Longrightarrow> valid_group s' g ps P"
  using denotes_keeps extends_keeps unfolding valid_group_def extends_def by blast

lemma first_ranks:
  assumes "0 < k" "k \<le> length ps"
  shows "concat (map progression [(0, int k - 1, 1)]) = idxs (int k)"
    "sub_procs ps (idxs (int k)) = take k ps"
proof -
  show "concat (map progression [(0, int k - 1, 1)]) = idxs (int k)"
  proof (cases "k = 1")
    case True
    then show ?thesis by (simp add: idxs_def)
  next
    case False
    with assms have "Suc (nat (int k - 1)) = k" by simp
    with False show ?thesis using assms by (simp add: idxs_def)
  qed
  show "sub_procs ps (idxs (int k)) = take k ps"
    using assms(2) by (intro nth_equalityI) (simp_all add: sub_procs_def idxs_def)
qed


text \<open>Including ranks without sparse storage: the result is a dense group of its own, or the
  empty group, and every other group object stays as it is.\<close>

lemma incl_dense:
  assumes inv: "gs_inv hmax s" and al: "al_ok al s" and v: "valid_group s p ps P"
    and ranks: "distinct ranks" "ranks_in (int (length ps)) ranks"
  obtains g s' G where "ompi_group_incl False before hmax al s p ranks = Some (OMPI_SUCCESS, g, s')"
    "denotes s' g (sub_procs ps ranks)" "gs_inv hmax s'" "all_failed_procs s' = all_failed_procs s"
    "groups s' g = Some G" "has_flag OMPI_GROUP_DENSE G"
    "\<forall>h H. groups s h = Some H \<longrightarrow> h \<noteq> MPI_GROUP_EMPTY \<longrightarrow> groups s' h = Some H"
    "ranks = [] \<and> g = MPI_GROUP_EMPTY \<or>
     ranks \<noteq> [] \<and> g = al_obj al \<and> extends s s' \<and>
       (\<exists>i. 0 \<le> i \<and> G = dense_group i (sub_procs ps ranks) (rank_of ranks (grp_my_rank P)))"
proof -
  have V: "denotes s p ps" "distinct ps" "groups s p = Some P" "my_rank_ok (int (length ps)) (grp_my_rank P)"
    using v by (auto simp: valid_group_def)
  have e: "ompi_group_incl False before hmax al s p ranks = ompi_group_incl_plist hmax al s p ranks"
    using denotes_size [OF V(1)] by (simp add: ompi_group_incl_def)
  show ?thesis
  proof (cases "ranks = []")
    case True
    obtain E where E: "groups s MPI_GROUP_EMPTY = Some E" "has_flag OMPI_GROUP_DENSE E"
      using inv by (auto simp: gs_inv_def)
    let ?s = "put_group MPI_GROUP_EMPTY (retained E) s"
    have i: "incl_empty s = Some (OMPI_SUCCESS, MPI_GROUP_EMPTY, ?s)"
      using E by (simp add: incl_empty_def OBJ_RETAIN_group_def)
    with incl_empty_makes [OF inv] have "denotes ?s MPI_GROUP_EMPTY []" "gs_inv hmax ?s"
      by (auto simp: makes_group_def)
    with i e True E(2) show ?thesis
      by (intro that [of MPI_GROUP_EMPTY ?s "retained E"])
        (simp_all add: ompi_group_incl_plist_def sub_procs_def has_flag_def)
  next
    case False
    from incl_plist_ok [OF inv al V(1,3,2) False ranks V(4)] obtain i t where r:
      "ompi_group_incl_plist hmax al s p ranks = Some (OMPI_SUCCESS, al_obj al,
        put_group (al_obj al) (dense_group i (sub_procs ps ranks) (rank_of ranks (grp_my_rank P)))
          (add_refs 1 (sub_procs ps ranks) (s\<lparr>f_to_c := t\<rparr>)))"
      "handle_added (f_to_c s) i (al_obj al) t" by blast
    have fresh: "groups s (al_obj al) = None" "al_obj al \<noteq> NULL" using al by (auto simp: al_ok_def)
    let ?s = "put_group (al_obj al) (dense_group i (sub_procs ps ranks) (rank_of ranks (grp_my_rank P)))
          (add_refs 1 (sub_procs ps ranks) (s\<lparr>f_to_c := t\<rparr>))"
    have nn: "NULL \<notin> set (sub_procs ps ranks)"
      using denotes_not_null [OF V(1)] distinct_sub_procs [OF V(2) ranks] by blast
    have "gs_inv hmax ?s"
      by (rule gs_inv_put [OF inv r(2) fresh, of _ "dense_group i (sub_procs ps ranks) (rank_of ranks (grp_my_rank P))"])
        (simp_all add: dense_group_def)
    moreover have "denotes ?s (al_obj al) (sub_procs ps ranks)" using nn by (intro denotes_dense_group) simp_all
    moreover have "0 \<le> i" using r(2) by (simp add: handle_added_def)
    ultimately show ?thesis
      using r(1) e False fresh(1)
      by (intro that [of "al_obj al" ?s "dense_group i (sub_procs ps ranks) (rank_of ranks (grp_my_rank P))"])
        (auto simp: dense_group_def has_flag_def OMPI_GROUP_DENSE_def add_refs_def extends_def)
  qed
qed

lemma denotes_same_dense:
  assumes "denotes s g ps" "groups s g = Some G" "has_flag OMPI_GROUP_DENSE G" "groups s' g = Some G"
  shows "denotes s' g ps"
  using assms(1)
proof (cases rule: denotes.cases)
  case (dense G')
  then show ?thesis using assms(2,4) by (intro denotes.dense [of s' g G]) simp_all
next
  case (sparse G' qs rs)
  then show ?thesis using assms(2,3) by simp
qed


lemma obj_new_ok:
  assumes inv: "gs_inv hmax s" and al: "al_ok al s"
  obtains s' where "OBJ_NEW_group hmax al s = Some (al_obj al, s')" "gs_inv hmax s'" "extends s s'"
    "all_failed_procs s' = all_failed_procs s"
proof -
  obtain i t where n: "new_with_handle hmax al s =
      Some (al_obj al, put_group (al_obj al) (new_group i) (s\<lparr>f_to_c := t\<rparr>))"
    "handle_added (f_to_c s) i (al_obj al) t"
    using new_with_handle_ok [OF assms] by metis
  let ?s = "put_group (al_obj al) (new_group i) (s\<lparr>f_to_c := t\<rparr>)"
  have fresh: "groups s (al_obj al) = None" "al_obj al \<noteq> NULL" using al by (auto simp: al_ok_def)
  have "OBJ_NEW_group hmax al s = Some (al_obj al, ?s)"
    using n(1) fresh(2)
    by (auto simp: new_with_handle_def bind_eq_Some_conv OBJ_NEW_group_def split: if_splits)
  moreover have "gs_inv hmax ?s"
    by (rule gs_inv_put [OF inv n(2) fresh, of _ "new_group i"]) (simp_all add: new_group_def)
  ultimately show ?thesis using fresh(1) by (intro that [of ?s]) (auto simp: extends_def)
qed

lemma rank_of_ok: "my_rank_ok (int (length rs)) (rank_of rs r)"
  by (auto simp: my_rank_ok_def rank_of_def dest: index_of_Some split: option.splits)

text \<open>The three allocations of one call succeed in the states in which they are made; the number of
  acknowledged failures is an \<^verbatim>\<open>int\<close>.\<close>

definition acked_allocs :: "ft_env \<Rightarrow> group_state \<Rightarrow> int \<Rightarrow> bool" where
  "acked_allocs env s k \<longleftrightarrow> k \<le> INT_MAX \<and> al_ok (e_al_new env) s \<and>
     (\<forall>t s1. OBJ_NEW_group (e_hmax env) (e_al_new env) s = Some (t, s1) \<longrightarrow>
        al_ok (e_al_incl env 0) s1 \<and>
        (\<forall>r g s2. ompi_group_range_incl False (e_before env) (e_hmax env) (e_al_incl env 0) s1
             (all_failed_procs s1) [(0, k - 1, 1)] = Some (r, g, s2) \<longrightarrow> al_ok (e_al_set env) s2))"

lemma get_acked_positive:
  assumes comm: "comms n c = Some comm" "any_source_offset comm = int k" "0 < k" "k \<le> length failed"
    and inv: "\<not> e_sparse env" "gs_inv (e_hmax env) (grps n)"
    and v: "valid_group (grps n) (all_failed_procs (grps n)) failed F"
      "valid_group (grps n) (if c_inter comm then c_local_group comm else c_remote_group comm) members M"
    and al: "acked_allocs env (grps n) (int k)"
  shows "\<exists>g s'. ompi_comm_failure_get_acked_internal env n c = Some (OMPI_SUCCESS, g, n\<lparr>grps := s'\<rparr>) \<and>
    denotes s' g (filter (\<lambda>p. p \<in> set members) (take k failed))"
proof -
  let ?grp = "if c_inter comm then c_local_group comm else c_remote_group comm"
  let ?h = "e_hmax env" and ?b = "e_before env" and ?qs = "take k failed"
  obtain s1 where s1: "OBJ_NEW_group ?h (e_al_new env) (grps n) = Some (al_obj (e_al_new env), s1)"
    "gs_inv ?h s1" "extends (grps n) s1" "all_failed_procs s1 = all_failed_procs (grps n)"
    using obj_new_ok [OF inv(2)] al unfolding acked_allocs_def by metis
  have al1: "al_ok (e_al_incl env 0) s1" using al s1(1) by (simp add: acked_allocs_def)
  have v1: "valid_group s1 (all_failed_procs s1) failed F" "valid_group s1 ?grp members M"
    using valid_group_extends [OF v(1) s1(3)] valid_group_extends [OF v(2) s1(3)] s1(4) by simp_all
  note fr = first_ranks [OF comm(3,4)]
  have rk: "distinct (idxs (int k))" "ranks_in (int (length failed)) (idxs (int k))" "idxs (int k) \<noteq> []"
    using comm(3,4) by (auto simp: idxs_distinct ranks_in_def set_idxs) (simp add: idxs_def)
  obtain g1 s2 G1 where i0: "ompi_group_incl False ?b ?h (e_al_incl env 0) s1 (all_failed_procs s1) (idxs (int k)) =
      Some (OMPI_SUCCESS, g1, s2)" "denotes s2 g1 (sub_procs failed (idxs (int k)))" "gs_inv ?h s2"
    "groups s2 g1 = Some G1"
    "idxs (int k) = [] \<and> g1 = MPI_GROUP_EMPTY \<or> idxs (int k) \<noteq> [] \<and> g1 = al_obj (e_al_incl env 0) \<and> extends s1 s2 \<and>
      (\<exists>i. 0 \<le> i \<and> G1 = dense_group i (sub_procs failed (idxs (int k))) (rank_of (idxs (int k)) (grp_my_rank F)))"
    by (rule incl_dense [OF s1(2) al1 v1(1) rk(1,2), where before = ?b])
  note i = i0(1) i0(2) [unfolded fr(2)] i0(3,4)
  have i': "g1 = al_obj (e_al_incl env 0)" "extends s1 s2"
    "\<exists>i. 0 \<le> i \<and> G1 = dense_group i ?qs (rank_of (idxs (int k)) (grp_my_rank F))"
    using i0(5) rk(3) fr(2) by auto
  have r: "ompi_group_range_incl False ?b ?h (e_al_incl env 0) s1 (all_failed_procs s1) [(0, int k - 1, 1)] =
      Some (OMPI_SUCCESS, g1, s2)"
  proof -
    have k: "int k \<le> INT_MAX" using al by (simp add: acked_allocs_def)
    then have "proper_triplet (0, int k - 1, 1)" "int_triplet (0, int k - 1, 1)" using comm(3) by auto
    then have "triplet_ranks [(0, int k - 1, 1)] [] = Some (idxs (int k))"
      using triplet_ranks_eq [of "[(0, int k - 1, 1)]" "[]"] k unfolding append_Nil fr(1) by (simp add: idxs_def)
    with i(1) show ?thesis by (simp add: ompi_group_range_incl_def del: triplet_ranks.simps)
  qed
  have al2: "al_ok (e_al_set env) s2" using al s1(1) r by (simp add: acked_allocs_def)
  have G1: "grp_refcount G1 = 1" "grp_parent_group_ptr G1 = NULL" "0 \<le> grp_f_to_c_index G1"
    "my_rank_ok (int (length ?qs)) (grp_my_rank G1)"
    using i'(3) rank_of_ok [of "idxs (int k)"] comm(4) by (auto simp: dense_group_def idxs_def)
  have "distinct ?qs" using v1(1) by (simp add: valid_group_def)
  then have v2: "valid_group s2 g1 ?qs G1" "valid_group s2 ?grp members M"
    using i(2,4) G1 valid_group_extends [OF v1(2) i'(2)] by (simp_all add: valid_group_def)
  obtain g s3 G where j0: "ompi_group_incl False ?b ?h (e_al_set env) s2 g1 (common_ranks ?qs members) =
      Some (OMPI_SUCCESS, g, s3)" "denotes s3 g (sub_procs ?qs (common_ranks ?qs members))" "gs_inv ?h s3"
    "groups s3 g = Some G" "has_flag OMPI_GROUP_DENSE G"
    "\<forall>h H. groups s2 h = Some H \<longrightarrow> h \<noteq> MPI_GROUP_EMPTY \<longrightarrow> groups s3 h = Some H"
    "common_ranks ?qs members = [] \<and> g = MPI_GROUP_EMPTY \<or>
     common_ranks ?qs members \<noteq> [] \<and> g = al_obj (e_al_set env) \<and> extends s2 s3 \<and>
      (\<exists>i. 0 \<le> i \<and> G = dense_group i (sub_procs ?qs (common_ranks ?qs members))
         (rank_of (common_ranks ?qs members) (grp_my_rank G1)))"
    by (rule incl_dense [OF i(3) al2 v2(1) common_ranks(1,2), where before = ?b])
  note j = j0(1) [folded intersection_incl [OF v2]] j0(2) [unfolded common_ranks(3)] j0(3-6)
  have j7: "g = MPI_GROUP_EMPTY \<or> g = al_obj (e_al_set env)" using j0(7) by blast
  have ne: "g1 \<noteq> MPI_GROUP_EMPTY" using al1 s1(2) i'(1) by (auto simp: al_ok_def gs_inv_def)
  have "g1 \<noteq> NULL" "g1 \<noteq> g" using al1 al2 i(4) i'(1) j7 ne by (auto simp: al_ok_def)
  have "groups s3 g1 = Some G1" using j(6) i(4) ne by blast
  moreover have "pa_inv (f_to_c s3)" using j(3) by (simp add: gs_inv_def)
  ultimately obtain s4 where s4:
    "OBJ_RELEASE_group s3 g1 = Some s4" "groups s4 = (groups s3)(g1 := None)"
    using release_dense [OF _ G1(1,2) _ G1(3)] by metis
  have "denotes s4 g (filter (\<lambda>p. p \<in> set members) ?qs)"
    using denotes_same_dense [OF j(2,4,5)] s4(2) j(4) \<open>g1 \<noteq> g\<close> by simp
  moreover have "ompi_comm_failure_get_acked_internal env n c = Some (OMPI_SUCCESS, g, n\<lparr>grps := s4\<rparr>)"
    using comm(1-3) inv(1) s1(1) r j(1) s4(1) \<open>g1 \<noteq> NULL\<close>
    by (simp add: ompi_comm_failure_get_acked_internal_def)
  ultimately show ?thesis by blast
qed

lemma get_acked_zero:
  assumes "comms n c = Some comm" "any_source_offset comm = 0" "gs_inv hmax (grps n)"
  shows "\<exists>g s'. ompi_comm_failure_get_acked_internal env n c = Some (OMPI_SUCCESS, g, n\<lparr>grps := s'\<rparr>) \<and>
    denotes s' g []"
  using incl_empty_makes [OF assms(3)] assms(1,2)
  by (auto simp: makes_group_def incl_empty_def ompi_comm_failure_get_acked_internal_def bind_eq_Some_conv)

section \<open>An example\<close>

text \<open>Four processes, of which 103 and then 102 failed; the first failure was acknowledged.\<close>

definition acked_comm :: ompi_communicator_t where
  "acked_comm = \<lparr>c_contextid = 0, c_epoch = 7, c_inter = False, c_local_group = 10, c_remote_group = 10,
     any_source_enabled = True, any_source_offset = 0, comm_revoked = False, coll_revoked = True,
     num_active_local = 3, num_active_remote = 4, c_pml_procs = []\<rparr>"

definition acked_node :: "ptr list \<Rightarrow> int \<Rightarrow> ft_node" where
  "acked_node failed k =
     \<lparr>grps = \<lparr>groups = [MPI_GROUP_EMPTY \<mapsto> (dense_group 0 [] MPI_UNDEFINED)\<lparr>grp_proc_pointers := None\<rparr>,
                      10 \<mapsto> dense_group 1 [101, 102, 103, 104] 0,
                      11 \<mapsto> dense_group 2 failed MPI_UNDEFINED],
              proc_refs = (\<lambda>_. 5),
              f_to_c = snd (opal_pointer_array_init True opal_pointer_array_construct 0 90 40),
              all_failed_procs = 11\<rparr>,
      procs = (\<lambda>p. None), proc_list = [], proc_local_proc = 101,
      comms = [5 \<mapsto> acked_comm\<lparr>any_source_offset := k\<rparr>],
      mpi_communicators = opal_pointer_array_construct,
      mpi_comm_world = 5, rank_failure_cbfunc = False, rbcast = Rbcast_null, rbcast_fw = Rbcast_null,
      rbcast_cb = [], rbcast_listener_started = False, revoke_cb_type = 0, propagate_cb_type = 1\<rparr>"

definition acked_env :: ft_env where
  "acked_env = \<lparr>e_bml = \<lparr>bml_alloc = (\<lambda>_. True), bml_send = (\<lambda>_. 1)\<rparr>, e_sparse = False, e_before = 0, e_hmax = 90,
     e_al_new = \<lparr>al_obj = 20, al_array = True, al_table = True\<rparr>,
     e_al_incl = (\<lambda>i. \<lparr>al_obj = 30, al_array = True, al_table = True\<rparr>),
     e_al_set = \<lparr>al_obj = 50, al_array = True, al_table = True\<rparr>\<rparr>"

lemma acked_table:
  "snd (opal_pointer_array_init True opal_pointer_array_construct 0 90 40) =
     \<lparr>lowest_free = 0, highest_taken = - 1, number_free = 40, pa_size = 40, max_size = 90,
      block_size = 40, addr = Some (replicate 40 NULL)\<rparr>"
  by code_simp

lemma acked_inv:
  assumes "NULL \<notin> set failed" "distinct failed"
  shows "gs_inv 90 (grps (acked_node failed k))"
    "valid_group (grps (acked_node failed k)) 11 failed (dense_group 2 failed MPI_UNDEFINED)"
    "valid_group (grps (acked_node failed k)) 10 [101, 102, 103, 104] (dense_group 1 [101, 102, 103, 104] 0)"
proof -
  show "gs_inv 90 (grps (acked_node failed k))"
    by (auto simp: gs_inv_def acked_node_def acked_table pa_inv_def first_free_def MPI_GROUP_EMPTY_def
        dense_group_def has_flag_def OMPI_GROUP_DENSE_def)
  show "valid_group (grps (acked_node failed k)) 11 failed (dense_group 2 failed MPI_UNDEFINED)"
    using assms by (auto simp: valid_group_def acked_node_def my_rank_ok_def dense_group_def MPI_GROUP_EMPTY_def
        intro!: denotes_dense_group [unfolded dense_group_def])
  show "valid_group (grps (acked_node failed k)) 10 [101, 102, 103, 104] (dense_group 1 [101, 102, 103, 104] 0)"
    by (auto simp: valid_group_def acked_node_def my_rank_ok_def dense_group_def MPI_GROUP_EMPTY_def
        intro!: denotes_dense_group [unfolded dense_group_def])
qed

section \<open>Properties\<close>

text \<open>C19: the acknowledged failures. After \<^verbatim>\<open>OMPI_Comm_failure_ack\<close>, and whatever failures are
  recorded later, \<^verbatim>\<open>OMPI_Comm_failure_get_acked\<close> returns the group of exactly those members
  of the communicator's group that were known to have failed at the time of the
  acknowledgement, in the order in which the failures were recorded. The storage of groups is
  not sparse here: a process that has not failed is not a member of the group of failed
  processes, and sparse storage is undefined for non-members.\<close>

theorem acked_failures:
  assumes ack: "ompi_comm_failure_ack_internal n c = Some (rc, n1)"
      "denotes (grps n) (all_failed_procs (grps n)) failed" "comms n1 c = Some comm1"
    and later: "comms n2 c = Some comm2" "any_source_offset comm2 = any_source_offset comm1"
      "valid_group (grps n2) (all_failed_procs (grps n2)) (failed @ more_failed) F"
      "valid_group (grps n2) (if c_inter comm2 then c_local_group comm2 else c_remote_group comm2) members M"
    and st: "\<not> e_sparse env" "gs_inv (e_hmax env) (grps n2)"
      "acked_allocs env (grps n2) (any_source_offset comm2)"
  shows "rc = OMPI_SUCCESS \<and> any_source_enabled comm1 \<and>
    (\<exists>g s'. ompi_comm_failure_get_acked_internal env n2 c = Some (OMPI_SUCCESS, g, n2\<lparr>grps := s'\<rparr>) \<and>
       denotes s' g (filter (\<lambda>p. p \<in> set members) failed))"
proof -
  from ack have a: "rc = OMPI_SUCCESS" "any_source_enabled comm1" "any_source_offset comm1 = int (length failed)"
    by (auto simp: ompi_comm_failure_ack_internal_def bind_eq_Some_conv denotes_size put_comm_def)
  show ?thesis
  proof (cases "failed = []")
    case True
    with get_acked_zero [OF later(1) _ st(2)] a later(2) show ?thesis by simp
  next
    case False
    have k: "any_source_offset comm2 = int (length failed)" "0 < length failed"
      "length failed \<le> length (failed @ more_failed)" using False later(2) a(3) by auto
    have "acked_allocs env (grps n2) (int (length failed))" using st(3) k(1) by simp
    from get_acked_positive [OF later(1) k st(1,2) later(3,4) this] a show ?thesis by simp
  qed
qed

lemma acked_allocs_sample: "acked_allocs acked_env (grps (acked_node [103, 102] 1)) 1"
proof -
  have "case OBJ_NEW_group 90 (e_al_new acked_env) (grps (acked_node [103, 102] 1)) of
      Some (t, s1) \<Rightarrow> al_ok (e_al_incl acked_env 0) s1 \<and>
        (case ompi_group_range_incl False 0 90 (e_al_incl acked_env 0) s1 (all_failed_procs s1) [(0, 1 - 1, 1)] of
           Some (r, g, s2) \<Rightarrow> al_ok (e_al_set acked_env) s2 | None \<Rightarrow> True)
    | None \<Rightarrow> True" by code_simp
  moreover have "al_ok (e_al_new acked_env) (grps (acked_node [103, 102] 1))" by code_simp
  ultimately show ?thesis by (auto simp: acked_allocs_def acked_env_def split: option.splits prod.splits)
qed

theorem acked_failures_witness:
  "\<exists>n1 g s'. ompi_comm_failure_ack_internal (acked_node [103] 0) 5 = Some (OMPI_SUCCESS, n1) \<and>
     ompi_comm_failure_get_acked_internal acked_env (acked_node [103, 102] 1) 5 =
       Some (OMPI_SUCCESS, g, (acked_node [103, 102] 1)\<lparr>grps := s'\<rparr>) \<and> denotes s' g [103]"
proof -
  let ?n = "acked_node [103] 0" and ?n2 = "acked_node [103, 102] 1"
  let ?comm1 = "acked_comm\<lparr>any_source_enabled := True, any_source_offset := 1\<rparr>"
  let ?n1 = "put_comm 5 ?comm1 ?n"
  note v = acked_inv [of "[103]" 0, simplified] and v2 = acked_inv [of "[103, 102]" 1, simplified]
  have f: "all_failed_procs (grps ?n) = 11" "all_failed_procs (grps ?n2) = 11" by (simp_all add: acked_node_def)
  have d: "denotes (grps ?n) 11 [103]" using v(2) by (simp add: valid_group_def)
  have a: "ompi_comm_failure_ack_internal ?n 5 = Some (OMPI_SUCCESS, ?n1)"
    using denotes_size [OF d] f by (simp add: ompi_comm_failure_ack_internal_def) (simp add: acked_node_def)
  have c: "comms ?n1 5 = Some ?comm1" "comms ?n2 5 = Some (acked_comm\<lparr>any_source_offset := 1\<rparr>)"
    by (simp_all add: put_comm_def acked_node_def)
  have "\<exists>g s'. ompi_comm_failure_get_acked_internal acked_env ?n2 5 =
       Some (OMPI_SUCCESS, g, ?n2\<lparr>grps := s'\<rparr>) \<and> denotes s' g (filter (\<lambda>p. p \<in> set [101, 102, 103, 104]) [103])"
    using acked_failures [OF a _ c(1,2), of "[103]" "[102]" "dense_group 2 [103, 102] MPI_UNDEFINED"
        "[101, 102, 103, 104]" "dense_group 1 [101, 102, 103, 104] 0" acked_env]
      d f v2 acked_allocs_sample by (simp add: acked_comm_def acked_env_def)
  with a show ?thesis by simp
qed

end
