(* ===== verification/Agreement.thy ===== *)
theory Agreement
  imports Group
begin

text \<open>
  The early terminating agreement of one process,
  \<^verbatim>\<open>ompi/mca/coll/ftbasic/coll_ftbasic_agreement_earlyterminating.c\<close>. The result of every
  call of \<^verbatim>\<open>ompi_request_wait_all\<close> and the messages received in a round are arguments, as
  are the reduction operation and the answers of the allocator for the resulting group. The
  memory the function allocates for itself is available. Messages carry one value of four bytes,
  for which the two ways in which the code computes the address of a received message agree.
\<close>

section \<open>Process status\<close>

type_synonym status = "32 word"

definition STATUS_NO_INFO :: status where "STATUS_NO_INFO = 0"
definition STATUS_CRASHED :: status where "STATUS_CRASHED = 1"
definition STATUS_ACRASHED :: status where "STATUS_ACRASHED = 2 OR STATUS_CRASHED"
definition STATUS_TOLD_ME_HE_KNOWS :: status where "STATUS_TOLD_ME_HE_KNOWS = 4"
definition STATUS_KNOWS_I_KNOW :: status where "STATUS_KNOWS_I_KNOW = 8"
definition STATUS_SEND_COMPLETE :: status where "STATUS_SEND_COMPLETE = 16"
definition STATUS_RECV_COMPLETE :: status where "STATUS_RECV_COMPLETE = 32"

definition has :: "status \<Rightarrow> status \<Rightarrow> bool" where
  "has st m \<longleftrightarrow> st AND m \<noteq> 0"

record 'v eta_msg =
  knows :: bool
  pf :: bool
  est_value :: 'v

record 'v eta =
  eta_out :: "'v eta_msg"
  proc_status :: "status list"

definition MPI_ERR_IN_STATUS :: int where [rc_defs]: "MPI_ERR_IN_STATUS = 18"
definition MPI_ERR_PENDING :: int where [rc_defs]: "MPI_ERR_PENDING = 19"

definition set_status :: "nat \<Rightarrow> (status \<Rightarrow> status) \<Rightarrow> 'v eta \<Rightarrow> 'v eta" where
  "set_status i f s = s\<lparr>proc_status := (proc_status s)[i := f (proc_status s ! i)]\<rparr>"

definition times_flag :: "bool \<Rightarrow> status \<Rightarrow> status" where
  "times_flag b m = (if b then m else 0)"

section \<open>Posting the requests of a round\<close>

definition NEED_TO_RECV :: "nat \<Rightarrow> nat \<Rightarrow> status \<Rightarrow> bool" where
  "NEED_TO_RECV me i st \<longleftrightarrow> me \<noteq> i \<and> \<not> has st STATUS_CRASHED \<and> \<not> has st STATUS_TOLD_ME_HE_KNOWS"

definition NEED_TO_SEND :: "nat \<Rightarrow> nat \<Rightarrow> status \<Rightarrow> bool" where
  "NEED_TO_SEND me i st \<longleftrightarrow> me \<noteq> i \<and> \<not> has st STATUS_CRASHED \<and> \<not> has st STATUS_KNOWS_I_KNOW"

definition post_one :: "nat \<Rightarrow> nat \<Rightarrow> status \<Rightarrow> status" where
  "post_one me i st =
     (let st = (if NEED_TO_RECV me i st then st AND NOT STATUS_RECV_COMPLETE else st OR STATUS_RECV_COMPLETE)
      in if NEED_TO_SEND me i st then st AND NOT STATUS_SEND_COMPLETE else st OR STATUS_SEND_COMPLETE)"

definition post :: "nat \<Rightarrow> 'v eta \<Rightarrow> 'v eta" where
  "post me s = s\<lparr>proc_status := map (\<lambda>(i, st). post_one me i st) (enumerate 0 (proc_status s))\<rparr>"

section \<open>Examining the results of a wait\<close>

record 'v scan =
  sc_eta :: "'v eta"
  sc_ri :: int
  sc_nr :: int
  sc_nbrecv :: int

text \<open>The result of the request at position \<open>ri\<close>; the array is not read when the wait reports
  success for all.\<close>

definition result_at :: "int \<Rightarrow> int list \<Rightarrow> int \<Rightarrow> int option" where
  "result_at rc statuses ri = (if rc = MPI_SUCCESS then Some MPI_SUCCESS else rd statuses ri)"

definition recv_step ::
  "('v \<Rightarrow> 'v \<Rightarrow> 'v) \<Rightarrow> int \<Rightarrow> int list \<Rightarrow> (nat \<Rightarrow> 'v eta_msg) \<Rightarrow> nat \<Rightarrow> 'v scan \<Rightarrow> (int \<times> 'v eta + 'v scan) option" where
  "recv_step opr rc statuses inb i a =
     (let s = sc_eta a in
      if \<not> has (proc_status s ! i) STATUS_RECV_COMPLETE then do {
        e \<leftarrow> result_at rc statuses (sc_ri a);
        let a = a\<lparr>sc_ri := sc_ri a + 1\<rparr>;
        if e = MPI_SUCCESS then
          Some (Inr (a\<lparr>sc_eta := set_status i
                 (\<lambda>st. st OR (times_flag (knows (inb i)) STATUS_TOLD_ME_HE_KNOWS OR STATUS_RECV_COMPLETE))
                 (s\<lparr>eta_out := (eta_out s)\<lparr>est_value := opr (est_value (inb i)) (est_value (eta_out s)),
                                          pf := (pf (eta_out s) \<or> pf (inb i))\<rparr>\<rparr>),
               sc_nbrecv := sc_nbrecv a + 1\<rparr>))
        else if e = MPI_ERR_PROC_FAILED then
          Some (Inr (a\<lparr>sc_eta := set_status i (\<lambda>st. st OR (STATUS_CRASHED OR STATUS_RECV_COMPLETE))
                 (s\<lparr>eta_out := (eta_out s)\<lparr>pf := True\<rparr>\<rparr>)\<rparr>))
        else if e = MPI_ERR_PENDING then Some (Inr (a\<lparr>sc_nr := sc_nr a + 1\<rparr>))
        else Some (Inl (e, s)) }
      else Some (Inr a))"

definition send_step :: "int \<Rightarrow> int list \<Rightarrow> nat \<Rightarrow> 'v scan \<Rightarrow> (int \<times> 'v eta + 'v scan) option" where
  "send_step rc statuses i a =
     (let s = sc_eta a in
      if \<not> has (proc_status s ! i) STATUS_SEND_COMPLETE then do {
        e \<leftarrow> result_at rc statuses (sc_ri a);
        let a = a\<lparr>sc_ri := sc_ri a + 1\<rparr>;
        if e = MPI_SUCCESS then
          Some (Inr (a\<lparr>sc_eta := set_status i
                 (\<lambda>st. st OR (times_flag (knows (eta_out s)) STATUS_KNOWS_I_KNOW OR STATUS_SEND_COMPLETE)) s\<rparr>))
        else if e = MPI_ERR_PROC_FAILED then
          Some (Inr (a\<lparr>sc_eta := set_status i (\<lambda>st. st OR (STATUS_CRASHED OR STATUS_SEND_COMPLETE))
                 (s\<lparr>eta_out := (eta_out s)\<lparr>pf := True\<rparr>\<rparr>)\<rparr>))
        else if e = MPI_ERR_PENDING then Some (Inr (a\<lparr>sc_nr := sc_nr a + 1\<rparr>))
        else Some (Inl (e, s)) }
      else Some (Inr a))"

text \<open>The loop over all processes: \<open>Inl\<close> leaves the function with an error.\<close>

primrec scan_loop ::
  "('v \<Rightarrow> 'v \<Rightarrow> 'v) \<Rightarrow> int \<Rightarrow> int list \<Rightarrow> (nat \<Rightarrow> 'v eta_msg) \<Rightarrow> nat list \<Rightarrow> 'v scan \<Rightarrow> (int \<times> 'v eta + 'v scan) option" where
  "scan_loop opr rc statuses inb [] a = Some (Inr a)"
| "scan_loop opr rc statuses inb (i # is) a =
     do {
       x \<leftarrow> recv_step opr rc statuses inb i a;
       case x of
         Inl e \<Rightarrow> Some (Inl e)
       | Inr a \<Rightarrow> do {
           y \<leftarrow> send_step rc statuses i a;
           case y of Inl e \<Rightarrow> Some (Inl e) | Inr a \<Rightarrow> scan_loop opr rc statuses inb is a } }"

text \<open>The results of the successive waits of a round. Without any more of them the function is
  still waiting.\<close>

fun wait_loop ::
  "('v \<Rightarrow> 'v \<Rightarrow> 'v) \<Rightarrow> nat \<Rightarrow> (nat \<Rightarrow> 'v eta_msg) \<Rightarrow> (int \<times> int list) list \<Rightarrow> 'v eta \<Rightarrow>
   (int \<times> 'v eta + 'v eta \<times> int) option" where
  "wait_loop opr np inb [] s = None"
| "wait_loop opr np inb ((rc, statuses) # bs) s =
     (if rc \<noteq> MPI_ERR_IN_STATUS \<and> rc \<noteq> MPI_SUCCESS then Some (Inl (rc, s))
      else do {
        x \<leftarrow> scan_loop opr rc statuses inb [0..<np] \<lparr>sc_eta = s, sc_ri = 0, sc_nr = 0, sc_nbrecv = 0\<rparr>;
        case x of
          Inl e \<Rightarrow> Some (Inl e)
        | Inr a \<Rightarrow> if sc_nr a \<noteq> 0 then wait_loop opr np inb bs (sc_eta a)
                  else Some (Inr (sc_eta a, sc_nbrecv a)) })"

section \<open>Rounds\<close>

definition nbcrashed :: "'v eta \<Rightarrow> nat" where
  "nbcrashed s = length (filter (\<lambda>st. has st STATUS_CRASHED) (proc_status s))"

definition nbknow :: "'v eta \<Rightarrow> nat" where
  "nbknow s = length (filter (\<lambda>st. \<not> has st STATUS_CRASHED \<and> has st STATUS_TOLD_ME_HE_KNOWS) (proc_status s))"

text \<open>The end of a round: the loop is left, or the process may now know.\<close>

definition end_round :: "nat \<Rightarrow> int \<Rightarrow> int \<Rightarrow> 'v eta \<Rightarrow> bool \<times> 'v eta" where
  "end_round np rnd nbrecv s =
     (if int (nbknow s) + int (nbcrashed s) \<ge> int np - 1 \<and> knows (eta_out s) then (True, s)
      else (False, s\<lparr>eta_out := (eta_out s)\<lparr>knows := (nbknow s > 0 \<or> nbrecv \<ge> int np - rnd + 1)\<rparr>\<rparr>))"

definition eta_round ::
  "('v \<Rightarrow> 'v \<Rightarrow> 'v) \<Rightarrow> nat \<Rightarrow> nat \<Rightarrow> int \<Rightarrow> (nat \<Rightarrow> 'v eta_msg) \<Rightarrow> (int \<times> int list) list \<Rightarrow> 'v eta \<Rightarrow>
   (int \<times> 'v eta + bool \<times> 'v eta) option" where
  "eta_round opr me np rnd inb bs s =
     do {
       x \<leftarrow> wait_loop opr np inb bs (post me s);
       Some (case x of Inl e \<Rightarrow> Inl e | Inr (s, nbrecv) \<Rightarrow> Inr (end_round np rnd nbrecv s)) }"

fun eta_loop ::
  "('v \<Rightarrow> 'v \<Rightarrow> 'v) \<Rightarrow> nat \<Rightarrow> nat \<Rightarrow> int \<Rightarrow> ((nat \<Rightarrow> 'v eta_msg) \<times> (int \<times> int list) list) list \<Rightarrow> 'v eta \<Rightarrow>
   (int \<times> 'v eta) option" where
  "eta_loop opr me np rnd feeds s =
     (if rnd \<le> int np + 1 then
        case feeds of
          [] \<Rightarrow> None
        | (inb, bs) # feeds \<Rightarrow> do {
            x \<leftarrow> eta_round opr me np rnd inb bs s;
            case x of
              Inl e \<Rightarrow> Some e
            | Inr (stop, s) \<Rightarrow> if stop then Some (MPI_SUCCESS, s) else eta_loop opr me np (rnd + 1) feeds s }
      else Some (MPI_SUCCESS, s))"

declare eta_loop.simps [simp del]

section \<open>The operation\<close>

text \<open>The processes that the caller has acknowledged as failed.\<close>

primrec mark_acked :: "int list \<Rightarrow> status list \<Rightarrow> status list option" where
  "mark_acked [] sts = Some sts"
| "mark_acked (r # rs) sts = do { sts \<leftarrow> wr sts r STATUS_ACRASHED; mark_acked rs sts }"

definition eta_start :: "nat \<Rightarrow> int list \<Rightarrow> 'v \<Rightarrow> 'v eta option" where
  "eta_start np cranks contrib =
     do {
       sts \<leftarrow> mark_acked cranks (replicate np STATUS_NO_INFO);
       Some \<lparr>eta_out = \<lparr>knows = False, pf = False, est_value = contrib\<rparr>, proc_status = sts\<rparr> }"

definition failed_ranks :: "'v eta \<Rightarrow> int list" where
  "failed_ranks s = filter (\<lambda>i. has (proc_status s ! nat i) STATUS_CRASHED) (idxs (int (length (proc_status s))))"

definition eta_return :: "int \<Rightarrow> 'v eta \<Rightarrow> int" where
  "eta_return ret s = (if ret = MPI_SUCCESS \<and> pf (eta_out s) then MPI_ERR_PROC_FAILED else ret)"

definition mca_coll_ftbasic_agreement_eta_intra ::
  "('v \<Rightarrow> 'v \<Rightarrow> 'v) \<Rightarrow> bool \<Rightarrow> int \<Rightarrow> int \<Rightarrow> alloc \<Rightarrow> group_state \<Rightarrow> ptr \<Rightarrow> ptr \<Rightarrow> nat \<Rightarrow> nat \<Rightarrow>
   ((nat \<Rightarrow> 'v eta_msg) \<times> (int \<times> int list) list) list \<Rightarrow> 'v \<Rightarrow> (int \<times> 'v \<times> ptr \<times> group_state) option" where
  "mca_coll_ftbasic_agreement_eta_intra opr sparse before hmax al gs grp comm_grp np me feeds contrib =
     do {
       npa \<leftarrow> ompi_group_size gs grp;
       cranks \<leftarrow> (if npa \<noteq> 0 then do {
                    (_, cranks) \<leftarrow> ompi_group_translate_ranks gs grp (idxs npa) comm_grp (replicate (nat npa) 0);
                    Some cranks }
                  else Some []);
       s \<leftarrow> eta_start np cranks contrib;
       (ret, s) \<leftarrow> eta_loop opr me np 1 feeds s;
       gs \<leftarrow> OBJ_RELEASE_group gs grp;
       (_, g, gs) \<leftarrow> ompi_group_incl sparse before hmax al gs comm_grp (failed_ranks s);
       Some (eta_return ret s, est_value (eta_out s), g, gs) }"

end
