(* ===== verification/Agreement_Correct.thy ===== *)
theory Agreement_Correct
  imports Agreement
begin

text \<open>
  One round of the early terminating agreement at one process: what the flags, the value and the
  counters are after all requests of the round have completed, in whatever portions the waits
  report them.
\<close>

section \<open>Flags\<close>

lemma has_flag_bits:
  "has st STATUS_CRASHED = bit st 0" "has st STATUS_TOLD_ME_HE_KNOWS = bit st 2"
  "has st STATUS_KNOWS_I_KNOW = bit st 3" "has st STATUS_SEND_COMPLETE = bit st 4"
  "has st STATUS_RECV_COMPLETE = bit st 5"
  using and_exp_eq_0_iff_not_bit [of st 0] and_exp_eq_0_iff_not_bit [of st 2]
    and_exp_eq_0_iff_not_bit [of st 3] and_exp_eq_0_iff_not_bit [of st 4]
    and_exp_eq_0_iff_not_bit [of st 5]
  by (simp_all add: has_def STATUS_CRASHED_def STATUS_TOLD_ME_HE_KNOWS_def STATUS_KNOWS_I_KNOW_def
      STATUS_SEND_COMPLETE_def STATUS_RECV_COMPLETE_def)

lemmas status_defs = STATUS_NO_INFO_def STATUS_CRASHED_def STATUS_ACRASHED_def STATUS_TOLD_ME_HE_KNOWS_def
  STATUS_KNOWS_I_KNOW_def STATUS_SEND_COMPLETE_def STATUS_RECV_COMPLETE_def

lemma bit_of_pow: "m < 32 \<Longrightarrow> bit (2 ^ m :: 32 word) k \<longleftrightarrow> k = m"
  by (auto simp: bit_exp_iff possible_bit_def)

lemma status_bits [simp]:
  "bit STATUS_CRASHED k \<longleftrightarrow> k = 0" "bit STATUS_TOLD_ME_HE_KNOWS k \<longleftrightarrow> k = 2"
  "bit STATUS_KNOWS_I_KNOW k \<longleftrightarrow> k = 3" "bit STATUS_SEND_COMPLETE k \<longleftrightarrow> k = 4"
  "bit STATUS_RECV_COMPLETE k \<longleftrightarrow> k = 5"
  using bit_of_pow [of 0 k] bit_of_pow [of 2 k] bit_of_pow [of 3 k] bit_of_pow [of 4 k] bit_of_pow [of 5 k]
  by (simp_all add: status_defs)

section \<open>One wait\<close>

definition recv_upd :: "int \<Rightarrow> 'v eta_msg \<Rightarrow> status \<Rightarrow> status" where
  "recv_upd e m st =
     (if bit st 5 \<or> e = MPI_ERR_PENDING then st
      else if e = MPI_SUCCESS then st OR (times_flag (knows m) STATUS_TOLD_ME_HE_KNOWS OR STATUS_RECV_COMPLETE)
      else st OR (STATUS_CRASHED OR STATUS_RECV_COMPLETE))"

definition send_upd :: "int \<Rightarrow> bool \<Rightarrow> status \<Rightarrow> status" where
  "send_upd e kn st =
     (if bit st 4 \<or> e = MPI_ERR_PENDING then st
      else if e = MPI_SUCCESS then st OR (times_flag kn STATUS_KNOWS_I_KNOW OR STATUS_SEND_COMPLETE)
      else st OR (STATUS_CRASHED OR STATUS_SEND_COMPLETE))"

definition codes :: "int set" where
  "codes = {MPI_SUCCESS, MPI_ERR_PROC_FAILED, MPI_ERR_PENDING}"

text \<open>The statuses in the order of the requests that are not complete.\<close>

definition pack :: "(nat \<Rightarrow> int) \<Rightarrow> (nat \<Rightarrow> int) \<Rightarrow> status list \<Rightarrow> nat list \<Rightarrow> int list" where
  "pack rs ss sts is = concat (map (\<lambda>i.
     (if bit (sts ! i) 5 then [] else [rs i]) @ (if bit (sts ! i) 4 then [] else [ss i])) is)"

abbreviation sts_of :: "'v scan \<Rightarrow> status list" where
  "sts_of a \<equiv> proc_status (sc_eta a)"

abbreviation out_of :: "'v scan \<Rightarrow> 'v eta_msg" where
  "out_of a \<equiv> eta_out (sc_eta a)"

definition open_with :: "nat \<Rightarrow> status list \<Rightarrow> (nat \<Rightarrow> int) \<Rightarrow> int \<Rightarrow> nat \<Rightarrow> bool" where
  "open_with k sts rs e i \<longleftrightarrow> \<not> bit (sts ! i) k \<and> rs i = e"

definition scanned ::
  "('v \<Rightarrow> 'v \<Rightarrow> 'v) \<Rightarrow> (nat \<Rightarrow> int) \<Rightarrow> (nat \<Rightarrow> int) \<Rightarrow> (nat \<Rightarrow> 'v eta_msg) \<Rightarrow> nat list \<Rightarrow> 'v scan \<Rightarrow> 'v scan \<Rightarrow> bool" where
  "scanned opr rs ss inb is a a' \<longleftrightarrow>
     length (sts_of a') = length (sts_of a) \<and> knows (out_of a') = knows (out_of a) \<and>
     (\<forall>i. sts_of a' ! i = (if i \<in> set is then send_upd (ss i) (knows (out_of a)) (recv_upd (rs i) (inb i) (sts_of a ! i))
                           else sts_of a ! i)) \<and>
     est_value (out_of a') =
       fold (\<lambda>i. opr (est_value (inb i))) (filter (open_with 5 (sts_of a) rs MPI_SUCCESS) is) (est_value (out_of a)) \<and>
     sc_nbrecv a' = sc_nbrecv a + int (length (filter (open_with 5 (sts_of a) rs MPI_SUCCESS) is)) \<and>
     sc_nr a' = sc_nr a + int (length (filter (open_with 5 (sts_of a) rs MPI_ERR_PENDING) is)) +
       int (length (filter (open_with 4 (sts_of a) ss MPI_ERR_PENDING) is))"

definition results_for :: "int \<Rightarrow> int list \<Rightarrow> int \<Rightarrow> int list \<Rightarrow> bool" where
  "results_for rc statuses ri es \<longleftrightarrow>
     (if rc = MPI_SUCCESS then \<forall>e \<in> set es. e = MPI_SUCCESS
      else 0 \<le> ri \<and> (\<exists>rest. drop (nat ri) statuses = es @ rest))"

lemma results_for_Nil: "results_for rc statuses ri [] \<longleftrightarrow> rc = MPI_SUCCESS \<or> 0 \<le> ri"
  by (simp add: results_for_def)

lemma results_for_Cons:
  assumes "results_for rc statuses ri (e # es)"
  shows "result_at rc statuses ri = Some e" "results_for rc statuses (ri + 1) es"
proof -
  have d: "rc \<noteq> MPI_SUCCESS \<Longrightarrow> nat ri < length statuses \<and> statuses ! nat ri = e \<and>
      (\<exists>rest. drop (nat (ri + 1)) statuses = es @ rest) \<and> 0 \<le> ri"
    using assms unfolding results_for_def
    by (auto simp: nat_add_distrib drop_Suc [symmetric] nth_via_drop not_le
        intro!: exI dest: arg_cong [of _ _ "drop 1"] arg_cong [of _ _ length])
  show "result_at rc statuses ri = Some e"
    using assms d by (cases "rc = MPI_SUCCESS") (auto simp: results_for_def result_at_def rd_def nat_less_iff)
  show "results_for rc statuses (ri + 1) es"
    using assms d by (cases "rc = MPI_SUCCESS") (auto simp: results_for_def)
qed

lemma set_status_simps [simp]:
  "eta_out (set_status i f s) = eta_out s"
  "length (proc_status (set_status i f s)) = length (proc_status s)"
  "i < length (proc_status s) \<Longrightarrow>
     proc_status (set_status i f s) ! j = (if i = j then f (proc_status s ! j) else proc_status s ! j)"
  by (auto simp: set_status_def nth_list_update)

definition recv_done ::
  "('v \<Rightarrow> 'v \<Rightarrow> 'v) \<Rightarrow> int \<Rightarrow> 'v eta_msg \<Rightarrow> nat \<Rightarrow> 'v scan \<Rightarrow> 'v scan \<Rightarrow> bool" where
  "recv_done opr e m i a a' \<longleftrightarrow>
     (let h = (\<lambda>c. \<not> bit (sts_of a ! i) 5 \<and> e = c) in
      length (sts_of a') = length (sts_of a) \<and> knows (out_of a') = knows (out_of a) \<and>
      (\<forall>j. sts_of a' ! j = (if j = i then recv_upd e m (sts_of a ! i) else sts_of a ! j)) \<and>
      est_value (out_of a') = (if h MPI_SUCCESS then opr (est_value m) else (\<lambda>x. x)) (est_value (out_of a)) \<and>
      sc_nbrecv a' = sc_nbrecv a + of_bool (h MPI_SUCCESS) \<and>
      sc_nr a' = sc_nr a + of_bool (h MPI_ERR_PENDING))"

lemma recv_step_ok:
  assumes "i < length (sts_of a)" "e \<in> codes"
    "results_for rc statuses (sc_ri a) ((if bit (sts_of a ! i) 5 then [] else [e]) @ es)"
  shows "\<exists>a'. recv_step opr rc statuses inb i a = Some (Inr a') \<and>
    results_for rc statuses (sc_ri a') es \<and> recv_done opr e (inb i) i a a'"
proof (cases "bit (sts_of a ! i) 5")
  case True
  with assms show ?thesis
    by (simp add: recv_step_def has_flag_bits recv_upd_def recv_done_def)
next
  case False
  with results_for_Cons [of rc statuses "sc_ri a" e es] assms(3)
  have r: "result_at rc statuses (sc_ri a) = Some e" "results_for rc statuses (sc_ri a + 1) es" by auto
  from assms(2) consider "e = MPI_SUCCESS" | "e = MPI_ERR_PROC_FAILED" | "e = MPI_ERR_PENDING"
    by (auto simp: codes_def)
  then show ?thesis
    by cases (use False r assms(1) in
      \<open>simp_all add: recv_step_def has_flag_bits recv_upd_def recv_done_def Let_def rc_defs\<close>)
qed

definition send_done :: "int \<Rightarrow> nat \<Rightarrow> 'v scan \<Rightarrow> 'v scan \<Rightarrow> bool" where
  "send_done e i a a' \<longleftrightarrow>
     length (sts_of a') = length (sts_of a) \<and> knows (out_of a') = knows (out_of a) \<and>
     (\<forall>j. sts_of a' ! j = (if j = i then send_upd e (knows (out_of a)) (sts_of a ! i) else sts_of a ! j)) \<and>
     est_value (out_of a') = est_value (out_of a) \<and> sc_nbrecv a' = sc_nbrecv a \<and>
     sc_nr a' = sc_nr a + of_bool (\<not> bit (sts_of a ! i) 4 \<and> e = MPI_ERR_PENDING)"

lemma send_step_ok:
  assumes "i < length (sts_of a)" "e \<in> codes"
    "results_for rc statuses (sc_ri a) ((if bit (sts_of a ! i) 4 then [] else [e]) @ es)"
  shows "\<exists>a'. send_step rc statuses i a = Some (Inr a') \<and>
    results_for rc statuses (sc_ri a') es \<and> send_done e i a a'"
proof (cases "bit (sts_of a ! i) 4")
  case True
  with assms show ?thesis
    by (simp add: send_step_def has_flag_bits send_upd_def send_done_def)
next
  case False
  with results_for_Cons [of rc statuses "sc_ri a" e es] assms(3)
  have r: "result_at rc statuses (sc_ri a) = Some e" "results_for rc statuses (sc_ri a + 1) es" by auto
  from assms(2) consider "e = MPI_SUCCESS" | "e = MPI_ERR_PROC_FAILED" | "e = MPI_ERR_PENDING"
    by (auto simp: codes_def)
  then show ?thesis
    by cases (use False r assms(1) in
      \<open>simp_all add: send_step_def has_flag_bits send_upd_def send_done_def Let_def rc_defs\<close>)
qed

lemma recv_upd_bit4: "bit (recv_upd e m st) 4 = bit st 4"
  by (simp add: recv_upd_def bit_or_iff times_flag_def)

lemma scanned_Cons:
  assumes "recv_done opr (rs i) (inb i) i a a1" "send_done (ss i) i a1 a2" "scanned opr rs ss inb is a2 a'"
    "i \<notin> set is"
  shows "scanned opr rs ss inb (i # is) a a'"
proof -
  have st: "sts_of a2 ! j = (if j = i then send_upd (ss i) (knows (out_of a)) (recv_upd (rs i) (inb i) (sts_of a ! i))
      else sts_of a ! j)" for j
    using assms(1,2) by (simp add: recv_done_def send_done_def)
  have "sts_of a2 ! j = sts_of a ! j" if "j \<in> set is" for j
    using that assms(4) st by auto
  then have f: "filter (open_with k (sts_of a2) f c) is = filter (open_with k (sts_of a) f c) is" for k f c
    by (simp add: open_with_def cong: filter_cong)
  have o: "open_with k (sts_of a) f c i = (\<not> bit (sts_of a ! i) k \<and> f i = c)" for k f c
    by (simp add: open_with_def)
  show ?thesis
    using assms st unfolding scanned_def f
    by (auto simp: o recv_done_def send_done_def recv_upd_bit4)
qed

lemma scan_loop_ok:
  assumes "\<forall>i \<in> set is. i < length (sts_of a) \<and> rs i \<in> codes \<and> ss i \<in> codes" "distinct is"
    "results_for rc statuses (sc_ri a) (pack rs ss (sts_of a) is)"
  shows "\<exists>a'. scan_loop opr rc statuses inb is a = Some (Inr a') \<and> scanned opr rs ss inb is a a'"
  using assms
proof (induction "is" arbitrary: a)
  case Nil
  show ?case by (simp add: scanned_def)
next
  case (Cons i "is")
  let ?S = "if bit (sts_of a ! i) 4 then [] else [ss i]"
  have "results_for rc statuses (sc_ri a)
      ((if bit (sts_of a ! i) 5 then [] else [rs i]) @ (?S @ pack rs ss (sts_of a) is))"
    using Cons.prems(3) by (simp add: pack_def)
  then obtain a1 where a1: "recv_step opr rc statuses inb i a = Some (Inr a1)"
      "results_for rc statuses (sc_ri a1) (?S @ pack rs ss (sts_of a) is)" "recv_done opr (rs i) (inb i) i a a1"
    using recv_step_ok Cons.prems(1) by (meson list.set_intros(1))
  then have b: "bit (sts_of a1 ! i) 4 = bit (sts_of a ! i) 4" "length (sts_of a1) = length (sts_of a)"
    by (simp_all add: recv_done_def recv_upd_bit4)
  then have "\<exists>a2. send_step rc statuses i a1 = Some (Inr a2) \<and>
      results_for rc statuses (sc_ri a2) (pack rs ss (sts_of a) is) \<and> send_done (ss i) i a1 a2"
    using a1(2) Cons.prems(1) by (intro send_step_ok) auto
  then obtain a2 where a2: "send_step rc statuses i a1 = Some (Inr a2)"
      "results_for rc statuses (sc_ri a2) (pack rs ss (sts_of a) is)" "send_done (ss i) i a1 a2"
    by blast
  have st: "j \<noteq> i \<Longrightarrow> sts_of a2 ! j = sts_of a ! j" "length (sts_of a2) = length (sts_of a)" for j
    using a1(3) a2(3) by (simp_all add: recv_done_def send_done_def)
  have "sts_of a2 ! j = sts_of a ! j" if "j \<in> set is" for j
    using that Cons.prems(2) st(1) by (cases "j = i") auto
  then have "pack rs ss (sts_of a2) is = pack rs ss (sts_of a) is"
    by (simp add: pack_def cong: map_cong)
  then obtain a' where "scan_loop opr rc statuses inb is a2 = Some (Inr a')" "scanned opr rs ss inb is a2 a'"
    using Cons.IH [of a2] Cons.prems a2(2) st by auto
  then show ?case
    using a1 a2 Cons.prems(2) scanned_Cons [of opr rs i inb a a1 ss a2 "is" a'] by simp
qed

section \<open>The waits of a round\<close>

text \<open>How the requests of a round end: for every process the result of the request and the
  number of waits that report it as pending before.\<close>

record outcome =
  ro :: "nat \<Rightarrow> int"
  rt :: "nat \<Rightarrow> nat"
  so :: "nat \<Rightarrow> int"
  st_t :: "nat \<Rightarrow> nat"

definition report :: "nat \<Rightarrow> nat \<Rightarrow> int \<Rightarrow> int" where
  "report k t e = (if k < t then MPI_ERR_PENDING else e)"

abbreviation needs_recv :: "nat \<Rightarrow> 'v eta \<Rightarrow> nat \<Rightarrow> bool" where
  "needs_recv me s i \<equiv> NEED_TO_RECV me i (proc_status s ! i)"

abbreviation needs_send :: "nat \<Rightarrow> 'v eta \<Rightarrow> nat \<Rightarrow> bool" where
  "needs_send me s i \<equiv> NEED_TO_SEND me i (proc_status s ! i)"

definition wait_statuses :: "nat \<Rightarrow> 'v eta \<Rightarrow> outcome \<Rightarrow> nat \<Rightarrow> int list" where
  "wait_statuses me s oc k = concat (map (\<lambda>i.
     (if needs_recv me s i \<and> k \<le> rt oc i then [report k (rt oc i) (ro oc i)] else []) @
     (if needs_send me s i \<and> k \<le> st_t oc i then [report k (st_t oc i) (so oc i)] else []))
     [0..<length (proc_status s)])"

definition wait_result :: "nat \<Rightarrow> 'v eta \<Rightarrow> outcome \<Rightarrow> nat \<Rightarrow> int \<times> int list" where
  "wait_result me s oc k =
     (let es = wait_statuses me s oc k
      in (if list_all (\<lambda>e. e = MPI_SUCCESS) es then MPI_SUCCESS else MPI_ERR_IN_STATUS, es))"

definition waits :: "nat \<Rightarrow> 'v eta \<Rightarrow> outcome \<Rightarrow> nat \<Rightarrow> (int \<times> int list) list" where
  "waits me s oc n = map (wait_result me s oc) [0..<n]"

definition outcome_ok :: "nat \<Rightarrow> 'v eta \<Rightarrow> outcome \<Rightarrow> bool" where
  "outcome_ok me s oc \<longleftrightarrow> (\<forall>i < length (proc_status s).
     (needs_recv me s i \<longrightarrow> ro oc i \<in> {MPI_SUCCESS, MPI_ERR_PROC_FAILED}) \<and>
     (needs_send me s i \<longrightarrow> so oc i \<in> {MPI_SUCCESS, MPI_ERR_PROC_FAILED}))"

definition received_by :: "nat \<Rightarrow> 'v eta \<Rightarrow> outcome \<Rightarrow> nat \<Rightarrow> nat set" where
  "received_by me s oc k =
     {i. i < length (proc_status s) \<and> needs_recv me s i \<and> rt oc i < k \<and> ro oc i = MPI_SUCCESS}"

definition failed_by :: "nat \<Rightarrow> 'v eta \<Rightarrow> outcome \<Rightarrow> nat \<Rightarrow> nat \<Rightarrow> bool" where
  "failed_by me s oc k i \<longleftrightarrow>
     needs_recv me s i \<and> rt oc i < k \<and> ro oc i = MPI_ERR_PROC_FAILED \<or>
     needs_send me s i \<and> st_t oc i < k \<and> so oc i = MPI_ERR_PROC_FAILED"

definition after_waits ::
  "('v \<Rightarrow> 'v \<Rightarrow> 'v) \<Rightarrow> nat \<Rightarrow> (nat \<Rightarrow> 'v eta_msg) \<Rightarrow> outcome \<Rightarrow> nat \<Rightarrow> 'v eta \<Rightarrow> 'v eta \<Rightarrow> bool" where
  "after_waits opr me inb oc k s t \<longleftrightarrow>
     length (proc_status t) = length (proc_status s) \<and> knows (eta_out t) = knows (eta_out s) \<and>
     (\<forall>i < length (proc_status s).
        (bit (proc_status t ! i) 5 \<longleftrightarrow> \<not> (needs_recv me s i \<and> k \<le> rt oc i)) \<and>
        (bit (proc_status t ! i) 4 \<longleftrightarrow> \<not> (needs_send me s i \<and> k \<le> st_t oc i)) \<and>
        (bit (proc_status t ! i) 0 \<longleftrightarrow> bit (proc_status s ! i) 0 \<or> failed_by me s oc k i) \<and>
        (bit (proc_status t ! i) 2 \<longleftrightarrow> bit (proc_status s ! i) 2 \<or> i \<in> received_by me s oc k \<and> knows (inb i)) \<and>
        (bit (proc_status t ! i) 3 \<longleftrightarrow> bit (proc_status s ! i) 3 \<or>
           needs_send me s i \<and> st_t oc i < k \<and> so oc i = MPI_SUCCESS \<and> knows (eta_out s))) \<and>
     (\<exists>L. set L = received_by me s oc k \<and>
        est_value (eta_out t) = fold (\<lambda>i. opr (est_value (inb i))) L (est_value (eta_out s)))"

lemma after_post: "after_waits opr me inb oc 0 s (post me s)"
  by (auto simp: after_waits_def post_def post_one_def Let_def failed_by_def received_by_def
      nth_enumerate_eq bit_or_iff bit_and_iff bit_not_iff has_flag_bits NEED_TO_RECV_def NEED_TO_SEND_def
      intro!: exI [of _ "[]"])

definition rep_recv :: "nat \<Rightarrow> 'v eta \<Rightarrow> outcome \<Rightarrow> nat \<Rightarrow> nat \<Rightarrow> int" where
  "rep_recv me s oc k i = (if needs_recv me s i then report k (rt oc i) (ro oc i) else MPI_SUCCESS)"

definition rep_send :: "nat \<Rightarrow> 'v eta \<Rightarrow> outcome \<Rightarrow> nat \<Rightarrow> nat \<Rightarrow> int" where
  "rep_send me s oc k i = (if needs_send me s i then report k (st_t oc i) (so oc i) else MPI_SUCCESS)"

lemma wait_results_for:
  assumes "after_waits opr me inb oc k s t" "wait_result me s oc k = (rc, statuses)"
  shows "results_for rc statuses 0
    (pack (rep_recv me s oc k) (rep_send me s oc k) (proc_status t) [0..<length (proc_status s)])"
    "rc = MPI_SUCCESS \<or> rc = MPI_ERR_IN_STATUS"
proof -
  have "pack (rep_recv me s oc k) (rep_send me s oc k) (proc_status t) [0..<length (proc_status s)]
      = wait_statuses me s oc k"
    using assms(1) by (auto simp: pack_def wait_statuses_def after_waits_def rep_recv_def rep_send_def
        intro!: arg_cong [of _ _ concat])
  then show "results_for rc statuses 0
    (pack (rep_recv me s oc k) (rep_send me s oc k) (proc_status t) [0..<length (proc_status s)])"
    "rc = MPI_SUCCESS \<or> rc = MPI_ERR_IN_STATUS"
    using assms(2) by (auto simp: wait_result_def Let_def results_for_def list_all_iff rc_defs split: if_splits)
qed

lemma recv_upd_bits:
  "bit (recv_upd e m st) 5 = (bit st 5 \<or> e \<noteq> MPI_ERR_PENDING)"
  "bit (recv_upd e m st) 0 = (bit st 0 \<or> \<not> bit st 5 \<and> e \<noteq> MPI_ERR_PENDING \<and> e \<noteq> MPI_SUCCESS)"
  "bit (recv_upd e m st) 2 = (bit st 2 \<or> \<not> bit st 5 \<and> e = MPI_SUCCESS \<and> knows m)"
  "bit (recv_upd e m st) 3 = bit st 3"
  by (auto simp: recv_upd_def bit_or_iff times_flag_def rc_defs)

lemma send_upd_bits:
  "bit (send_upd e kn st) 4 = (bit st 4 \<or> e \<noteq> MPI_ERR_PENDING)"
  "bit (send_upd e kn st) 0 = (bit st 0 \<or> \<not> bit st 4 \<and> e \<noteq> MPI_ERR_PENDING \<and> e \<noteq> MPI_SUCCESS)"
  "bit (send_upd e kn st) 3 = (bit st 3 \<or> \<not> bit st 4 \<and> e = MPI_SUCCESS \<and> kn)"
  "bit (send_upd e kn st) 2 = bit st 2" "bit (send_upd e kn st) 5 = bit st 5"
  by (auto simp: send_upd_def bit_or_iff times_flag_def rc_defs)

definition none_left :: "nat \<Rightarrow> 'v eta \<Rightarrow> outcome \<Rightarrow> nat \<Rightarrow> bool" where
  "none_left me s oc k \<longleftrightarrow> (\<forall>i < length (proc_status s).
     (needs_recv me s i \<longrightarrow> rt oc i < k) \<and> (needs_send me s i \<longrightarrow> st_t oc i < k))"

lemma rc_distinct [simp]:
  "MPI_SUCCESS \<noteq> MPI_ERR_PENDING" "MPI_ERR_PENDING \<noteq> MPI_SUCCESS"
  "MPI_SUCCESS \<noteq> MPI_ERR_PROC_FAILED" "MPI_ERR_PROC_FAILED \<noteq> MPI_SUCCESS"
  "MPI_ERR_PENDING \<noteq> MPI_ERR_PROC_FAILED" "MPI_ERR_PROC_FAILED \<noteq> MPI_ERR_PENDING"
  by (simp_all add: rc_defs)

lemma after_waitsD:
  assumes "after_waits opr me inb oc k s t" "i < length (proc_status s)"
  shows "bit (proc_status t ! i) 5 \<longleftrightarrow> \<not> (needs_recv me s i \<and> k \<le> rt oc i)"
    "bit (proc_status t ! i) 4 \<longleftrightarrow> \<not> (needs_send me s i \<and> k \<le> st_t oc i)"
    "bit (proc_status t ! i) 0 \<longleftrightarrow> bit (proc_status s ! i) 0 \<or> failed_by me s oc k i"
    "bit (proc_status t ! i) 2 \<longleftrightarrow> bit (proc_status s ! i) 2 \<or> i \<in> received_by me s oc k \<and> knows (inb i)"
    "bit (proc_status t ! i) 3 \<longleftrightarrow> bit (proc_status s ! i) 3 \<or>
       needs_send me s i \<and> st_t oc i < k \<and> so oc i = MPI_SUCCESS \<and> knows (eta_out s)"
  using assms unfolding after_waits_def by blast+

lemma received_Suc:
  assumes "after_waits opr me inb oc k s t"
  shows "received_by me s oc (Suc k) =
    received_by me s oc k \<union>
    set (filter (open_with 5 (proc_status t) (rep_recv me s oc k) MPI_SUCCESS) [0..<length (proc_status s)])"
proof (rule set_eqI)
  fix i
  show "i \<in> received_by me s oc (Suc k) \<longleftrightarrow> i \<in> received_by me s oc k \<union>
      set (filter (open_with 5 (proc_status t) (rep_recv me s oc k) MPI_SUCCESS) [0..<length (proc_status s)])"
    using after_waitsD(1) [OF assms, of i]
    by (cases "needs_recv me s i"; cases "rt oc i" k rule: linorder_cases)
      (auto simp: received_by_def open_with_def rep_recv_def report_def)
qed

lemma after_scanned:
  assumes "after_waits opr me inb oc k s t" "outcome_ok me s oc" "sc_eta a = t"
    "scanned opr (rep_recv me s oc k) (rep_send me s oc k) inb [0..<length (proc_status s)] a a'"
  shows "after_waits opr me inb oc (Suc k) s (sc_eta a')"
  unfolding after_waits_def
proof (intro conjI allI impI)
  show "length (proc_status (sc_eta a')) = length (proc_status s)" "knows (eta_out (sc_eta a')) = knows (eta_out s)"
    using assms by (simp_all add: scanned_def after_waits_def)
next
  fix i
  assume i: "i < length (proc_status s)"
  have st: "proc_status (sc_eta a') ! i = send_upd (rep_send me s oc k i) (knows (eta_out s))
      (recv_upd (rep_recv me s oc k i) (inb i) (proc_status t ! i))"
    using assms i by (simp add: scanned_def after_waits_def)
  note b = after_waitsD [OF assms(1) i]
  have orecv: "needs_recv me s i \<Longrightarrow> ro oc i = MPI_SUCCESS \<or> ro oc i = MPI_ERR_PROC_FAILED"
    and osend: "needs_send me s i \<Longrightarrow> so oc i = MPI_SUCCESS \<or> so oc i = MPI_ERR_PROC_FAILED"
    using assms(2) i by (auto simp: outcome_ok_def)
  note r = b(1) orecv rep_recv_def [of me s oc k i] report_def [of k "rt oc i" "ro oc i"]
  note w = b(2) osend rep_send_def [of me s oc k i] report_def [of k "st_t oc i" "so oc i"]
  show "bit (proc_status (sc_eta a') ! i) 5 \<longleftrightarrow> \<not> (needs_recv me s i \<and> Suc k \<le> rt oc i)"
    using r by (auto simp: st send_upd_bits recv_upd_bits)
  show "bit (proc_status (sc_eta a') ! i) 4 \<longleftrightarrow> \<not> (needs_send me s i \<and> Suc k \<le> st_t oc i)"
    using w by (auto simp: st send_upd_bits recv_upd_bit4)
  have r0: "\<not> bit (proc_status t ! i) 5 \<and> rep_recv me s oc k i \<noteq> MPI_ERR_PENDING \<and> rep_recv me s oc k i \<noteq> MPI_SUCCESS
      \<longleftrightarrow> needs_recv me s i \<and> rt oc i = k \<and> ro oc i = MPI_ERR_PROC_FAILED"
    using r by auto
  have w0: "\<not> bit (proc_status t ! i) 4 \<and> rep_send me s oc k i \<noteq> MPI_ERR_PENDING \<and> rep_send me s oc k i \<noteq> MPI_SUCCESS
      \<longleftrightarrow> needs_send me s i \<and> st_t oc i = k \<and> so oc i = MPI_ERR_PROC_FAILED"
    using w by auto
  show "bit (proc_status (sc_eta a') ! i) 0 \<longleftrightarrow> bit (proc_status s ! i) 0 \<or> failed_by me s oc (Suc k) i"
    unfolding st send_upd_bits recv_upd_bits recv_upd_bit4 r0 w0 b(3) failed_by_def less_Suc_eq by blast
  have r2: "\<not> bit (proc_status t ! i) 5 \<and> rep_recv me s oc k i = MPI_SUCCESS
      \<longleftrightarrow> needs_recv me s i \<and> rt oc i = k \<and> ro oc i = MPI_SUCCESS"
    using r by auto
  have w3: "\<not> bit (proc_status t ! i) 4 \<and> rep_send me s oc k i = MPI_SUCCESS
      \<longleftrightarrow> needs_send me s i \<and> st_t oc i = k \<and> so oc i = MPI_SUCCESS"
    using w by auto
  show "bit (proc_status (sc_eta a') ! i) 2 \<longleftrightarrow>
      bit (proc_status s ! i) 2 \<or> i \<in> received_by me s oc (Suc k) \<and> knows (inb i)"
    using r2 b(4) i unfolding st send_upd_bits recv_upd_bits received_by_def less_Suc_eq by auto
  show "bit (proc_status (sc_eta a') ! i) 3 \<longleftrightarrow> bit (proc_status s ! i) 3 \<or>
      needs_send me s i \<and> st_t oc i < Suc k \<and> so oc i = MPI_SUCCESS \<and> knows (eta_out s)"
    using w3 b(5) unfolding st send_upd_bits recv_upd_bits recv_upd_bit4 less_Suc_eq by blast
next
  obtain L where L: "set L = received_by me s oc k"
      "est_value (eta_out t) = fold (\<lambda>i. opr (est_value (inb i))) L (est_value (eta_out s))"
    using assms(1) by (auto simp: after_waits_def)
  let ?F = "filter (open_with 5 (proc_status t) (rep_recv me s oc k) MPI_SUCCESS) [0..<length (proc_status s)]"
  have "set (L @ ?F) = received_by me s oc (Suc k)"
    using received_Suc [OF assms(1)] L(1) by simp
  moreover have "est_value (eta_out (sc_eta a')) =
      fold (\<lambda>i. opr (est_value (inb i))) (L @ ?F) (est_value (eta_out s))"
    using assms(3,4) L(2) by (simp add: scanned_def)
  ultimately show "\<exists>L. set L = received_by me s oc (Suc k) \<and>
      est_value (eta_out (sc_eta a')) = fold (\<lambda>i. opr (est_value (inb i))) L (est_value (eta_out s))"
    by blast
qed

lemma finite_received [simp, intro]: "finite (received_by me s oc k)"
  by (simp add: received_by_def)

lemma scanned_counts:
  assumes "after_waits opr me inb oc k s t" "outcome_ok me s oc"
    "a = \<lparr>sc_eta = t, sc_ri = 0, sc_nr = 0, sc_nbrecv = 0\<rparr>"
    "scanned opr (rep_recv me s oc k) (rep_send me s oc k) inb [0..<length (proc_status s)] a a'"
  shows "sc_nr a' = 0 \<longleftrightarrow> none_left me s oc (Suc k)" "sc_nbrecv a' \<le> int (card (received_by me s oc (Suc k)))"
proof -
  let ?n = "length (proc_status s)"
  let ?F = "\<lambda>b f c. filter (open_with b (proc_status t) f c) [0..<?n]"
  have e: "sc_nr a' = int (length (?F 5 (rep_recv me s oc k) MPI_ERR_PENDING)) +
      int (length (?F 4 (rep_send me s oc k) MPI_ERR_PENDING))"
      "sc_nbrecv a' = int (length (?F 5 (rep_recv me s oc k) MPI_SUCCESS))"
    using assms(3,4) by (simp_all add: scanned_def)
  have r: "open_with 5 (proc_status t) (rep_recv me s oc k) MPI_ERR_PENDING i \<longleftrightarrow> needs_recv me s i \<and> \<not> rt oc i < Suc k"
    and w: "open_with 4 (proc_status t) (rep_send me s oc k) MPI_ERR_PENDING i \<longleftrightarrow> needs_send me s i \<and> \<not> st_t oc i < Suc k"
    if "i < ?n" for i
    using after_waitsD(1,2) [OF assms(1) that] assms(2) that
    by (auto simp: open_with_def rep_recv_def rep_send_def report_def outcome_ok_def)
  have "sc_nr a' = 0 \<longleftrightarrow> ?F 5 (rep_recv me s oc k) MPI_ERR_PENDING = [] \<and> ?F 4 (rep_send me s oc k) MPI_ERR_PENDING = []"
    unfolding e by (simp only: int_plus [symmetric] of_nat_eq_0_iff add_is_0 length_0_conv)
  also have "\<dots> \<longleftrightarrow> none_left me s oc (Suc k)"
    using r w by (auto simp: filter_empty_conv none_left_def)
  finally show "sc_nr a' = 0 \<longleftrightarrow> none_left me s oc (Suc k)" .
  have "length (?F 5 (rep_recv me s oc k) MPI_SUCCESS) = card (set (?F 5 (rep_recv me s oc k) MPI_SUCCESS))"
    by (rule distinct_card [symmetric]) simp
  also have "\<dots> \<le> card (received_by me s oc (Suc k))"
    using received_Suc [OF assms(1)] by (intro card_mono) auto
  finally show "sc_nbrecv a' \<le> int (card (received_by me s oc (Suc k)))"
    unfolding e by simp
qed

lemma rep_codes:
  "outcome_ok me s oc \<Longrightarrow> i < length (proc_status s) \<Longrightarrow> rep_recv me s oc k i \<in> codes \<and> rep_send me s oc k i \<in> codes"
  by (auto simp: outcome_ok_def rep_recv_def rep_send_def report_def codes_def)

lemma wait_once:
  assumes "after_waits opr me inb oc k s t" "outcome_ok me s oc" "wait_result me s oc k = (rc, statuses)"
    "np = length (proc_status s)"
  shows "\<exists>a'. scan_loop opr rc statuses inb [0..<np] \<lparr>sc_eta = t, sc_ri = 0, sc_nr = 0, sc_nbrecv = 0\<rparr> = Some (Inr a') \<and>
    after_waits opr me inb oc (Suc k) s (sc_eta a') \<and> (sc_nr a' = 0 \<longleftrightarrow> none_left me s oc (Suc k)) \<and>
    sc_nbrecv a' \<le> int (card (received_by me s oc (Suc k)))"
proof -
  let ?a = "\<lparr>sc_eta = t, sc_ri = 0, sc_nr = 0, sc_nbrecv = 0\<rparr>"
  have "length (proc_status t) = np" using assms(1,4) by (simp add: after_waits_def)
  then obtain a' where "scan_loop opr rc statuses inb [0..<np] ?a = Some (Inr a')"
      and sc: "scanned opr (rep_recv me s oc k) (rep_send me s oc k) inb [0..<np] ?a a'"
    using scan_loop_ok [of "[0..<np]" ?a "rep_recv me s oc k" "rep_send me s oc k" rc statuses opr inb]
      wait_results_for(1) [OF assms(1,3)] rep_codes [OF assms(2)] assms(4) by auto
  then show ?thesis
    using after_scanned [OF assms(1,2) _ sc [unfolded assms(4)]]
      scanned_counts [OF assms(1,2) refl sc [unfolded assms(4)]] assms(4) by simp
qed

lemma wait_loop_ok:
  assumes "after_waits opr me inb oc k s t" "outcome_ok me s oc" "np = length (proc_status s)"
    "k < n" "none_left me s oc n"
  shows "\<exists>t' nb k'. wait_loop opr np inb (map (wait_result me s oc) [k..<n]) t = Some (Inr (t', nb)) \<and>
    after_waits opr me inb oc k' s t' \<and> none_left me s oc k' \<and> nb \<le> int (card (received_by me s oc k'))"
  using assms
proof (induction "n - k" arbitrary: k t)
  case 0
  then show ?case by simp
next
  case (Suc d)
  obtain rc statuses where w: "wait_result me s oc k = (rc, statuses)" by fastforce
  obtain a' where a': "scan_loop opr rc statuses inb [0..<np] \<lparr>sc_eta = t, sc_ri = 0, sc_nr = 0, sc_nbrecv = 0\<rparr> = Some (Inr a')"
      "after_waits opr me inb oc (Suc k) s (sc_eta a')" "sc_nr a' = 0 \<longleftrightarrow> none_left me s oc (Suc k)"
      "sc_nbrecv a' \<le> int (card (received_by me s oc (Suc k)))"
    using wait_once [OF Suc.prems(1,2) w Suc.prems(3)] by blast
  have rc: "\<not> (rc \<noteq> MPI_ERR_IN_STATUS \<and> rc \<noteq> MPI_SUCCESS)"
    using wait_results_for(2) [OF Suc.prems(1) w] by blast
  have l: "map (wait_result me s oc) [k..<n] = (rc, statuses) # map (wait_result me s oc) [Suc k..<n]"
    using Suc.prems(4) w by (simp add: upt_conv_Cons)
  show ?case
  proof (cases "none_left me s oc (Suc k)")
    case True
    then show ?thesis using a' rc unfolding l by auto
  next
    case False
    then have "Suc k \<noteq> n" using Suc.prems(5) by auto
    then have "\<exists>t' nb k'. wait_loop opr np inb (map (wait_result me s oc) [Suc k..<n]) (sc_eta a') = Some (Inr (t', nb)) \<and>
        after_waits opr me inb oc k' s t' \<and> none_left me s oc k' \<and> nb \<le> int (card (received_by me s oc k'))"
      using Suc.hyps(2) Suc.prems a'(2) by (intro Suc.hyps(1)) auto
    then show ?thesis using a' rc False unfolding l by auto
  qed
qed

section \<open>One round\<close>

definition crashed_at :: "'v eta \<Rightarrow> nat set" where
  "crashed_at s = {i. i < length (proc_status s) \<and> has (proc_status s ! i) STATUS_CRASHED}"

definition told_at :: "'v eta \<Rightarrow> nat set" where
  "told_at s = {i. i < length (proc_status s) \<and> has (proc_status s ! i) STATUS_TOLD_ME_HE_KNOWS}"

definition told_to :: "'v eta \<Rightarrow> nat set" where
  "told_to s = {i. i < length (proc_status s) \<and> has (proc_status s ! i) STATUS_KNOWS_I_KNOW}"

definition got :: "nat \<Rightarrow> 'v eta \<Rightarrow> outcome \<Rightarrow> nat set" where
  "got me s oc = {i. i < length (proc_status s) \<and> needs_recv me s i \<and> ro oc i = MPI_SUCCESS}"

definition lost :: "nat \<Rightarrow> 'v eta \<Rightarrow> outcome \<Rightarrow> nat set" where
  "lost me s oc = {i. i < length (proc_status s) \<and>
     (needs_recv me s i \<and> ro oc i = MPI_ERR_PROC_FAILED \<or> needs_send me s i \<and> so oc i = MPI_ERR_PROC_FAILED)}"

definition gave :: "nat \<Rightarrow> 'v eta \<Rightarrow> outcome \<Rightarrow> nat set" where
  "gave me s oc = {i. i < length (proc_status s) \<and> needs_send me s i \<and> so oc i = MPI_SUCCESS}"

lemma round_effect:
  assumes "outcome_ok me s oc" "np = length (proc_status s)" "0 < n" "none_left me s oc n"
  shows "\<exists>t nb L. eta_round opr me np rnd inb (waits me s oc n) s = Some (Inr (end_round np rnd nb t)) \<and>
    length (proc_status t) = np \<and> knows (eta_out t) = knows (eta_out s) \<and>
    crashed_at t = crashed_at s \<union> lost me s oc \<and>
    told_at t = told_at s \<union> {i \<in> got me s oc. knows (inb i)} \<and>
    told_to t = told_to s \<union> (if knows (eta_out s) then gave me s oc else {}) \<and>
    nb \<le> int (card (got me s oc)) \<and>
    set L = got me s oc \<and>
    est_value (eta_out t) = fold (\<lambda>i. opr (est_value (inb i))) L (est_value (eta_out s))"
proof -
  obtain t nb k where t: "wait_loop opr np inb (waits me s oc n) (post me s) = Some (Inr (t, nb))"
      "after_waits opr me inb oc k s t" "none_left me s oc k" "nb \<le> int (card (received_by me s oc k))"
    using wait_loop_ok [OF after_post assms(1,2,3,4)] unfolding waits_def by blast
  have g: "received_by me s oc k = got me s oc"
    using t(3) by (auto simp: received_by_def got_def none_left_def)
  have "failed_by me s oc k i \<longleftrightarrow> i \<in> lost me s oc" if "i < np" for i
    using t(3) that assms(2) by (auto simp: failed_by_def lost_def none_left_def)
  then have "crashed_at t = crashed_at s \<union> lost me s oc"
    using t(2) assms(2) by (auto simp: crashed_at_def after_waits_def has_flag_bits lost_def)
  moreover have "told_at t = told_at s \<union> {i \<in> got me s oc. knows (inb i)}"
    using t(2) by (auto simp: told_at_def after_waits_def has_flag_bits g) (auto simp: got_def)
  moreover have "told_to t = told_to s \<union> (if knows (eta_out s) then gave me s oc else {})"
    using t(2,3) by (auto simp: told_to_def after_waits_def has_flag_bits gave_def none_left_def)
  moreover obtain L where "set L = got me s oc"
      "est_value (eta_out t) = fold (\<lambda>i. opr (est_value (inb i))) L (est_value (eta_out s))"
    using t(2) unfolding after_waits_def g by blast
  ultimately show ?thesis
    using t(1,2,4) assms(2) unfolding g
    by (intro exI [of _ t] exI [of _ nb] exI [of _ L]) (simp add: eta_round_def after_waits_def)
qed

end
