(* ===== verification/Agreement_Protocol.thy ===== *)
theory Agreement_Protocol
  imports Agreement_Correct
begin

text \<open>
  The early terminating agreement run by all processes of a communicator. Processes enter, execute
  their rounds and crash in any order; a process that completes a round has received every message
  of the round, except those of crashed processes. A crash may be noticed before or after the
  messages that the process has sent in its last rounds are received. A message carries the content
  of the send buffer at the time the send is posted. The receives that a process posts for another
  one match the sends of that one in order, and both post one per round from the first round on, so
  that the message received in a round is the one sent in the same round.
\<close>

section \<open>The network\<close>

text \<open>For every process the states at the beginning of its rounds and, once it has left the loop,
  the state in which it has left it.\<close>

record 'v eta_net =
  eh :: "nat \<Rightarrow> 'v eta list"
  eret :: "nat \<Rightarrow> bool"
  edead :: "nat set"

definition begun :: "'v eta_net \<Rightarrow> nat \<Rightarrow> nat" where
  "begun c q = length (eh c q) - (if eret c q then 1 else 0)"

definition sent :: "'v eta_net \<Rightarrow> nat \<Rightarrow> nat \<Rightarrow> nat \<Rightarrow> bool" where
  "sent c r q p \<longleftrightarrow> r < begun c q \<and> needs_send q (eh c q ! r) p"

definition net_outcome :: "nat \<Rightarrow> 'v eta_net \<Rightarrow> nat \<Rightarrow> nat \<Rightarrow> 'v eta \<Rightarrow> outcome \<Rightarrow> bool" where
  "net_outcome np c p r s oc \<longleftrightarrow> (\<forall>q < np.
     (needs_recv p s q \<longrightarrow> ro oc q = MPI_SUCCESS \<and> sent c r q p \<or> ro oc q = MPI_ERR_PROC_FAILED \<and> q \<in> edead c) \<and>
     (needs_send p s q \<longrightarrow> so oc q = MPI_SUCCESS \<or> so oc q = MPI_ERR_PROC_FAILED \<and> q \<in> edead c))"

definition inbox :: "'v eta_net \<Rightarrow> nat \<Rightarrow> nat \<Rightarrow> 'v eta_msg" where
  "inbox c r q = eta_out (eh c q ! r)"

datatype eta_label = Enter nat | Crash nat | Round nat

inductive eta_step ::
  "('v \<Rightarrow> 'v \<Rightarrow> 'v) \<Rightarrow> nat \<Rightarrow> (nat \<Rightarrow> 'v) \<Rightarrow> eta_label \<Rightarrow> 'v eta_net \<Rightarrow> 'v eta_net \<Rightarrow> bool"
  for opr np contrib where
  enter: "p < np \<Longrightarrow> p \<notin> edead c \<Longrightarrow> eh c p = [] \<Longrightarrow> set cranks \<subseteq> int ` edead c \<Longrightarrow>
     eta_start np cranks (contrib p) = Some s \<Longrightarrow>
     eta_step opr np contrib (Enter p) c (c\<lparr>eh := (eh c)(p := [s])\<rparr>)"
| crash: "p < np \<Longrightarrow> p \<notin> edead c \<Longrightarrow> eta_step opr np contrib (Crash p) c (c\<lparr>edead := insert p (edead c)\<rparr>)"
| round: "p < np \<Longrightarrow> p \<notin> edead c \<Longrightarrow> eh c p \<noteq> [] \<Longrightarrow> \<not> eret c p \<Longrightarrow> Suc r = length (eh c p) \<Longrightarrow>
     net_outcome np c p r (eh c p ! r) oc \<Longrightarrow> none_left p (eh c p ! r) oc n \<Longrightarrow> 0 < n \<Longrightarrow>
     eta_round opr p np (int r + 1) (inbox c r) (waits p (eh c p ! r) oc n) (eh c p ! r) = Some (Inr (stop, s')) \<Longrightarrow>
     eta_step opr np contrib (Round p) c
       (c\<lparr>eh := (eh c)(p := eh c p @ [s']), eret := (eret c)(p := (stop \<or> np + 1 < r + 2))\<rparr>)"

definition eta_init :: "'v eta_net" where
  "eta_init = \<lparr>eh = (\<lambda>_. []), eret = (\<lambda>_. False), edead = {}\<rparr>"

section \<open>The rounds in the history\<close>

abbreviation est_at :: "'v eta_net \<Rightarrow> nat \<Rightarrow> nat \<Rightarrow> 'v" where
  "est_at c p r \<equiv> est_value (eta_out (eh c p ! r))"

abbreviation knows_at :: "'v eta_net \<Rightarrow> nat \<Rightarrow> nat \<Rightarrow> bool" where
  "knows_at c p r \<equiv> knows (eta_out (eh c p ! r))"

definition round_ok ::
  "('v \<Rightarrow> 'v \<Rightarrow> 'v) \<Rightarrow> nat \<Rightarrow> 'v eta_net \<Rightarrow> nat \<Rightarrow> nat \<Rightarrow> 'v eta \<Rightarrow> 'v eta \<Rightarrow> nat list \<Rightarrow> bool" where
  "round_ok opr np c p r s s' L \<longleftrightarrow>
     set L \<subseteq> {q. q < np \<and> needs_recv p s q \<and> sent c r q p} \<and>
     {q. q < np \<and> needs_recv p s q} \<subseteq> set L \<union> crashed_at s' \<and>
     crashed_at s \<subseteq> crashed_at s' \<and> p \<notin> crashed_at s' - crashed_at s \<and>
     told_at s' = told_at s \<union> {q \<in> set L. knows_at c q r} \<and>
     told_to s' \<subseteq> told_to s \<union> (if knows (eta_out s) then {q. needs_send p s q} else {}) \<and>
     (knows (eta_out s) \<longrightarrow> {q. q < np \<and> needs_send p s q} \<subseteq> told_to s' \<union> crashed_at s') \<and>
     est_value (eta_out s') = fold (\<lambda>q. opr (est_at c q r)) L (est_value (eta_out s)) \<and>
     (knows (eta_out s') \<longrightarrow> knows (eta_out s) \<or> told_at s' \<noteq> {} \<or> np \<le> card (set L) + r)"

definition stopped :: "nat \<Rightarrow> nat \<Rightarrow> 'v eta \<Rightarrow> bool" where
  "stopped np p s \<longleftrightarrow> {q. q < np \<and> q \<noteq> p} \<subseteq> told_at s \<union> crashed_at s"

lemma end_round_flags [simp]:
  "proc_status (snd (end_round np rnd nb s)) = proc_status s"
  "crashed_at (snd (end_round np rnd nb s)) = crashed_at s"
  "told_at (snd (end_round np rnd nb s)) = told_at s"
  "told_to (snd (end_round np rnd nb s)) = told_to s"
  "est_value (eta_out (snd (end_round np rnd nb s))) = est_value (eta_out s)"
  by (simp_all add: end_round_def crashed_at_def told_at_def told_to_def)

lemma counts_cards:
  "int (nbknow s) + int (nbcrashed s) = int (card (told_at s \<union> crashed_at s))"
proof -
  let ?n = "length (proc_status s)"
  have c: "length (filter P (proc_status s)) = card {i. i < ?n \<and> P (proc_status s ! i)}" for P
    by (simp add: length_filter_conv_card)
  have "card (told_at s \<union> crashed_at s) = card ((told_at s - crashed_at s) \<union> crashed_at s)"
    by (simp add: Un_commute)
  also have "\<dots> = card (told_at s - crashed_at s) + card (crashed_at s)"
    by (intro card_Un_disjoint) (auto simp: told_at_def crashed_at_def)
  also have "told_at s - crashed_at s = {i. i < ?n \<and> \<not> has (proc_status s ! i) STATUS_CRASHED \<and>
      has (proc_status s ! i) STATUS_TOLD_ME_HE_KNOWS}"
    by (auto simp: told_at_def crashed_at_def)
  finally show ?thesis by (simp add: nbknow_def nbcrashed_def c crashed_at_def)
qed

lemma flags_bounded: "told_at s \<union> crashed_at s \<subseteq> {..<length (proc_status s)}"
  by (auto simp: told_at_def crashed_at_def)

lemma count_stopped:
  assumes "int np - 1 \<le> int (nbknow s) + int (nbcrashed s)" "length (proc_status s) = np"
    "p < np" "p \<notin> told_at s \<union> crashed_at s"
  shows "stopped np p s"
proof -
  have sub: "told_at s \<union> crashed_at s \<subseteq> {..<np} - {p}"
    using flags_bounded [of s] assms(2,4) by auto
  have "card ({..<np} - {p}) \<le> card (told_at s \<union> crashed_at s)"
    using assms(1,3) unfolding counts_cards by simp
  then have "told_at s \<union> crashed_at s = {..<np} - {p}"
    using sub by (intro card_seteq) auto
  then show ?thesis by (auto simp: stopped_def)
qed

lemma end_round_knows:
  "knows (eta_out (snd (end_round np rnd nb s))) \<Longrightarrow> knows (eta_out s) \<or> told_at s \<noteq> {} \<or> int np - rnd + 1 \<le> nb"
  by (auto simp: end_round_def nbknow_def told_at_def filter_empty_conv in_set_conv_nth split: if_splits)

lemma net_outcome_ok:
  "net_outcome np c p r s oc \<Longrightarrow> length (proc_status s) = np \<Longrightarrow> outcome_ok p s oc"
  by (auto simp: net_outcome_def outcome_ok_def)

lemma round_step_ok:
  assumes "net_outcome np c p r s oc" "none_left p s oc n" "0 < n" "length (proc_status s) = np"
    "eta_round opr p np (int r + 1) (inbox c r) (waits p s oc n) s = Some (Inr (stop, s'))"
    "p < np" "p \<notin> told_at s \<union> crashed_at s"
  shows "\<exists>L. round_ok opr np c p r s s' L" "length (proc_status s') = np"
    "crashed_at s' \<subseteq> crashed_at s \<union> edead c" "p \<notin> told_at s' \<union> crashed_at s'"
    "stop \<Longrightarrow> knows (eta_out s) \<and> stopped np p s'"
proof -
  from round_effect [OF net_outcome_ok [OF assms(1,4)] assms(4) [symmetric] assms(3,2), of opr "int r + 1" "inbox c r"]
  obtain t nb L where eff: "(stop, s') = end_round np (int r + 1) nb t"
      "length (proc_status t) = np" "knows (eta_out t) = knows (eta_out s)"
      "crashed_at t = crashed_at s \<union> lost p s oc"
      "told_at t = told_at s \<union> {i \<in> got p s oc. knows (inbox c r i)}"
      "told_to t = told_to s \<union> (if knows (eta_out s) then gave p s oc else {})"
      "nb \<le> int (card (got p s oc))" "set L = got p s oc"
      "est_value (eta_out t) = fold (\<lambda>i. opr (est_value (inbox c r i))) L (est_value (eta_out s))"
    using assms(5) by auto
  have s': "s' = snd (end_round np (int r + 1) nb t)" "stop = fst (end_round np (int r + 1) nb t)"
    using eff(1) by (metis fst_conv snd_conv)+
  have got: "got p s oc \<subseteq> {q. q < np \<and> needs_recv p s q \<and> sent c r q p}"
      "{q. q < np \<and> needs_recv p s q} \<subseteq> got p s oc \<union> lost p s oc"
      "lost p s oc \<subseteq> edead c" "p \<notin> got p s oc" "p \<notin> lost p s oc"
      "gave p s oc \<subseteq> {q. needs_send p s q}" "{q. q < np \<and> needs_send p s q} \<subseteq> gave p s oc \<union> lost p s oc"
    using assms(1,4) by (auto simp: got_def lost_def gave_def net_outcome_def NEED_TO_RECV_def NEED_TO_SEND_def)
  show "length (proc_status s') = np" "crashed_at s' \<subseteq> crashed_at s \<union> edead c"
    using got(3) by (auto simp: s'(1) eff(2,4))
  show pn: "p \<notin> told_at s' \<union> crashed_at s'"
    using got(4,5) assms(7) by (auto simp: s'(1) eff(4,5))
  show "knows (eta_out s) \<and> stopped np p s'" if stop
  proof -
    have "s' = t" "knows (eta_out s)" "int np - 1 \<le> int (nbknow t) + int (nbcrashed t)"
      using that s' eff(3) by (auto simp: end_round_def split: if_splits)
    then show ?thesis using count_stopped [of np t p] eff(2) assms(6) pn by simp
  qed
  have k: "knows (eta_out s') \<Longrightarrow> knows (eta_out s) \<or> told_at s' \<noteq> {} \<or> np \<le> card (set L) + r"
    using end_round_knows [of np "int r + 1" nb t] eff(3,7,8) by (auto simp: s'(1))
  have "round_ok opr np c p r s s' L"
    unfolding round_ok_def eff(8)
    using got k [unfolded eff(8)] by (intro conjI) (auto simp: s'(1) eff(4,5,6,9) inbox_def)
  then show "\<exists>L. round_ok opr np c p r s s' L" by blast
qed

section \<open>The invariant\<close>

definition inv_local :: "nat \<Rightarrow> 'v eta_net \<Rightarrow> bool" where
  "inv_local np c \<longleftrightarrow> (\<forall>p. \<forall>r < length (eh c p). p < np \<and> length (proc_status (eh c p ! r)) = np \<and>
     p \<notin> told_at (eh c p ! r) \<union> crashed_at (eh c p ! r))"

definition inv_start :: "(nat \<Rightarrow> 'v) \<Rightarrow> 'v eta_net \<Rightarrow> bool" where
  "inv_start contrib c \<longleftrightarrow> (\<forall>p. eh c p \<noteq> [] \<longrightarrow> est_at c p 0 = contrib p \<and> \<not> knows_at c p 0 \<and>
     told_at (eh c p ! 0) = {} \<and> told_to (eh c p ! 0) = {})"

definition inv_rounds :: "('v \<Rightarrow> 'v \<Rightarrow> 'v) \<Rightarrow> nat \<Rightarrow> 'v eta_net \<Rightarrow> bool" where
  "inv_rounds opr np c \<longleftrightarrow>
     (\<forall>p r. Suc r < length (eh c p) \<longrightarrow> (\<exists>L. round_ok opr np c p r (eh c p ! r) (eh c p ! Suc r) L))"

definition flagged :: "'v eta_net \<Rightarrow> nat \<Rightarrow> nat \<Rightarrow> bool" where
  "flagged c p q \<longleftrightarrow> (\<exists>r < length (eh c p). q \<in> crashed_at (eh c p ! r))"

text \<open>Only crashed processes are found crashed, and no two processes find each other crashed.\<close>

definition inv_detect :: "'v eta_net \<Rightarrow> bool" where
  "inv_detect c \<longleftrightarrow> (\<forall>p q. flagged c p q \<longrightarrow> q \<in> edead c \<and> \<not> flagged c q p)"

definition inv_return :: "nat \<Rightarrow> 'v eta_net \<Rightarrow> bool" where
  "inv_return np c \<longleftrightarrow> (\<forall>p.
     if eret c p then \<exists>r. length (eh c p) = Suc (Suc r) \<and>
       (knows_at c p r \<and> stopped np p (eh c p ! Suc r) \<and> r \<le> np \<or> r = np)
     else length (eh c p) \<le> Suc np)"

definition eta_inv :: "('v \<Rightarrow> 'v \<Rightarrow> 'v) \<Rightarrow> nat \<Rightarrow> (nat \<Rightarrow> 'v) \<Rightarrow> 'v eta_net \<Rightarrow> bool" where
  "eta_inv opr np contrib c \<longleftrightarrow> inv_local np c \<and> inv_start contrib c \<and> inv_rounds opr np c \<and>
     inv_detect c \<and> inv_return np c"

lemma eta_init_inv: "eta_inv opr np contrib eta_init"
  by (simp add: eta_inv_def eta_init_def inv_local_def inv_start_def inv_rounds_def inv_detect_def
      inv_return_def flagged_def)

definition extends :: "'v eta_net \<Rightarrow> 'v eta_net \<Rightarrow> bool" where
  "extends c c' \<longleftrightarrow> (\<forall>q. begun c q \<le> begun c' q \<and>
     (\<forall>r < length (eh c q). r < length (eh c' q) \<and> eh c' q ! r = eh c q ! r))"

lemma begun_length: "begun c q \<le> length (eh c q)"
  by (simp add: begun_def)

lemma sent_extends: "extends c c' \<Longrightarrow> sent c r q p \<Longrightarrow> sent c' r q p \<and> eh c' q ! r = eh c q ! r"
  using begun_length [of c q] unfolding extends_def sent_def by (metis order_less_le_trans)

lemma fold_cong_set: "(\<And>x. x \<in> set L \<Longrightarrow> f x = g x) \<Longrightarrow> fold f L a = fold g L a"
  by (rule fold_cong) simp_all

lemma round_ok_extends:
  assumes "round_ok opr np c p r s s' L" "extends c c'"
  shows "round_ok opr np c' p r s s' L"
proof -
  have L: "sent c' r q p" "eh c' q ! r = eh c q ! r" if "q \<in> set L" for q
    using that assms sent_extends [of c c' r q p] by (auto simp: round_ok_def)
  have "fold (\<lambda>q. opr (est_at c q r)) L x = fold (\<lambda>q. opr (est_at c' q r)) L x" for x
    using L(2) by (intro fold_cong_set) simp
  moreover have "{q \<in> set L. knows_at c q r} = {q \<in> set L. knows_at c' q r}"
    using L(2) by auto
  ultimately show ?thesis using assms(1) L(1) unfolding round_ok_def by auto
qed

lemma step_extends: "eta_step opr np contrib l c c' \<Longrightarrow> extends c c'"
  by (induction rule: eta_step.induct) (auto simp: extends_def begun_def nth_append)

lemma mark_acked_spec:
  "mark_acked rs sts = Some sts' \<Longrightarrow> length sts' = length sts \<and>
     (\<forall>i < length sts. sts' ! i = (if int i \<in> set rs then STATUS_ACRASHED else sts ! i))"
proof (induction rs arbitrary: sts)
  case (Cons r rs)
  then obtain x where x: "wr sts r STATUS_ACRASHED = Some x" "mark_acked rs x = Some sts'"
    by (auto split: bind_splits)
  with Cons.IH [OF x(2)] show ?case by (auto simp: wr_def nth_list_update split: if_splits)
qed simp

lemma start_flags:
  assumes "eta_start np cranks v = Some s"
  shows "length (proc_status s) = np" "est_value (eta_out s) = v" "\<not> knows (eta_out s)"
    "told_at s = {}" "told_to s = {}" "crashed_at s = {i. i < np \<and> int i \<in> set cranks}"
proof -
  obtain sts where sts: "mark_acked cranks (replicate np STATUS_NO_INFO) = Some sts"
      "s = \<lparr>eta_out = \<lparr>knows = False, pf = False, est_value = v\<rparr>, proc_status = sts\<rparr>"
    using assms by (auto simp: eta_start_def split: bind_splits)
  note m = mark_acked_spec [OF sts(1)]
  have b: "bit STATUS_ACRASHED k \<longleftrightarrow> k = 0 \<or> k = 1" for k
    using bit_of_pow [of 1 k] by (auto simp: STATUS_ACRASHED_def bit_or_iff)
  show "length (proc_status s) = np" "est_value (eta_out s) = v" "\<not> knows (eta_out s)"
    using m sts(2) by simp_all
  have "sts ! i = (if int i \<in> set cranks then STATUS_ACRASHED else 0)" if "i < np" for i
    using m that by (simp add: STATUS_NO_INFO_def)
  then show "told_at s = {}" "told_to s = {}" "crashed_at s = {i. i < np \<and> int i \<in> set cranks}"
    using m sts(2) by (auto simp: told_at_def told_to_def crashed_at_def has_flag_bits b split: if_splits)
qed

text \<open>What a step adds to the history: the start state of a process that enters, or the state
  after a round.\<close>

lemma step_adds:
  assumes "eta_inv opr np contrib c" "eta_step opr np contrib l c c'"
  obtains (same) "eh c' = eh c" "eret c' = eret c" "edead c \<subseteq> edead c'"
  | (start) p s where "eh c' = (eh c)(p := [s])" "eh c p = []" "eret c' = eret c" "edead c' = edead c"
      "p < np" "p \<notin> edead c" "length (proc_status s) = np" "est_value (eta_out s) = contrib p"
      "\<not> knows (eta_out s)" "told_at s = {}" "told_to s = {}" "crashed_at s \<subseteq> edead c"
  | (adv) p r s' stop L where "eh c' = (eh c)(p := eh c p @ [s'])" "length (eh c p) = Suc r" "\<not> eret c p"
      "eret c' = (eret c)(p := (stop \<or> np \<le> r))" "edead c' = edead c" "p < np" "p \<notin> edead c"
      "round_ok opr np c p r (eh c p ! r) s' L" "length (proc_status s') = np"
      "crashed_at s' \<subseteq> edead c" "p \<notin> told_at s' \<union> crashed_at s'"
      "stop \<Longrightarrow> knows_at c p r \<and> stopped np p s'"
  using assms(2)
proof cases
  case (enter p cranks s)
  have "{i. i < np \<and> int i \<in> set cranks} \<subseteq> edead c" using enter by auto
  with enter start_flags [OF enter(7)] show thesis by (intro start [of p s]) simp_all
next
  case (crash p)
  then show thesis by (intro same) auto
next
  case (round p r oc n stop s')
  have "r < length (eh c p)" using round(7) by simp
  with assms(1) have l: "length (proc_status (eh c p ! r)) = np"
      "p \<notin> told_at (eh c p ! r) \<union> crashed_at (eh c p ! r)" "crashed_at (eh c p ! r) \<subseteq> edead c"
    unfolding eta_inv_def inv_local_def inv_detect_def flagged_def by (auto, blast)
  note ok = round_step_ok [OF round(8-10) l(1) round(11,3) l(2)]
  obtain L where "round_ok opr np c p r (eh c p ! r) s' L" using ok(1) by blast
  moreover have "eh c' = (eh c)(p := eh c p @ [s'])" "eret c' = (eret c)(p := (stop \<or> np \<le> r))" "edead c' = edead c"
    using round(2) by (simp_all add: less_Suc_eq_le)
  ultimately show thesis
    using ok(2-5) l(3) round(3,4,6,7) by (intro adv [of p s' r stop L]) auto
qed

lemma step_inv_local:
  assumes "eta_inv opr np contrib c" "eta_step opr np contrib l c c'"
  shows "inv_local np c'"
proof -
  have i: "inv_local np c" using assms(1) by (simp add: eta_inv_def)
  show ?thesis using assms
  proof (cases rule: step_adds)
    case same
    with i show ?thesis by (simp add: inv_local_def)
  next
    case (start p s)
    with i show ?thesis by (auto simp: inv_local_def)
  next
    case (adv p r s' stop L)
    with i show ?thesis by (auto simp: inv_local_def nth_append less_Suc_eq)
  qed
qed

lemma step_inv_start:
  assumes "eta_inv opr np contrib c" "eta_step opr np contrib l c c'"
  shows "inv_start contrib c'"
proof -
  have i: "inv_start contrib c" using assms(1) by (simp add: eta_inv_def)
  show ?thesis using assms
  proof (cases rule: step_adds)
    case same
    with i show ?thesis by (simp add: inv_start_def)
  next
    case (start p s)
    with i show ?thesis by (auto simp: inv_start_def)
  next
    case (adv p r s' stop L)
    then have "eh c p \<noteq> []" by auto
    with i adv show ?thesis by (auto simp: inv_start_def nth_append)
  qed
qed

lemma step_inv_rounds:
  assumes "eta_inv opr np contrib c" "eta_step opr np contrib l c c'"
  shows "inv_rounds opr np c'"
proof -
  have i: "inv_rounds opr np c" using assms(1) by (simp add: eta_inv_def)
  have old: "\<exists>L. round_ok opr np c' p r (eh c p ! r) (eh c p ! Suc r) L" if "Suc r < length (eh c p)" for p r
    using i that round_ok_extends [OF _ step_extends [OF assms(2)]] unfolding inv_rounds_def by blast
  show ?thesis using assms
  proof (cases rule: step_adds)
    case same
    with old show ?thesis by (simp add: inv_rounds_def)
  next
    case (start p s)
    with old show ?thesis by (simp add: inv_rounds_def)
  next
    case (adv p r s' stop L)
    with old round_ok_extends [OF adv(8) step_extends [OF assms(2)]] show ?thesis
      by (auto simp: inv_rounds_def nth_append less_Suc_eq)
  qed
qed

lemma step_inv_detect:
  assumes "eta_inv opr np contrib c" "eta_step opr np contrib l c c'"
  shows "inv_detect c'"
proof -
  have i: "inv_detect c" using assms(1) by (simp add: eta_inv_def)
  show ?thesis using assms
  proof (cases rule: step_adds)
    case same
    with i show ?thesis by (auto simp: inv_detect_def flagged_def)
  next
    case (start p s)
    then have f: "flagged c' q x \<longleftrightarrow> flagged c q x \<or> q = p \<and> x \<in> crashed_at s" for q x
      by (auto simp: flagged_def)
    from i start show ?thesis unfolding inv_detect_def f by auto
  next
    case (adv p r s' stop L)
    then have f: "flagged c' q x \<longleftrightarrow> flagged c q x \<or> q = p \<and> x \<in> crashed_at s'" for q x
      by (auto simp: flagged_def nth_append less_Suc_eq)
    from i adv show ?thesis unfolding inv_detect_def f by auto
  qed
qed

lemma step_inv_return:
  assumes "eta_inv opr np contrib c" "eta_step opr np contrib l c c'"
  shows "inv_return np c'"
proof -
  have i: "inv_return np c" using assms(1) by (simp add: eta_inv_def)
  show ?thesis using assms
  proof (cases rule: step_adds)
    case same
    with i show ?thesis by (simp add: inv_return_def)
  next
    case (start p s)
    with i have "\<not> eret c p" by (auto simp: inv_return_def dest: spec [of _ p])
    with i start show ?thesis by (auto simp: inv_return_def)
  next
    case (adv p r s' stop L)
    then have "r \<le> np" using i by (auto simp: inv_return_def dest: spec [of _ p])
    with adv have "if eret c' p then \<exists>r. length (eh c' p) = Suc (Suc r) \<and>
       (knows_at c' p r \<and> stopped np p (eh c' p ! Suc r) \<and> r \<le> np \<or> r = np)
     else length (eh c' p) \<le> Suc np"
      by (auto simp: nth_append)
    moreover have "eh c' q = eh c q" "eret c' q = eret c q" if "q \<noteq> p" for q
      using that adv by auto
    ultimately show ?thesis using i unfolding inv_return_def by metis
  qed
qed

lemma step_eta_inv: "eta_inv opr np contrib c \<Longrightarrow> eta_step opr np contrib l c c' \<Longrightarrow> eta_inv opr np contrib c'"
  using step_inv_local [of opr np contrib c l c'] step_inv_start [of opr np contrib c l c']
    step_inv_rounds [of opr np contrib c l c'] step_inv_detect [of opr np contrib c l c']
    step_inv_return [of opr np contrib c l c']
  by (simp add: eta_inv_def)

section \<open>Reductions\<close>

text \<open>What the agreement relies on of the reduction operation. A value is below another one when
  it has been reduced into it.\<close>

definition below :: "('v \<Rightarrow> 'v \<Rightarrow> 'v) \<Rightarrow> 'v \<Rightarrow> 'v \<Rightarrow> bool" where
  "below opr x y \<longleftrightarrow> opr x y = y"

locale agree_op =
  fixes opr :: "'v \<Rightarrow> 'v \<Rightarrow> 'v"
  assumes opr_assoc: "opr (opr x y) z = opr x (opr y z)"
    and opr_comm: "opr x y = opr y x"
    and opr_idem: "opr x x = x"
begin

lemma below_refl: "below opr x x"
  by (simp add: below_def opr_idem)

lemma below_trans: "below opr x y \<Longrightarrow> below opr y z \<Longrightarrow> below opr x z"
  unfolding below_def by (metis opr_assoc)

lemma below_antisym: "below opr x y \<Longrightarrow> below opr y x \<Longrightarrow> x = y"
  unfolding below_def by (metis opr_comm)

lemma below_opr: "below opr (opr x y) m \<longleftrightarrow> below opr x m \<and> below opr y m"
  unfolding below_def by (metis opr_assoc opr_comm opr_idem)

lemma below_fold:
  "below opr (fold (\<lambda>q. opr (f q)) L x) m \<longleftrightarrow> below opr x m \<and> (\<forall>q \<in> set L. below opr (f q) m)"
  by (induction L arbitrary: x) (auto simp: below_opr)

end

section \<open>Agreement\<close>

text \<open>The states of the processes grow from round to round.\<close>

lemma inv_roundE:
  assumes "eta_inv opr np contrib c" "Suc r < length (eh c p)"
  obtains L where "round_ok opr np c p r (eh c p ! r) (eh c p ! Suc r) L"
  using assms unfolding eta_inv_def inv_rounds_def by blast

lemma inv_returnE:
  assumes "eta_inv opr np contrib c" "eret c p"
  obtains r where "length (eh c p) = Suc (Suc r)" "r \<le> np" "knows_at c p r \<and> stopped np p (eh c p ! Suc r) \<or> r = np"
proof -
  have "if eret c p then \<exists>r. length (eh c p) = Suc (Suc r) \<and>
       (knows_at c p r \<and> stopped np p (eh c p ! Suc r) \<and> r \<le> np \<or> r = np)
     else length (eh c p) \<le> Suc np"
    using assms(1) unfolding eta_inv_def inv_return_def by blast
  with assms(2) that show thesis by auto
qed

lemma inv_np: "eta_inv opr np contrib c \<Longrightarrow> r < length (eh c p) \<Longrightarrow> p < np"
  by (auto simp: eta_inv_def inv_local_def)

lemma crashed_mono:
  assumes "eta_inv opr np contrib c" "r \<le> r'" "r' < length (eh c p)"
  shows "crashed_at (eh c p ! r) \<subseteq> crashed_at (eh c p ! r')"
  using assms(2,3)
proof (induction r' rule: dec_induct)
  case (step n)
  obtain L where "round_ok opr np c p n (eh c p ! n) (eh c p ! Suc n) L"
    using inv_roundE [OF assms(1) step.prems] .
  with step show ?case by (auto simp: round_ok_def)
qed simp

lemma told_mono:
  assumes "eta_inv opr np contrib c" "r \<le> r'" "r' < length (eh c p)"
  shows "told_at (eh c p ! r) \<subseteq> told_at (eh c p ! r')"
  using assms(2,3)
proof (induction r' rule: dec_induct)
  case (step n)
  obtain L where "round_ok opr np c p n (eh c p ! n) (eh c p ! Suc n) L"
    using inv_roundE [OF assms(1) step.prems] .
  with step show ?case by (auto simp: round_ok_def)
qed simp

lemma needs_recv_iff:
  "q < length (proc_status s) \<Longrightarrow> needs_recv p s q \<longleftrightarrow> p \<noteq> q \<and> q \<notin> crashed_at s \<and> q \<notin> told_at s"
  by (auto simp: NEED_TO_RECV_def crashed_at_def told_at_def)

lemma needs_send_iff:
  "q < length (proc_status s) \<Longrightarrow> needs_send p s q \<longleftrightarrow> p \<noteq> q \<and> q \<notin> crashed_at s \<and> q \<notin> told_to s"
  by (auto simp: NEED_TO_SEND_def crashed_at_def told_to_def)

lemma inv_length: "eta_inv opr np contrib c \<Longrightarrow> r < length (eh c p) \<Longrightarrow> length (proc_status (eh c p ! r)) = np"
  by (auto simp: eta_inv_def inv_local_def)

lemma inv_detectD: "eta_inv opr np contrib c \<Longrightarrow> flagged c p q \<Longrightarrow> q \<in> edead c \<and> \<not> flagged c q p"
  by (auto simp: eta_inv_def inv_detect_def)

lemma flaggedI: "q \<in> crashed_at (eh c p ! r) \<Longrightarrow> r < length (eh c p) \<Longrightarrow> flagged c p q"
  by (auto simp: flagged_def)

text \<open>A process that completes a round has the message of every process that it neither finds
  crashed nor has been told by.\<close>

lemma round_hears:
  assumes "eta_inv opr np contrib c" "round_ok opr np c p r (eh c p ! r) (eh c p ! Suc r) L"
    "Suc r < length (eh c p)" "q < np" "q \<noteq> p" "q \<notin> told_at (eh c p ! r)" "q \<notin> set L"
  shows "q \<in> crashed_at (eh c p ! Suc r)"
proof -
  have "q \<in> crashed_at (eh c p ! r) \<or> needs_recv p (eh c p ! r) q"
    using assms(3-6) needs_recv_iff [of q "eh c p ! r" p] inv_length [OF assms(1), of r p] by auto
  then show ?thesis using assms(2,4,7) by (auto simp: round_ok_def)
qed

text \<open>A process has news for a value when its own value is not below it.\<close>

definition news :: "('v \<Rightarrow> 'v \<Rightarrow> 'v) \<Rightarrow> 'v eta_net \<Rightarrow> 'v \<Rightarrow> nat \<Rightarrow> nat \<Rightarrow> bool" where
  "news opr c m q r \<longleftrightarrow> r < length (eh c q) \<and> \<not> below opr (est_at c q r) m"

definition holders :: "('v \<Rightarrow> 'v \<Rightarrow> 'v) \<Rightarrow> 'v eta_net \<Rightarrow> 'v \<Rightarrow> nat \<Rightarrow> nat \<Rightarrow> nat set" where
  "holders opr c m p r = {s \<in> crashed_at (eh c p ! r). \<exists>j < r. news opr c m s j}"

lemma finite_holders [simp]: "finite (holders opr c m p r)"
  by (simp add: holders_def crashed_at_def)

lemma holders_mono:
  "eta_inv opr np contrib c \<Longrightarrow> r \<le> r' \<Longrightarrow> r' < length (eh c p) \<Longrightarrow> holders opr c m p r \<subseteq> holders opr c m p r'"
  using crashed_mono [of opr np contrib c r r' p] by (auto simp: holders_def) (meson order_less_le_trans)

context agree_op
begin

lemma round_news:
  assumes "round_ok opr np c p r (eh c p ! r) (eh c p ! Suc r) L" "Suc r < length (eh c p)"
  shows "news opr c m p (Suc r) \<longleftrightarrow> news opr c m p r \<or> (\<exists>s \<in> set L. news opr c m s r)"
proof -
  have "r < length (eh c s)" if "s \<in> set L" for s
    using that assms(1) begun_length [of c s] by (auto simp: round_ok_def sent_def)
  moreover have "est_at c p (Suc r) = fold (\<lambda>q. opr (est_at c q r)) L (est_at c p r)"
    using assms(1) by (simp add: round_ok_def)
  ultimately show ?thesis using assms(2) by (auto simp: news_def below_fold)
qed

lemma news_mono:
  assumes "eta_inv opr np contrib c" "r \<le> r'" "r' < length (eh c p)" "news opr c m p r"
  shows "news opr c m p r'"
  using assms(2,3)
proof (induction r' rule: dec_induct)
  case (step n)
  obtain L where "round_ok opr np c p n (eh c p ! n) (eh c p ! Suc n) L"
    using inv_roundE [OF assms(1) step.prems] .
  with step round_news show ?case by simp
qed (rule assms(4))

lemma est_mono:
  assumes "eta_inv opr np contrib c" "r \<le> r'" "r' < length (eh c p)"
  shows "below opr (est_at c p r) (est_at c p r')"
  using news_mono [OF assms, of "est_at c p r'"] assms(2,3) below_refl by (auto simp: news_def)

text \<open>A message that arrives in a round is preceded by one in every earlier round.\<close>

lemma heard_before:
  assumes "eta_inv opr np contrib c" "Suc (Suc r) < length (eh c q)"
    "round_ok opr np c q r (eh c q ! r) (eh c q ! Suc r) L"
    "round_ok opr np c q (Suc r) (eh c q ! Suc r) (eh c q ! Suc (Suc r)) L'" "s \<in> set L'"
  shows "s \<in> set L"
proof -
  have s: "s < np" "needs_recv q (eh c q ! Suc r) s" using assms(4,5) by (auto simp: round_ok_def)
  then have "q \<noteq> s" "s \<notin> crashed_at (eh c q ! Suc r)" "s \<notin> told_at (eh c q ! Suc r)"
    using needs_recv_iff [of s "eh c q ! Suc r" q] inv_length [OF assms(1), of "Suc r" q] assms(2) by auto
  moreover have "s \<notin> told_at (eh c q ! r)"
    using told_mono [OF assms(1), of r "Suc r" q] calculation(3) assms(2) by auto
  ultimately show ?thesis
    using round_hears [OF assms(1,3), of s] s(1) assms(2) by auto
qed

text \<open>Whoever has learned news in a round that another process still does not have, has learned
  them along a chain of processes that this process finds crashed, one for each round.\<close>

lemma hidden_news:
  assumes "eta_inv opr np contrib c" "r < length (eh c p)" "told_at (eh c p ! r) = {}" "\<not> news opr c m p r"
    "news opr c m q r" "0 < r \<Longrightarrow> \<not> news opr c m q (r - 1)"
  shows "r \<le> card (holders opr c m p r)"
  using assms(2-6)
proof (induction r arbitrary: q)
  case (Suc r)
  obtain L where L: "round_ok opr np c p r (eh c p ! r) (eh c p ! Suc r) L"
    using inv_roundE [OF assms(1) Suc.prems(1)] .
  have lq: "Suc r < length (eh c q)" using Suc.prems(4) by (simp add: news_def)
  obtain Lq where Lq: "round_ok opr np c q r (eh c q ! r) (eh c q ! Suc r) Lq"
    using inv_roundE [OF assms(1) lq] .
  obtain s where s: "s \<in> set Lq" "news opr c m s r"
    using round_news [OF Lq lq] Suc.prems(4,5) by auto
  have np: "\<not> news opr c m p r"
    using Suc.prems(3) news_mono [OF assms(1) _ Suc.prems(1), of r m] by auto
  have t: "told_at (eh c p ! r) = {}"
    using told_mono [OF assms(1), of r "Suc r" p] Suc.prems(1,2) by auto
  have "s \<notin> set L" using round_news [OF L Suc.prems(1)] Suc.prems(3) s(2) by auto
  moreover have "s < np" "s \<noteq> p" using Lq s np by (auto simp: round_ok_def)
  ultimately have c: "s \<in> crashed_at (eh c p ! Suc r)"
    using round_hears [OF assms(1) L Suc.prems(1)] t by auto
  have new: "\<not> news opr c m s j" if jr: "j < r" for j
  proof
    assume "news opr c m s j"
    moreover have "r < length (eh c s)" using s(2) by (simp add: news_def)
    ultimately have n: "news opr c m s (r - 1)" using news_mono [OF assms(1), of j "r - 1" s m] jr by simp
    obtain r' where r': "r = Suc r'" using jr by (cases r) auto
    obtain L' where L': "round_ok opr np c q r' (eh c q ! r') (eh c q ! Suc r') L'"
      using inv_roundE [OF assms(1), of r' q] lq r' by auto
    have "s \<in> set L'" using heard_before [OF assms(1) _ L' _ s(1)] Lq lq r' by simp
    then have "news opr c m q r" using round_news [OF L'] n lq r' by auto
    then show False using Suc.prems(5) by simp
  qed
  then have "0 < r \<Longrightarrow> \<not> news opr c m s (r - 1)" by simp
  then have "r \<le> card (holders opr c m p r)"
    using Suc.IH [of s] Suc.prems(1) t np s(2) by auto
  also have "s \<notin> holders opr c m p r" using new by (auto simp: holders_def)
  then have "card (holders opr c m p r) < card (insert s (holders opr c m p r))" by simp
  also have "insert s (holders opr c m p r) \<subseteq> holders opr c m p (Suc r)"
    using holders_mono [OF assms(1), of r "Suc r" p m] Suc.prems(1) c s(2) by (auto simp: holders_def)
  then have "card (insert s (holders opr c m p r)) \<le> card (holders opr c m p (Suc r))"
    by (intro card_mono) simp_all
  finally show ?case by simp
qed simp

lemma told_origin:
  assumes "eta_inv opr np contrib c" "i < length (eh c q)" "z \<in> told_at (eh c q ! i)"
  shows "\<exists>j < i. j < length (eh c z) \<and> knows_at c z j \<and> below opr (est_at c z j) (est_at c q i)"
  using assms(2,3)
proof (induction i)
  case 0
  then show ?case using assms(1) by (auto simp: eta_inv_def inv_start_def)
next
  case (Suc i)
  obtain L where L: "round_ok opr np c q i (eh c q ! i) (eh c q ! Suc i) L"
    using inv_roundE [OF assms(1) Suc.prems(1)] .
  show ?case
  proof (cases "z \<in> told_at (eh c q ! i)")
    case True
    then show ?thesis
      using Suc.IH Suc.prems(1) est_mono [OF assms(1) _ Suc.prems(1), of i] below_trans
      by (meson Suc_lessD le_SucI less_SucI order_refl)
  next
    case False
    then have z: "z \<in> set L" "knows_at c z i" using L Suc.prems(2) by (auto simp: round_ok_def)
    then have "i < length (eh c z)" using L begun_length [of c z] by (auto simp: round_ok_def sent_def)
    moreover have "below opr (est_at c z i) (est_at c q (Suc i))"
      using round_news [OF L Suc.prems(1), of "est_at c q (Suc i)"] z(1) calculation below_refl
      by (auto simp: news_def)
    ultimately show ?thesis using z(2) by blast
  qed
qed

lemma top_mono:
  assumes "eta_inv opr np contrib c" "r \<le> r'" "\<forall>q. \<not> news opr c m q r"
  shows "\<forall>q. \<not> news opr c m q r'"
  using assms(2)
proof (induction r' rule: dec_induct)
  case (step n)
  show ?case
  proof (intro allI notI)
    fix q
    assume q: "news opr c m q (Suc n)"
    then have "Suc n < length (eh c q)" by (simp add: news_def)
    with q step.IH round_news inv_roundE [OF assms(1)] show False by metis
  qed
qed (rule assms(3))

text \<open>A process that another one has found crashed, before it knew, never completes the next
  round: the message of the other one does not come.\<close>

lemma flagged_stuck:
  assumes "eta_inv opr np contrib c" "Suc r < length (eh c q)" "r < length (eh c p)"
    "q \<in> crashed_at (eh c p ! r)" "\<forall>j < r. \<not> knows_at c p j" "p \<noteq> q"
  shows False
proof -
  obtain L where L: "round_ok opr np c q r (eh c q ! r) (eh c q ! Suc r) L"
    using inv_roundE [OF assms(1,2)] .
  have "p \<notin> told_at (eh c q ! r)"
    using told_origin [OF assms(1), of r q p] assms(2,5) by auto
  moreover have "p \<notin> set L"
    using L assms(4) needs_send_iff [of q "eh c p ! r" p] inv_length [OF assms(1,3)]
      inv_np [OF assms(1), of r q] assms(2) by (auto simp: round_ok_def sent_def)
  ultimately have "p \<in> crashed_at (eh c q ! Suc r)"
    using round_hears [OF assms(1) L assms(2)] inv_np [OF assms(1,3)] assms(6) by auto
  then show False
    using inv_detectD [OF assms(1), of p q] flaggedI [of p c q "Suc r"] flaggedI [of q c p r] assms(2,3,4) by auto
qed

lemma no_hidden_news:
  assumes "eta_inv opr np contrib c" "Suc (Suc r) < length (eh c p)" "told_at (eh c p ! Suc (Suc r)) = {}"
    "\<forall>j < Suc (Suc r). \<not> knows_at c p j" "\<not> news opr c m p (Suc (Suc r))"
    "card (holders opr c m p (Suc (Suc r))) \<le> r"
  shows "\<not> news opr c m q (Suc (Suc r))"
proof
  assume q: "news opr c m q (Suc (Suc r))"
  have t: "told_at (eh c p ! j) = {}" if "j \<le> Suc (Suc r)" for j
    using told_mono [OF assms(1) that assms(2)] assms(3) by auto
  have n: "\<not> news opr c m p j" if "j \<le> Suc (Suc r)" for j
    using news_mono [OF assms(1) that assms(2)] assms(5) by auto
  have cards: "card (holders opr c m p j) \<le> r" if "j \<le> Suc (Suc r)" for j
    using holders_mono [OF assms(1) that assms(2), of m] assms(6)
    by (meson card_mono finite_holders order_trans)
  have q1: "news opr c m q (Suc r)"
    using hidden_news [OF assms(1,2) t n q] cards [of "Suc (Suc r)"] by force
  have q0: "news opr c m q r"
    using hidden_news [OF assms(1) _ t n q1] cards [of "Suc r"] assms(2) by force
  have lp: "Suc r < length (eh c p)" using assms(2) by simp
  obtain L where L: "round_ok opr np c p r (eh c p ! r) (eh c p ! Suc r) L"
    using inv_roundE [OF assms(1) lp] .
  have pq: "q \<noteq> p" using n q0 by auto
  have "q \<notin> set L" using round_news [OF L lp] n [of "Suc r"] q0 by auto
  moreover have "q < np" using inv_np [OF assms(1), of r q] q0 by (simp add: news_def)
  ultimately have "q \<in> crashed_at (eh c p ! Suc r)"
    using round_hears [OF assms(1) L lp] pq t [of r] by auto
  then show False
    using flagged_stuck [OF assms(1) _ lp] q assms(4) pq by (auto simp: news_def)
qed

end

text \<open>A process that knows, or has been told, has all values in its own one.\<close>

definition settled :: "('v \<Rightarrow> 'v \<Rightarrow> 'v) \<Rightarrow> 'v eta_net \<Rightarrow> nat \<Rightarrow> nat \<Rightarrow> bool" where
  "settled opr c p r \<longleftrightarrow> (\<forall>q. \<not> news opr c (est_at c p r) q r)"

context agree_op
begin

lemma settled_later:
  assumes "eta_inv opr np contrib c" "settled opr c p r" "r \<le> r'" "below opr (est_at c p r) (est_at c q r')"
  shows "settled opr c q r'"
proof -
  have "\<forall>x. \<not> news opr c (est_at c p r) x r'"
    using top_mono [OF assms(1,3)] assms(2) by (simp add: settled_def)
  then show ?thesis using assms(4) below_trans by (auto simp: settled_def news_def)
qed

lemma settled_mono:
  assumes "eta_inv opr np contrib c" "settled opr c p r" "r \<le> r'" "r' < length (eh c p)"
  shows "settled opr c p r'"
  using settled_later [OF assms(1-3) est_mono [OF assms(1,3,4)]] .

lemma holders_unheard:
  assumes "eta_inv opr np contrib c" "round_ok opr np c p r (eh c p ! r) (eh c p ! Suc r) L"
    "Suc r < length (eh c p)" "\<not> news opr c m p (Suc r)"
  shows "card (holders opr c m p (Suc r)) + card (set L) \<le> np - 1"
proof -
  have pn: "p < np" "p \<notin> crashed_at (eh c p ! Suc r)"
    using assms(1,3) by (auto simp: eta_inv_def inv_local_def)
  have L: "set L \<subseteq> {..<np} - {p}" using assms(2) by (auto simp: round_ok_def NEED_TO_RECV_def)
  have "s \<notin> set L" if "s \<in> holders opr c m p (Suc r)" for s
  proof
    assume s: "s \<in> set L"
    then have "r < length (eh c s)" using assms(2) begun_length [of c s] by (auto simp: round_ok_def sent_def)
    then have "news opr c m s r" using that news_mono [OF assms(1), of _ r s m] by (auto simp: holders_def less_Suc_eq_le)
    then show False using round_news [OF assms(2,3)] s assms(4) by auto
  qed
  then have "holders opr c m p (Suc r) \<inter> set L = {}" by auto
  then have "card (holders opr c m p (Suc r)) + card (set L) = card (holders opr c m p (Suc r) \<union> set L)"
    by (simp add: card_Un_disjoint)
  also have "\<dots> \<le> card ({..<np} - {p})"
    using L pn inv_length [OF assms(1,3)] by (intro card_mono) (auto simp: holders_def crashed_at_def)
  finally show ?thesis using pn(1) by simp
qed

lemma told_settled:
  assumes "eta_inv opr np contrib c" "p < length (eh c q)" "z \<in> told_at (eh c q ! p)"
    "\<And>j. j < p \<Longrightarrow> j < length (eh c z) \<Longrightarrow> knows_at c z j \<Longrightarrow> settled opr c z j"
  shows "settled opr c q p"
  using told_origin [OF assms(1-3)] assms(4) settled_later [OF assms(1)] by (meson less_imp_le)

lemma knows_settled:
  assumes "eta_inv opr np contrib c" "r < length (eh c p)" "knows_at c p r"
  shows "settled opr c p r"
  using assms(2,3)
proof (induction r arbitrary: p rule: less_induct)
  case (less r)
  show ?case
  proof (cases "told_at (eh c p ! r) = {}")
    case False
    then show ?thesis using told_settled [OF assms(1) less.prems(1)] less.IH by blast
  next
    case told: True
    show ?thesis
    proof (cases "\<exists>j < r. knows_at c p j")
      case True
      then show ?thesis
        using less.IH less.prems(1) settled_mono [OF assms(1)] by (meson less_imp_le less_trans)
    next
      case unaware: False
      have "r \<noteq> 0" using assms(1) less.prems by (cases "r = 0") (auto simp: eta_inv_def inv_start_def)
      then obtain r' where r: "r = Suc r'" by (cases r) auto
      obtain L where L: "round_ok opr np c p r' (eh c p ! r') (eh c p ! Suc r') L"
        using inv_roundE [OF assms(1), of r' p] less.prems(1) r by auto
      then have many: "np \<le> card (set L) + r'"
        using less.prems(2) unaware told r by (auto simp: round_ok_def)
      have no: "\<not> news opr c (est_at c p r) p r" using below_refl by (simp add: news_def)
      have h: "card (holders opr c (est_at c p r) p r) + card (set L) \<le> np - 1" and "0 < np"
        using holders_unheard [OF assms(1) L] less.prems(1) r no inv_np [OF assms(1) less.prems(1)] by auto
      then obtain r'' where r'': "r' = Suc r''" "card (holders opr c (est_at c p r) p r) \<le> r''"
        using many by (cases r') auto
      then show ?thesis
        using no_hidden_news [OF assms(1), of r'' p "est_at c p r"] less.prems(1) told unaware no r
        by (auto simp: settled_def)
    qed
  qed
qed

lemma returned_settled:
  assumes "eta_inv opr np contrib c" "eret c p" "length (eh c p) = Suc r"
  shows "settled opr c p r"
proof -
  obtain r' where r'': "length (eh c p) = Suc (Suc r')" "knows_at c p r' \<and> stopped np p (eh c p ! Suc r') \<or> r' = np"
    using inv_returnE [OF assms(1,2)] .
  then have r': "r = Suc r'" "knows_at c p r' \<or> r' = np" using assms(3) by auto
  show ?thesis
  proof (cases "\<exists>j \<le> r. knows_at c p j")
    case True
    then obtain j where "j \<le> r" "knows_at c p j" by blast
    then show ?thesis
      using knows_settled [OF assms(1), of j p] settled_mono [OF assms(1), of p j r] assms(3) by simp
  next
    case unaware: False
    have l: "Suc r' < length (eh c p)" using assms(3) r'(1) by simp
    show ?thesis
    proof (cases "told_at (eh c p ! r) = {}")
      case False
      then show ?thesis
        using told_settled [OF assms(1), of r p] knows_settled [OF assms(1)] assms(3) by auto
    next
      case told: True
      have n: "r' = np" using r' unaware by auto
      have "0 < np" using inv_np [OF assms(1) l] by simp
      then obtain r'' where r'': "r' = Suc r''" using n by (cases r') auto
      obtain L where L: "round_ok opr np c p r' (eh c p ! r') (eh c p ! Suc r') L"
        using inv_roundE [OF assms(1) l] .
      have no: "\<not> news opr c (est_at c p r) p r" using below_refl by (simp add: news_def)
      then have "card (holders opr c (est_at c p r) p r) \<le> r''"
        using holders_unheard [OF assms(1) L l, of "est_at c p r"] r'(1) r'' n by auto
      then show ?thesis
        using no_hidden_news [OF assms(1), of r'' p "est_at c p r"] l r'(1) r'' told unaware no
        by (auto simp: settled_def)
    qed
  qed
qed

lemma settled_above:
  assumes "eta_inv opr np contrib c" "settled opr c p r" "r \<le> r'" "r' < length (eh c q)"
  shows "below opr (est_at c q r') (est_at c p r)"
  using top_mono [OF assms(1,3)] assms(2,4) by (auto simp: settled_def news_def)

text \<open>A process that has left the loop earlier than another one has told it, or learned from it.\<close>

lemma earlier_return_below:
  assumes "eta_inv opr np contrib c" "eret c p" "length (eh c p) = Suc i" "eret c q" "length (eh c q) = Suc j" "i < j"
  shows "below opr (est_at c p i) (est_at c q j)"
proof -
  have pq: "p \<noteq> q" using assms(3,5,6) by auto
  have qn: "q < np" and pn: "p < np"
    using inv_np [OF assms(1), of j q] inv_np [OF assms(1), of i p] assms(3,5) by auto
  obtain i' where "length (eh c p) = Suc (Suc i')" "knows_at c p i' \<and> stopped np p (eh c p ! Suc i') \<or> i' = np"
    using inv_returnE [OF assms(1,2)] .
  moreover obtain j' where "length (eh c q) = Suc (Suc j')" "j' \<le> np" using inv_returnE [OF assms(1,4)] .
  ultimately have "stopped np p (eh c p ! i)" using assms(3,5,6) by auto
  then consider "q \<in> told_at (eh c p ! i)" | "q \<in> crashed_at (eh c p ! i)"
    using qn pq by (auto simp: stopped_def)
  then show ?thesis
  proof cases
    case 1
    then obtain k where k: "k < i" "knows_at c q k" "k < length (eh c q)"
      using told_origin [OF assms(1), of i p q] assms(3) by auto
    have "below opr (est_at c p i) (est_at c q k)"
      using settled_above [OF assms(1) knows_settled [OF assms(1) k(3,2)], of i p] k(1) assms(3) by simp
    moreover have "below opr (est_at c q k) (est_at c q j)"
      using est_mono [OF assms(1), of k j q] k(1) assms(5,6) by simp
    ultimately show ?thesis by (rule below_trans)
  next
    case 2
    have lq: "Suc i < length (eh c q)" using assms(5,6) by simp
    obtain L where L: "round_ok opr np c q i (eh c q ! i) (eh c q ! Suc i) L"
      using inv_roundE [OF assms(1) lq] .
    have "p \<notin> set L" using L assms(2,3) by (auto simp: round_ok_def sent_def begun_def)
    moreover have "p \<notin> crashed_at (eh c q ! Suc i)"
      using inv_detectD [OF assms(1), of p q] flaggedI [OF 2] flaggedI [of p c q "Suc i"] lq assms(3) by auto
    ultimately have told: "p \<in> told_at (eh c q ! i)"
      using round_hears [OF assms(1) L lq pn pq] by auto
    obtain k where k: "k < i" "k < length (eh c p)" "knows_at c p k" "below opr (est_at c p k) (est_at c q i)"
      using told_origin [OF assms(1) _ told] lq by auto
    have "below opr (est_at c p i) (est_at c p k)"
      using settled_above [OF assms(1) knows_settled [OF assms(1) k(2,3)], of i p] k(1) assms(3) by simp
    moreover have "below opr (est_at c q i) (est_at c q j)"
      using est_mono [OF assms(1), of i j q] assms(5,6) by simp
    ultimately show ?thesis using k(4) below_trans by blast
  qed
qed

lemma returns_agree:
  assumes "eta_inv opr np contrib c" "eret c p" "eret c q"
  shows "est_value (eta_out (last (eh c p))) = est_value (eta_out (last (eh c q)))"
proof -
  obtain i j where l: "length (eh c p) = Suc i" "length (eh c q) = Suc j"
    using inv_returnE [OF assms(1,2)] inv_returnE [OF assms(1,3)] by metis
  have s: "below opr (est_at c y b) (est_at c x a)"
    if "a \<le> b" "eret c x" "length (eh c x) = Suc a" "length (eh c y) = Suc b" for a b x y
    using settled_above [OF assms(1) returned_settled [OF assms(1) that(2,3)] that(1)] that(4) by simp
  have e: "below opr (est_at c x a) (est_at c y b)"
    if "a \<le> b" "eret c x" "length (eh c x) = Suc a" "eret c y" "length (eh c y) = Suc b" for a b x y
    using earlier_return_below [OF assms(1) that(2-5)] s [of b a y x] that by (cases "a = b") auto
  have "est_at c p i = est_at c q j"
    using s [of i j p q] e [of i j p q] s [of j i q p] e [of j i q p] l assms(2,3) below_antisym
    by (meson nat_le_linear)
  moreover have "last (eh c p) = eh c p ! i" "last (eh c q) = eh c q ! j"
    using l by (simp_all add: last_conv_nth length_0_conv [symmetric] del: length_0_conv)
  ultimately show ?thesis by simp
qed

end

end
