(* ===== verification/Agreement_Refinement.thy ===== *)
theory Agreement_Refinement
  imports Agreement_Protocol
begin

text \<open>
  What the early terminating agreement promises as a whole: it decides one value, made of the
  contributions, implements an abstract agreement object, never blocks while live processes are
  in it, and ends after a bounded number of steps. The reduction is the bitwise and of
  \<^verbatim>\<open>ompi/mca/op/base/op_base_functions.c\<close>.
\<close>

section \<open>The reduction\<close>

text \<open>\<^verbatim>\<open>MPI_BAND\<close> on one 32-bit integer: the second operand is overwritten with the result.\<close>

definition ompi_op_base_band_int32_t :: "32 word \<Rightarrow> 32 word \<Rightarrow> 32 word" where
  "ompi_op_base_band_int32_t a b = (b AND a)"

abbreviation band :: "32 word \<Rightarrow> 32 word \<Rightarrow> 32 word" where
  "band \<equiv> ompi_op_base_band_int32_t"

interpretation band: agree_op ompi_op_base_band_int32_t
  by unfold_locales (simp_all add: ompi_op_base_band_int32_t_def ac_simps)

lemma below_band: "below band x y \<longleftrightarrow> (\<forall>i. bit y i \<longrightarrow> bit x i)"
proof
  assume "below band x y"
  then have "y AND x = y" by (simp add: below_def ompi_op_base_band_int32_t_def)
  then show "\<forall>i. bit y i \<longrightarrow> bit x i" by (metis bit_and_iff)
qed (auto simp: below_def ompi_op_base_band_int32_t_def bit_eq_iff bit_and_iff)

section \<open>Validity\<close>

lemma inv_est0: "eta_inv opr np contrib c \<Longrightarrow> eh c q \<noteq> [] \<Longrightarrow> est_at c q 0 = contrib q"
  unfolding eta_inv_def inv_start_def by blast

context agree_op
begin

lemma est_above_contrib:
  assumes "eta_inv opr np contrib c" "r < length (eh c p)"
  shows "below opr (contrib p) (est_at c p r)"
proof -
  have "est_at c p 0 = contrib p" using inv_est0 [OF assms(1)] assms(2) by force
  with est_mono [OF assms(1) _ assms(2), of 0] show ?thesis by simp
qed

lemma est_below_bound:
  assumes "eta_inv opr np contrib c" "r < length (eh c p)" "\<forall>q. eh c q \<noteq> [] \<longrightarrow> below opr (contrib q) m"
  shows "below opr (est_at c p r) m"
proof -
  have "\<forall>q. \<not> news opr c m q 0"
    using assms(3) inv_est0 [OF assms(1)] unfolding news_def by (metis length_greater_0_conv)
  with top_mono [OF assms(1), of 0 r m] assms(2) show ?thesis by (auto simp: news_def)
qed

lemma result_valid:
  assumes "eta_inv opr np contrib c" "eret c p"
  shows "below opr (contrib p) (est_value (eta_out (last (eh c p))))"
    "(\<forall>q. eh c q \<noteq> [] \<longrightarrow> below opr (contrib q) m) \<Longrightarrow> below opr (est_value (eta_out (last (eh c p)))) m"
proof -
  obtain r where "length (eh c p) = Suc (Suc r)" using inv_returnE [OF assms] .
  then have l: "last (eh c p) = eh c p ! Suc r" "Suc r < length (eh c p)"
    by (auto simp: last_conv_nth length_0_conv [symmetric] simp del: length_0_conv)
  show "below opr (contrib p) (est_value (eta_out (last (eh c p))))"
    using est_above_contrib [OF assms(1) l(2)] by (simp add: l(1))
  show "below opr (est_value (eta_out (last (eh c p)))) m" if "\<forall>q. eh c q \<noteq> [] \<longrightarrow> below opr (contrib q) m"
    using est_below_bound [OF assms(1) l(2) that] by (simp add: l(1))
qed

end

section \<open>Progress\<close>

lemma live_unflagged: "eta_inv opr np contrib c \<Longrightarrow> q \<notin> edead c \<Longrightarrow> r < length (eh c p) \<Longrightarrow> q \<notin> crashed_at (eh c p ! r)"
  using inv_detectD flaggedI by metis

text \<open>Live processes agree on who has told whom.\<close>

lemma told_to_told:
  assumes "eta_inv opr np contrib c" "q \<notin> edead c" "i < length (eh c q)" "i < length (eh c p)"
    "p \<in> told_to (eh c q ! i)" "p \<noteq> q"
  shows "q \<in> told_at (eh c p ! i)"
  using assms(3-5)
proof (induction i)
  case 0
  then show ?case using assms(1) by (auto simp: eta_inv_def inv_start_def)
next
  case (Suc i)
  obtain L where L: "round_ok opr np c q i (eh c q ! i) (eh c q ! Suc i) L"
    using inv_roundE [OF assms(1) Suc.prems(1)] .
  obtain Lp where Lp: "round_ok opr np c p i (eh c p ! i) (eh c p ! Suc i) Lp"
    using inv_roundE [OF assms(1) Suc.prems(2)] .
  have m: "told_at (eh c p ! i) \<subseteq> told_at (eh c p ! Suc i)" using Lp by (auto simp: round_ok_def)
  show ?case
  proof (cases "p \<in> told_to (eh c q ! i)")
    case True
    then show ?thesis using Suc m by auto
  next
    case False
    then have k: "knows_at c q i" using L Suc.prems(3) by (auto simp: round_ok_def split: if_splits)
    have "q \<in> told_at (eh c p ! i) \<or> q \<in> set Lp"
      using round_hears [OF assms(1) Lp Suc.prems(2), of q] live_unflagged [OF assms(1,2) Suc.prems(2)]
        inv_np [OF assms(1) Suc.prems(1)] assms(6) by auto
    then show ?thesis using Lp k m by (auto simp: round_ok_def)
  qed
qed

lemma live_sends:
  assumes "eta_inv opr np contrib c" "p \<notin> edead c" "q \<notin> edead c" "r < length (eh c p)" "r < begun c q"
    "needs_recv p (eh c p ! r) q" "q < np"
  shows "sent c r q p"
proof -
  have r: "r < length (eh c q)" using assms(5) begun_length [of c q] by simp
  have "p \<noteq> q" "q \<notin> told_at (eh c p ! r)"
    using needs_recv_iff [of q "eh c p ! r" p] inv_length [OF assms(1,4)] assms(6,7) by auto
  moreover have "p \<notin> crashed_at (eh c q ! r)" using live_unflagged [OF assms(1,2) r] .
  moreover have "p < np" using inv_np [OF assms(1,4)] .
  ultimately show ?thesis
    using needs_send_iff [of p "eh c q ! r" q] inv_length [OF assms(1) r] assms(5)
      told_to_told [OF assms(1,3) r assms(4)] by (auto simp: sent_def)
qed

text \<open>A process that has left the loop has told every live process that does not leave before.\<close>

lemma returned_told:
  assumes "eta_inv opr np contrib c" "p \<notin> edead c" "q \<notin> edead c" "eret c q" "length (eh c q) = Suc j"
    "j \<le> r" "r < length (eh c p)" "r \<le> np" "p \<noteq> q"
  shows "q \<in> told_at (eh c p ! r)"
proof -
  obtain i where i: "length (eh c q) = Suc (Suc i)" "knows_at c q i \<and> stopped np q (eh c q ! Suc i) \<or> i = np"
    using inv_returnE [OF assms(1,4)] .
  have j: "j = Suc i" "knows_at c q i" using i assms(5,6,8) by auto
  have lq: "Suc i < length (eh c q)" using i by simp
  obtain L where L: "round_ok opr np c q i (eh c q ! i) (eh c q ! Suc i) L"
    using inv_roundE [OF assms(1) lq] .
  have p: "p < np" "p \<notin> crashed_at (eh c q ! Suc i)" "p \<notin> crashed_at (eh c q ! i)"
    using inv_np [OF assms(1,7)] live_unflagged [OF assms(1,2)] lq by auto
  have "p \<in> told_to (eh c q ! i) \<or> p \<in> told_to (eh c q ! Suc i)"
    using L j(2) p needs_send_iff [of p "eh c q ! i" q] inv_length [OF assms(1), of i q] lq assms(9)
    by (auto simp: round_ok_def)
  moreover have "i < length (eh c p)" "Suc i < length (eh c p)" using j assms(6,7) by auto
  ultimately have "q \<in> told_at (eh c p ! i) \<or> q \<in> told_at (eh c p ! Suc i)"
    using told_to_told [OF assms(1,3)] lq assms(9) by (meson Suc_lessD)
  then show ?thesis
    using told_mono [OF assms(1) _ assms(7), of i] told_mono [OF assms(1) _ assms(7), of "Suc i"] j(1) assms(6) by auto
qed

lemma round_enabled:
  assumes "eta_inv opr np contrib c" "p < np" "p \<notin> edead c" "\<not> eret c p" "length (eh c p) = Suc r"
    "\<And>q. q < np \<Longrightarrow> q \<notin> edead c \<Longrightarrow> needs_recv p (eh c p ! r) q \<Longrightarrow> sent c r q p"
  shows "\<exists>c'. eta_step opr np contrib (Round p) c c'"
proof -
  let ?s = "eh c p ! r"
  define oc where "oc = \<lparr>ro = (\<lambda>q. if sent c r q p then MPI_SUCCESS else MPI_ERR_PROC_FAILED), rt = (\<lambda>_. 0),
    so = (\<lambda>_. MPI_SUCCESS), st_t = (\<lambda>_. 0)\<rparr>"
  have o: "net_outcome np c p r ?s oc" "none_left p ?s oc 1"
    using assms(6) by (auto simp: net_outcome_def oc_def none_left_def)
  have l: "length (proc_status ?s) = np" using inv_length [OF assms(1), of r p] assms(5) by simp
  obtain t nb where "eta_round opr p np (int r + 1) (inbox c r) (waits p ?s oc 1) ?s =
      Some (Inr (end_round np (int r + 1) nb t))"
    using round_effect [OF net_outcome_ok [OF o(1) l] l [symmetric] _ o(2), of opr "int r + 1" "inbox c r"] by auto
  then obtain stop s' where "eta_round opr p np (int r + 1) (inbox c r) (waits p ?s oc 1) ?s = Some (Inr (stop, s'))"
    by (cases "end_round np (int r + 1) nb t") auto
  moreover have "eh c p \<noteq> []" using assms(5) by auto
  ultimately show ?thesis
    using eta_step.round [of p np c r oc 1 opr stop s' contrib] o assms(2-5) by auto
qed

lemma inv_unreturned: "eta_inv opr np contrib c \<Longrightarrow> \<not> eret c p \<Longrightarrow> length (eh c p) \<le> Suc np"
  unfolding eta_inv_def inv_return_def by metis

lemma some_round_enabled:
  assumes "eta_inv opr np contrib c" "p < np" "p \<notin> edead c" "\<not> eret c p"
    and entered: "\<forall>q < np. q \<notin> edead c \<longrightarrow> eh c q \<noteq> []"
  shows "\<exists>q c'. q \<notin> edead c \<and> eta_step opr np contrib (Round q) c c'"
proof -
  define W where "W = {q. q < np \<and> q \<notin> edead c \<and> \<not> eret c q}"
  define f where "f q = length (eh c q)" for q
  have "finite W" "W \<noteq> {}" using assms(2-4) by (auto simp: W_def)
  then obtain x where x: "x \<in> W" "\<forall>q \<in> W. f x \<le> f q"
    using arg_min_if_finite [of W f] by (metis not_le)
  then have xw: "x < np" "x \<notin> edead c" "\<not> eret c x" "eh c x \<noteq> []" using entered by (auto simp: W_def)
  then obtain r where r: "length (eh c x) = Suc r" by (cases "eh c x") auto
  have rn: "r \<le> np" using inv_unreturned [OF assms(1) xw(3)] r by simp
  have "sent c r q x" if q: "q < np" "q \<notin> edead c" and need: "needs_recv x (eh c x ! r) q" for q
  proof (rule ccontr)
    assume n: "\<not> sent c r q x"
    then have b: "begun c q \<le> r"
      using live_sends [OF assms(1) xw(2) q(2) _ _ need q(1)] r by (cases "r < begun c q") auto
    have ne: "eh c q \<noteq> []" using entered q by blast
    have ret: "eret c q"
    proof (rule ccontr)
      assume "\<not> eret c q"
      then have "f x \<le> f q" using x(2) q by (simp add: W_def)
      then show False using b r \<open>\<not> eret c q\<close> by (simp add: begun_def f_def)
    qed
    obtain j where j: "length (eh c q) = Suc j" using ne by (cases "eh c q") auto
    have "x \<noteq> q" "q \<notin> told_at (eh c x ! r)"
      using needs_recv_iff [of q "eh c x ! r" x] inv_length [OF assms(1), of r x] need q(1) r by auto
    then show False
      using returned_told [OF assms(1) xw(2) q(2) ret j _ _ rn] b j ret r by (auto simp: begun_def)
  qed
  from round_enabled [OF assms(1) xw(1-3) r this] xw(2) show ?thesis by blast
qed

section \<open>Termination\<close>

definition eta_budget :: "nat \<Rightarrow> 'v eta_net \<Rightarrow> nat" where
  "eta_budget np c = (\<Sum>p<np. np + 2 - length (eh c p)) + card ({..<np} - edead c)"

lemma budget_lower:
  assumes "p < np" "\<And>q. q \<noteq> p \<Longrightarrow> eh c' q = eh c q" "length (eh c p) < length (eh c' p)" "length (eh c p) < np + 2"
    "edead c' = edead c"
  shows "eta_budget np c' < eta_budget np c"
proof -
  have "(\<Sum>q<np. np + 2 - length (eh c' q)) < (\<Sum>q<np. np + 2 - length (eh c q))"
  proof (rule sum_strict_mono_ex1)
    show "\<forall>q \<in> {..<np}. np + 2 - length (eh c' q) \<le> np + 2 - length (eh c q)"
      using assms(2,3) by (metis diff_le_mono2 less_imp_le order_refl)
    show "\<exists>q \<in> {..<np}. np + 2 - length (eh c' q) < np + 2 - length (eh c q)"
      using assms(1,3,4) by (intro bexI [of _ p]) auto
  qed simp
  then show ?thesis using assms(5) by (simp add: eta_budget_def)
qed

lemma step_budget:
  assumes "eta_inv opr np contrib c" "eta_step opr np contrib l c c'"
  shows "eta_budget np c' < eta_budget np c"
  using assms(2)
proof cases
  case (enter p cranks s)
  then show ?thesis by (intro budget_lower [of p]) auto
next
  case (crash p)
  have "{..<np} - insert p (edead c) \<subset> {..<np} - edead c" using crash by auto
  then have "card ({..<np} - insert p (edead c)) < card ({..<np} - edead c)"
    by (intro psubset_card_mono) auto
  then show ?thesis using crash by (simp add: eta_budget_def)
next
  case (round p r oc n stop s')
  then show ?thesis using inv_unreturned [OF assms(1), of p] by (intro budget_lower [of p]) auto
qed

section \<open>Specification\<close>

text \<open>An agreement: processes propose; the first one that decides fixes a value made of the
  proposals, all others decide the same value, and nobody decides a value that leaves out its own
  proposal.\<close>

record 'v agreement =
  proposed :: "nat set"
  chosen :: "'v option"
  deciders :: "nat set"

definition agree_spec :: "('v \<Rightarrow> 'v \<Rightarrow> 'v) \<Rightarrow> (nat \<Rightarrow> 'v) \<Rightarrow> eta_label \<Rightarrow> 'v agreement \<Rightarrow> 'v agreement \<Rightarrow> bool" where
  "agree_spec opr contrib l a a' \<longleftrightarrow>
     (case l of
        Enter p \<Rightarrow> p \<notin> proposed a \<and> a' = a\<lparr>proposed := insert p (proposed a)\<rparr>
      | Crash p \<Rightarrow> a' = a
      | Round p \<Rightarrow> p \<in> proposed a \<and> p \<notin> deciders a \<and>
          (a' = a \<or>
           (\<exists>v. a' = a\<lparr>chosen := Some v, deciders := insert p (deciders a)\<rparr> \<and>
              (chosen a = None \<or> chosen a = Some v) \<and> below opr (contrib p) v \<and>
              (\<forall>m. (\<forall>q \<in> proposed a. below opr (contrib q) m) \<longrightarrow> below opr v m))))"

definition result_of :: "'v eta_net \<Rightarrow> nat \<Rightarrow> 'v" where
  "result_of c p = est_value (eta_out (last (eh c p)))"

definition eta_abs :: "nat \<Rightarrow> 'v eta_net \<Rightarrow> 'v agreement" where
  "eta_abs np c = \<lparr>proposed = {p. eh c p \<noteq> []}, chosen = map_option (result_of c) (find (eret c) [0..<np]),
     deciders = {p. eret c p}\<rparr>"

lemma inv_eret_np: "eta_inv opr np contrib c \<Longrightarrow> eret c p \<Longrightarrow> p < np"
  by (rule inv_np [of _ _ _ _ 0], assumption) (auto elim: inv_returnE)

context agree_op
begin

lemma chosen_result:
  assumes "eta_inv opr np contrib c" "eret c p"
  shows "chosen (eta_abs np c) = Some (result_of c p)"
proof -
  have "find (eret c) [0..<np] \<noteq> None"
    using assms inv_eret_np [OF assms] by (auto simp: find_None_iff)
  then obtain q where q: "find (eret c) [0..<np] = Some q" by auto
  then have "eret c q" by (auto simp: find_Some_iff)
  with q show ?thesis
    using returns_agree [OF assms(1) _ assms(2)] by (simp add: eta_abs_def result_of_def)
qed

lemma step_refines:
  assumes "eta_inv opr np contrib c" "eta_step opr np contrib l c c'"
  shows "agree_spec opr contrib l (eta_abs np c) (eta_abs np c')"
  using assms(2)
proof cases
  case (enter p cranks s)
  then have "\<not> eret c p" using inv_returnE [OF assms(1)] by force
  then have "map_option (result_of c') (find (eret c) [0..<np]) = map_option (result_of c) (find (eret c) [0..<np])"
    using enter by (auto simp: find_Some_iff result_of_def intro!: map_option_cong)
  then show ?thesis using enter by (auto simp: agree_spec_def eta_abs_def)
next
  case (crash p)
  then show ?thesis by (simp add: agree_spec_def eta_abs_def result_of_def [abs_def])
next
  case (round p r oc n stop s')
  have inv: "eta_inv opr np contrib c'" using step_eta_inv [OF assms] .
  have r: "result_of c' q = result_of c q" "eret c' q = eret c q" if "q \<noteq> p" for q
    using that round(2) by (simp_all add: result_of_def)
  have pro: "proposed (eta_abs np c') = proposed (eta_abs np c)" "p \<in> proposed (eta_abs np c)"
    using round by (auto simp: eta_abs_def)
  show ?thesis
  proof (cases "eret c' p")
    case False
    then have "eret c' q = eret c q" for q using r(2) [of q] round(6) by (cases "q = p") auto
    then have "eret c' = eret c" by blast
    moreover have "map_option (result_of c') (find (eret c) [0..<np]) = map_option (result_of c) (find (eret c) [0..<np])"
    proof (rule map_option_cong [OF refl])
      fix i
      assume "find (eret c) [0..<np] = Some i"
      then have "eret c i" by (auto simp: find_Some_iff)
      with r(1) round(6) show "result_of c' i = result_of c i" by metis
    qed
    ultimately show ?thesis using pro round(1,6) by (auto simp: agree_spec_def eta_abs_def)
  next
    case True
    have "chosen (eta_abs np c) = None \<or> chosen (eta_abs np c) = Some (result_of c' p)"
    proof (cases "\<exists>q. eret c q")
      case False
      then have "find (eret c) [0..<np] = None" by (auto simp: find_None_iff)
      then show ?thesis by (simp add: eta_abs_def)
    next
      case e: True
      then obtain q where q: "eret c q" by blast
      then have "q \<noteq> p" using round(6) by auto
      then have "result_of c q = result_of c' p"
        using r [of q] returns_agree [OF inv _ True, of q] q by (simp add: result_of_def)
      then show ?thesis using chosen_result [OF assms(1) q] by simp
    qed
    moreover have "chosen (eta_abs np c') = Some (result_of c' p)" using chosen_result [OF inv True] .
    moreover have "deciders (eta_abs np c') = insert p (deciders (eta_abs np c))"
      using r(2) True by (simp add: eta_abs_def set_eq_iff) metis
    moreover have "\<forall>q. eh c' q \<noteq> [] \<longleftrightarrow> q \<in> proposed (eta_abs np c)"
      using pro(1) by (auto simp: eta_abs_def)
    ultimately show ?thesis
      using pro round(1,6) result_valid [OF inv True]
      by (auto simp: agree_spec_def result_of_def eta_abs_def)
  qed
qed

end

interpretation eta: terminating "eta_step band np contrib" "agree_spec band contrib" "eta_abs np"
  "eta_inv band np contrib" "eta_budget np" for np contrib
  by unfold_locales (rule step_eta_inv band.step_refines step_budget; assumption)+

section \<open>Completion\<close>

inductive_cases Round_stepE: "eta_step opr np contrib (Round p) c c'"

lemma round_keeps:
  "eta_step opr np contrib (Round p) c c' \<Longrightarrow> edead c' = edead c \<and> (\<forall>q. eh c q \<noteq> [] \<longrightarrow> eh c' q \<noteq> [])"
  by (auto elim!: Round_stepE split: if_splits)

lemma completes:
  assumes "eta_inv opr np contrib c" "\<forall>q < np. q \<notin> edead c \<longrightarrow> eh c q \<noteq> []"
  shows "\<exists>ls c'. run (eta_step opr np contrib) ls c c' \<and> edead c' = edead c \<and>
    (\<forall>p < np. p \<notin> edead c' \<longrightarrow> eret c' p)"
  using assms
proof (induction "eta_budget np c" arbitrary: c rule: less_induct)
  case less
  show ?case
  proof (cases "\<forall>p < np. p \<notin> edead c \<longrightarrow> eret c p")
    case True
    then show ?thesis by (intro exI [of _ "[]"]) auto
  next
    case False
    then obtain q c1 where s: "eta_step opr np contrib (Round q) c c1"
      using some_round_enabled [OF less.prems(1) _ _ _ less.prems(2)] by blast
    have "\<forall>q < np. q \<notin> edead c1 \<longrightarrow> eh c1 q \<noteq> []" using round_keeps [OF s] less.prems(2) by auto
    then obtain ls c' where "run (eta_step opr np contrib) ls c1 c'" "edead c' = edead c1"
        "\<forall>p < np. p \<notin> edead c' \<longrightarrow> eret c' p"
      using less.hyps [OF step_budget [OF less.prems(1) s] step_eta_inv [OF less.prems(1) s]] by blast
    then show ?thesis using s round_keeps [OF s] by (intro exI [of _ "Round q # ls"] exI [of _ c']) auto
  qed
qed

section \<open>The history and the code\<close>

text \<open>Every process of the network executes the loop of the function: the state in which it has
  left it is the result of the loop on the messages and results of waits that it was given.\<close>

definition executed :: "('v \<Rightarrow> 'v \<Rightarrow> 'v) \<Rightarrow> nat \<Rightarrow> (nat \<Rightarrow> 'v) \<Rightarrow> 'v eta_net \<Rightarrow> nat \<Rightarrow> bool" where
  "executed opr np contrib c p \<longleftrightarrow> (\<exists>cranks s feeds. eta_start np cranks (contrib p) = Some s \<and>
     (\<forall>more. eta_loop opr p np 1 (feeds @ more) s =
        (if eret c p then Some (MPI_SUCCESS, last (eh c p))
         else eta_loop opr p np (int (length (eh c p))) more (last (eh c p)))))"

lemma executed_frame: "eh c' q = eh c q \<Longrightarrow> eret c' q = eret c q \<Longrightarrow> executed opr np contrib c' q \<longleftrightarrow> executed opr np contrib c q"
  by (simp add: executed_def)

lemma executed_step:
  assumes "eta_inv opr np contrib c" "\<forall>p. eh c p \<noteq> [] \<longrightarrow> executed opr np contrib c p" "eta_step opr np contrib l c c'"
  shows "\<forall>p. eh c' p \<noteq> [] \<longrightarrow> executed opr np contrib c' p"
  using assms(3)
proof cases
  case (enter p cranks s)
  then have "\<not> eret c p" using inv_returnE [OF assms(1)] by force
  then have "executed opr np contrib c' p"
    using enter unfolding executed_def by (intro exI [of _ cranks] exI [of _ s] exI [of _ "[]"]) simp
  moreover have "executed opr np contrib c' q \<longleftrightarrow> executed opr np contrib c q" if "q \<noteq> p" for q
    using that enter(2) by (intro executed_frame) simp_all
  ultimately show ?thesis using assms(2) enter(2) by (auto split: if_splits)
next
  case (crash p)
  then show ?thesis using assms(2) executed_frame [of c' _ c] by auto
next
  case (round p r oc n stop s')
  let ?f = "(inbox c r, waits p (eh c p ! r) oc n)"
  obtain cranks s feeds where f: "eta_start np cranks (contrib p) = Some s"
      "\<forall>more. eta_loop opr p np 1 (feeds @ more) s = eta_loop opr p np (int (length (eh c p))) more (last (eh c p))"
    using assms(2) round(5,6) by (auto simp: executed_def)
  have l: "last (eh c p) = eh c p ! r" "int (length (eh c p)) = int r + 1"
    using round(5,7) by (simp_all add: last_conv_nth flip: round(7))
  have "r \<le> np" using inv_unreturned [OF assms(1) round(6)] round(7) by simp
  then have loop: "eta_loop opr p np (int r + 1) (?f # more) (eh c p ! r) =
      (if stop then Some (MPI_SUCCESS, s') else eta_loop opr p np (int r + 1 + 1) more s')" for more
    using round(11) by (simp add: eta_loop.simps)
  have out: "np + 1 < r + 2 \<Longrightarrow> eta_loop opr p np (int r + 1 + 1) more s' = Some (MPI_SUCCESS, s')" for more
    by (simp add: eta_loop.simps)
  have "eta_loop opr p np 1 ((feeds @ [?f]) @ more) s =
        (if eret c' p then Some (MPI_SUCCESS, last (eh c' p))
         else eta_loop opr p np (int (length (eh c' p))) more (last (eh c' p)))" for more
    using f(2) loop out round(2,7) l by (auto simp: add.commute)
  then have "executed opr np contrib c' p" using f(1) unfolding executed_def by blast
  moreover have "executed opr np contrib c' q" if "q \<noteq> p" "eh c' q \<noteq> []" for q
    using assms(2) that round(2) executed_frame [of c' q c] by auto
  ultimately show ?thesis by metis
qed

section \<open>Concrete executions\<close>

lemma net_outcome_code [code]:
  "net_outcome np c p r s oc \<longleftrightarrow> list_all (\<lambda>q.
     (needs_recv p s q \<longrightarrow> ro oc q = MPI_SUCCESS \<and> sent c r q p \<or> ro oc q = MPI_ERR_PROC_FAILED \<and> q \<in> edead c) \<and>
     (needs_send p s q \<longrightarrow> so oc q = MPI_SUCCESS \<or> so oc q = MPI_ERR_PROC_FAILED \<and> q \<in> edead c)) [0..<np]"
  by (auto simp: net_outcome_def list_all_iff)

lemma none_left_code [code]:
  "none_left me s oc k \<longleftrightarrow> list_all (\<lambda>i. (needs_recv me s i \<longrightarrow> rt oc i < k) \<and> (needs_send me s i \<longrightarrow> st_t oc i < k))
     [0..<length (proc_status s)]"
  by (auto simp: none_left_def list_all_iff)

definition do_step ::
  "('v \<Rightarrow> 'v \<Rightarrow> 'v) \<Rightarrow> nat \<Rightarrow> (nat \<Rightarrow> 'v) \<Rightarrow> eta_label \<times> outcome \<Rightarrow> 'v eta_net \<Rightarrow> 'v eta_net option" where
  "do_step opr np contrib lo c =
     (case lo of
        (Enter p, oc) \<Rightarrow> if p < np \<and> p \<notin> edead c \<and> eh c p = [] then do {
            s \<leftarrow> eta_start np [] (contrib p);
            Some (c\<lparr>eh := (eh c)(p := [s])\<rparr>) } else None
      | (Crash p, oc) \<Rightarrow> if p < np \<and> p \<notin> edead c then Some (c\<lparr>edead := insert p (edead c)\<rparr>) else None
      | (Round p, oc) \<Rightarrow>
          let r = length (eh c p) - 1; s = eh c p ! r in
          if p < np \<and> p \<notin> edead c \<and> eh c p \<noteq> [] \<and> \<not> eret c p \<and> net_outcome np c p r s oc \<and> none_left p s oc 1 then
            case eta_round opr p np (int r + 1) (inbox c r) (waits p s oc 1) s of
              Some (Inr (stop, s')) \<Rightarrow>
                Some (c\<lparr>eh := (eh c)(p := eh c p @ [s']), eret := (eret c)(p := (stop \<or> np + 1 < r + 2))\<rparr>)
            | _ \<Rightarrow> None
          else None)"

primrec play ::
  "('v \<Rightarrow> 'v \<Rightarrow> 'v) \<Rightarrow> nat \<Rightarrow> (nat \<Rightarrow> 'v) \<Rightarrow> (eta_label \<times> outcome) list \<Rightarrow> 'v eta_net \<Rightarrow> 'v eta_net option" where
  "play opr np contrib [] c = Some c"
| "play opr np contrib (l # ls) c = do { c \<leftarrow> do_step opr np contrib l c; play opr np contrib ls c }"

lemma do_step_sound:
  assumes "do_step opr np contrib (l, oc) c = Some c'"
  shows "eta_step opr np contrib l c c'"
proof (cases l)
  case (Enter p)
  with assms show ?thesis
    by (auto simp: do_step_def split: if_splits bind_splits intro!: eta_step.enter [where cranks = "[]"])
next
  case (Crash p)
  with assms show ?thesis by (auto simp: do_step_def split: if_splits intro!: eta_step.crash)
next
  case (Round p)
  let ?r = "length (eh c p) - 1"
  let ?s = "eh c p ! ?r"
  from assms Round obtain stop s' where
    "p < np" "p \<notin> edead c" "eh c p \<noteq> []" "\<not> eret c p" "net_outcome np c p ?r ?s oc" "none_left p ?s oc 1"
    "eta_round opr p np (int ?r + 1) (inbox c ?r) (waits p ?s oc 1) ?s = Some (Inr (stop, s'))"
    "c' = c\<lparr>eh := (eh c)(p := eh c p @ [s']), eret := (eret c)(p := (stop \<or> np + 1 < ?r + 2))\<rparr>"
    by (auto simp: do_step_def Let_def split: if_splits option.splits sum.splits)
  with eta_step.round [of p np c ?r oc 1 opr stop s' contrib] Round show ?thesis by simp
qed

lemma play_sound: "play opr np contrib ls c = Some c' \<Longrightarrow> run (eta_step opr np contrib) (map fst ls) c c'"
  by (induction ls arbitrary: c) (auto split: bind_splits dest!: do_step_sound)

definition all_well :: outcome where
  "all_well = \<lparr>ro = (\<lambda>_. MPI_SUCCESS), rt = (\<lambda>_. 0), so = (\<lambda>_. MPI_SUCCESS), st_t = (\<lambda>_. 0)\<rparr>"

definition without :: "nat \<Rightarrow> outcome" where
  "without q = all_well\<lparr>ro := (\<lambda>x. if x = q then MPI_ERR_PROC_FAILED else MPI_SUCCESS)\<rparr>"

text \<open>Three processes; the last one stops in the third round, when only the first one has its
  message.\<close>

definition late_crash :: "(eta_label \<times> outcome) list" where
  "late_crash = map (\<lambda>l. (l, all_well))
     [Enter 0, Enter 1, Enter 2, Round 0, Round 1, Round 2, Round 0, Round 1, Round 2, Crash 2, Round 0] @
     [(Round 1, without 2)]"

lemma two_enter:
  "\<exists>c. run (eta_step band 2 contrib) [Enter 0, Enter 1] eta_init c \<and> edead c = {} \<and> eh c 0 \<noteq> [] \<and> eh c 1 \<noteq> []"
proof -
  have "do_step band 2 contrib (Enter 0, all_well) eta_init \<noteq> None" by (simp add: do_step_def eta_init_def eta_start_def)
  then obtain c1 where c1: "do_step band 2 contrib (Enter 0, all_well) eta_init = Some c1" by blast
  then have e: "edead c1 = {}" "eh c1 0 \<noteq> []" "eh c1 1 = []"
    by (auto simp: do_step_def eta_init_def eta_start_def)
  then have "do_step band 2 contrib (Enter 1, all_well) c1 \<noteq> None" by (simp add: do_step_def eta_start_def)
  then obtain c where c: "do_step band 2 contrib (Enter 1, all_well) c1 = Some c" by blast
  then have "edead c = {}" "eh c 0 \<noteq> []" "eh c 1 \<noteq> []" using e by (auto simp: do_step_def eta_start_def)
  with do_step_sound [OF c1] do_step_sound [OF c] show ?thesis by auto
qed

lemma eta_run_inv: "run (eta_step opr np contrib) ls eta_init c \<Longrightarrow>
    eta_inv opr np contrib c \<and> (\<forall>p. eh c p \<noteq> [] \<longrightarrow> executed opr np contrib c p)"
proof -
  have "run (eta_step opr np contrib) ls c0 c \<Longrightarrow> eta_inv opr np contrib c0 \<Longrightarrow>
      \<forall>p. eh c0 p \<noteq> [] \<longrightarrow> executed opr np contrib c0 p \<Longrightarrow>
      eta_inv opr np contrib c \<and> (\<forall>p. eh c p \<noteq> [] \<longrightarrow> executed opr np contrib c p)" for c0
    by (induction ls arbitrary: c0) (auto dest: step_eta_inv executed_step)
  from this [OF _ eta_init_inv] show "run (eta_step opr np contrib) ls eta_init c \<Longrightarrow>
    eta_inv opr np contrib c \<and> (\<forall>p. eh c p \<noteq> [] \<longrightarrow> executed opr np contrib c p)"
    by (simp add: eta_init_def)
qed

lemma two_complete:
  "\<exists>ls c. run (eta_step band 2 contrib) ls eta_init c \<and> eret c 0 \<and> eret c 1"
proof -
  obtain c where c: "run (eta_step band 2 contrib) [Enter 0, Enter 1] eta_init c" "edead c = {}"
      "eh c 0 \<noteq> []" "eh c 1 \<noteq> []" using two_enter by blast
  have "\<forall>q < 2. q \<notin> edead c \<longrightarrow> eh c q \<noteq> []" using c(3,4) by (simp add: all_less_two)
  then obtain ls c' where l: "run (eta_step band 2 contrib) ls c c'" "edead c' = {}"
      "\<forall>p < 2. p \<notin> edead c' \<longrightarrow> eret c' p"
    using completes [of band 2 contrib c] eta_run_inv [OF c(1)] c(2) by auto
  have "run (eta_step band 2 contrib) (Enter 0 # Enter 1 # ls) eta_init c'" using c(1) l(1) by auto
  moreover have "eret c' 0" "eret c' 1" using l(2,3) by auto
  ultimately show ?thesis by blast
qed

section \<open>Properties\<close>

text \<open>C1: agreement and validity. Whatever processes crash and in whatever order messages
  arrive and crashes are noticed, all processes that leave the loop of the early terminating
  agreement return the same value, also those that crash later. The value has only bits that all
  of them have contributed, and leaves out no bit that every process has that entered. The value
  is the one that the loop of \<^verbatim>\<open>mca_coll_ftbasic_agreement_eta_intra\<close> computes from the messages and
  the results of the waits.\<close>

theorem eta_agreement:
  assumes "run (eta_step ompi_op_base_band_int32_t np contrib) ls eta_init c" "eret c p" "eret c q"
  shows "result_of c p = result_of c q \<and> (\<forall>i. bit (result_of c p) i \<longrightarrow> bit (contrib q) i) \<and>
    (\<forall>i < 32. \<not> bit (result_of c p) i \<longrightarrow> (\<exists>x. eh c x \<noteq> [] \<and> \<not> bit (contrib x) i)) \<and>
    (\<exists>cranks s feeds. eta_start np cranks (contrib p) = Some s \<and>
       eta_loop ompi_op_base_band_int32_t p np 1 feeds s = Some (MPI_SUCCESS, last (eh c p)))"
proof -
  have inv: "eta_inv band np contrib c" and ex: "\<forall>p. eh c p \<noteq> [] \<longrightarrow> executed band np contrib c p"
    using eta_run_inv [OF assms(1)] by blast+
  have eq: "result_of c p = result_of c q"
    using band.returns_agree [OF inv assms(2,3)] by (simp add: result_of_def)
  have own: "\<forall>i. bit (result_of c p) i \<longrightarrow> bit (contrib q) i"
    unfolding eq using band.result_valid(1) [OF inv assms(3)] by (simp add: result_of_def below_band)
  have one: "\<exists>x. eh c x \<noteq> [] \<and> \<not> bit (contrib x) i" if i: "i < 32" "\<not> bit (result_of c p) i" for i
  proof (rule ccontr)
    assume "\<nexists>x. eh c x \<noteq> [] \<and> \<not> bit (contrib x) i"
    then have "\<forall>q. eh c q \<noteq> [] \<longrightarrow> below band (contrib q) (2 ^ i)" by (auto simp: below_band bit_of_pow i)
    from band.result_valid(2) [OF inv assms(2) this] i show False
      by (simp add: below_band result_of_def bit_of_pow)
  qed
  have "eh c p \<noteq> []" using inv_returnE [OF inv assms(2)] by force
  with ex assms(2) have "\<exists>cranks s feeds. eta_start np cranks (contrib p) = Some s \<and>
      eta_loop band p np 1 feeds s = Some (MPI_SUCCESS, last (eh c p))"
    unfolding executed_def by (metis (no_types, lifting))
  with eq own one show ?thesis by blast
qed

theorem eta_agreement_witness:
  "\<exists>ls c. run (eta_step ompi_op_base_band_int32_t 2 (\<lambda>p. if p = 0 then 6 else 3)) ls eta_init c \<and>
     eret c 0 \<and> eret c 1 \<and> result_of c 0 = 2 \<and> result_of c 1 = 2"
proof -
  let ?f = "\<lambda>p :: nat. if p = 0 then 6 else 3 :: 32 word"
  obtain ls c where c: "run (eta_step band 2 ?f) ls eta_init c" "eret c 0" "eret c 1"
    using two_complete by blast
  note a = eta_agreement [OF c] and b = eta_agreement [OF c(1,2,2)]
  have two: "(2 :: 32 word) = 6 AND 3" by simp
  have "bit (result_of c 0) i = bit (2 :: 32 word) i" for i
  proof
    assume "bit (result_of c 0) i"
    with a b have "bit (6 :: 32 word) i" "bit (3 :: 32 word) i" by auto
    then show "bit (2 :: 32 word) i" by (simp only: two bit_and_iff)
  next
    assume "bit (2 :: 32 word) i"
    then have i: "i = 1" using bit_of_pow [of 1 i] by simp
    show "bit (result_of c 0) i"
    proof (rule ccontr)
      assume "\<not> bit (result_of c 0) i"
      moreover have "\<forall>i < 32. \<not> bit (result_of c 0) i \<longrightarrow> (\<exists>x. eh c x \<noteq> [] \<and> \<not> bit (?f x) i)" using a by blast
      ultimately obtain x where "\<not> bit (?f x) 1" using i by (metis one_less_numeral_iff semiring_norm(76))
      then show False by (cases "x = 0") simp_all
    qed
  qed
  then have "result_of c 0 = 2" by (simp add: bit_eq_iff)
  with a c show ?thesis by metis
qed

text \<open>C2: the agreement ends. No execution of \<open>np\<close> processes has more than
  \<open>np * (np + 2) + np\<close> steps, and it never blocks: as long as all live processes have entered and
  one of them has not returned, some live process has all messages, or notices of crashes, that it
  needs to complete its round.\<close>

theorem eta_terminates:
  assumes "run (eta_step ompi_op_base_band_int32_t np contrib) ls eta_init c"
  shows "length ls \<le> np * (np + 2) + np \<and>
    ((\<forall>q < np. q \<notin> edead c \<longrightarrow> eh c q \<noteq> []) \<longrightarrow> (\<exists>p < np. p \<notin> edead c \<and> \<not> eret c p) \<longrightarrow>
     (\<exists>q c'. q \<notin> edead c \<and> eta_step ompi_op_base_band_int32_t np contrib (Round q) c c'))"
proof
  have "eta_budget np (eta_init :: 32 word eta_net) = np * (np + 2) + np"
    by (simp add: eta_budget_def eta_init_def)
  with eta.run_bounded [OF assms eta_init_inv] show "length ls \<le> np * (np + 2) + np" by simp
  show "(\<forall>q < np. q \<notin> edead c \<longrightarrow> eh c q \<noteq> []) \<longrightarrow> (\<exists>p < np. p \<notin> edead c \<and> \<not> eret c p) \<longrightarrow>
     (\<exists>q c'. q \<notin> edead c \<and> eta_step band np contrib (Round q) c c')"
    using some_round_enabled [OF conjunct1 [OF eta_run_inv [OF assms]]] by blast
qed

theorem eta_terminates_witness:
  "\<exists>c c'. run (eta_step ompi_op_base_band_int32_t 2 (\<lambda>_. 5)) [Enter 0, Enter 1] eta_init c \<and>
     (\<exists>q. q \<notin> edead c \<and> eta_step ompi_op_base_band_int32_t 2 (\<lambda>_. 5) (Round q) c c')"
proof -
  obtain c where c: "run (eta_step band 2 (\<lambda>_. 5)) [Enter 0, Enter 1] eta_init c" "edead c = {}"
      "eh c 0 \<noteq> []" "eh c 1 \<noteq> []" using two_enter by blast
  have "\<not> eret c 0" using c(1) by (auto simp: eta_init_def elim!: eta_step.cases)
  with eta_terminates [OF c(1)] c show ?thesis by (auto simp: all_less_two)
qed

text \<open>C16: the protocol implements an agreement object. Every execution is, step by step and with
  the same labels, an execution of the specification in which the first process to return fixes
  the value and all others return the same one.\<close>

theorem eta_refines:
  assumes "run (eta_step ompi_op_base_band_int32_t np contrib) ls eta_init c"
  shows "run (agree_spec ompi_op_base_band_int32_t contrib) ls (eta_abs np eta_init) (eta_abs np c)"
  by (rule eta.refines [OF assms eta_init_inv])

theorem eta_refines_witness:
  "\<exists>ls c. run (eta_step ompi_op_base_band_int32_t 2 (\<lambda>_. 5)) ls eta_init c \<and> eret c 0 \<and> eret c 1 \<and>
     run (agree_spec ompi_op_base_band_int32_t (\<lambda>_. 5)) ls (eta_abs 2 eta_init) (eta_abs 2 c)"
  using eta_refines two_complete by blast

text \<open>The return codes need not agree. In this run a process crashes in the last round, with its
  message received by one of the two others only, and the survivors return the same value, one
  with success and one with \<^verbatim>\<open>MPI_ERR_PROC_FAILED\<close>.\<close>

theorem eta_return_codes_differ:
  "\<exists>ls c. run (eta_step ompi_op_base_band_int32_t 3 (\<lambda>_. 7)) ls eta_init c \<and> edead c = {2} \<and>
     eret c 0 \<and> eret c 1 \<and> eta_return MPI_SUCCESS (last (eh c 0)) = MPI_SUCCESS \<and>
     eta_return MPI_SUCCESS (last (eh c 1)) = MPI_ERR_PROC_FAILED"
proof -
  have "case play band 3 (\<lambda>_. 7) late_crash eta_init of None \<Rightarrow> False | Some c \<Rightarrow> edead c = {2} \<and>
      eret c 0 \<and> eret c 1 \<and> eta_return MPI_SUCCESS (last (eh c 0)) = MPI_SUCCESS \<and>
      eta_return MPI_SUCCESS (last (eh c 1)) = MPI_ERR_PROC_FAILED"
    by code_simp
  then obtain c where c: "play band 3 (\<lambda>_. 7) late_crash eta_init = Some c" "edead c = {2} \<and>
      eret c 0 \<and> eret c 1 \<and> eta_return MPI_SUCCESS (last (eh c 0)) = MPI_SUCCESS \<and>
      eta_return MPI_SUCCESS (last (eh c 1)) = MPI_ERR_PROC_FAILED"
    by (cases "play band 3 (\<lambda>_. 7) late_crash eta_init") auto
  then show ?thesis using play_sound [OF c(1)] by blast
qed

end
