(* ===== verification/Comm_Shrink.thy ===== *)
theory Comm_Shrink
  imports Comm_FT Agreement
begin

text \<open>
  Shrinking a communicator at one process: \<^verbatim>\<open>ompi_comm_shrink_internal\<close> and the all-reduce over an
  agreement of \<^verbatim>\<open>ompi/communicator/comm_ft.c\<close>, and the parts of \<^verbatim>\<open>comm.c\<close> and
  \<^verbatim>\<open>comm_init.c\<close> they use for intracommunicators without a topology. The agreement of the
  collective component, the copy of the attributes, the allocation of an identifier and the
  activation of the new communicator are arguments.
\<close>

section \<open>Repeated agreements\<close>

text \<open>An agreement takes the group of failures to ignore and the contribution; it returns a code,
  the agreed value and a group of failed processes. The list holds the successive calls; without
  any more of them the process is still in the loop.\<close>

type_synonym 'v agreement_fn = "ptr \<Rightarrow> 'v \<Rightarrow> group_state \<Rightarrow> (int \<times> 'v \<times> ptr \<times> group_state) option"

fun agree_retry :: "'v agreement_fn list \<Rightarrow> ptr \<Rightarrow> 'v \<Rightarrow> group_state \<Rightarrow> (int \<times> 'v \<times> ptr \<times> group_state) option" where
  "agree_retry [] fg v s = None"
| "agree_retry (a # as) fg v s =
     do {
       (ret, v, fg, s) \<leftarrow> a fg v s;
       if ret = MPI_ERR_PROC_FAILED then agree_retry as fg v s else Some (ret, v, fg, s) }"

definition ompi_comm_allreduce_intra_ft ::
  "int \<Rightarrow> alloc \<Rightarrow> 'v agreement_fn list \<Rightarrow> 'v \<Rightarrow> group_state \<Rightarrow> (int \<times> 'v \<times> group_state) option" where
  "ompi_comm_allreduce_intra_ft hmax al as inbuf s =
     do {
       (fg, s) \<leftarrow> OBJ_NEW_group hmax al s;
       (ret, v, fg, s) \<leftarrow> agree_retry as fg inbuf s;
       s \<leftarrow> OBJ_RELEASE_group s fg;
       Some (ret, v, s) }"

section \<open>Setting up a communicator\<close>

record new_comm = ompi_communicator_t +
  c_my_rank :: int
  lleader :: int
  rleader :: int

definition ompi_comm_construct :: new_comm where
  "ompi_comm_construct =
     ompi_communicator_t.extend
       (OMPI_COMM_SET_FT \<lparr>c_contextid = word_of_int MPI_UNDEFINED, c_epoch = 0, c_inter = False,
          c_local_group = NULL, c_remote_group = NULL, any_source_enabled = True, any_source_offset = 0,
          comm_revoked = False, coll_revoked = False, num_active_local = 0, num_active_remote = 0,
          c_pml_procs = []\<rparr> (- 1) (word_of_int MPI_UNDEFINED))
       \<lparr>c_my_rank = 0, lleader = 0, rleader = 0\<rparr>"

text \<open>What the destructor does to the groups of a communicator that has not been activated.\<close>

definition ompi_comm_destruct :: "group_state \<Rightarrow> new_comm \<Rightarrow> group_state option" where
  "ompi_comm_destruct s comm =
     do {
       (s, remote) \<leftarrow>
         (if c_local_group comm \<noteq> NULL then do {
            s \<leftarrow> ompi_group_decrement_proc_count s (c_local_group comm);
            s \<leftarrow> OBJ_RELEASE_group s (c_local_group comm);
            if \<not> c_inter comm then do {
              s \<leftarrow> OBJ_RELEASE_group s (c_remote_group comm);
              Some (s, NULL) }
            else Some (s, c_remote_group comm) }
          else Some (s, c_remote_group comm));
       if remote \<noteq> NULL then do {
         s \<leftarrow> ompi_group_decrement_proc_count s remote;
         OBJ_RELEASE_group s remote }
       else Some s }"

text \<open>The new communicator for a local group or, when it is \<open>NULL\<close>, for a list of ranks. The
  code of the attribute copy is \<open>None\<close> when no attributes are to be copied.\<close>

definition ompi_comm_set ::
  "ft_env \<Rightarrow> alloc \<Rightarrow> int option \<Rightarrow> group_state \<Rightarrow> ompi_communicator_t \<Rightarrow> int list \<Rightarrow> ptr \<Rightarrow>
   (int \<times> new_comm option \<times> group_state) option" where
  "ompi_comm_set env al attr_rc s oldcomm local_ranks local_group =
     do {
       let newcomm = ompi_comm_construct;
       (lg, s) \<leftarrow>
         (if local_group = NULL then do {
            (_, g, s) \<leftarrow> ompi_group_incl (e_sparse env) (e_before env) (e_hmax env) al s (c_local_group oldcomm) local_ranks;
            Some (g, s) }
          else do {
            s \<leftarrow> OBJ_RETAIN_group s local_group;
            s \<leftarrow> ompi_group_increment_proc_count s local_group;
            Some (local_group, s) });
       G \<leftarrow> groups s lg;
       s \<leftarrow> OBJ_RETAIN_group s lg;
       let newcomm = newcomm\<lparr>c_local_group := lg, c_remote_group := lg, c_my_rank := grp_my_rank G,
            any_source_enabled := True, any_source_offset := 0, comm_revoked := False, coll_revoked := False,
            num_active_local := grp_proc_count G, num_active_remote := grp_proc_count G,
            lleader := 0, rleader := 0\<rparr>;
       case attr_rc of
         Some rc \<Rightarrow>
           if rc \<noteq> OMPI_SUCCESS then do {
             s \<leftarrow> ompi_comm_destruct s newcomm;
             Some (rc, None, s) }
           else Some (OMPI_SUCCESS, Some newcomm, s)
       | None \<Rightarrow> Some (OMPI_SUCCESS, Some newcomm, s) }"

definition ompi_comm_group :: "group_state \<Rightarrow> ompi_communicator_t \<Rightarrow> (ptr \<times> group_state) option" where
  "ompi_comm_group s comm =
     do {
       s \<leftarrow> OBJ_RETAIN_group s (c_local_group comm);
       s \<leftarrow> ompi_group_increment_proc_count s (c_local_group comm);
       Some (c_local_group comm, s) }"

section \<open>Shrink\<close>

definition MPI_ERR_UNSUPPORTED_OPERATION :: int where [rc_defs]: "MPI_ERR_UNSUPPORTED_OPERATION = 52"

text \<open>The allocations of the function, and the answers of the functions that exchange messages:
  the code of the attribute copy, of the identifier allocation with the new communicator, and of
  the activation.\<close>

record shrink_env =
  s_ft :: ft_env
  s_failed :: alloc
  s_alive :: alloc
  s_diff :: alloc
  s_attr :: "int option"
  s_nextcid :: "new_comm \<Rightarrow> int \<times> new_comm"
  s_activate :: int

definition release_if :: "ptr \<Rightarrow> group_state \<Rightarrow> group_state option" where
  "release_if g s = (if g \<noteq> NULL then OBJ_RELEASE_group s g else Some s)"

definition shrink_cleanup ::
  "int \<Rightarrow> new_comm option \<Rightarrow> int \<Rightarrow> ptr \<Rightarrow> ptr \<Rightarrow> ptr \<Rightarrow> group_state \<Rightarrow> (int \<times> new_comm option \<times> int \<times> group_state) option" where
  "shrink_cleanup rc newcomm ll failed alive cgrp s =
     do {
       s \<leftarrow> release_if failed s;
       s \<leftarrow> release_if alive s;
       s \<leftarrow> release_if cgrp s;
       Some (rc, newcomm, ll, s) }"

text \<open>The result holds the new communicator and the new value of the field \<^verbatim>\<open>lleader\<close> of the old
  one.\<close>

definition ompi_comm_shrink_internal ::
  "shrink_env \<Rightarrow> 32 word agreement_fn list \<Rightarrow> group_state \<Rightarrow> ompi_communicator_t \<Rightarrow> int \<Rightarrow>
   (int \<times> new_comm option \<times> int \<times> group_state) option" where
  "ompi_comm_shrink_internal env as s comm ll =
     (let hmax = e_hmax (s_ft env) in
      if c_inter comm then Some (MPI_ERR_UNSUPPORTED_OPERATION, None, ll, s)
      else do {
        (failed, s) \<leftarrow> OBJ_NEW_group hmax (s_failed env) s;
        (ret, _, failed, s) \<leftarrow> agree_retry as failed 1 s;
        if ret \<noteq> OMPI_SUCCESS then shrink_cleanup ret None ll failed NULL NULL s
        else do {
          (alive, s) \<leftarrow> OBJ_NEW_group hmax (s_alive env) s;
          (cgrp, s) \<leftarrow> ompi_comm_group s comm;
          (ret, g, s) \<leftarrow> ompi_group_difference hmax (s_diff env) s cgrp failed;
          if ret \<noteq> OMPI_SUCCESS then shrink_cleanup ret None ll failed alive cgrp s
          else do {
            let alive = g;
            (_, lls) \<leftarrow> ompi_group_translate_ranks s alive [0] cgrp [ll];
            let ll = hd lls;
            (ret, newcomp, s) \<leftarrow> ompi_comm_set (s_ft env) (s_diff env) (s_attr env) s comm [] alive;
            case newcomp of
              None \<Rightarrow> shrink_cleanup ret None ll failed alive cgrp s
            | Some newcomp \<Rightarrow>
                let (ret, newcomp) = s_nextcid env newcomp in
                if ret \<noteq> OMPI_SUCCESS then shrink_cleanup ret None ll failed alive cgrp s
                else if s_activate env \<noteq> OMPI_SUCCESS then shrink_cleanup (s_activate env) None ll failed alive cgrp s
                else shrink_cleanup OMPI_SUCCESS (Some newcomp) ll failed alive cgrp s } } })"

end
