(* ===== verification/Comm_Shrink_Correct.thy ===== *)
theory Comm_Shrink_Correct
  imports Comm_Shrink Failure_Ack Agreement_Correct
begin

text \<open>
  The group of the shrunk communicator, and the group that the agreement returns: the functions of
  \<^verbatim>\<open>comm_ft.c\<close> and the early terminating agreement on top of the group operations.
\<close>

section \<open>References\<close>

lemma retain_denotes:
  assumes "denotes s g ps" "groups s g = Some G"
  shows "denotes (put_group g (retained G) s) g ps"
  by (rule denotes_keeps [OF assms(1)]) (use assms(2) in \<open>auto simp: keeps_def shape_def\<close>)

lemma share_group:
  assumes "denotes s g ps" "groups s g = Some G"
  shows "(OBJ_RETAIN_group s g \<bind> (\<lambda>s. ompi_group_increment_proc_count s g)) =
    Some (add_refs 1 ps (put_group g (retained G) s))"
  using increment_proc_count [OF retain_denotes [OF assms]] assms(2) by (simp add: OBJ_RETAIN_group_def)

lemma comm_group_ok:
  assumes "denotes s (c_local_group comm) ps" "groups s (c_local_group comm) = Some G"
  shows "ompi_comm_group s comm =
    Some (c_local_group comm, add_refs 1 ps (put_group (c_local_group comm) (retained G) s))"
  using share_group [OF assms] by (simp add: ompi_comm_group_def bind_eq_Some_conv)

lemma comm_set_ok:
  assumes "denotes s g ps" "groups s g = Some G" "g \<noteq> NULL" "attr = None \<or> attr = Some OMPI_SUCCESS"
  shows "\<exists>nc s'. ompi_comm_set env al attr s old [] g = Some (OMPI_SUCCESS, Some nc, s') \<and>
    groups s' = (groups s)(g \<mapsto> G\<lparr>grp_refcount := grp_refcount G + 2\<rparr>) \<and> f_to_c s' = f_to_c s \<and>
    c_local_group nc = g \<and> c_remote_group nc = g \<and> c_my_rank nc = grp_my_rank G \<and>
    num_active_local nc = grp_proc_count G \<and> num_active_remote nc = grp_proc_count G \<and>
    \<not> comm_revoked nc \<and> \<not> coll_revoked nc \<and> any_source_enabled nc \<and> \<not> c_inter nc"
proof -
  let ?s = "add_refs 1 ps (put_group g (retained G) s)"
  have "groups ?s g = Some (retained G)" by (simp add: add_refs_def)
  then show ?thesis
    using assms share_group [OF assms(1,2)]
    by (auto simp: ompi_comm_set_def bind_eq_Some_conv OBJ_RETAIN_group_def Let_def add_refs_def
        ompi_comm_construct_def OMPI_COMM_SET_FT_def ompi_communicator_t.defs split: option.splits)
qed

definition releasable :: "ompi_group_t \<Rightarrow> bool" where
  "releasable G \<longleftrightarrow> grp_refcount G \<noteq> 1 \<or> grp_parent_group_ptr G = NULL \<and> 0 \<le> grp_f_to_c_index G"

lemma release_any:
  assumes "groups s g = Some G" "releasable G" "pa_inv (f_to_c s)"
  obtains s' X where "OBJ_RELEASE_group s g = Some s'" "groups s' = (groups s)(g := X)"
proof (cases "grp_refcount G = 1")
  case True
  with release_dense [OF assms(1) True _ assms(3)] assms(2) that show ?thesis by (auto simp: releasable_def)
next
  case False
  with release_shared [OF assms(1)] that show ?thesis by simp
qed

lemma empty_denotes: "gs_inv hmax s \<Longrightarrow> denotes s MPI_GROUP_EMPTY ps \<Longrightarrow> ps = []"
  by (auto simp: gs_inv_def elim: denotes.cases)

section \<open>Shrink\<close>

text \<open>The allocations of the steps after the agreement succeed in the states in which they are
  made.\<close>

definition shrink_allocs :: "shrink_env \<Rightarrow> group_state \<Rightarrow> ompi_communicator_t \<Rightarrow> bool" where
  "shrink_allocs env s comm \<longleftrightarrow> al_ok (s_alive env) s \<and>
     (\<forall>a s1 cg s2. OBJ_NEW_group (e_hmax (s_ft env)) (s_alive env) s = Some (a, s1) \<longrightarrow>
        ompi_comm_group s1 comm = Some (cg, s2) \<longrightarrow> al_ok (s_diff env) s2)"

text \<open>The last steps: the three groups are released.\<close>

lemma cleanup_ok:
  assumes "groups s f = Some F" "releasable F" "groups s a = Some A" "groups s c = Some C" "pa_inv (f_to_c s)"
    "f \<noteq> a" "f \<noteq> c" "a \<noteq> c" "grp_refcount A \<noteq> 1" "grp_refcount C \<noteq> 1" "NULL \<notin> {f, a, c}"
  shows "\<exists>s' X. shrink_cleanup rc nc ll f a c s = Some (rc, nc, ll, s') \<and>
    groups s' = (groups s)(f := X, a \<mapsto> A\<lparr>grp_refcount := grp_refcount A - 1\<rparr>,
      c \<mapsto> C\<lparr>grp_refcount := grp_refcount C - 1\<rparr>)"
proof -
  obtain s1 X where s1: "OBJ_RELEASE_group s f = Some s1" "groups s1 = (groups s)(f := X)"
    using release_any [OF assms(1,2,5)] .
  have "groups s1 a = Some A" using s1(2) assms(3,6) by simp
  note r1 = release_shared [OF this assms(9)]
  let ?s2 = "put_group a (A\<lparr>grp_refcount := grp_refcount A - 1\<rparr>) s1"
  have "groups ?s2 c = Some C" using s1(2) assms(4,7,8) by simp
  note r2 = release_shared [OF this assms(10)]
  show ?thesis
    using s1 r1 r2 assms(11) by (auto simp: shrink_cleanup_def release_if_def)
qed

lemma shrink_after_agreement:
  assumes inv: "gs_inv (e_hmax (s_ft env)) s" and v: "valid_group s f fs F" "valid_group s (c_local_group comm) members M"
    and ne: "filter (\<lambda>p. p \<notin> set fs) members \<noteq> []" "f \<noteq> c_local_group comm" "releasable F"
    and al: "shrink_allocs env s comm" and attr: "s_attr env = None \<or> s_attr env = Some OMPI_SUCCESS"
  defines "alive \<equiv> filter (\<lambda>p. p \<notin> set fs) members"
  obtains s1 s2 g s3 nc s4 where
    "OBJ_NEW_group (e_hmax (s_ft env)) (s_alive env) s = Some (al_obj (s_alive env), s1)"
    "ompi_comm_group s1 comm = Some (c_local_group comm, s2)"
    "ompi_group_difference (e_hmax (s_ft env)) (s_diff env) s2 (c_local_group comm) f = Some (OMPI_SUCCESS, g, s3)"
    "\<And>ll. ompi_group_translate_ranks s3 g [0] (c_local_group comm) [ll] = Some (MPI_SUCCESS, [rank_of members (hd alive)])"
    "ompi_comm_set (s_ft env) (s_diff env) (s_attr env) s3 comm [] g = Some (OMPI_SUCCESS, Some nc, s4)"
    "\<And>rc nc ll. \<exists>s'. shrink_cleanup rc nc ll f g (c_local_group comm) s4 = Some (rc, nc, ll, s') \<and>
       denotes s' g alive \<and> groups s' (c_local_group comm) = Some M"
    "c_local_group nc = g" "c_remote_group nc = g"
    "grp_my_rank M \<noteq> MPI_UNDEFINED \<Longrightarrow> c_my_rank nc = rank_of alive (members ! nat (grp_my_rank M))"
    "num_active_local nc = int (length alive)" "\<not> comm_revoked nc" "\<not> coll_revoked nc" "any_source_enabled nc"
proof -
  let ?h = "e_hmax (s_ft env)" and ?c = "c_local_group comm" and ?g = "al_obj (s_diff env)"
  obtain s1 where s1: "OBJ_NEW_group ?h (s_alive env) s = Some (al_obj (s_alive env), s1)" "gs_inv ?h s1" "extends s s1"
    using obj_new_ok [OF inv] al unfolding shrink_allocs_def by metis
  have v1: "valid_group s1 f fs F" "valid_group s1 ?c members M"
    using valid_group_extends [OF v(1) s1(3)] valid_group_extends [OF v(2) s1(3)] by simp_all
  let ?s2 = "add_refs 1 members (put_group ?c (retained M) s1)"
  have cg: "ompi_comm_group s1 comm = Some (?c, ?s2)"
    using comm_group_ok v1(2) by (simp add: valid_group_def)
  have al2: "al_ok (s_diff env) ?s2" using al s1(1) cg by (auto simp: shrink_allocs_def)
  have M: "groups s1 ?c = Some M" "groups s1 f = Some F" using v1 by (simp_all add: valid_group_def)
  have inv2: "gs_inv ?h ?s2"
    using gs_inv_retain [OF s1(2) M(1)] by (simp add: gs_inv_def add_refs_def)
  have k2: "keeps s1 ?s2" using M(1) by (auto simp: keeps_def shape_def add_refs_def)
  have v2: "valid_group ?s2 f fs F" "valid_group ?s2 ?c members (retained M)"
    using v1 ne(2) denotes_keeps [OF _ k2] by (auto simp: valid_group_def add_refs_def)
  obtain i t where d: "ompi_group_difference ?h (s_diff env) ?s2 ?c f = Some (OMPI_SUCCESS, ?g,
      put_group ?g (dense_group i alive (case_option MPI_UNDEFINED (rank_of alive) (own_of_two members (retained M) fs F)))
        (add_refs 1 alive (?s2\<lparr>f_to_c := t\<rparr>)))" "handle_added (f_to_c ?s2) i ?g t"
    using difference_dense [OF inv2 al2 v2(2,1)] ne(1) unfolding alive_def by blast
  let ?G = "dense_group i alive (case_option MPI_UNDEFINED (rank_of alive) (own_of_two members (retained M) fs F))"
  let ?s3 = "put_group ?g ?G (add_refs 1 alive (?s2\<lparr>f_to_c := t\<rparr>))"
  have fresh: "groups ?s2 ?g = None" "?g \<noteq> NULL" using al2 by (auto simp: al_ok_def)
  have "groups ?s2 ?c \<noteq> None" "groups ?s2 f \<noteq> None" using v2 unfolding valid_group_def by blast+
  moreover have "groups ?s2 MPI_GROUP_EMPTY \<noteq> None" using inv2 unfolding gs_inv_def by blast
  ultimately have gne: "?g \<noteq> ?c" "?g \<noteq> f" "?g \<noteq> MPI_GROUP_EMPTY" using fresh(1) by metis+
  have nn: "NULL \<notin> set alive" "distinct alive"
    using denotes_not_null [of s ?c members] v(2) by (auto simp: alive_def valid_group_def)
  have g3: "groups ?s3 ?g = Some ?G" "groups ?s3 ?c = Some (retained M)" "groups ?s3 f = Some F"
    using v2 gne by (auto simp: valid_group_def add_refs_def)
  have dg: "denotes ?s3 ?g alive" using denotes_dense_group [OF g3(1) nn(1)] .
  have "keeps ?s2 ?s3" using fresh(1) by (auto simp: keeps_def add_refs_def)
  then have dc: "denotes ?s3 ?c members" using denotes_keeps v2(2) by (auto simp: valid_group_def)
  have null: "groups s1 NULL = None" using s1(2) by (simp add: gs_inv_def)
  then have cn: "?c \<noteq> NULL" "f \<noteq> NULL" using M by (metis option.distinct(1))+
  have ce: "?c \<noteq> MPI_GROUP_EMPTY" using empty_denotes [OF s1(2), of members] v1(2) ne(1) by (auto simp: valid_group_def)
  have tr: "ompi_group_translate_ranks ?s3 ?g [0] ?c [ll] = Some (MPI_SUCCESS, [rank_of members (hd alive)])" for ll
    using translate_denotes [OF dg dc nn(2) _ gne(3) ce, of "[0]" "[ll]"] v(2) ne(1) null fresh(2) cn(1)
    by (auto simp: valid_group_def translated_def MPI_PROC_NULL_def alive_def hd_conv_nth add_refs_def)
  obtain nc s4 where set: "ompi_comm_set (s_ft env) (s_diff env) (s_attr env) ?s3 comm [] ?g = Some (OMPI_SUCCESS, Some nc, s4)"
      "groups s4 = (groups ?s3)(?g \<mapsto> ?G\<lparr>grp_refcount := grp_refcount ?G + 2\<rparr>)" "f_to_c s4 = f_to_c ?s3"
      "c_local_group nc = ?g" "c_remote_group nc = ?g" "c_my_rank nc = grp_my_rank ?G"
      "num_active_local nc = grp_proc_count ?G" "\<not> comm_revoked nc" "\<not> coll_revoked nc" "any_source_enabled nc"
    using comm_set_ok [OF dg g3(1) fresh(2) attr] by blast
  have clean: "\<exists>s'. shrink_cleanup rc nc ll f ?g ?c s4 = Some (rc, nc, ll, s') \<and>
       denotes s' ?g alive \<and> groups s' ?c = Some M" for rc nc ll
  proof -
    let ?A = "?G\<lparr>grp_refcount := grp_refcount ?G + 2\<rparr>"
    have "pa_inv (f_to_c s4)" using d(2) by (simp add: set(3) handle_added_def add_refs_def)
    moreover have "grp_refcount ?A \<noteq> 1" "grp_refcount (retained M) \<noteq> 1"
      using v(2) by (simp_all add: dense_group_def valid_group_def)
    ultimately obtain s' X where s': "shrink_cleanup rc nc ll f ?g ?c s4 = Some (rc, nc, ll, s')"
        "groups s' = (groups s4)(f := X, ?g \<mapsto> ?A\<lparr>grp_refcount := grp_refcount ?A - 1\<rparr>,
           ?c \<mapsto> (retained M)\<lparr>grp_refcount := grp_refcount (retained M) - 1\<rparr>)"
      using cleanup_ok [of s4 f F ?g ?A ?c "retained M" rc nc ll] set(2) g3 gne cn fresh(2) ne(2,3) by auto
    have "denotes s' ?g alive"
      using s'(2) gne(1) nn(1)
      by (intro denotes.dense [of s' ?g "?A\<lparr>grp_refcount := grp_refcount ?A - 1\<rparr>"])
        (simp_all add: dense_group_def has_flag_def OMPI_GROUP_DENSE_def)
    with s' show ?thesis by auto
  qed
  have my: "grp_my_rank M \<noteq> MPI_UNDEFINED \<Longrightarrow> c_my_rank nc = rank_of alive (members ! nat (grp_my_rank M))"
    using set(6) by (simp add: dense_group_def own_of_two_def)
  have cnt: "num_active_local nc = int (length alive)" using set(7) by (simp add: dense_group_def)
  show thesis
    by (rule that [OF s1(1) cg d(1) tr set(1) clean set(4,5) my cnt set(8-10)])
qed

section \<open>The group of failed processes\<close>

lemma gs_inv_release:
  assumes "gs_inv hmax s" "groups s g = Some G" "1 \<le> grp_refcount G" "releasable G" "g \<noteq> MPI_GROUP_EMPTY \<or> grp_refcount G \<noteq> 1"
    "\<forall>h H. groups s h = Some H \<longrightarrow> grp_parent_group_ptr H \<noteq> g"
  obtains s' where "OBJ_RELEASE_group s g = Some s'" "gs_inv hmax s'"
    "\<forall>h. h \<noteq> g \<longrightarrow> groups s' h = groups s h"
proof (cases "grp_refcount G = 1")
  case True
  have e: "g \<noteq> MPI_GROUP_EMPTY" using assms(5) True by simp
  obtain s' where s': "OBJ_RELEASE_group s g = Some s'" "groups s' = (groups s)(g := None)"
      "pa_inv (f_to_c s')" "max_size (f_to_c s') = max_size (f_to_c s)"
    using release_dense [OF assms(2) True] assms(1,4) True unfolding releasable_def gs_inv_def by metis
  have "gs_inv hmax s'"
    using assms(1,6) e s'(2-4) unfolding gs_inv_def by (auto split: if_splits)
  with s' that show thesis by simp
next
  case False
  let ?s = "put_group g (G\<lparr>grp_refcount := grp_refcount G - 1\<rparr>) s"
  have "gs_inv hmax ?s"
    using assms(1-3) False by (cases "g = NULL") (auto simp: gs_inv_def has_flag_def)
  with release_shared [OF assms(2) False] that show thesis by simp
qed

lemma mark_acked_ok:
  "(\<And>r. r \<in> set rs \<Longrightarrow> 0 \<le> r \<and> r < int (length sts)) \<Longrightarrow> \<exists>sts'. mark_acked rs sts = Some sts'"
proof (induction rs arbitrary: sts)
  case (Cons r rs)
  then have "wr sts r STATUS_ACRASHED = Some (sts[nat r := STATUS_ACRASHED])" by (simp add: wr_in)
  with Cons show ?case by simp
qed simp

lemma rank_of_member: "p \<in> set ps \<Longrightarrow> 0 \<le> rank_of ps p \<and> rank_of ps p < int (length ps)"
  using index_of_None_iff [of ps p] by (auto simp: rank_of_def dest: index_of_Some split: option.splits)

lemma failed_ranks_members:
  "sub_procs ps (failed_ranks s) =
     map ((!) ps) (filter (\<lambda>i. i \<in> crashed_at s) [0..<length (proc_status s)])"
  by (auto simp: failed_ranks_def sub_procs_def idxs_def crashed_at_def filter_map comp_def
      intro!: arg_cong [of _ _ "map ((!) ps)"] filter_cong)

text \<open>The acknowledged failures as ranks of the communicator's group.\<close>

lemma acked_ranks:
  assumes "gs_inv hmax gs" "denotes gs grp acked" "denotes gs cgrp members" "distinct acked" "distinct members"
    "acked \<noteq> []" "members \<noteq> []"
  shows "ompi_group_translate_ranks gs grp (idxs (int (length acked))) cgrp (replicate (length acked) 0) =
      Some (MPI_SUCCESS, map (rank_of members) acked)"
proof -
  have "grp \<noteq> MPI_GROUP_EMPTY" "cgrp \<noteq> MPI_GROUP_EMPTY"
    using empty_denotes [OF assms(1)] assms(2,3,6,7) by auto
  moreover have "map (translated acked members) (idxs (int (length acked))) = map (rank_of members) acked"
    by (rule nth_equalityI) (simp_all add: idxs_def translated_def MPI_PROC_NULL_def)
  moreover have "groups gs NULL = None" using assms(1) by (simp add: gs_inv_def)
  ultimately show ?thesis
    using translate_denotes [OF assms(2,3,4,5), of "idxs (int (length acked))" "replicate (length acked) 0"]
    by (auto simp: set_idxs)
qed

lemma start_ok:
  assumes "set acked \<subseteq> set members"
  obtains s0 where "eta_start (length members) (map (rank_of members) acked) contrib = Some s0"
proof -
  have "\<exists>sts. mark_acked (map (rank_of members) acked) (replicate (length members) STATUS_NO_INFO) = Some sts"
    by (rule mark_acked_ok) (use rank_of_member [of _ members] assms in \<open>simp, blast\<close>)
  with that show thesis by (auto simp: eta_start_def)
qed

section \<open>Examples\<close>

text \<open>The first agreement reports a new failure, the second one returns the group of the two
  failed processes.\<close>

definition sample_agreements :: "32 word agreement_fn list" where
  "sample_agreements = [\<lambda>fg v s. Some (MPI_ERR_PROC_FAILED, v, fg, s),
     \<lambda>fg v s. do { s \<leftarrow> OBJ_RELEASE_group s fg; s \<leftarrow> OBJ_RETAIN_group s 11; Some (MPI_SUCCESS, v, 11, s) }]"

definition sample_shrink_env :: shrink_env where
  "sample_shrink_env = \<lparr>s_ft = acked_env,
     s_failed = \<lparr>al_obj = 20, al_array = True, al_table = True\<rparr>,
     s_alive = \<lparr>al_obj = 30, al_array = True, al_table = True\<rparr>,
     s_diff = \<lparr>al_obj = 50, al_array = True, al_table = True\<rparr>,
     s_attr = None, s_nextcid = (\<lambda>nc. (OMPI_SUCCESS, nc\<lparr>c_contextid := 4, c_epoch := 9\<rparr>)), s_activate = OMPI_SUCCESS\<rparr>"

abbreviation shrink_groups :: group_state where
  "shrink_groups \<equiv> grps (acked_node [103, 102] 0)"

lemma sample_agreement_ok:
  obtains s1 s2 where "OBJ_NEW_group 90 (s_failed sample_shrink_env) shrink_groups = Some (20, s1)"
    "agree_retry sample_agreements 20 1 s1 = Some (OMPI_SUCCESS, 1, 11, s2)" "gs_inv 90 s2"
    "groups s2 10 = Some (dense_group 1 [101, 102, 103, 104] 0)"
    "groups s2 11 = Some (retained (dense_group 2 [103, 102] MPI_UNDEFINED))"
proof -
  have inv: "gs_inv 90 shrink_groups" by (rule acked_inv) simp_all
  have al: "al_ok (s_failed sample_shrink_env) shrink_groups" by code_simp
  obtain i t where n: "new_with_handle 90 (s_failed sample_shrink_env) shrink_groups =
      Some (al_obj (s_failed sample_shrink_env),
        put_group (al_obj (s_failed sample_shrink_env)) (new_group i) (shrink_groups\<lparr>f_to_c := t\<rparr>))"
    "handle_added (f_to_c shrink_groups) i (al_obj (s_failed sample_shrink_env)) t"
    using new_with_handle_ok [OF inv al] by metis
  have o20: "al_obj (s_failed sample_shrink_env) = 20" by (simp add: sample_shrink_env_def)
  let ?s1 = "put_group 20 (new_group i) (shrink_groups\<lparr>f_to_c := t\<rparr>)"
  have s1: "OBJ_NEW_group 90 (s_failed sample_shrink_env) shrink_groups = Some (20, ?s1)"
    using n(1) o20
    by (auto simp: new_with_handle_def bind_eq_Some_conv OBJ_NEW_group_def split: if_splits)
  have inv1: "gs_inv 90 ?s1"
    by (rule gs_inv_put [OF inv n(2) [unfolded o20], of _ "new_group i"])
      (simp_all add: new_group_def acked_node_def MPI_GROUP_EMPTY_def)
  have g1: "groups ?s1 20 = Some (new_group i)" "groups ?s1 10 = Some (dense_group 1 [101, 102, 103, 104] 0)"
    "groups ?s1 11 = Some (dense_group 2 [103, 102] MPI_UNDEFINED)"
    by (simp_all add: acked_node_def MPI_GROUP_EMPTY_def)
  have "\<forall>h H. groups ?s1 h = Some H \<longrightarrow> grp_parent_group_ptr H \<noteq> 20"
    by (auto simp: acked_node_def dense_group_def new_group_def MPI_GROUP_EMPTY_def split: if_splits)
  then obtain sr where sr: "OBJ_RELEASE_group ?s1 20 = Some sr" "gs_inv 90 sr"
      "\<forall>h. h \<noteq> 20 \<longrightarrow> groups sr h = groups ?s1 h"
    using gs_inv_release [OF inv1 g1(1)] n(2)
    by (auto simp: new_group_def releasable_def handle_added_def MPI_GROUP_EMPTY_def)
  let ?s2 = "put_group 11 (retained (dense_group 2 [103, 102] MPI_UNDEFINED)) sr"
  have g: "groups sr 11 = Some (dense_group 2 [103, 102] MPI_UNDEFINED)" using sr(3) g1(3) by simp
  have "agree_retry sample_agreements 20 1 ?s1 = Some (OMPI_SUCCESS, 1, 11, ?s2)"
    using sr(1) g by (simp add: sample_agreements_def OBJ_RETAIN_group_def rc_defs)
  moreover have "gs_inv 90 ?s2" using gs_inv_retain [OF sr(2) g] .
  ultimately show thesis using that s1 sr(3) g1(2) by simp
qed

lemma sample_shrink_allocs:
  assumes "OBJ_NEW_group 90 (s_failed sample_shrink_env) shrink_groups = Some (20, s1)"
    "agree_retry sample_agreements 20 1 s1 = Some (OMPI_SUCCESS, 1, 11, s2)"
  shows "shrink_allocs sample_shrink_env s2 acked_comm"
proof -
  have "case OBJ_NEW_group 90 (s_failed sample_shrink_env) shrink_groups of None \<Rightarrow> False
    | Some (f, s1) \<Rightarrow> (case agree_retry sample_agreements f 1 s1 of None \<Rightarrow> False
      | Some (r, v, f, s2) \<Rightarrow> al_ok (s_alive sample_shrink_env) s2 \<and>
        (case OBJ_NEW_group 90 (s_alive sample_shrink_env) s2 of None \<Rightarrow> False
         | Some (a, s3) \<Rightarrow> (case ompi_comm_group s3 acked_comm of None \<Rightarrow> False
           | Some (cg, s4) \<Rightarrow> al_ok (s_diff sample_shrink_env) s4)))"
    by code_simp
  then have a: "al_ok (s_alive sample_shrink_env) s2 \<and>
        (case OBJ_NEW_group 90 (s_alive sample_shrink_env) s2 of None \<Rightarrow> False
         | Some (a, s3) \<Rightarrow> (case ompi_comm_group s3 acked_comm of None \<Rightarrow> False
           | Some (cg, s4) \<Rightarrow> al_ok (s_diff sample_shrink_env) s4))"
    unfolding assms(1) by (simp add: assms(2))
  then show ?thesis
    by (auto simp: shrink_allocs_def sample_shrink_env_def acked_env_def split: option.splits prod.splits)
qed

section \<open>Properties\<close>

text \<open>C17: shrink. When the agreement returns the group of failed processes, after any number of
  agreements that report new failures, and the steps that exchange messages succeed, then
  \<^verbatim>\<open>ompi_comm_shrink_internal\<close> returns a communicator whose group is the members of the old one that
  have not failed, in their old order. The rank of the caller is its position there, the new
  communicator is not revoked and counts all its members as active, and the leader is the first
  of them. The reference count of the old group is as before.\<close>

theorem shrink_correct:
  assumes comm: "\<not> c_inter comm"
    and agreed: "OBJ_NEW_group (e_hmax (s_ft env)) (s_failed env) s = Some (f0, s1)"
      "agree_retry as f0 1 s1 = Some (OMPI_SUCCESS, v, f, s2)"
      "gs_inv (e_hmax (s_ft env)) s2" "valid_group s2 f fs F" "releasable F" "f \<noteq> c_local_group comm"
    and old: "valid_group s2 (c_local_group comm) members M" "grp_my_rank M \<noteq> MPI_UNDEFINED"
      "members ! nat (grp_my_rank M) \<notin> set fs"
    and env: "shrink_allocs env s2 comm" "s_attr env = None \<or> s_attr env = Some OMPI_SUCCESS"
      "s_nextcid env = (\<lambda>nc. (OMPI_SUCCESS, nc\<lparr>c_contextid := ctx, c_epoch := ep\<rparr>))" "s_activate env = OMPI_SUCCESS"
  defines "alive \<equiv> filter (\<lambda>p. p \<notin> set fs) members"
  shows "\<exists>nc s'. ompi_comm_shrink_internal env as s comm ll =
      Some (OMPI_SUCCESS, Some nc, rank_of members (hd alive), s') \<and>
    denotes s' (c_local_group nc) alive \<and> c_remote_group nc = c_local_group nc \<and>
    c_my_rank nc = rank_of alive (members ! nat (grp_my_rank M)) \<and> num_active_local nc = int (length alive) \<and>
    \<not> comm_revoked nc \<and> \<not> coll_revoked nc \<and> any_source_enabled nc \<and> c_contextid nc = ctx \<and> c_epoch nc = ep \<and>
    groups s' (c_local_group comm) = Some M"
proof -
  have "members ! nat (grp_my_rank M) \<in> set members"
    using old(1,2) by (auto simp: valid_group_def my_rank_ok_def)
  then have "filter (\<lambda>p. p \<notin> set fs) members \<noteq> []" using old(3) by (auto simp: filter_empty_conv)
  from shrink_after_agreement [OF agreed(3,4) old(1) this agreed(6,5) env(1,2)]
  obtain s3 s4 g s5 nc s6 where st:
    "OBJ_NEW_group (e_hmax (s_ft env)) (s_alive env) s2 = Some (al_obj (s_alive env), s3)"
    "ompi_comm_group s3 comm = Some (c_local_group comm, s4)"
    "ompi_group_difference (e_hmax (s_ft env)) (s_diff env) s4 (c_local_group comm) f = Some (OMPI_SUCCESS, g, s5)"
    "\<And>ll. ompi_group_translate_ranks s5 g [0] (c_local_group comm) [ll] = Some (MPI_SUCCESS, [rank_of members (hd alive)])"
    "ompi_comm_set (s_ft env) (s_diff env) (s_attr env) s5 comm [] g = Some (OMPI_SUCCESS, Some nc, s6)"
    "\<And>rc nc ll. \<exists>s'. shrink_cleanup rc nc ll f g (c_local_group comm) s6 = Some (rc, nc, ll, s') \<and>
       denotes s' g alive \<and> groups s' (c_local_group comm) = Some M"
    "c_local_group nc = g" "c_remote_group nc = g"
    "grp_my_rank M \<noteq> MPI_UNDEFINED \<Longrightarrow> c_my_rank nc = rank_of alive (members ! nat (grp_my_rank M))"
    "num_active_local nc = int (length alive)" "\<not> comm_revoked nc" "\<not> coll_revoked nc" "any_source_enabled nc"
    unfolding alive_def by blast
  let ?nc = "nc\<lparr>c_contextid := ctx, c_epoch := ep\<rparr>"
  obtain s' where s': "shrink_cleanup OMPI_SUCCESS (Some ?nc) (rank_of members (hd alive)) f g (c_local_group comm) s6 =
      Some (OMPI_SUCCESS, Some ?nc, rank_of members (hd alive), s')" "denotes s' g alive"
      "groups s' (c_local_group comm) = Some M"
    using st(6) by blast
  have "ompi_comm_shrink_internal env as s comm ll = Some (OMPI_SUCCESS, Some ?nc, rank_of members (hd alive), s')"
    using comm agreed(1,2) st(1-5) s'(1) env(3,4) by (simp add: ompi_comm_shrink_internal_def Let_def)
  then show ?thesis
    using s'(2,3) st(7-13) old(2) by (intro exI [of _ ?nc] exI [of _ s']) simp
qed

theorem shrink_correct_witness:
  "\<exists>nc s'. ompi_comm_shrink_internal sample_shrink_env sample_agreements shrink_groups acked_comm 0 =
      Some (OMPI_SUCCESS, Some nc, 0, s') \<and> denotes s' (c_local_group nc) [101, 104] \<and> c_my_rank nc = 0"
proof -
  obtain s1 s2 where s: "OBJ_NEW_group 90 (s_failed sample_shrink_env) shrink_groups = Some (20, s1)"
    "agree_retry sample_agreements 20 1 s1 = Some (OMPI_SUCCESS, 1, 11, s2)" "gs_inv 90 s2"
    "groups s2 10 = Some (dense_group 1 [101, 102, 103, 104] 0)"
    "groups s2 11 = Some (retained (dense_group 2 [103, 102] MPI_UNDEFINED))"
    using sample_agreement_ok .
  have h: "e_hmax (s_ft sample_shrink_env) = 90" by (simp add: sample_shrink_env_def acked_env_def)
  have c: "c_local_group acked_comm = 10" "\<not> c_inter acked_comm" by (simp_all add: acked_comm_def)
  have v10: "valid_group s2 10 [101, 102, 103, 104] (dense_group 1 [101, 102, 103, 104] 0)"
    using denotes_dense_group [OF s(4)] s(4) by (simp add: valid_group_def my_rank_ok_def dense_group_def)
  have "denotes s2 11 [103, 102]"
    using s(5) by (intro denotes.dense [of s2 11 "retained (dense_group 2 [103, 102] MPI_UNDEFINED)"])
      (simp_all add: dense_group_def has_flag_def OMPI_GROUP_DENSE_def)
  then have v11: "valid_group s2 11 [103, 102] (retained (dense_group 2 [103, 102] MPI_UNDEFINED))"
    using s(5) by (simp add: valid_group_def my_rank_ok_def dense_group_def)
  note w = shrink_correct [of acked_comm sample_shrink_env shrink_groups 20 s1 sample_agreements 1 11 s2 "[103, 102]"
      "retained (dense_group 2 [103, 102] MPI_UNDEFINED)" "[101, 102, 103, 104]" "dense_group 1 [101, 102, 103, 104] 0" 9 4 0,
      unfolded h c, OF c(2) s(1-3) v11 _ _ v10 _ _ sample_shrink_allocs [OF s(1,2)]]
  have r: "rank_of [101, 104] 101 = 0" "rank_of [101, 102, 103, 104] 101 = 0" by (simp_all add: rank_of_def)
  show ?thesis using w by (auto simp: sample_shrink_env_def releasable_def dense_group_def MPI_UNDEFINED_def r)
qed

text \<open>C18: the operation around the loop. \<^verbatim>\<open>mca_coll_ftbasic_agreement_eta_intra\<close> starts with
  exactly the acknowledged failures marked as crashed, returns the code and the value of its loop,
  and returns the group of the processes that it has found crashed, the acknowledged ones included,
  in the order of the communicator's group.\<close>

theorem eta_operation:
  assumes inv: "gs_inv hmax gs" and v: "valid_group gs grp acked A" "valid_group gs cgrp members M"
    and sub: "set acked \<subseteq> set members" "grp \<noteq> cgrp" "members \<noteq> []"
    and rel: "releasable A" "grp \<noteq> MPI_GROUP_EMPTY \<or> grp_refcount A \<noteq> 1"
      "\<forall>h H. groups gs h = Some H \<longrightarrow> grp_parent_group_ptr H \<noteq> grp"
    and dense: "has_flag OMPI_GROUP_DENSE M"
    and al: "\<And>gs1. OBJ_RELEASE_group gs grp = Some gs1 \<Longrightarrow> al_ok al gs1"
    and loop: "\<And>s0. eta_start (length members) (map (rank_of members) acked) contrib = Some s0 \<Longrightarrow>
      eta_loop opr me (length members) 1 feeds s0 = Some (ret, s)" "length (proc_status s) = length members"
  shows "\<exists>s0 g gs'. eta_start (length members) (map (rank_of members) acked) contrib = Some s0 \<and>
    mca_coll_ftbasic_agreement_eta_intra opr False before hmax al gs grp cgrp (length members) me feeds contrib =
      Some (eta_return ret s, est_value (eta_out s), g, gs') \<and>
    denotes gs' g (map ((!) members) (filter (\<lambda>i. i \<in> crashed_at s) [0..<length members]))"
proof -
  have A: "denotes gs grp acked" "distinct acked" "denotes gs cgrp members" "distinct members"
    "groups gs cgrp = Some M"
    using v by (simp_all add: valid_group_def)
  obtain s0 where s0: "eta_start (length members) (map (rank_of members) acked) contrib = Some s0"
    using start_ok [OF sub(1)] .
  obtain gs1 where gs1: "OBJ_RELEASE_group gs grp = Some gs1" "gs_inv hmax gs1"
      "\<forall>h. h \<noteq> grp \<longrightarrow> groups gs1 h = groups gs h"
    using gs_inv_release [OF inv _ _ rel] v(1) by (auto simp: valid_group_def)
  have c1: "groups gs1 cgrp = Some M" using gs1(3) A(5) sub(2) by simp
  have v1: "valid_group gs1 cgrp members M"
    using v(2) denotes_same_dense [OF A(3,5) dense c1] c1 by (simp add: valid_group_def)
  have fr: "distinct (failed_ranks s)" "ranks_in (int (length members)) (failed_ranks s)"
    using loop(2) by (auto simp: failed_ranks_def idxs_distinct ranks_in_def set_idxs)
  obtain g gs' where i: "ompi_group_incl False before hmax al gs1 cgrp (failed_ranks s) = Some (OMPI_SUCCESS, g, gs')"
      "denotes gs' g (sub_procs members (failed_ranks s))"
    using incl_dense [OF gs1(2) al [OF gs1(1)] v1 fr] by metis
  have "mca_coll_ftbasic_agreement_eta_intra opr False before hmax al gs grp cgrp (length members) me feeds contrib =
      Some (eta_return ret s, est_value (eta_out s), g, gs')"
    using acked_ranks [OF inv A(1,3,2,4) _ sub(3)] s0 loop(1) [OF s0] gs1(1) i(1) denotes_size [OF A(1)]
    by (cases "acked = []") (simp_all add: mca_coll_ftbasic_agreement_eta_intra_def)
  with s0 i(2) loop(2) show ?thesis by (auto simp: failed_ranks_members)
qed

theorem eta_operation_witness:
  "\<exists>g gs'. mca_coll_ftbasic_agreement_eta_intra (\<lambda>a b. b AND a) False 0 90 \<lparr>al_obj = 50, al_array = True, al_table = True\<rparr>
      (grps (acked_node [102, 103, 104] 0)) 11 10 4 0 (replicate 5 (\<lambda>_. undefined, [(MPI_SUCCESS, [])])) (7 :: 32 word) =
      Some (MPI_SUCCESS, 7, g, gs') \<and> denotes gs' g [102, 103, 104]"
proof -
  let ?gs = "grps (acked_node [102, 103, 104] 0)" and ?ms = "[101, 102, 103, 104] :: ptr list"
  let ?al = "\<lparr>al_obj = 50, al_array = True, al_table = True\<rparr>" and ?as = "[102, 103, 104] :: ptr list"
  let ?loop = "eta_loop (\<lambda>a b. b AND a) 0 4 1 (replicate 5 (\<lambda>_. undefined, [(MPI_SUCCESS, [])]))"
  have rk: "map (rank_of ?ms) ?as = [1, 2, 3]" by (simp add: rank_of_def)
  have "case eta_start 4 [1, 2, 3] (7 :: 32 word) of None \<Rightarrow> False | Some s0 \<Rightarrow>
      (case ?loop s0 of None \<Rightarrow> False | Some (ret, s) \<Rightarrow> ret = MPI_SUCCESS \<and> est_value (eta_out s) = 7 \<and>
        \<not> pf (eta_out s) \<and> length (proc_status s) = 4 \<and>
        map (\<lambda>st. has st STATUS_CRASHED) (proc_status s) = [False, True, True, True])"
    by code_simp
  then obtain s0 s where s: "eta_start 4 [1, 2, 3] (7 :: 32 word) = Some s0" "?loop s0 = Some (MPI_SUCCESS, s)"
      "est_value (eta_out s) = 7" "\<not> pf (eta_out s)" "length (proc_status s) = 4"
      "map (\<lambda>st. has st STATUS_CRASHED) (proc_status s) = [False, True, True, True]"
    by (auto split: option.splits)
  have "has (proc_status s ! i) STATUS_CRASHED = [False, True, True, True] ! i" if "i < 4" for i
    using that s(5,6) by (metis nth_map)
  then have "filter (\<lambda>i. i \<in> crashed_at s) [0..<4] = filter ((!) [False, True, True, True]) [0..<4]"
    using s(5) by (intro filter_cong) (auto simp: crashed_at_def)
  also have "\<dots> = [1, 2, 3]" by code_simp
  finally have f: "filter (\<lambda>i. i \<in> crashed_at s) [0..<4] = [1, 2, 3]" .
  have al: "al_ok ?al gs1" if "OBJ_RELEASE_group ?gs 11 = Some gs1" for gs1
  proof -
    have "case OBJ_RELEASE_group ?gs 11 of None \<Rightarrow> False | Some gs1 \<Rightarrow> al_ok ?al gs1" by code_simp
    with that show ?thesis by simp
  qed
  note v = acked_inv [of ?as 0, simplified]
  have par: "\<forall>h H. groups ?gs h = Some H \<longrightarrow> grp_parent_group_ptr H \<noteq> 11"
    by (auto simp: acked_node_def dense_group_def split: if_splits)
  have A: "releasable (dense_group 2 ?as MPI_UNDEFINED)" "(11 :: ptr) \<noteq> MPI_GROUP_EMPTY \<or> grp_refcount (dense_group 2 ?as MPI_UNDEFINED) \<noteq> 1"
    "has_flag OMPI_GROUP_DENSE (dense_group 1 ?ms 0)"
    by (simp_all add: releasable_def dense_group_def MPI_GROUP_EMPTY_def has_flag_def OMPI_GROUP_DENSE_def)
  have len: "length ?ms = 4" by simp
  have "\<And>s0. eta_start 4 [1, 2, 3] (7 :: 32 word) = Some s0 \<Longrightarrow> ?loop s0 = Some (MPI_SUCCESS, s)" using s(1,2) by simp
  note op = eta_operation [OF v(1-3) _ _ _ A(1,2) par A(3) al, of 7 "\<lambda>a b. b AND a" 0
      "replicate 5 (\<lambda>_. undefined, [(MPI_SUCCESS, [])])" MPI_SUCCESS s 0, unfolded len rk f, OF _ _ _ _ this s(5)]
  have m: "map ((!) ?ms) [1, 2, 3] = ?as" by simp
  show ?thesis using op s(3,4) unfolding m by (auto simp: eta_return_def)
qed

end
