(* ===== verification/Hash_Table.thy ===== *)
theory Hash_Table
  imports Prelude
begin

text \<open>
  The hash tables of \<^verbatim>\<open>opal/class/opal_hash_table.c\<close>: an array of lists of nodes, with a power of two
  as size, for keys of 32 bits, of 64 bits and for keys that are byte strings. Removed nodes are
  kept in a list and used again. The addresses of new nodes and the success of the other
  allocations are arguments; the checks that only a debugging build makes are left out.
\<close>

section \<open>Data\<close>

definition OPAL_ERR_NOT_FOUND :: int where [rc_defs]: "OPAL_ERR_NOT_FOUND = - 13"

record 'k hash_node =
  hn_at :: ptr
  hn_key :: 'k
  hn_value :: ptr

record 'k opal_hash_table_t =
  ht_nodes :: "ptr list"
  ht_table :: "'k hash_node list list"
  ht_table_size :: nat
  ht_size :: "64 word"
  ht_mask :: "64 word"

definition opal_hash_table_construct :: "64 word \<Rightarrow> 'k opal_hash_table_t" where
  "opal_hash_table_construct m =
     \<lparr>ht_nodes = [], ht_table = [], ht_table_size = 0, ht_size = 0, ht_mask = m\<rparr>"

function poweroftwo_loop :: "int \<Rightarrow> int \<Rightarrow> int" where
  "poweroftwo_loop v pow2 =
     (if v > 0 then poweroftwo_loop (v div 2) (pow2 * 2) else pow2)"
  by auto
termination by (relation "measure (\<lambda>(v, p). nat v)") auto

declare poweroftwo_loop.simps [simp del]

text \<open>\<open>None\<close> when the result is not an \<^verbatim>\<open>int\<close>, and for a negative argument, for which the
  variant with \<^verbatim>\<open>__builtin_clz\<close> shifts by the width of an \<^verbatim>\<open>int\<close>.\<close>

definition opal_next_poweroftwo :: "int \<Rightarrow> int option" where
  "opal_next_poweroftwo v =
     (if 0 \<le> v \<and> v < 2 ^ 30 then Some (poweroftwo_loop v 1) else None)"

text \<open>The size is converted to an \<^verbatim>\<open>int\<close> for the call. The lists below the old table size are not
  constructed: they are read as whatever the new memory holds, \<open>junk\<close>.\<close>

definition opal_hash_table_init ::
  "bool \<Rightarrow> (nat \<Rightarrow> 'k hash_node list) \<Rightarrow> 'k opal_hash_table_t \<Rightarrow> 64 word \<Rightarrow> (int \<times> 'k opal_hash_table_t) option" where
  "opal_hash_table_init mem junk ht table_size =
     do {
       pow2 \<leftarrow> opal_next_poweroftwo (sint (ucast table_size :: 32 word));
       let ht = ht\<lparr>ht_mask := word_of_int pow2 - 1\<rparr>;
       if \<not> mem then Some (OPAL_ERR_OUT_OF_RESOURCE, ht\<lparr>ht_table := []\<rparr>)
       else Some (OPAL_SUCCESS,
              ht\<lparr>ht_table := map (\<lambda>i. if i < ht_table_size ht then junk i else []) [0..<nat pow2],
                 ht_table_size := nat pow2\<rparr>) }"

definition opal_hash_table_remove_all :: "'k opal_hash_table_t \<Rightarrow> (int \<times> 'k opal_hash_table_t) option" where
  "opal_hash_table_remove_all ht =
     (if length (ht_table ht) < ht_table_size ht then None
      else Some (OPAL_SUCCESS,
             ht\<lparr>ht_table := replicate (ht_table_size ht) [] @ drop (ht_table_size ht) (ht_table ht),
                ht_nodes := [], ht_size := 0\<rparr>))"

text \<open>The array is freed at the end.\<close>

definition opal_hash_table_destruct :: "'k opal_hash_table_t \<Rightarrow> 'k opal_hash_table_t option" where
  "opal_hash_table_destruct ht =
     do { (rc, ht) \<leftarrow> opal_hash_table_remove_all ht; Some (ht\<lparr>ht_table := []\<rparr>) }"

definition opal_hash_table_get_size :: "'k opal_hash_table_t \<Rightarrow> 64 word" where
  "opal_hash_table_get_size ht = ht_size ht"

section \<open>Lists of nodes\<close>

primrec find_node :: "'k \<Rightarrow> 'k hash_node list \<Rightarrow> nat option" where
  "find_node key [] = None"
| "find_node key (node # list) =
     (if hn_key node = key then Some 0 else map_option Suc (find_node key list))"

text \<open>The bodies that the three kinds of keys share, with the index of the key's list.\<close>

definition table_get :: "'k opal_hash_table_t \<Rightarrow> int \<Rightarrow> 'k \<Rightarrow> (int \<times> ptr option) option" where
  "table_get ht i key =
     do {
       list \<leftarrow> rd (ht_table ht) i;
       Some (case find_node key list of
               Some j \<Rightarrow> (OPAL_SUCCESS, Some (hn_value (list ! j)))
             | None \<Rightarrow> (OPAL_ERR_NOT_FOUND, None)) }"

definition table_set ::
  "ptr \<Rightarrow> bool \<Rightarrow> 'k opal_hash_table_t \<Rightarrow> int \<Rightarrow> 'k \<Rightarrow> ptr \<Rightarrow> (int \<times> 'k opal_hash_table_t) option" where
  "table_set new kmem ht i key v =
     do {
       list \<leftarrow> rd (ht_table ht) i;
       case find_node key list of
         Some j \<Rightarrow> do {
           t \<leftarrow> wr (ht_table ht) i (list[j := (list ! j)\<lparr>hn_value := v\<rparr>]);
           Some (OPAL_SUCCESS, ht\<lparr>ht_table := t\<rparr>) }
       | None \<Rightarrow>
           let (node, rest) = (case ht_nodes ht of [] \<Rightarrow> (new, []) | n # ns \<Rightarrow> (n, ns)) in
           if node = NULL then Some (OPAL_ERR_OUT_OF_RESOURCE, ht)
           else if \<not> kmem then None
           else do {
             t \<leftarrow> wr (ht_table ht) i (list @ [\<lparr>hn_at = node, hn_key = key, hn_value = v\<rparr>]);
             Some (OPAL_SUCCESS, ht\<lparr>ht_table := t, ht_nodes := rest, ht_size := ht_size ht + 1\<rparr>) } }"

definition table_remove :: "'k opal_hash_table_t \<Rightarrow> int \<Rightarrow> 'k \<Rightarrow> (int \<times> 'k opal_hash_table_t) option" where
  "table_remove ht i key =
     do {
       list \<leftarrow> rd (ht_table ht) i;
       case find_node key list of
         Some j \<Rightarrow> do {
           t \<leftarrow> wr (ht_table ht) i (take j list @ drop (Suc j) list);
           Some (OPAL_SUCCESS, ht\<lparr>ht_table := t, ht_nodes := ht_nodes ht @ [hn_at (list ! j)],
                                  ht_size := ht_size ht - 1\<rparr>) }
       | None \<Rightarrow> Some (OPAL_ERR_NOT_FOUND, ht) }"

section \<open>Keys of 32 and 64 bits\<close>

definition slot_uint32 :: "64 word \<Rightarrow> 32 word \<Rightarrow> int" where
  "slot_uint32 m key = uint (ucast key AND m)"

definition slot_uint64 :: "64 word \<Rightarrow> 64 word \<Rightarrow> int" where
  "slot_uint64 m key = uint (key AND m)"

definition opal_hash_table_get_value_uint32 :: "32 word opal_hash_table_t \<Rightarrow> 32 word \<Rightarrow> (int \<times> ptr option) option" where
  "opal_hash_table_get_value_uint32 ht key = table_get ht (slot_uint32 (ht_mask ht) key) key"

definition opal_hash_table_set_value_uint32 ::
  "ptr \<Rightarrow> 32 word opal_hash_table_t \<Rightarrow> 32 word \<Rightarrow> ptr \<Rightarrow> (int \<times> 32 word opal_hash_table_t) option" where
  "opal_hash_table_set_value_uint32 new ht key v = table_set new True ht (slot_uint32 (ht_mask ht) key) key v"

definition opal_hash_table_remove_value_uint32 ::
  "32 word opal_hash_table_t \<Rightarrow> 32 word \<Rightarrow> (int \<times> 32 word opal_hash_table_t) option" where
  "opal_hash_table_remove_value_uint32 ht key = table_remove ht (slot_uint32 (ht_mask ht) key) key"

definition opal_hash_table_get_value_uint64 :: "64 word opal_hash_table_t \<Rightarrow> 64 word \<Rightarrow> (int \<times> ptr option) option" where
  "opal_hash_table_get_value_uint64 ht key = table_get ht (slot_uint64 (ht_mask ht) key) key"

definition opal_hash_table_set_value_uint64 ::
  "ptr \<Rightarrow> 64 word opal_hash_table_t \<Rightarrow> 64 word \<Rightarrow> ptr \<Rightarrow> (int \<times> 64 word opal_hash_table_t) option" where
  "opal_hash_table_set_value_uint64 new ht key v = table_set new True ht (slot_uint64 (ht_mask ht) key) key v"

definition opal_hash_table_remove_value_uint64 ::
  "64 word opal_hash_table_t \<Rightarrow> 64 word \<Rightarrow> (int \<times> 64 word opal_hash_table_t) option" where
  "opal_hash_table_remove_value_uint64 ht key = table_remove ht (slot_uint64 (ht_mask ht) key) key"

section \<open>Byte strings as keys\<close>

definition HASH_MULTIPLIER :: "64 word" where "HASH_MULTIPLIER = 31"

definition opal_hash_value :: "64 word \<Rightarrow> u8 list \<Rightarrow> 32 word" where
  "opal_hash_value m key = ucast (fold (\<lambda>p h. HASH_MULTIPLIER * h + ucast p) key 0 AND m)"

definition opal_hash_table_get_value_ptr :: "u8 list opal_hash_table_t \<Rightarrow> u8 list \<Rightarrow> (int \<times> ptr option) option" where
  "opal_hash_table_get_value_ptr ht key = table_get ht (uint (opal_hash_value (ht_mask ht) key)) key"

text \<open>The copy of the key is written without a test whether its allocation succeeded.\<close>

definition opal_hash_table_set_value_ptr ::
  "ptr \<Rightarrow> bool \<Rightarrow> u8 list opal_hash_table_t \<Rightarrow> u8 list \<Rightarrow> ptr \<Rightarrow> (int \<times> u8 list opal_hash_table_t) option" where
  "opal_hash_table_set_value_ptr new kmem ht key v =
     table_set new (kmem \<or> key = []) ht (uint (opal_hash_value (ht_mask ht) key)) key v"

definition opal_hash_table_remove_value_ptr ::
  "u8 list opal_hash_table_t \<Rightarrow> u8 list \<Rightarrow> (int \<times> u8 list opal_hash_table_t) option" where
  "opal_hash_table_remove_value_ptr ht key = table_remove ht (uint (opal_hash_value (ht_mask ht) key)) key"

section \<open>Iteration\<close>

primrec first_nonempty :: "'k hash_node list list \<Rightarrow> 'k hash_node option" where
  "first_nonempty [] = None"
| "first_nonempty (list # rest) = (case list of [] \<Rightarrow> first_nonempty rest | node # _ \<Rightarrow> Some node)"

definition table_first :: "'k opal_hash_table_t \<Rightarrow> int \<times> 'k hash_node option" where
  "table_first ht =
     (case first_nonempty (take (ht_table_size ht) (ht_table ht)) of
        Some node \<Rightarrow> (OPAL_SUCCESS, Some node)
      | None \<Rightarrow> (OPAL_ERROR, None))"

primrec node_index :: "ptr \<Rightarrow> 'k hash_node list \<Rightarrow> nat option" where
  "node_index a [] = None"
| "node_index a (node # list) = (if hn_at node = a then Some 0 else map_option Suc (node_index a list))"

text \<open>The successor of a node that is in the list with index \<open>i\<close>.\<close>

definition table_next :: "'k opal_hash_table_t \<Rightarrow> int \<Rightarrow> 'k hash_node \<Rightarrow> (int \<times> 'k hash_node option) option" where
  "table_next ht i node =
     do {
       list \<leftarrow> rd (ht_table ht) i;
       j \<leftarrow> node_index (hn_at node) list;
       Some (if Suc j < length list then (OPAL_SUCCESS, Some (list ! Suc j))
             else case first_nonempty (drop (Suc (nat i)) (take (ht_table_size ht) (ht_table ht))) of
                    Some n \<Rightarrow> (OPAL_SUCCESS, Some n)
                  | None \<Rightarrow> (OPAL_ERROR, None)) }"

definition opal_hash_table_get_first_key_uint32 :: "32 word opal_hash_table_t \<Rightarrow> int \<times> 32 word hash_node option" where
  "opal_hash_table_get_first_key_uint32 ht = table_first ht"

definition opal_hash_table_get_next_key_uint32 ::
  "32 word opal_hash_table_t \<Rightarrow> 32 word hash_node \<Rightarrow> (int \<times> 32 word hash_node option) option" where
  "opal_hash_table_get_next_key_uint32 ht node = table_next ht (slot_uint32 (ht_mask ht) (hn_key node)) node"

definition opal_hash_table_get_first_key_uint64 :: "64 word opal_hash_table_t \<Rightarrow> int \<times> 64 word hash_node option" where
  "opal_hash_table_get_first_key_uint64 ht = table_first ht"

definition opal_hash_table_get_next_key_uint64 ::
  "64 word opal_hash_table_t \<Rightarrow> 64 word hash_node \<Rightarrow> (int \<times> 64 word hash_node option) option" where
  "opal_hash_table_get_next_key_uint64 ht node = table_next ht (slot_uint64 (ht_mask ht) (hn_key node)) node"

end
