(* ===== verification/Hash_Table_Correct.thy ===== *)
theory Hash_Table_Correct
  imports Hash_Table
begin

text \<open>
  The hash tables implement finite maps. The three kinds of keys share the interface
  \<open>hash_keys\<close>, the index of a key lies inside the table; the operations on the table follow the
  interface \<open>dictionary\<close>, whose clients see a map. The iteration visits every entry once.
\<close>

section \<open>Invariant and contents\<close>

definition nodes_of :: "'k opal_hash_table_t \<Rightarrow> 'k hash_node list" where
  "nodes_of ht = concat (ht_table ht)"

definition node_map :: "'k hash_node list \<Rightarrow> 'k \<rightharpoonup> ptr" where
  "node_map ns = map_of (map (\<lambda>n. (hn_key n, hn_value n)) ns)"

definition contents :: "'k opal_hash_table_t \<Rightarrow> 'k \<rightharpoonup> ptr" where
  "contents ht = node_map (nodes_of ht)"

definition addresses :: "'k opal_hash_table_t \<Rightarrow> ptr list" where
  "addresses ht = map hn_at (nodes_of ht) @ ht_nodes ht"

definition shape_ok :: "'k opal_hash_table_t \<Rightarrow> bool" where
  "shape_ok ht \<longleftrightarrow>
     (\<exists>b \<le> 30. ht_table_size ht = 2 ^ b \<and> ht_mask ht = 2 ^ b - 1) \<and>
     length (ht_table ht) = ht_table_size ht"

definition placed :: "(64 word \<Rightarrow> 'k \<Rightarrow> int) \<Rightarrow> 64 word \<Rightarrow> 'k hash_node list list \<Rightarrow> bool" where
  "placed slot m t \<longleftrightarrow> (\<forall>i < length t. \<forall>n \<in> set (t ! i). slot m (hn_key n) = int i)"

definition hash_inv :: "(64 word \<Rightarrow> 'k \<Rightarrow> int) \<Rightarrow> 'k opal_hash_table_t \<Rightarrow> bool" where
  "hash_inv slot ht \<longleftrightarrow>
     shape_ok ht \<and> placed slot (ht_mask ht) (ht_table ht) \<and>
     distinct (map hn_key (nodes_of ht)) \<and>
     distinct (addresses ht) \<and> NULL \<notin> set (addresses ht) \<and>
     ht_size ht = of_nat (length (nodes_of ht))"

text \<open>The address of a new node is null, when memory is exhausted, or not in use.\<close>

definition fresh_node :: "ptr \<Rightarrow> 'k opal_hash_table_t \<Rightarrow> bool" where
  "fresh_node new ht \<longleftrightarrow> new = NULL \<or> new \<notin> set (addresses ht)"

section \<open>Lists of nodes\<close>

lemma node_map_Nil [simp]: "node_map [] = Map.empty"
  by (simp add: node_map_def)

lemma node_map_Cons [simp]: "node_map (n # ns) = (node_map ns)(hn_key n \<mapsto> hn_value n)"
  by (simp add: node_map_def)

lemma node_map_append [simp]: "node_map (ms @ ns) = node_map ns ++ node_map ms"
  by (simp add: node_map_def)

lemma dom_node_map [simp]: "dom (node_map ns) = hn_key ` set ns"
  by (simp add: node_map_def dom_map_of_conv_image_fst image_image)

lemma node_map_None_iff: "node_map ns k = None \<longleftrightarrow> k \<notin> hn_key ` set ns"
  by (simp flip: dom_node_map add: domIff)

lemma node_map_None [simp]: "k \<notin> hn_key ` set ns \<Longrightarrow> node_map ns k = None"
  by (simp add: node_map_None_iff)

lemma find_node_None_iff: "find_node key ns = None \<longleftrightarrow> key \<notin> hn_key ` set ns"
  by (induction ns) auto

lemma find_node_split:
  "find_node key ns = Some j \<Longrightarrow>
   \<exists>us n vs. ns = us @ n # vs \<and> j = length us \<and> hn_key n = key \<and> key \<notin> hn_key ` set us"
proof (induction ns arbitrary: j)
  case (Cons a ns)
  show ?case
  proof (cases "hn_key a = key")
    case True
    with Cons.prems show ?thesis by (intro exI [of _ "[]"] exI [of _ a] exI [of _ ns]) simp
  next
    case False
    with Cons.prems obtain i where i: "find_node key ns = Some i" "j = Suc i" by auto
    from Cons.IH [OF i(1)] obtain us n vs where
      "ns = us @ n # vs" "i = length us" "hn_key n = key" "key \<notin> hn_key ` set us" by blast
    with False i(2) show ?thesis by (intro exI [of _ "a # us"] exI [of _ n] exI [of _ vs]) auto
  qed
qed simp

section \<open>The list of a key inside the table\<close>

lemma concat_at:
  "i < length t \<Longrightarrow> concat t = concat (take i t) @ t ! i @ concat (drop (Suc i) t)"
  by (metis concat.simps(2) concat_append id_take_nth_drop)

lemma concat_update:
  "i < length t \<Longrightarrow> concat (t[i := l]) = concat (take i t) @ l @ concat (drop (Suc i) t)"
  by (simp add: upd_conv_take_nth_drop)

lemma placed_elsewhere:
  assumes "placed slot m t" "n \<in> set (concat (take i t)) \<union> set (concat (drop (Suc i) t))"
  shows "slot m (hn_key n) \<noteq> int i"
proof -
  from assms(2) obtain l where l: "l \<in> set (take i t) \<or> l \<in> set (drop (Suc i) t)" "n \<in> set l" by auto
  have "\<exists>j < length t. j \<noteq> i \<and> l = t ! j"
  proof (cases "l \<in> set (take i t)")
    case True
    then show ?thesis by (auto simp: in_set_conv_nth)
  next
    case False
    with l(1) obtain k where "k < length t - Suc i" "l = t ! (Suc i + k)" by (auto simp: in_set_conv_nth)
    then show ?thesis by (intro exI [of _ "Suc i + k"]) auto
  qed
  then obtain j where "j < length t" "j \<noteq> i" "l = t ! j" by blast
  with assms(1) l(2) show ?thesis by (auto simp: placed_def)
qed

lemma placed_update:
  "placed slot m t \<Longrightarrow> \<forall>n \<in> set l. slot m (hn_key n) = int i \<Longrightarrow> placed slot m (t[i := l])"
  unfolding placed_def by (metis length_list_update nth_list_update_eq nth_list_update_neq)

lemma placed_at:
  "placed slot m t \<Longrightarrow> i < length t \<Longrightarrow> n \<in> set (t ! i) \<Longrightarrow> slot m (hn_key n) = int i"
  by (simp add: placed_def)

section \<open>Interfaces\<close>

text \<open>What a table expects of its keys: the index of a key lies inside every table.\<close>

locale hash_keys =
  fixes slot :: "64 word \<Rightarrow> 'k \<Rightarrow> int"
  assumes slot_bound: "b \<le> 30 \<Longrightarrow> 0 \<le> slot (2 ^ b - 1) key \<and> slot (2 ^ b - 1) key < 2 ^ b"

text \<open>What a dictionary promises to its clients. \<open>set_value\<close> has the address of a new node as its first
  argument and may fail only when that is null.\<close>

locale dictionary =
  fixes ok :: "'s \<Rightarrow> bool"
    and entries :: "'s \<Rightarrow> 'k \<rightharpoonup> ptr"
    and fresh :: "ptr \<Rightarrow> 's \<Rightarrow> bool"
    and get_value :: "'s \<Rightarrow> 'k \<Rightarrow> (int \<times> ptr option) option"
    and set_value :: "ptr \<Rightarrow> 's \<Rightarrow> 'k \<Rightarrow> ptr \<Rightarrow> (int \<times> 's) option"
    and remove_value :: "'s \<Rightarrow> 'k \<Rightarrow> (int \<times> 's) option"
  assumes get_law: "ok s \<Longrightarrow> get_value s key =
      Some (case entries s key of Some v \<Rightarrow> (OPAL_SUCCESS, Some v) | None \<Rightarrow> (OPAL_ERR_NOT_FOUND, None))"
    and set_law: "ok s \<Longrightarrow> fresh new s \<Longrightarrow>
      (\<exists>s'. set_value new s key v = Some (OPAL_SUCCESS, s') \<and> ok s' \<and> entries s' = (entries s)(key \<mapsto> v)) \<or>
      new = NULL \<and> entries s key = None \<and> set_value new s key v = Some (OPAL_ERR_OUT_OF_RESOURCE, s)"
    and remove_law: "ok s \<Longrightarrow> \<exists>s'. ok s' \<and> entries s' = (entries s)(key := None) \<and>
      remove_value s key =
        Some (if entries s key = None then OPAL_ERR_NOT_FOUND else OPAL_SUCCESS, s')"

text \<open>A client performs operations one after the other; \<open>alloc\<close> gives the address of the node that
  \<^verbatim>\<open>OBJ_NEW\<close> would return in a state. Each operation has a code and possibly a value as result.\<close>

datatype 'k dict_op = Get 'k | Set 'k ptr | Remove 'k

type_synonym dict_result = "int \<times> ptr option"

fun dict_step ::
  "('s \<Rightarrow> 'k \<Rightarrow> dict_result option) \<Rightarrow> (ptr \<Rightarrow> 's \<Rightarrow> 'k \<Rightarrow> ptr \<Rightarrow> (int \<times> 's) option) \<Rightarrow>
   ('s \<Rightarrow> 'k \<Rightarrow> (int \<times> 's) option) \<Rightarrow> ('s \<Rightarrow> ptr) \<Rightarrow> 's \<Rightarrow> 'k dict_op \<Rightarrow> (dict_result \<times> 's) option" where
  "dict_step get_v set_v rem_v alloc s (Get key) = map_option (\<lambda>r. (r, s)) (get_v s key)"
| "dict_step get_v set_v rem_v alloc s (Set key v) =
     map_option (\<lambda>(rc, s'). ((rc, None), s')) (set_v (alloc s) s key v)"
| "dict_step get_v set_v rem_v alloc s (Remove key) = map_option (\<lambda>(rc, s'). ((rc, None), s')) (rem_v s key)"

fun dict_run ::
  "('s \<Rightarrow> 'k \<Rightarrow> dict_result option) \<Rightarrow> (ptr \<Rightarrow> 's \<Rightarrow> 'k \<Rightarrow> ptr \<Rightarrow> (int \<times> 's) option) \<Rightarrow>
   ('s \<Rightarrow> 'k \<Rightarrow> (int \<times> 's) option) \<Rightarrow> ('s \<Rightarrow> ptr) \<Rightarrow> 's \<Rightarrow> 'k dict_op list \<Rightarrow>
   (dict_result list \<times> 's) option" where
  "dict_run get_v set_v rem_v alloc s [] = Some ([], s)"
| "dict_run get_v set_v rem_v alloc s (p # ps) =
     do {
       (r, s1) \<leftarrow> dict_step get_v set_v rem_v alloc s p;
       (rs, s2) \<leftarrow> dict_run get_v set_v rem_v alloc s1 ps;
       Some (r # rs, s2) }"

text \<open>The specification: what a map holds after an operation with a given result, \<open>None\<close> when the
  result is not allowed. Only when memory may be exhausted, a new key may be refused.\<close>

fun map_step :: "bool \<Rightarrow> ('k \<rightharpoonup> ptr) \<Rightarrow> 'k dict_op \<Rightarrow> dict_result \<Rightarrow> ('k \<rightharpoonup> ptr) option" where
  "map_step oom m (Get key) r =
     (if r = (case m key of Some v \<Rightarrow> (OPAL_SUCCESS, Some v) | None \<Rightarrow> (OPAL_ERR_NOT_FOUND, None))
      then Some m else None)"
| "map_step oom m (Set key v) r =
     (if r = (OPAL_SUCCESS, None) then Some (m(key \<mapsto> v))
      else if oom \<and> m key = None \<and> r = (OPAL_ERR_OUT_OF_RESOURCE, None) then Some m
      else None)"
| "map_step oom m (Remove key) r =
     (if r = (if m key = None then OPAL_ERR_NOT_FOUND else OPAL_SUCCESS, None)
      then Some (m(key := None)) else None)"

fun map_run :: "bool \<Rightarrow> ('k \<rightharpoonup> ptr) \<Rightarrow> 'k dict_op list \<Rightarrow> dict_result list \<Rightarrow> ('k \<rightharpoonup> ptr) option" where
  "map_run oom m [] [] = Some m"
| "map_run oom m (p # ps) (r # rs) = Option.bind (map_step oom m p r) (\<lambda>m'. map_run oom m' ps rs)"
| "map_run oom m _ _ = None"

context dictionary
begin

lemma step_refines:
  assumes "ok s" "\<forall>s. fresh (alloc s) s" "\<forall>s. alloc s = NULL \<longrightarrow> oom"
  shows "\<exists>r s'. dict_step get_value set_value remove_value alloc s p = Some (r, s') \<and> ok s' \<and>
    map_step oom (entries s) p r = Some (entries s')"
proof (cases p)
  case (Get key)
  with assms(1) show ?thesis by (simp add: get_law)
next
  case (Set key v)
  from set_law [OF assms(1) assms(2) [rule_format], of key v] show ?thesis
  proof (elim disjE)
    assume "\<exists>s'. set_value (alloc s) s key v = Some (OPAL_SUCCESS, s') \<and> ok s' \<and>
      entries s' = (entries s)(key \<mapsto> v)"
    then obtain s' where "set_value (alloc s) s key v = Some (OPAL_SUCCESS, s')" "ok s'"
      "entries s' = (entries s)(key \<mapsto> v)" by blast
    with Set show ?thesis by (intro exI [of _ "(OPAL_SUCCESS, None)"] exI [of _ s']) simp
  next
    assume "alloc s = NULL \<and> entries s key = None \<and>
      set_value (alloc s) s key v = Some (OPAL_ERR_OUT_OF_RESOURCE, s)"
    with Set assms(1,3) show ?thesis by (auto simp: rc_defs)
  qed
next
  case (Remove key)
  with remove_law [OF assms(1), of key] show ?thesis by auto
qed

lemma run_refines:
  assumes "ok s" "\<forall>s. fresh (alloc s) s" "\<forall>s. alloc s = NULL \<longrightarrow> oom"
  shows "\<exists>rs s'. dict_run get_value set_value remove_value alloc s ps = Some (rs, s') \<and> ok s' \<and>
    map_run oom (entries s) ps rs = Some (entries s')"
  using assms(1)
proof (induction ps arbitrary: s)
  case (Cons p ps)
  from step_refines [OF Cons.prems assms(2,3)]
  obtain r s1 where 1: "dict_step get_value set_value remove_value alloc s p = Some (r, s1)" "ok s1"
    "map_step oom (entries s) p r = Some (entries s1)" by blast
  from Cons.IH [OF 1(2)] obtain rs s2 where
    "dict_run get_value set_value remove_value alloc s1 ps = Some (rs, s2)" "ok s2"
    "map_run oom (entries s1) ps rs = Some (entries s2)" by blast
  with 1 show ?case by (intro exI [of _ "r # rs"] exI [of _ s2]) simp
qed simp

end

section \<open>Tables as dictionaries\<close>

lemma node_map_replace:
  "distinct (map hn_key (us @ n # vs)) \<Longrightarrow>
   node_map (us @ n\<lparr>hn_value := v\<rparr> # vs) = (node_map (us @ n # vs))(hn_key n \<mapsto> v)"
  by (rule ext) (auto simp: map_add_def split: option.split)

lemma node_map_delete:
  "distinct (map hn_key (us @ n # vs)) \<Longrightarrow>
   node_map (us @ vs) = (node_map (us @ n # vs))(hn_key n := None)"
  by (rule ext) (auto simp: map_add_def split: option.split)

lemma node_map_insert:
  "hn_key n \<notin> hn_key ` set (us @ vs) \<Longrightarrow>
   node_map (us @ n # vs) = (node_map (us @ vs))(hn_key n \<mapsto> hn_value n)"
  by (rule ext) (auto simp: map_add_def image_Un split: option.split)

lemma found_parts:
  assumes "i < length t" "find_node key (t ! i) = Some j"
  shows "\<exists>us n vs. concat t = us @ n # vs \<and> t ! i ! j = n \<and> hn_key n = key \<and> n \<in> set (t ! i) \<and>
    (\<forall>n'. concat (t[i := (t ! i)[j := n']]) = us @ n' # vs) \<and>
    concat (t[i := take j (t ! i) @ drop (Suc j) (t ! i)]) = us @ vs"
proof -
  from find_node_split [OF assms(2)] obtain us n vs where l:
    "t ! i = us @ n # vs" "j = length us" "hn_key n = key" by blast
  show ?thesis
    by (intro exI [of _ "concat (take i t) @ us"] exI [of _ n] exI [of _ "vs @ concat (drop (Suc i) t)"])
      (use l assms(1) in \<open>simp add: concat_at [OF assms(1)] concat_update list_update_append\<close>)
qed

context hash_keys
begin

abbreviation (input) ix :: "'k opal_hash_table_t \<Rightarrow> 'k \<Rightarrow> int" where
  "ix ht key \<equiv> slot (ht_mask ht) key"

lemma ix_range: "hash_inv slot ht \<Longrightarrow> 0 \<le> ix ht key \<and> ix ht key < int (length (ht_table ht))"
  using slot_bound by (auto simp: hash_inv_def shape_ok_def)

lemma ix_nat: "hash_inv slot ht \<Longrightarrow> nat (ix ht key) < length (ht_table ht)"
  using ix_range by (simp add: nat_less_iff)

lemma contents_at:
  assumes "hash_inv slot ht"
  shows "contents ht key = node_map (ht_table ht ! nat (ix ht key)) key"
proof -
  let ?i = "nat (ix ht key)" and ?t = "ht_table ht"
  have "key \<notin> hn_key ` set (concat (take ?i ?t))" "key \<notin> hn_key ` set (concat (drop (Suc ?i) ?t))"
    using assms placed_elsewhere [of slot "ht_mask ht" ?t _ ?i] ix_range [OF assms, of key]
    by (auto simp: hash_inv_def)
  then show ?thesis
    unfolding contents_def nodes_of_def concat_at [OF ix_nat [OF assms, of key]]
    by (simp add: map_add_def node_map_None_iff [symmetric] split: option.split)
qed

lemma missing_iff:
  "hash_inv slot ht \<Longrightarrow>
   find_node key (ht_table ht ! nat (ix ht key)) = None \<longleftrightarrow> contents ht key = None"
  by (simp add: contents_at find_node_None_iff node_map_None_iff)

lemma table_get_correct:
  assumes "hash_inv slot ht"
  shows "table_get ht (ix ht key) key =
    Some (case contents ht key of Some v \<Rightarrow> (OPAL_SUCCESS, Some v) | None \<Rightarrow> (OPAL_ERR_NOT_FOUND, None))"
proof (cases "find_node key (ht_table ht ! nat (ix ht key))")
  case None
  with assms show ?thesis by (simp add: table_get_def ix_range missing_iff [THEN iffD1])
next
  case (Some j)
  from found_parts [OF ix_nat [OF assms] Some] obtain us n vs where
    n: "concat (ht_table ht) = us @ n # vs" "ht_table ht ! nat (ix ht key) ! j = n" "hn_key n = key" by blast
  moreover have "contents ht key = Some (hn_value n)"
    using assms n(1,3) by (auto simp: hash_inv_def contents_def nodes_of_def map_add_def)
  ultimately show ?thesis using assms Some by (simp add: table_get_def ix_range)
qed

lemma hash_inv_replace:
  assumes inv: "hash_inv slot ht" and j: "find_node key (ht_table ht ! nat (ix ht key)) = Some j"
    and ht': "ht' = ht\<lparr>ht_table := (ht_table ht)[nat (ix ht key) :=
      (ht_table ht ! nat (ix ht key))[j := (ht_table ht ! nat (ix ht key) ! j)\<lparr>hn_value := v\<rparr>]]\<rparr>"
  shows "hash_inv slot ht' \<and> contents ht' = (contents ht)(key \<mapsto> v)"
proof -
  let ?i = "nat (ix ht key)"
  from found_parts [OF ix_nat [OF inv] j] obtain us n vs where
    n: "concat (ht_table ht) = us @ n # vs" "ht_table ht ! ?i ! j = n" "hn_key n = key"
      "n \<in> set (ht_table ht ! ?i)"
    and upd: "\<forall>n'. concat ((ht_table ht)[?i := (ht_table ht ! ?i)[j := n']]) = us @ n' # vs"
    by blast
  then have new: "concat (ht_table ht') = us @ n\<lparr>hn_value := v\<rparr> # vs" by (simp add: ht')
  have "placed slot (ht_mask ht) (ht_table ht')"
    unfolding ht' using inv n ix_range [OF inv, of key] ix_nat [OF inv, of key]
    by (auto simp: hash_inv_def placed_at intro!: placed_update dest!: set_update_subset_insert [THEN subsetD])
  then have "hash_inv slot ht'"
    using inv new n(1) by (simp add: hash_inv_def shape_ok_def nodes_of_def addresses_def ht')
  then show ?thesis
    using inv new n by (simp add: hash_inv_def contents_def nodes_of_def node_map_replace
      del: node_map_append node_map_Cons)
qed

lemma hash_inv_insert:
  assumes inv: "hash_inv slot ht" and miss: "contents ht key = None"
    and a: "a \<noteq> NULL" "ht_nodes ht = a # rest \<or> ht_nodes ht = [] \<and> rest = [] \<and> a \<notin> set (addresses ht)"
    and ht': "ht' = ht\<lparr>ht_table := (ht_table ht)[nat (ix ht key) :=
      ht_table ht ! nat (ix ht key) @ [\<lparr>hn_at = a, hn_key = key, hn_value = v\<rparr>]],
      ht_nodes := rest, ht_size := ht_size ht + 1\<rparr>"
  shows "hash_inv slot ht' \<and> contents ht' = (contents ht)(key \<mapsto> v)"
proof -
  let ?i = "nat (ix ht key)" and ?n = "\<lparr>hn_at = a, hn_key = key, hn_value = v\<rparr>"
  define us where "us = concat (take ?i (ht_table ht)) @ ht_table ht ! ?i"
  define vs where "vs = concat (drop (Suc ?i) (ht_table ht))"
  have old: "concat (ht_table ht) = us @ vs" and new: "concat (ht_table ht') = us @ ?n # vs"
    using ix_nat [OF inv, of key] by (simp_all add: ht' us_def vs_def concat_at concat_update)
  have key: "key \<notin> hn_key ` set (us @ vs)"
    using miss unfolding contents_def nodes_of_def old by (simp only: node_map_None_iff not_False_eq_True)
  have "placed slot (ht_mask ht) (ht_table ht')"
    unfolding ht' using inv ix_range [OF inv, of key] ix_nat [OF inv, of key]
    by (auto simp: hash_inv_def placed_at intro!: placed_update)
  then have "hash_inv slot ht'"
    using inv key a unfolding hash_inv_def addresses_def nodes_of_def old new
    by (auto simp: shape_ok_def image_Un ht')
  then show ?thesis
    using key by (simp add: contents_def nodes_of_def old new node_map_insert del: node_map_append node_map_Cons)
qed

lemma hash_inv_delete:
  assumes inv: "hash_inv slot ht" and j: "find_node key (ht_table ht ! nat (ix ht key)) = Some j"
    and ht': "ht' = ht\<lparr>ht_table := (ht_table ht)[nat (ix ht key) :=
      take j (ht_table ht ! nat (ix ht key)) @ drop (Suc j) (ht_table ht ! nat (ix ht key))],
      ht_nodes := ht_nodes ht @ [hn_at (ht_table ht ! nat (ix ht key) ! j)], ht_size := ht_size ht - 1\<rparr>"
  shows "hash_inv slot ht' \<and> contents ht' = (contents ht)(key := None)"
proof -
  let ?i = "nat (ix ht key)"
  from found_parts [OF ix_nat [OF inv] j] obtain us n vs where
    n: "concat (ht_table ht) = us @ n # vs" "ht_table ht ! ?i ! j = n" "hn_key n = key"
    and del: "concat ((ht_table ht)[?i := take j (ht_table ht ! ?i) @ drop (Suc j) (ht_table ht ! ?i)]) = us @ vs"
    by blast
  then have new: "concat (ht_table ht') = us @ vs" by (simp add: ht')
  have "placed slot (ht_mask ht) (ht_table ht')"
    unfolding ht' using inv ix_range [OF inv, of key] ix_nat [OF inv, of key]
    by (auto simp: hash_inv_def placed_at intro!: placed_update dest!: in_set_takeD in_set_dropD)
  then have "hash_inv slot ht'"
    using inv n(2) unfolding hash_inv_def addresses_def nodes_of_def n(1) new
    by (auto simp: shape_ok_def ht')
  then show ?thesis
    using inv new n by (simp add: hash_inv_def contents_def nodes_of_def node_map_delete [of us n vs]
      del: node_map_append node_map_Cons)
qed

lemma table_set_correct:
  assumes inv: "hash_inv slot ht" and new: "fresh_node new ht"
  shows "(\<exists>ht'. table_set new True ht (ix ht key) key v = Some (OPAL_SUCCESS, ht') \<and>
            hash_inv slot ht' \<and> contents ht' = (contents ht)(key \<mapsto> v)) \<or>
         new = NULL \<and> contents ht key = None \<and>
         table_set new True ht (ix ht key) key v = Some (OPAL_ERR_OUT_OF_RESOURCE, ht)"
proof (cases "find_node key (ht_table ht ! nat (ix ht key))")
  case (Some j)
  with hash_inv_replace [OF inv Some refl] inv show ?thesis by (simp add: table_set_def ix_range)
next
  case None
  with inv have miss: "contents ht key = None" by (simp add: missing_iff)
  show ?thesis
  proof (cases "ht_nodes ht")
    case Nil
    show ?thesis
    proof (cases "new = NULL")
      case True
      with None Nil inv miss show ?thesis by (simp add: table_set_def ix_range)
    next
      case False
      with new have "new \<notin> set (addresses ht)" by (simp add: fresh_node_def)
      with hash_inv_insert [OF inv miss False _ refl, of "[]" v] None Nil inv False
      show ?thesis by (simp add: table_set_def ix_range)
    qed
  next
    case (Cons a rest)
    with inv have "a \<noteq> NULL" by (auto simp: hash_inv_def addresses_def)
    with hash_inv_insert [OF inv miss this _ refl, of rest v] None Cons inv
    show ?thesis by (simp add: table_set_def ix_range)
  qed
qed

lemma table_remove_correct:
  assumes inv: "hash_inv slot ht"
  shows "\<exists>ht'. hash_inv slot ht' \<and> contents ht' = (contents ht)(key := None) \<and>
    table_remove ht (ix ht key) key =
      Some (if contents ht key = None then OPAL_ERR_NOT_FOUND else OPAL_SUCCESS, ht')"
proof (cases "find_node key (ht_table ht ! nat (ix ht key))")
  case None
  with inv have "contents ht key = None" by (simp add: missing_iff)
  with None inv show ?thesis by (auto simp: table_remove_def ix_range fun_upd_idem)
next
  case (Some j)
  then obtain y where "contents ht key = Some y" using inv missing_iff [of ht key] by auto
  with hash_inv_delete [OF inv Some refl] Some inv show ?thesis
    by (simp add: table_remove_def ix_range)
qed

end

sublocale hash_keys \<subseteq> dictionary "hash_inv slot" contents fresh_node
  "\<lambda>ht key. table_get ht (slot (ht_mask ht) key) key"
  "\<lambda>new ht key. table_set new True ht (slot (ht_mask ht) key) key"
  "\<lambda>ht key. table_remove ht (slot (ht_mask ht) key) key"
  by unfold_locales (rule table_get_correct table_set_correct table_remove_correct; assumption)+

section \<open>The three kinds of keys\<close>

lemma uint_and_mask_bound:
  "b \<le> 30 \<Longrightarrow> uint (w AND (2 ^ b - 1) :: 64 word) < 2 ^ b"
proof -
  assume "b \<le> 30"
  have "w AND (2 ^ b - 1) = take_bit b w" by (simp add: take_bit_eq_mask mask_eq_exp_minus_1)
  then show ?thesis by (simp add: unsigned_take_bit_eq)
qed

interpretation u32: hash_keys slot_uint32
  by unfold_locales (simp add: slot_uint32_def uint_and_mask_bound)

interpretation u64: hash_keys slot_uint64
  by unfold_locales (simp add: slot_uint64_def uint_and_mask_bound)

definition slot_ptr :: "64 word \<Rightarrow> u8 list \<Rightarrow> int" where
  "slot_ptr m key = uint (opal_hash_value m key)"

lemma slot_ptr_bound: "b \<le> 30 \<Longrightarrow> slot_ptr (2 ^ b - 1) key < 2 ^ b"
proof -
  assume b: "b \<le> 30"
  let ?w = "fold (\<lambda>p h. HASH_MULTIPLIER * h + ucast p) key 0 AND (2 ^ b - 1 :: 64 word)"
  have "uint (ucast ?w :: 32 word) \<le> uint ?w" 
    by (simp add: unsigned_ucast_eq take_bit_int_less_eq_self_iff)
  also have "\<dots> < 2 ^ b" using b by (rule uint_and_mask_bound)
  finally show ?thesis by (simp add: slot_ptr_def opal_hash_value_def)
qed

interpretation bytes: hash_keys slot_ptr
  by unfold_locales (simp add: slot_ptr_bound, simp add: slot_ptr_def)

lemmas uint32_ops = opal_hash_table_get_value_uint32_def opal_hash_table_set_value_uint32_def
  opal_hash_table_remove_value_uint32_def
lemmas uint64_ops = opal_hash_table_get_value_uint64_def opal_hash_table_set_value_uint64_def
  opal_hash_table_remove_value_uint64_def
lemmas ptr_ops = opal_hash_table_get_value_ptr_def opal_hash_table_set_value_ptr_def
  opal_hash_table_remove_value_ptr_def

interpretation d32: dictionary "hash_inv slot_uint32" contents fresh_node
  opal_hash_table_get_value_uint32 opal_hash_table_set_value_uint32 opal_hash_table_remove_value_uint32
  by unfold_locales (unfold uint32_ops, (rule u32.get_law u32.set_law u32.remove_law; assumption)+)

interpretation d64: dictionary "hash_inv slot_uint64" contents fresh_node
  opal_hash_table_get_value_uint64 opal_hash_table_set_value_uint64 opal_hash_table_remove_value_uint64
  by unfold_locales (unfold uint64_ops, (rule u64.get_law u64.set_law u64.remove_law; assumption)+)

interpretation dptr: dictionary "hash_inv slot_ptr" contents fresh_node
  opal_hash_table_get_value_ptr "\<lambda>new. opal_hash_table_set_value_ptr new True"
  opal_hash_table_remove_value_ptr
  by unfold_locales
    (unfold ptr_ops slot_ptr_def [symmetric] simp_thms, (rule bytes.get_law bytes.set_law bytes.remove_law; assumption)+)

section \<open>Construction\<close>

lemma poweroftwo_loop_exp:
  "0 \<le> v \<Longrightarrow> \<exists>b. poweroftwo_loop v p = p * 2 ^ b \<and> v < 2 ^ b \<and> (b = 0 \<or> 2 ^ (b - 1) \<le> v)"
proof (induction v p rule: poweroftwo_loop.induct)
  case (1 v p)
  show ?case
  proof (cases "v > 0")
    case False
    with 1 show ?thesis by (intro exI [of _ 0]) (simp add: poweroftwo_loop.simps)
  next
    case True
    with 1 obtain b where b: "poweroftwo_loop (v div 2) (p * 2) = p * 2 * 2 ^ b"
      "v div 2 < 2 ^ b" "b = 0 \<or> 2 ^ (b - 1) \<le> v div 2" by auto
    have "v < 2 ^ Suc b" "2 ^ b \<le> v"
      using b(2,3) True by (cases b; simp; linarith)+
    then show ?thesis
      using b(1) True by (intro exI [of _ "Suc b"]) (simp add: poweroftwo_loop.simps)
  qed
qed

lemma poweroftwo_loop_nat:
  "\<exists>b. poweroftwo_loop (int n) 1 = 2 ^ b \<and> n < 2 ^ b \<and> (b = 0 \<or> 2 ^ (b - 1) \<le> n)"
  using poweroftwo_loop_exp [of "int n" 1] by simp

lemma init_any:
  assumes "v < 2 ^ 30"
  obtains b where "opal_hash_table_init True junk ht v =
      Some (OPAL_SUCCESS, ht\<lparr>ht_mask := 2 ^ b - 1,
        ht_table := map (\<lambda>i. if i < ht_table_size ht then junk i else []) [0..<2 ^ b], ht_table_size := 2 ^ b\<rparr>)"
    "b \<le> 30" "unat v < 2 ^ b" "b = 0 \<or> 2 ^ (b - 1) \<le> unat v"
proof -
  have small: "unat v < 2 ^ 30" using assms by (simp add: word_less_nat_alt)
  have u: "uint v < 2 ^ 30" using assms by (simp add: word_less_def)
  then have "signed_take_bit 31 (uint v) = uint v"
    by (intro signed_take_bit_int_eq_self) (simp_all add: order_trans [OF _ uint_ge_0])
  then have v: "sint (ucast v :: 32 word) = int (unat v)"
    by (simp add: signed_ucast_eq)
  from poweroftwo_loop_nat [of "unat v"] obtain b where
    b: "poweroftwo_loop (int (unat v)) 1 = 2 ^ b" "unat v < 2 ^ b" "b = 0 \<or> 2 ^ (b - 1) \<le> unat v"
    by blast
  have "b \<le> 30"
  proof (rule ccontr)
    assume "\<not> b \<le> 30"
    then have "(2::nat) ^ 30 \<le> 2 ^ (b - 1)" by (intro power_increasing) auto
    with b(3) \<open>\<not> b \<le> 30\<close> small show False by auto
  qed
  moreover have "opal_hash_table_init True junk ht v =
      Some (OPAL_SUCCESS, ht\<lparr>ht_mask := 2 ^ b - 1,
        ht_table := map (\<lambda>i. if i < ht_table_size ht then junk i else []) [0..<2 ^ b], ht_table_size := 2 ^ b\<rparr>)"
    using u b(1) by (simp add: opal_hash_table_init_def opal_next_poweroftwo_def v nat_power_eq Let_def)
  ultimately show thesis using b by (intro that [of b]) simp_all
qed

lemma init_table:
  assumes "v < 2 ^ 30"
  obtains b ht where "opal_hash_table_init True junk (opal_hash_table_construct m) v = Some (OPAL_SUCCESS, ht)"
    "hash_inv slot ht" "contents ht = Map.empty" "ht_table_size ht = 2 ^ b" "ht_size ht = 0"
    "unat v < 2 ^ b" "b = 0 \<or> 2 ^ (b - 1) \<le> unat v"
proof -
  from init_any [OF assms, of junk "opal_hash_table_construct m"] obtain b where
    b: "opal_hash_table_init True junk (opal_hash_table_construct m) v =
      Some (OPAL_SUCCESS, \<lparr>ht_nodes = [], ht_table = map (\<lambda>i. []) [0..<2 ^ b], ht_table_size = 2 ^ b, ht_size = 0,
        ht_mask = 2 ^ b - 1\<rparr>)" "b \<le> 30" "unat v < 2 ^ b" "b = 0 \<or> 2 ^ (b - 1) \<le> unat v"
    by (auto simp: opal_hash_table_construct_def)
  let ?ht = "\<lparr>ht_nodes = [], ht_table = map (\<lambda>i. []) [0..<2 ^ b], ht_table_size = 2 ^ b, ht_size = 0,
    ht_mask = 2 ^ b - 1\<rparr>"
  have "hash_inv slot ?ht" "contents ?ht = Map.empty"
    using \<open>b \<le> 30\<close> by (auto simp: hash_inv_def shape_ok_def placed_def addresses_def nodes_of_def
      contents_def map_replicate_const)
  with b show thesis by (intro that [of ?ht b]) simp_all
qed

section \<open>Iteration\<close>

lemma first_nonempty_concat:
  "first_nonempty ts = (case concat ts of [] \<Rightarrow> None | n # _ \<Rightarrow> Some n)"
  by (induction ts) (auto split: list.split simp del: concat_eq_Nil_conv)

lemma node_index_at: "hn_at n \<notin> hn_at ` set us \<Longrightarrow> node_index (hn_at n) (us @ n # vs) = Some (length us)"
  by (induction us) auto

lemma table_first_hd:
  "shape_ok ht \<Longrightarrow> table_first ht =
     (case nodes_of ht of [] \<Rightarrow> (OPAL_ERROR, None) | n # _ \<Rightarrow> (OPAL_SUCCESS, Some n))"
  by (simp add: table_first_def first_nonempty_concat nodes_of_def shape_ok_def
    split: list.split del: concat_eq_Nil_conv)

lemma table_next_node:
  assumes inv: "hash_inv slot ht" and at: "nodes_of ht = us @ n # vs"
  shows "table_next ht (slot (ht_mask ht) (hn_key n)) n =
    Some (case vs of [] \<Rightarrow> (OPAL_ERROR, None) | n' # _ \<Rightarrow> (OPAL_SUCCESS, Some n'))"
proof -
  from at have "n \<in> set (concat (ht_table ht))" by (simp add: nodes_of_def)
  then obtain l where l: "l \<in> set (ht_table ht)" "n \<in> set l" by auto
  from split_list [OF l(1)] split_list [OF l(2)] obtain ts1 ts2 p q where
    t: "ht_table ht = ts1 @ (p @ n # q) # ts2" by blast
  have d: "distinct (map hn_at (us @ n # vs))"
    using inv at unfolding hash_inv_def addresses_def by (metis distinct_append)
  have "(concat ts1 @ p) @ n # (q @ concat ts2) = us @ n # vs"
    using at t by (simp add: nodes_of_def)
  moreover have "n \<notin> set us" "n \<notin> set vs" using d by auto
  ultimately have eq: "us = concat ts1 @ p" "vs = q @ concat ts2"
    using append_Cons_eq_iff [of n us vs] by metis+
  have "slot (ht_mask ht) (hn_key n) = int (length ts1)"
    using inv placed_at [of slot "ht_mask ht" "ht_table ht" "length ts1" n]
    by (simp add: hash_inv_def t)
  moreover have "node_index (hn_at n) (p @ n # q) = Some (length p)"
    using d by (intro node_index_at) (auto simp: eq)
  moreover have "take (ht_table_size ht) (ht_table ht) = ht_table ht"
    using inv by (simp add: hash_inv_def shape_ok_def)
  ultimately show ?thesis
    by (cases q) (simp_all add: table_next_def t eq first_nonempty_concat nth_append
      split: list.split del: concat_eq_Nil_conv)
qed

text \<open>The nodes that a loop over a table meets, from the result for the first node on.\<close>

fun iteration_yields ::
  "('k hash_node \<Rightarrow> (int \<times> 'k hash_node option) option) \<Rightarrow> 'k hash_node list \<Rightarrow>
   int \<times> 'k hash_node option \<Rightarrow> bool" where
  "iteration_yields nxt [] r = (r = (OPAL_ERROR, None))"
| "iteration_yields nxt (n # ns) r =
     (r = (OPAL_SUCCESS, Some n) \<and> (case nxt n of None \<Rightarrow> False | Some r' \<Rightarrow> iteration_yields nxt ns r'))"

lemma iteration_from:
  assumes "hash_inv slot ht" "\<And>n. nxt n = table_next ht (slot (ht_mask ht) (hn_key n)) n"
  shows "nodes_of ht = us @ vs \<Longrightarrow>
    iteration_yields nxt vs (case vs of [] \<Rightarrow> (OPAL_ERROR, None) | n # _ \<Rightarrow> (OPAL_SUCCESS, Some n))"
proof (induction vs arbitrary: us)
  case (Cons n vs)
  with table_next_node [OF assms(1) Cons.prems] Cons.IH [of "us @ [n]"] show ?case
    by (simp add: assms(2))
qed simp

lemma iteration_complete:
  assumes "hash_inv slot ht" "\<And>n. nxt n = table_next ht (slot (ht_mask ht) (hn_key n)) n"
  shows "iteration_yields nxt (nodes_of ht) (table_first ht)"
  using iteration_from [OF assms, of "[]" "nodes_of ht"] assms(1)
  by (simp add: table_first_hd hash_inv_def)

lemma remove_all_table:
  assumes "hash_inv slot ht"
  shows "\<exists>ht'. opal_hash_table_remove_all ht = Some (OPAL_SUCCESS, ht') \<and> hash_inv slot ht' \<and>
    contents ht' = Map.empty \<and> ht_table_size ht' = ht_table_size ht \<and> ht_size ht' = 0"
  using assms by (auto simp: opal_hash_table_remove_all_def hash_inv_def shape_ok_def
    placed_def addresses_def nodes_of_def contents_def)

lemma contents_iff:
  "hash_inv slot ht \<Longrightarrow>
   contents ht key = Some v \<longleftrightarrow> (\<exists>n \<in> set (nodes_of ht). hn_key n = key \<and> hn_value n = v)"
  unfolding hash_inv_def contents_def node_map_def
  by (subst map_of_eq_Some_iff) (auto simp: comp_def)

section \<open>Properties\<close>

text \<open>C30: a hash table implements a map. After the initialisation, any sequence of lookups, stores
  and removals, for each of the three kinds of keys, stays inside the table and the lists, gives the
  results and leaves the contents that the same operations have on a map that is empty at first; a
  store fails only for a new key and when memory is exhausted.\<close>

theorem hash_table_refines_map:
  assumes "v < 2 ^ 30" "\<forall>ht. fresh_node (alloc32 ht) ht" "\<forall>ht. fresh_node (alloc64 ht) ht"
    "\<forall>ht. fresh_node (allocp ht) ht"
    "\<forall>ht. alloc32 ht = NULL \<longrightarrow> oom" "\<forall>ht. alloc64 ht = NULL \<longrightarrow> oom" "\<forall>ht. allocp ht = NULL \<longrightarrow> oom"
  shows "(\<exists>ht rs ht'.
      opal_hash_table_init True junk32 (opal_hash_table_construct m) v = Some (OPAL_SUCCESS, ht) \<and>
      dict_run opal_hash_table_get_value_uint32 opal_hash_table_set_value_uint32
        opal_hash_table_remove_value_uint32 alloc32 ht ps32 = Some (rs, ht') \<and>
      map_run oom Map.empty ps32 rs = Some (contents ht')) \<and>
    (\<exists>ht rs ht'.
      opal_hash_table_init True junk64 (opal_hash_table_construct m) v = Some (OPAL_SUCCESS, ht) \<and>
      dict_run opal_hash_table_get_value_uint64 opal_hash_table_set_value_uint64
        opal_hash_table_remove_value_uint64 alloc64 ht ps64 = Some (rs, ht') \<and>
      map_run oom Map.empty ps64 rs = Some (contents ht')) \<and>
    (\<exists>ht rs ht'.
      opal_hash_table_init True junkp (opal_hash_table_construct m) v = Some (OPAL_SUCCESS, ht) \<and>
      dict_run opal_hash_table_get_value_ptr (\<lambda>new. opal_hash_table_set_value_ptr new True)
        opal_hash_table_remove_value_ptr allocp ht psp = Some (rs, ht') \<and>
      map_run oom Map.empty psp rs = Some (contents ht'))"
proof (intro conjI)
  show "\<exists>ht rs ht'.
      opal_hash_table_init True junk32 (opal_hash_table_construct m) v = Some (OPAL_SUCCESS, ht) \<and>
      dict_run opal_hash_table_get_value_uint32 opal_hash_table_set_value_uint32
        opal_hash_table_remove_value_uint32 alloc32 ht ps32 = Some (rs, ht') \<and>
      map_run oom Map.empty ps32 rs = Some (contents ht')"
    by (rule init_table [OF assms(1), of junk32 m slot_uint32])
      (use d32.run_refines [OF _ assms(2,5), of _ ps32] in metis)
  show "\<exists>ht rs ht'.
      opal_hash_table_init True junk64 (opal_hash_table_construct m) v = Some (OPAL_SUCCESS, ht) \<and>
      dict_run opal_hash_table_get_value_uint64 opal_hash_table_set_value_uint64
        opal_hash_table_remove_value_uint64 alloc64 ht ps64 = Some (rs, ht') \<and>
      map_run oom Map.empty ps64 rs = Some (contents ht')"
    by (rule init_table [OF assms(1), of junk64 m slot_uint64])
      (use d64.run_refines [OF _ assms(3,6), of _ ps64] in metis)
  show "\<exists>ht rs ht'.
      opal_hash_table_init True junkp (opal_hash_table_construct m) v = Some (OPAL_SUCCESS, ht) \<and>
      dict_run opal_hash_table_get_value_ptr (\<lambda>new. opal_hash_table_set_value_ptr new True)
        opal_hash_table_remove_value_ptr allocp ht psp = Some (rs, ht') \<and>
      map_run oom Map.empty psp rs = Some (contents ht')"
    by (rule init_table [OF assms(1), of junkp m slot_ptr])
      (use dptr.run_refines [OF _ assms(4,7), of _ psp] in metis)
qed

definition next_address :: "'k opal_hash_table_t \<Rightarrow> ptr" where
  "next_address ht = Suc (fold max (addresses ht) 0)"

lemma fold_max_ge: "x \<in> set xs \<Longrightarrow> x \<le> fold max xs (y :: nat)" and fold_max_acc: "y \<le> fold max xs (y :: nat)"
proof -
  show acc: "y \<le> fold max xs y" for xs and y :: nat
    by (induction xs arbitrary: y) (auto intro: order_trans [OF max.cobounded2])
  show "x \<in> set xs \<Longrightarrow> x \<le> fold max xs y"
    by (induction xs arbitrary: y) (auto intro: order_trans [OF max.cobounded1 acc])
qed

lemma next_address_fresh: "fresh_node (next_address ht) ht"
  using fold_max_ge [of _ "addresses ht" 0] by (fastforce simp: fresh_node_def next_address_def)

lemma hash_table_refines_map_witness:
  "(\<exists>ht rs ht'.
      opal_hash_table_init True (\<lambda>_. []) (opal_hash_table_construct 0) 2 = Some (OPAL_SUCCESS, ht) \<and>
      dict_run opal_hash_table_get_value_uint32 opal_hash_table_set_value_uint32
        opal_hash_table_remove_value_uint32 next_address ht [Set 5 7, Set 9 8, Remove 5, Get 9] = Some (rs, ht') \<and>
      map_run False Map.empty [Set 5 7, Set 9 8, Remove 5, Get 9] rs = Some (contents ht'))"
  using hash_table_refines_map [of 2 next_address next_address next_address False "\<lambda>_. []" 0
      "[Set 5 7, Set 9 8, Remove 5, Get 9]" "\<lambda>_. []" "[]" "\<lambda>_. []" "[]"]
  by (simp add: next_address_fresh) (simp add: next_address_def)

text \<open>The iteration with the first and the next key visits each entry of a table exactly
  once: it meets the nodes of the table one after the other and ends with an error code, no key occurs
  twice among them, their keys and values are the contents of the table, and their number is its size.\<close>

theorem hash_iteration_visits_each_once:
  assumes "hash_inv slot_uint32 ht" "hash_inv slot_uint64 ht'"
  shows "iteration_yields (opal_hash_table_get_next_key_uint32 ht) (nodes_of ht)
      (opal_hash_table_get_first_key_uint32 ht) \<and>
    iteration_yields (opal_hash_table_get_next_key_uint64 ht') (nodes_of ht')
      (opal_hash_table_get_first_key_uint64 ht') \<and>
    opal_hash_table_get_size ht = of_nat (length (nodes_of ht)) \<and>
    opal_hash_table_get_size ht' = of_nat (length (nodes_of ht')) \<and>
    distinct (map hn_key (nodes_of ht)) \<and> distinct (map hn_key (nodes_of ht')) \<and>
    (\<forall>key w. contents ht key = Some w \<longleftrightarrow> (\<exists>n \<in> set (nodes_of ht). hn_key n = key \<and> hn_value n = w)) \<and>
    (\<forall>key w. contents ht' key = Some w \<longleftrightarrow> (\<exists>n \<in> set (nodes_of ht'). hn_key n = key \<and> hn_value n = w))"
proof (intro conjI)
  show "iteration_yields (opal_hash_table_get_next_key_uint32 ht) (nodes_of ht)
      (opal_hash_table_get_first_key_uint32 ht)"
    unfolding opal_hash_table_get_first_key_uint32_def
    by (rule iteration_complete [OF assms(1)]) (simp add: opal_hash_table_get_next_key_uint32_def)
  show "iteration_yields (opal_hash_table_get_next_key_uint64 ht') (nodes_of ht')
      (opal_hash_table_get_first_key_uint64 ht')"
    unfolding opal_hash_table_get_first_key_uint64_def
    by (rule iteration_complete [OF assms(2)]) (simp add: opal_hash_table_get_next_key_uint64_def)
qed (use assms in \<open>simp_all add: contents_iff opal_hash_table_get_size_def, simp_all add: hash_inv_def\<close>)

definition table_example :: "'k \<Rightarrow> 'k \<Rightarrow> 'k opal_hash_table_t" where
  "table_example k1 k2 =
     \<lparr>ht_nodes = [30],
      ht_table = [[\<lparr>hn_at = 10, hn_key = k1, hn_value = 7\<rparr>], [\<lparr>hn_at = 20, hn_key = k2, hn_value = 8\<rparr>]],
      ht_table_size = 2, ht_size = 2, ht_mask = 1\<rparr>"

lemma table_example_inv:
  "slot 1 k1 = 0 \<Longrightarrow> slot 1 k2 = 1 \<Longrightarrow> k1 \<noteq> k2 \<Longrightarrow> hash_inv slot (table_example k1 k2)"
  by (auto simp: hash_inv_def shape_ok_def placed_def addresses_def nodes_of_def table_example_def
    less_Suc_eq numeral_2_eq_2 intro!: exI [of _ 1])

lemma hash_iteration_visits_each_once_witness:
  "iteration_yields (opal_hash_table_get_next_key_uint32 (table_example 4 9)) (nodes_of (table_example 4 9))
     (opal_hash_table_get_first_key_uint32 (table_example 4 9))"
  using hash_iteration_visits_each_once [OF table_example_inv [of slot_uint32 4 9]
    table_example_inv [of slot_uint64 4 9]]
  by (simp add: slot_uint32_def slot_uint64_def)

text \<open>C31: initialisation makes an empty table whose size is the least power of two greater than
  the size that was asked for, so that a power of two is doubled; removing everything makes a
  table of the same size empty. A second initialisation succeeds too, but the lists below the old size
  are what the new memory holds, and the number of entries stays: even if the memory happens to hold
  empty lists, the result is not a well-formed table unless the old table was empty.\<close>

theorem hash_init_and_remove_all:
  assumes "v < 2 ^ 30" "hash_inv slot ht"
  shows "(\<exists>ht1 b. opal_hash_table_init True junk (opal_hash_table_construct m) v = Some (OPAL_SUCCESS, ht1) \<and>
      hash_inv slot ht1 \<and> contents ht1 = Map.empty \<and> ht_size ht1 = 0 \<and>
      ht_table_size ht1 = 2 ^ b \<and> unat v < 2 ^ b \<and> (b = 0 \<or> 2 ^ (b - 1) \<le> unat v)) \<and>
    (\<exists>ht1. opal_hash_table_remove_all ht = Some (OPAL_SUCCESS, ht1) \<and> hash_inv slot ht1 \<and>
      contents ht1 = Map.empty \<and> ht_table_size ht1 = ht_table_size ht \<and> ht_size ht1 = 0) \<and>
    (\<exists>ht1 b. opal_hash_table_init True junk ht v = Some (OPAL_SUCCESS, ht1) \<and>
      ht_table_size ht1 = 2 ^ b \<and> unat v < 2 ^ b \<and> (b = 0 \<or> 2 ^ (b - 1) \<le> unat v) \<and>
      length (ht_table ht1) = 2 ^ b \<and>
      (\<forall>i < 2 ^ b. ht_table ht1 ! i = (if i < ht_table_size ht then junk i else [])) \<and> ht_size ht1 = ht_size ht \<and>
      ((\<forall>i. junk i = []) \<and> ht_size ht \<noteq> 0 \<longrightarrow> \<not> hash_inv slot ht1))"
proof (intro conjI)
  show "\<exists>ht1 b. opal_hash_table_init True junk (opal_hash_table_construct m) v = Some (OPAL_SUCCESS, ht1) \<and>
      hash_inv slot ht1 \<and> contents ht1 = Map.empty \<and> ht_size ht1 = 0 \<and>
      ht_table_size ht1 = 2 ^ b \<and> unat v < 2 ^ b \<and> (b = 0 \<or> 2 ^ (b - 1) \<le> unat v)"
    by (rule init_table [OF assms(1), of junk m slot]) blast
  show "\<exists>ht1. opal_hash_table_remove_all ht = Some (OPAL_SUCCESS, ht1) \<and> hash_inv slot ht1 \<and>
      contents ht1 = Map.empty \<and> ht_table_size ht1 = ht_table_size ht \<and> ht_size ht1 = 0"
    by (rule remove_all_table [OF assms(2)])
  obtain b where b: "opal_hash_table_init True junk ht v =
      Some (OPAL_SUCCESS, ht\<lparr>ht_mask := 2 ^ b - 1,
        ht_table := map (\<lambda>i. if i < ht_table_size ht then junk i else []) [0..<2 ^ b], ht_table_size := 2 ^ b\<rparr>)"
    "b \<le> 30" "unat v < 2 ^ b" "b = 0 \<or> 2 ^ (b - 1) \<le> unat v"
    by (rule init_any [OF assms(1), of junk ht])
  let ?ht = "ht\<lparr>ht_mask := 2 ^ b - 1,
        ht_table := map (\<lambda>i. if i < ht_table_size ht then junk i else []) [0..<2 ^ b], ht_table_size := 2 ^ b\<rparr>"
  have "\<not> hash_inv slot ?ht" if "\<forall>i. junk i = []" "ht_size ht \<noteq> 0"
  proof -
    have "nodes_of ?ht = []" using that(1) by (auto simp: nodes_of_def)
    then show ?thesis using that(2) by (simp add: hash_inv_def)
  qed
  with b show "\<exists>ht1 b. opal_hash_table_init True junk ht v = Some (OPAL_SUCCESS, ht1) \<and>
      ht_table_size ht1 = 2 ^ b \<and> unat v < 2 ^ b \<and> (b = 0 \<or> 2 ^ (b - 1) \<le> unat v) \<and>
      length (ht_table ht1) = 2 ^ b \<and>
      (\<forall>i < 2 ^ b. ht_table ht1 ! i = (if i < ht_table_size ht then junk i else [])) \<and> ht_size ht1 = ht_size ht \<and>
      ((\<forall>i. junk i = []) \<and> ht_size ht \<noteq> 0 \<longrightarrow> \<not> hash_inv slot ht1)"
    by (intro exI [of _ ?ht] exI [of _ b]) simp
qed

lemma hash_init_and_remove_all_witness:
  "(\<exists>ht1. opal_hash_table_remove_all (table_example 4 9) = Some (OPAL_SUCCESS, ht1) \<and>
      hash_inv slot_uint32 ht1 \<and> contents ht1 = Map.empty) \<and>
   (\<exists>ht1. opal_hash_table_init True (\<lambda>_. []) (table_example (4 :: 32 word) 9) 8 = Some (OPAL_SUCCESS, ht1) \<and>
      ht_size ht1 = 2 \<and> \<not> hash_inv slot_uint32 ht1)"
proof -
  have i: "hash_inv slot_uint32 (table_example 4 9)" by (rule table_example_inv) (simp_all add: slot_uint32_def)
  have "(8 :: 64 word) < 2 ^ 30" "ht_size (table_example (4 :: 32 word) 9) = 2" by (simp_all add: table_example_def)
  with hash_init_and_remove_all [OF _ i, where v = 8 and junk = "\<lambda>_. []" and m = 0] show ?thesis by auto
qed

end
