(* ===== verification/Era_Tree.thy ===== *)
theory Era_Tree
  imports Hash_Table
begin

text \<open>
  The tree of the early returning agreement,
  \<^verbatim>\<open>ompi/mca/coll/ftbasic/coll_ftbasic_agreement_earlyreturning.c\<close>: its shapes, its construction over the
  processes that are not known by all to have failed, the removal of a failed node, and the search
  for the living parent and the living children of a process, which repairs the tree on the way.
  Nodes are indices of an array, and the length of the array ends a list of siblings.
\<close>

section \<open>Data\<close>

record era_tree_t =
  rank_in_comm :: int
  parent :: int
  next_sibling :: int
  first_child :: int

text \<open>What the tree functions use of the communicator of an agreement: size, own rank, and the
  answers of \<^verbatim>\<open>ompi_comm_is_proc_active\<close>.\<close>

record era_comm_t =
  ec_size :: int
  ec_my_rank :: int
  ec_active :: "int \<Rightarrow> bool option"

text \<open>An assignment to a field of a node.\<close>

definition upd :: "era_tree_t list \<Rightarrow> int \<Rightarrow> (era_tree_t \<Rightarrow> era_tree_t) \<Rightarrow> era_tree_t list option" where
  "upd tree i f = do { x \<leftarrow> rd tree i; wr tree i (f x) }"

abbreviation (input) tree_size :: "era_tree_t list \<Rightarrow> int" where
  "tree_size tree \<equiv> int (length tree)"

section \<open>Shapes\<close>

definition era_tree_fn_star :: "era_tree_t list \<Rightarrow> era_tree_t list" where
  "era_tree_fn_star tree =
     map (\<lambda>m. (tree ! m)\<lparr>parent := 0,
                       first_child := (if m = 0 then 1 else tree_size tree),
                       next_sibling := (if m = 0 then tree_size tree else int m + 1)\<rparr>)
       [0..<length tree]"

definition era_tree_fn_string :: "era_tree_t list \<Rightarrow> era_tree_t list" where
  "era_tree_fn_string tree =
     map (\<lambda>m. (tree ! m)\<lparr>parent := (if m > 0 then int m - 1 else 0),
                       first_child := int m + 1,
                       next_sibling := tree_size tree\<rparr>)
       [0..<length tree]"

definition era_tree_fn_binary :: "era_tree_t list \<Rightarrow> era_tree_t list" where
  "era_tree_fn_binary tree =
     map (\<lambda>m. (tree ! m)\<lparr>parent := (if m > 0 then (int m - 1) div 2 else 0),
                       first_child := (if 2 * int m + 1 < tree_size tree then 2 * int m + 1 else tree_size tree),
                       next_sibling := (if int m mod 2 \<noteq> 0 \<and> int m + 1 < tree_size tree then int m + 1
                                        else tree_size tree)\<rparr>)
       [0..<length tree]"

text \<open>The choice of a shape, from \<^verbatim>\<open>mca_coll_ftbasic_agreement_era_init\<close>.\<close>

definition era_tree_fn_of :: "int \<Rightarrow> era_tree_t list \<Rightarrow> era_tree_t list" where
  "era_tree_fn_of cur_era_topology =
     (let k = (if cur_era_topology < 0 then - cur_era_topology else cur_era_topology) in
      if k = 1 then era_tree_fn_binary
      else if k = 2 then era_tree_fn_string
      else if k = 3 then era_tree_fn_star
      else era_tree_fn_binary)"

section \<open>Construction\<close>

fun skip_dead :: "int \<Rightarrow> int list \<Rightarrow> int \<Rightarrow> int list \<times> int" where
  "skip_dead m [] offset = ([], offset)"
| "skip_dead m (d # ds) offset = (if m + offset = d then skip_dead m ds (offset + 1) else (d # ds, offset))"

text \<open>The loop over the nodes; \<open>k\<close> of them remain from \<open>m\<close> on.\<close>

primrec fill_nodes :: "nat \<Rightarrow> int \<Rightarrow> int \<Rightarrow> int list \<Rightarrow> int \<Rightarrow> era_tree_t list" where
  "fill_nodes 0 sz m ds offset = []"
| "fill_nodes (Suc k) sz m ds offset =
     (case skip_dead m ds offset of (ds, offset) \<Rightarrow>
        \<lparr>rank_in_comm = m + offset, parent = m, next_sibling = sz, first_child = sz\<rparr> #
        fill_nodes k sz (m + 1) ds offset)"

definition era_build_nodes :: "int \<Rightarrow> int list \<Rightarrow> era_tree_t list option" where
  "era_build_nodes n agreed_failed_ranks =
     (let sz = n - int (length agreed_failed_ranks) in
      if sz < 0 then None else Some (fill_nodes (nat sz) sz 0 agreed_failed_ranks 0))"

section \<open>Trees along the hosts\<close>

text \<open>What the construction knows of the layout of the job: the number of daemons, the daemon of
  the process of a rank, whether that process belongs to the job of the caller, and the answers of
  the allocator for the hash table and its nodes.\<close>

record era_layout =
  num_daemons :: nat
  proc_get_daemon :: "int \<Rightarrow> 32 word"
  same_job :: "int \<Rightarrow> bool"
  table_mem :: bool
  node_mem :: "32 word opal_hash_table_t \<Rightarrow> ptr"

text \<open>The processes of one daemon: the first of them, their number, and the nodes of their tree.
  The trees are consecutive parts of one array, as long as the numbers say.\<close>

record hierarch_tree_info_t =
  rep :: int
  hsize :: nat
  htree :: "era_tree_t list"

definition blank_node :: "int \<Rightarrow> era_tree_t" where
  "blank_node r = \<lparr>rank_in_comm = r, parent = 0, next_sibling = 0, first_child = 0\<rparr>"

text \<open>The first loop; the table maps a daemon to the address of its entry, which is one more than its
  index. \<open>Some None\<close> stands for the return with a flat tree.\<close>

primrec daemon_loop ::
  "era_layout \<Rightarrow> int \<Rightarrow> era_tree_t list \<Rightarrow> 32 word opal_hash_table_t \<Rightarrow> hierarch_tree_info_t list \<Rightarrow>
   (32 word opal_hash_table_t \<times> hierarch_tree_info_t list) option option" where
  "daemon_loop l r [] rep_table reps = Some (Some (rep_table, reps))"
| "daemon_loop l r (x # xs) rep_table reps =
     (if \<not> same_job l (rank_in_comm x) then Some None
      else do {
        (rc, rep_p) \<leftarrow> opal_hash_table_get_value_uint32 rep_table (proc_get_daemon l (rank_in_comm x));
        if rc \<noteq> OPAL_SUCCESS then
          if length reps \<ge> num_daemons l then None
          else do {
            (rc, rep_table) \<leftarrow> opal_hash_table_set_value_uint32 (node_mem l rep_table) rep_table
                               (proc_get_daemon l (rank_in_comm x)) (Suc (length reps));
            daemon_loop l (r + 1) xs rep_table (reps @ [\<lparr>rep = r, hsize = 1, htree = []\<rparr>]) }
        else do {
          i \<leftarrow> rep_p;
          R \<leftarrow> rd reps (int i - 1);
          reps \<leftarrow> wr reps (int i - 1) (R\<lparr>hsize := hsize R + 1\<rparr>);
          daemon_loop l (r + 1) xs rep_table reps } })"

primrec place_loop ::
  "era_layout \<Rightarrow> int \<Rightarrow> era_tree_t list \<Rightarrow> 32 word opal_hash_table_t \<Rightarrow> hierarch_tree_info_t list \<Rightarrow>
   era_tree_t list \<Rightarrow> (hierarch_tree_info_t list \<times> era_tree_t list) option" where
  "place_loop l r [] rep_table reps rep_tree = Some (reps, rep_tree)"
| "place_loop l r (x # xs) rep_table reps rep_tree =
     do {
       (rc, rep_p) \<leftarrow> opal_hash_table_get_value_uint32 rep_table (proc_get_daemon l (rank_in_comm x));
       i \<leftarrow> rep_p;
       R \<leftarrow> rd reps (int i - 1);
       if length (htree R) \<ge> hsize R then None
       else do {
         reps \<leftarrow> wr reps (int i - 1) (R\<lparr>htree := htree R @ [blank_node r]\<rparr>);
         place_loop l (r + 1) xs rep_table reps
           (if htree R = [] then rep_tree @ [blank_node r] else rep_tree) } }"

text \<open>The nodes of the tree of a daemon become nodes of the whole tree.\<close>

definition sub_index :: "era_tree_t list \<Rightarrow> era_tree_t list \<Rightarrow> int \<Rightarrow> int option" where
  "sub_index tree sub i =
     (if i = tree_size sub then Some (tree_size tree) else do { x \<leftarrow> rd sub i; Some (rank_in_comm x) })"

definition merge_node :: "era_tree_t list \<Rightarrow> era_tree_t list \<Rightarrow> int \<Rightarrow> era_tree_t list option" where
  "merge_node tree sub s =
     do {
       x \<leftarrow> rd sub s;
       P \<leftarrow> rd sub (parent x);
       tree \<leftarrow> upd tree (rank_in_comm x) (\<lambda>y. y\<lparr>parent := rank_in_comm P\<rparr>);
       ns \<leftarrow> sub_index tree sub (next_sibling x);
       tree \<leftarrow> upd tree (rank_in_comm x) (\<lambda>y. y\<lparr>next_sibling := ns\<rparr>);
       fc \<leftarrow> sub_index tree sub (first_child x);
       upd tree (rank_in_comm x) (\<lambda>y. y\<lparr>first_child := fc\<rparr>) }"

fun merge_nodes :: "era_tree_t list \<Rightarrow> era_tree_t list \<Rightarrow> nat list \<Rightarrow> era_tree_t list option" where
  "merge_nodes tree sub [] = Some tree"
| "merge_nodes tree sub (s # ss) = do { tree \<leftarrow> merge_node tree sub (int s); merge_nodes tree sub ss }"

partial_function (option) last_sibling :: "era_tree_t list \<Rightarrow> int \<Rightarrow> int option" where
  "last_sibling tree s =
     do {
       x \<leftarrow> rd tree s;
       if next_sibling x \<noteq> tree_size tree then last_sibling tree (next_sibling x) else Some s }"

text \<open>The root of the tree of a daemon is linked according to the tree of the daemons.\<close>

definition merge_rep :: "era_tree_t list \<Rightarrow> era_tree_t list \<Rightarrow> int \<Rightarrow> era_tree_t list option" where
  "merge_rep tree rep_tree r =
     do {
       x \<leftarrow> rd rep_tree r;
       P \<leftarrow> rd rep_tree (parent x);
       let rr = rank_in_comm x;
       tree \<leftarrow> upd tree rr (\<lambda>y. y\<lparr>parent := rank_in_comm P\<rparr>);
       tree \<leftarrow> (if next_sibling x = tree_size rep_tree then Some tree
               else do {
                 y \<leftarrow> rd tree rr;
                 N \<leftarrow> rd rep_tree (next_sibling x);
                 if next_sibling y = tree_size tree
                 then upd tree rr (\<lambda>y. y\<lparr>next_sibling := rank_in_comm N\<rparr>)
                 else do {
                   s0 \<leftarrow> rd tree (next_sibling y);
                   s \<leftarrow> last_sibling tree (next_sibling s0);
                   upd tree s (\<lambda>y. y\<lparr>next_sibling := rank_in_comm N\<rparr>) } });
       if first_child x = tree_size rep_tree then Some tree
       else do {
         y \<leftarrow> rd tree rr;
         C \<leftarrow> rd rep_tree (first_child x);
         if first_child y = tree_size tree
         then upd tree rr (\<lambda>y. y\<lparr>first_child := rank_in_comm C\<rparr>)
         else do {
           s \<leftarrow> last_sibling tree (first_child y);
           upd tree s (\<lambda>y. y\<lparr>next_sibling := rank_in_comm C\<rparr>) } } }"

fun merge_loop :: "era_tree_t list \<Rightarrow> era_tree_t list \<Rightarrow> int \<Rightarrow> era_tree_t list list \<Rightarrow> era_tree_t list option" where
  "merge_loop tree rep_tree r [] = Some tree"
| "merge_loop tree rep_tree r (sub # subs) =
     do {
       tree \<leftarrow> merge_nodes tree sub [0..<length sub];
       tree \<leftarrow> merge_rep tree rep_tree r;
       merge_loop tree rep_tree (r + 1) subs }"

definition era_call_tree_fn ::
  "era_layout \<Rightarrow> int \<Rightarrow> (era_tree_t list \<Rightarrow> era_tree_t list) \<Rightarrow> era_tree_t list \<Rightarrow> era_tree_t list option" where
  "era_call_tree_fn l cur_era_topology era_tree_fn tree =
     (if cur_era_topology > 0 then
        do {
          (rc, rep_table) \<leftarrow> opal_hash_table_init (table_mem l) (\<lambda>_. []) (opal_hash_table_construct 0) (of_nat (num_daemons l));
          w \<leftarrow> daemon_loop l 0 tree rep_table [];
          case w of
            None \<Rightarrow> Some (era_tree_fn tree)
          | Some (rep_table, reps) \<Rightarrow>
              do {
                (reps, rep_tree) \<leftarrow> place_loop l 0 tree rep_table reps [];
                merge_loop tree (era_tree_fn rep_tree) 0 (map (\<lambda>R. era_tree_fn (htree R)) reps) } }
      else Some (era_tree_fn tree))"

definition era_build_tree_structure ::
  "era_layout \<Rightarrow> int \<Rightarrow> (era_tree_t list \<Rightarrow> era_tree_t list) \<Rightarrow> int \<Rightarrow> int list \<Rightarrow> era_tree_t list option" where
  "era_build_tree_structure l cur_era_topology era_tree_fn n agreed_failed_ranks =
     do {
       tree \<leftarrow> era_build_nodes n agreed_failed_ranks;
       era_call_tree_fn l cur_era_topology era_tree_fn tree }"

section \<open>Lookup and removal\<close>

text \<open>The search for the node of a rank, from \<open>r\<close> downwards.\<close>

function node_loop :: "era_tree_t list \<Rightarrow> int \<Rightarrow> int \<Rightarrow> int option" where
  "node_loop tree r_in_comm r =
     (if r < 0 \<or> r \<ge> tree_size tree then None
      else if rank_in_comm (tree ! nat r) \<noteq> r_in_comm then node_loop tree r_in_comm (r - 1)
      else Some r)"
  by auto
termination by (relation "measure (\<lambda>(t, c, r). nat (r + 1))") auto

declare node_loop.simps [simp del]

definition era_tree_rank_from_comm_rank :: "era_tree_t list \<Rightarrow> int \<Rightarrow> int option" where
  "era_tree_rank_from_comm_rank tree r_in_comm =
     node_loop tree r_in_comm (if r_in_comm \<ge> tree_size tree then tree_size tree - 1 else r_in_comm)"

text \<open>The children of the removed node get its parent; the result has the last of them.\<close>

partial_function (option) reattach_loop ::
  "era_tree_t list \<Rightarrow> int \<Rightarrow> int \<Rightarrow> (era_tree_t list \<times> int) option" where
  "reattach_loop tree p c =
     do {
       tree \<leftarrow> upd tree c (\<lambda>x. x\<lparr>parent := p\<rparr>);
       x \<leftarrow> rd tree c;
       if next_sibling x = tree_size tree then Some (tree, c)
       else reattach_loop tree p (next_sibling x) }"

partial_function (option) before_loop :: "era_tree_t list \<Rightarrow> int \<Rightarrow> int \<Rightarrow> int option" where
  "before_loop tree r_in_tree t =
     do {
       x \<leftarrow> rd tree t;
       if next_sibling x \<noteq> r_in_tree then before_loop tree r_in_tree (next_sibling x) else Some t }"

definition remove_inner :: "era_tree_t list \<Rightarrow> int \<Rightarrow> int \<Rightarrow> era_tree_t list option" where
  "remove_inner tree r_in_tree p =
     do {
       node \<leftarrow> rd tree r_in_tree;
       let s = first_child node;
       (tree, c) \<leftarrow> (if s \<noteq> tree_size tree then reattach_loop tree p s else Some (tree, s));
       P \<leftarrow> rd tree p;
       if first_child P = r_in_tree then
         if s = tree_size tree then upd tree p (\<lambda>x. x\<lparr>first_child := next_sibling node\<rparr>)
         else do {
           tree \<leftarrow> upd tree p (\<lambda>x. x\<lparr>first_child := s\<rparr>);
           upd tree c (\<lambda>x. x\<lparr>next_sibling := next_sibling node\<rparr>) }
       else do {
         t \<leftarrow> before_loop tree r_in_tree (first_child P);
         if s = tree_size tree then upd tree t (\<lambda>x. x\<lparr>next_sibling := next_sibling node\<rparr>)
         else do {
           tree \<leftarrow> upd tree t (\<lambda>x. x\<lparr>next_sibling := s\<rparr>);
           upd tree c (\<lambda>x. x\<lparr>next_sibling := next_sibling node\<rparr>) } } }"

text \<open>The least child, its predecessor and the last child, with \<open>-1\<close> for none.\<close>

partial_function (option) least_loop ::
  "era_tree_t list \<Rightarrow> int \<Rightarrow> int \<Rightarrow> int \<Rightarrow> int \<Rightarrow> (int \<times> int \<times> int) option" where
  "least_loop tree p new_root prev_root last_sib =
     (if p = tree_size tree then Some (new_root, prev_root, last_sib)
      else do {
        x \<leftarrow> rd tree p;
        if new_root > p then least_loop tree (next_sibling x) p last_sib p
        else least_loop tree (next_sibling x) new_root prev_root p })"

partial_function (option) adopt_loop ::
  "era_tree_t list \<Rightarrow> int \<Rightarrow> int \<Rightarrow> int \<Rightarrow> era_tree_t list option" where
  "adopt_loop tree new_root last_sib p =
     (if p = tree_size tree then Some tree
      else do {
        tree \<leftarrow> upd tree p (\<lambda>x. x\<lparr>parent := new_root\<rparr>);
        x \<leftarrow> rd tree p;
        if p = last_sib then Some tree else adopt_loop tree new_root last_sib (next_sibling x) })"

definition remove_root :: "era_tree_t list \<Rightarrow> int \<Rightarrow> era_tree_t list option" where
  "remove_root tree r_in_tree =
     do {
       node \<leftarrow> rd tree r_in_tree;
       (new_root, prev_root, last_sib) \<leftarrow> least_loop tree (first_child node) (first_child node) (- 1) (- 1);
       let last_sib = (if last_sib = new_root then prev_root else last_sib);
       nr \<leftarrow> rd tree new_root;
       let next_root = next_sibling nr;
       tree \<leftarrow> (if prev_root \<noteq> - 1 then upd tree prev_root (\<lambda>x. x\<lparr>next_sibling := next_root\<rparr>) else Some tree);
       tree \<leftarrow> upd tree new_root (\<lambda>x. x\<lparr>next_sibling := tree_size tree, parent := new_root\<rparr>);
       node \<leftarrow> rd tree r_in_tree;
       let fc = (if new_root \<noteq> first_child node then first_child node
                 else if next_root \<noteq> tree_size tree then next_root
                 else first_child nr);
       if fc \<noteq> first_child nr then do {
         tree \<leftarrow> (if last_sib \<noteq> - 1 then upd tree last_sib (\<lambda>x. x\<lparr>next_sibling := first_child nr\<rparr>)
                 else Some tree);
         tree \<leftarrow> upd tree new_root (\<lambda>x. x\<lparr>first_child := fc\<rparr>);
         adopt_loop tree new_root last_sib fc }
       else Some tree }"

definition era_tree_remove_node :: "era_tree_t list \<Rightarrow> int \<Rightarrow> era_tree_t list option" where
  "era_tree_remove_node tree r_in_tree =
     do {
       node \<leftarrow> rd tree r_in_tree;
       if parent node \<noteq> r_in_tree then remove_inner tree r_in_tree (parent node)
       else remove_root tree r_in_tree }"

section \<open>Living parent and children\<close>

partial_function (option) parent_loop ::
  "era_comm_t \<Rightarrow> era_tree_t list \<Rightarrow> int \<Rightarrow> (int \<times> era_tree_t list) option" where
  "parent_loop comm tree r_in_tree =
     do {
       node \<leftarrow> rd tree r_in_tree;
       P \<leftarrow> rd tree (parent node);
       act \<leftarrow> ec_active comm (rank_in_comm P);
       if act then Some (rank_in_comm P, tree)
       else do {
         tree \<leftarrow> era_tree_remove_node tree (parent node);
         parent_loop comm tree r_in_tree } }"

definition era_parent :: "era_comm_t \<Rightarrow> era_tree_t list \<Rightarrow> (int \<times> era_tree_t list) option" where
  "era_parent comm tree =
     do {
       r_in_tree \<leftarrow> era_tree_rank_from_comm_rank tree (ec_my_rank comm);
       parent_loop comm tree r_in_tree }"

partial_function (option) child_loop ::
  "era_comm_t \<Rightarrow> era_tree_t list \<Rightarrow> int \<Rightarrow> (int \<times> era_tree_t list) option" where
  "child_loop comm tree r_in_tree =
     do {
       node \<leftarrow> rd tree r_in_tree;
       if first_child node = tree_size tree then Some (ec_size comm, tree)
       else do {
         C \<leftarrow> rd tree (first_child node);
         act \<leftarrow> ec_active comm (rank_in_comm C);
         if act then Some (rank_in_comm C, tree)
         else do {
           tree \<leftarrow> era_tree_remove_node tree (first_child node);
           child_loop comm tree r_in_tree } } }"

partial_function (option) sibling_loop ::
  "era_comm_t \<Rightarrow> era_tree_t list \<Rightarrow> int \<Rightarrow> (int \<times> era_tree_t list) option" where
  "sibling_loop comm tree r_in_tree =
     do {
       node \<leftarrow> rd tree r_in_tree;
       if next_sibling node = tree_size tree then Some (ec_size comm, tree)
       else do {
         S \<leftarrow> rd tree (next_sibling node);
         act \<leftarrow> ec_active comm (rank_in_comm S);
         if act then Some (rank_in_comm S, tree)
         else do {
           tree \<leftarrow> era_tree_remove_node tree (next_sibling node);
           sibling_loop comm tree r_in_tree } } }"

definition era_next_child :: "era_comm_t \<Rightarrow> era_tree_t list \<Rightarrow> int \<Rightarrow> (int \<times> era_tree_t list) option" where
  "era_next_child comm tree prev_child_in_comm =
     (if prev_child_in_comm = - 1 then
        do {
          r_in_tree \<leftarrow> era_tree_rank_from_comm_rank tree (ec_my_rank comm);
          child_loop comm tree r_in_tree }
      else
        do {
          r_in_tree \<leftarrow> era_tree_rank_from_comm_rank tree prev_child_in_comm;
          sibling_loop comm tree r_in_tree })"

text \<open>The loop over the children, with \<open>-1\<close> to start: the ranks that it meets.\<close>

partial_function (option) era_children ::
  "era_comm_t \<Rightarrow> era_tree_t list \<Rightarrow> int \<Rightarrow> (int list \<times> era_tree_t list) option" where
  "era_children comm tree r =
     do {
       (r, tree) \<leftarrow> era_next_child comm tree r;
       if r < ec_size comm then do {
         (rs, tree) \<leftarrow> era_children comm tree r;
         Some (r # rs, tree) }
       else Some ([], tree) }"

end
