(* ===== verification/Era_Value.thy ===== *)
theory Era_Value
  imports Era_Tree
begin

text \<open>
  The values of the early returning agreement,
  \<^verbatim>\<open>ompi/mca/coll/ftbasic/coll_ftbasic_agreement_earlyreturning.c\<close>: a value carries a return code, the
  bytes to be reduced, the ranks newly found dead, and a range of past agreements that can be
  forgotten. This theory has the operations on single values and on the lists of ranks known by
  all to have failed.
\<close>

section \<open>Data\<close>

record era_identifier_t =
  id_agreementid :: "16 word"
  id_contextid :: "16 word"
  id_epoch :: "32 word"

text \<open>The identifier as one integer, in the byte order of a little-endian machine.\<close>

definition ERAID_KEY :: "era_identifier_t \<Rightarrow> 64 word" where
  "ERAID_KEY i = ucast (id_agreementid i) OR push_bit 16 (ucast (id_contextid i)) OR push_bit 32 (ucast (id_epoch i))"

definition eraid_of_key :: "64 word \<Rightarrow> era_identifier_t" where
  "eraid_of_key k = \<lparr>id_agreementid = ucast k, id_contextid = ucast (drop_bit 16 k), id_epoch = ucast (drop_bit 32 k)\<rparr>"

record era_value_header_t =
  vh_ret :: int
  vh_min_aid :: "16 word"
  vh_max_aid :: "16 word"
  vh_operand :: int
  vh_dt_count :: int
  vh_datatype :: int
  vh_nb_new_dead :: int

record era_value_t =
  header :: era_value_header_t
  bytes :: "u8 list"
  new_dead_array :: "int list"

definition era_value_constructor :: era_value_t where
  "era_value_constructor =
     \<lparr>header = \<lparr>vh_ret = 0, vh_min_aid = - 1, vh_max_aid = 0, vh_operand = - 1, vh_dt_count = - 1,
                vh_datatype = - 1, vh_nb_new_dead = - 1\<rparr>,
      bytes = [], new_dead_array = []\<rparr>"

text \<open>What the code looks up in the tables of datatypes and operations: the size of a datatype, and
  the reduction of one array into another.\<close>

record era_ops =
  dt_size :: "int \<Rightarrow> int"
  op_reduce :: "int \<Rightarrow> int \<Rightarrow> int \<Rightarrow> u8 list \<Rightarrow> u8 list \<Rightarrow> u8 list"

definition ERA_VALUE_BYTES_COUNT :: "era_ops \<Rightarrow> era_value_header_t \<Rightarrow> int" where
  "ERA_VALUE_BYTES_COUNT ops h = dt_size ops (vh_datatype h) * vh_dt_count h"

definition copy_bytes :: "int \<Rightarrow> 'a list \<Rightarrow> 'a list \<Rightarrow> 'a list option" where
  "copy_bytes n src dst =
     (if 0 \<le> n \<and> n \<le> int (length src) \<and> n \<le> int (length dst)
      then Some (take (nat n) src @ drop (nat n) dst) else None)"

text \<open>The status of a process in an agreement.\<close>

definition NOT_CONTRIBUTED :: "32 word" where "NOT_CONTRIBUTED = 1"
definition GATHERING :: "32 word" where "GATHERING = 2"
definition BROADCASTING :: "32 word" where "BROADCASTING = 3"
definition COMPLETED :: "32 word" where "COMPLETED = 4"
definition OP_NOT_DEFINED :: "32 word" where "OP_NOT_DEFINED = push_bit 31 1"

section \<open>Lists of dead ranks\<close>

fun merge_dead :: "int list \<Rightarrow> int list \<Rightarrow> int list" where
  "merge_dead (d # ds) (s # ss) =
     (if d = s then d # merge_dead ds ss
      else if d < s then d # merge_dead ds (s # ss)
      else s # merge_dead (d # ds) ss)"
| "merge_dead ds [] = ds"
| "merge_dead [] ss = ss"

definition era_merge_new_dead_list :: "era_value_t \<Rightarrow> int \<Rightarrow> int list \<Rightarrow> era_value_t option" where
  "era_merge_new_dead_list v nb_src src =
     (let dst = new_dead_array v; nb_dst = vh_nb_new_dead (header v) in
      if nb_dst + nb_src = 0 then Some v
      else if nb_dst < 0 \<or> nb_src < 0 \<or> nb_dst > int (length dst) \<or> nb_src > int (length src) then None
      else let m = merge_dead (take (nat nb_dst) dst) (take (nat nb_src) src) in
        Some (if int (length m) > nb_dst
              then v\<lparr>new_dead_array := m, header := (header v)\<lparr>vh_nb_new_dead := int (length m)\<rparr>\<rparr>
              else v))"

text \<open>The ranks that the process knows to have failed and that are not agreed on; \<open>k\<close> ranks remain
  from \<open>s\<close> on.\<close>

primrec dead_loop :: "era_comm_t \<Rightarrow> nat \<Rightarrow> int \<Rightarrow> int list \<Rightarrow> int list option" where
  "dead_loop comm 0 s afr = Some []"
| "dead_loop comm (Suc k) s afr =
     (if afr \<noteq> [] \<and> hd afr = s then dead_loop comm k (s + 1) (tl afr)
      else do {
        act \<leftarrow> ec_active comm s;
        ra \<leftarrow> dead_loop comm k (s + 1) afr;
        Some (if \<not> act then s # ra else ra) })"

definition era_update_new_dead_list :: "era_comm_t \<Rightarrow> int list \<Rightarrow> era_value_t \<Rightarrow> era_value_t option" where
  "era_update_new_dead_list comm afr v =
     (if ec_size comm = 1 then Some v
      else do {
        ra \<leftarrow> dead_loop comm (nat (ec_size comm)) 0 afr;
        if int (length ra) > ec_size comm - 1 then None
        else era_merge_new_dead_list v (int (length ra)) ra })"

text \<open>From \<^verbatim>\<open>era_decide\<close>: the new ranks are put into the list of those agreed on, from position
  \<open>s\<close> on; the second result says whether the tree has to be built again.\<close>

function advance :: "int list \<Rightarrow> nat \<Rightarrow> int \<Rightarrow> nat" where
  "advance afr s d = (if s < length afr \<and> afr ! s < d then advance afr (Suc s) d else s)"
  by auto
termination by (relation "measure (\<lambda>(afr, s, d). length afr - s)") auto

declare advance.simps [simp del]

primrec insert_dead :: "int list \<Rightarrow> int list \<Rightarrow> nat \<Rightarrow> int list \<times> bool" where
  "insert_dead [] afr s = (afr, False)"
| "insert_dead (d # ds) afr s =
     (let s = advance afr s d in
      if s = length afr then (afr @ d # ds, True)
      else if afr ! s > d then (fst (insert_dead ds (take s afr @ d # drop s afr) s), True)
      else insert_dead ds afr s)"

section \<open>Acknowledged failures\<close>

text \<open>The return code so far, the ranks acknowledged by the processes that have contributed, and
  their number; \<open>None\<close> is the null pointer.\<close>

record era_acks =
  ak_ret :: int
  ak_acked :: "int list option"
  ak_nb :: int

definition fail_acks :: "era_acks \<Rightarrow> era_acks" where
  "fail_acks a =
     (if ak_nb a > 0 then a\<lparr>ak_ret := MPI_ERR_PROC_FAILED, ak_acked := None, ak_nb := 0\<rparr>
      else a\<lparr>ak_ret := MPI_ERR_PROC_FAILED\<rparr>)"

text \<open>The groups of all failed processes and of the communicator are given by the lists of their
  processes.\<close>

definition era_update_return_value ::
  "'p list \<Rightarrow> 'p list \<Rightarrow> int \<Rightarrow> int list \<Rightarrow> era_acks \<Rightarrow> era_acks option" where
  "era_update_return_value all_failed members nb_acked acked a =
     (if ak_ret a = MPI_ERR_PROC_FAILED then Some a
      else if nb_acked \<ge> 0 then
        (case ak_acked a of
           None \<Rightarrow>
             if nb_acked > int (length acked) then None
             else Some (a\<lparr>ak_acked := (if nb_acked > 0 then Some (take (nat nb_acked) acked) else None),
                           ak_nb := nb_acked\<rparr>)
         | Some mine \<Rightarrow>
             if nb_acked \<noteq> ak_nb a then Some (fail_acks a)
             else if nb_acked = 0 then Some a
             else if nb_acked > int (length acked) \<or> nb_acked > int (length mine) then None
             else if take (nat nb_acked) acked \<noteq> take (nat nb_acked) mine then Some (fail_acks a)
             else Some a)
      else if int (length all_failed) > ak_nb a \<and>
              int (length (filter (\<lambda>p. p \<in> set members) all_failed)) \<noteq> ak_nb a
      then Some (fail_acks a)
      else Some a)"

section \<open>Combination of two values\<close>

text \<open>The first value is taken over; later ones are reduced into it.\<close>

definition first_value :: "era_ops \<Rightarrow> era_value_t \<Rightarrow> era_value_t \<Rightarrow> era_value_t option" where
  "first_value ops cur v =
     (let h = header v; n = ERA_VALUE_BYTES_COUNT ops h in
      map_option (\<lambda>b. cur\<lparr>bytes := b, header := (header cur)\<lparr>vh_operand := vh_operand h, vh_dt_count := vh_dt_count h,
          vh_datatype := vh_datatype h, vh_ret := vh_ret h, vh_min_aid := vh_min_aid h, vh_max_aid := vh_max_aid h\<rparr>\<rparr>)
        (if n > 0 then copy_bytes n (bytes v) (bytes cur) else Some (bytes cur)))"

definition reduce_value :: "era_ops \<Rightarrow> era_value_t \<Rightarrow> era_value_t \<Rightarrow> era_value_t" where
  "reduce_value ops cur v =
     (let h = header v; c = header cur in
      cur\<lparr>bytes := (if vh_dt_count c > 0
                   then op_reduce ops (vh_operand c) (vh_datatype c) (vh_dt_count c) (bytes v) (bytes cur)
                   else bytes cur),
          header := c\<lparr>vh_ret := (if vh_ret h > vh_ret c then vh_ret h else vh_ret c),
            vh_min_aid := (if vh_min_aid h > vh_min_aid c then vh_min_aid h else vh_min_aid c),
            vh_max_aid := (if vh_max_aid h < vh_max_aid c then vh_max_aid h else vh_max_aid c)\<rparr>\<rparr>)"

definition era_combine_agreement_values ::
  "era_ops \<Rightarrow> 32 word \<Rightarrow> era_value_t \<Rightarrow> era_value_t \<Rightarrow> (32 word \<times> era_value_t) option" where
  "era_combine_agreement_values ops status cur v =
     do {
       cur \<leftarrow> (if status AND OP_NOT_DEFINED \<noteq> 0 then first_value ops cur v else Some (reduce_value ops cur v));
       cur \<leftarrow> era_merge_new_dead_list cur (vh_nb_new_dead (header v)) (new_dead_array v);
       Some (status AND NOT OP_NOT_DEFINED, cur) }"

section \<open>Past agreements\<close>

text \<open>The table of past agreements as the list of its entries, in the order of its iteration.\<close>

definition aids_of :: "era_identifier_t \<Rightarrow> 64 word list \<Rightarrow> 16 word list" where
  "aids_of eid ks =
     map id_agreementid (filter (\<lambda>p. id_contextid p = id_contextid eid \<and> id_epoch p = id_epoch eid)
       (map eraid_of_key ks))"

fun run_end :: "16 word \<Rightarrow> 16 word list \<Rightarrow> 16 word" where
  "run_end a [] = a"
| "run_end a (b # bs) = (if uint b \<noteq> uint a + 1 then a else run_end b bs)"

definition era_agreement_value_set_gcrange ::
  "era_identifier_t \<Rightarrow> (64 word \<times> 'v) list \<Rightarrow> era_value_t \<Rightarrow> era_value_t" where
  "era_agreement_value_set_gcrange eid passed v =
     (case sort (aids_of eid (map fst passed)) of
        [] \<Rightarrow> v
      | a # as \<Rightarrow> v\<lparr>header := (header v)\<lparr>vh_min_aid := a, vh_max_aid := run_end a as\<rparr>\<rparr>)"

definition collect_one :: "era_identifier_t \<Rightarrow> nat \<Rightarrow> (64 word \<times> 'v) list \<Rightarrow> (64 word \<times> 'v) list" where
  "collect_one eid r passed =
     (let k = ERAID_KEY (eid\<lparr>id_agreementid := of_nat r\<rparr>) in
      if map_of passed k \<noteq> None then filter (\<lambda>e. fst e \<noteq> k) passed else passed)"

definition era_collect_passed_agreements ::
  "era_identifier_t \<Rightarrow> 16 word \<Rightarrow> 16 word \<Rightarrow> (64 word \<times> 'v) list \<Rightarrow> (64 word \<times> 'v) list" where
  "era_collect_passed_agreements eid min_aid max_aid passed =
     (if min_aid \<le> max_aid
      then fold (collect_one eid) [unat min_aid..<Suc (unat max_aid)] passed else passed)"

end
