(* ===== verification/Era_Protocol.thy ===== *)
theory Era_Protocol
  imports Era_Value "HOL-Library.AList"
begin

text \<open>
  The early returning agreement at one process,
  \<^verbatim>\<open>ompi/mca/coll/ftbasic/coll_ftbasic_agreement_earlyreturning.c\<close>: entering and leaving an
  agreement, the handlers of the three kinds of messages and of a failure. The values of agreements and
  the information that the agreements of a communicator share are objects in stores, since the code
  lets several structures point to the same object. The tables of ongoing and of past agreements are
  lists of entries, in the order in which they are iterated. Assertions are off. The failures that a
  result names are reported to the error manager, which brings further reports of failures; these are
  events of their own in a run.
\<close>

section \<open>Data\<close>

datatype era_msg_type_t = MSG_UP | MSG_DOWN | MSG_RESULT_REQUEST

text \<open>A message; \<^verbatim>\<open>nb_ack\<close> is the length of the list of acknowledged ranks.\<close>

record era_msg_t =
  msg_type :: era_msg_type_t
  msg_id :: era_identifier_t
  src_comm_rank :: int
  src_proc_name :: ptr
  msg_value :: era_value_t
  msg_acks :: "int list"

text \<open>What a handler does outside of the tables: it sends to a rank of a communicator or to a process, or
  an agreement returns to the application.\<close>

datatype era_effect =
    Era_send ptr int era_msg_t
  | Era_reply ptr era_msg_t
  | Era_return "64 word" int "u8 list" "int list"

record era_agreement_info_t =
  agreement_id :: era_identifier_t
  current_value :: ptr
  status :: "32 word"
  ci_comm :: ptr
  ci_req :: bool
  ci_ags :: ptr
  nb_acked :: int
  acked :: "int list option"
  gathered_info :: "int list"
  waiting_res_from :: "int list"
  early_requesters :: "int list"
  waiting_down_from :: int

definition AGS_TREE_DIRTY :: "32 word" where "AGS_TREE_DIRTY = 1"
definition AGS_AFR_DIRTY :: "32 word" where "AGS_AFR_DIRTY = 2"

text \<open>What the agreements of a communicator share. The list of agreed failures is \<open>None\<close> when it has
  been passed on to a newer object (\<^verbatim>\<open>afr_size\<close> is then \<open>-1\<close>).\<close>

record era_comm_agreement_specific_t =
  ags_refs :: nat
  ags_failed_ranks :: "int list option"
  ags_tree :: "era_tree_t list"
  acked_ra :: "int list"
  ags_status :: "32 word"

text \<open>What the agreement uses of a communicator.\<close>

record era_comm_state =
  ecs_comm :: era_comm_t
  ecs_contextid :: "32 word"
  ecs_epoch :: "32 word"
  ecs_members :: "ptr list"
  agreement_specific :: ptr
  agreement_seq_num :: int

record era_env =
  env_ops :: era_ops
  env_layout :: era_layout
  cur_era_topology :: int
  era_rebuild :: bool
  band_index :: int
  int_index :: int
  proc_my_name :: ptr

record era_node =
  en_comms :: "ptr \<Rightarrow> era_comm_state option"
  all_failed_procs :: "ptr list"
  ongoing_agreements :: "(64 word \<times> era_agreement_info_t) list"
  passed_agreements :: "(64 word \<times> ptr) list"
  en_values :: "ptr \<Rightarrow> era_value_t option"
  en_ags :: "ptr \<Rightarrow> era_comm_agreement_specific_t option"
  en_brk :: ptr

definition era_agreement_info_constructor :: "era_identifier_t \<Rightarrow> ptr \<Rightarrow> era_agreement_info_t" where
  "era_agreement_info_constructor eid p =
     \<lparr>agreement_id = eid, current_value = p, status = NOT_CONTRIBUTED OR OP_NOT_DEFINED, ci_comm = NULL,
      ci_req = False, ci_ags = NULL, nb_acked = 0, acked = None, gathered_info = [], waiting_res_from = [],
      early_requesters = [], waiting_down_from = - 1\<rparr>"

definition era_agreement_comm_specific_constructor :: era_comm_agreement_specific_t where
  "era_agreement_comm_specific_constructor =
     \<lparr>ags_refs = 1, ags_failed_ranks = Some [], ags_tree = [], acked_ra = [],
      ags_status = AGS_TREE_DIRTY OR AGS_AFR_DIRTY\<rparr>"

section \<open>Tables and stores\<close>

definition era_lookup_agreement_info :: "era_node \<Rightarrow> 64 word \<Rightarrow> era_agreement_info_t option" where
  "era_lookup_agreement_info n k = map_of (ongoing_agreements n) k"

definition put_ci :: "64 word \<Rightarrow> era_agreement_info_t \<Rightarrow> era_node \<Rightarrow> era_node" where
  "put_ci k ci n = n\<lparr>ongoing_agreements := AList.update k ci (ongoing_agreements n)\<rparr>"

definition put_value :: "ptr \<Rightarrow> era_value_t \<Rightarrow> era_node \<Rightarrow> era_node" where
  "put_value p v n = n\<lparr>en_values := (en_values n)(p \<mapsto> v)\<rparr>"

definition put_ags :: "ptr \<Rightarrow> era_comm_agreement_specific_t \<Rightarrow> era_node \<Rightarrow> era_node" where
  "put_ags p a n = n\<lparr>en_ags := (en_ags n)(p \<mapsto> a)\<rparr>"

definition put_era_comm :: "ptr \<Rightarrow> era_comm_state \<Rightarrow> era_node \<Rightarrow> era_node" where
  "put_era_comm p c n = n\<lparr>en_comms := (en_comms n)(p \<mapsto> c)\<rparr>"

definition new_value :: "era_value_t \<Rightarrow> era_node \<Rightarrow> era_node" where
  "new_value v n = put_value (en_brk n) v (n\<lparr>en_brk := en_brk n + 1\<rparr>)"

definition forget_passed :: "64 word \<Rightarrow> era_node \<Rightarrow> era_node" where
  "forget_passed k n = n\<lparr>passed_agreements := filter (\<lambda>e. fst e \<noteq> k) (passed_agreements n)\<rparr>"

section \<open>Messages\<close>

text \<open>To a rank of the communicator of an agreement, and to a process of which only the name is known.\<close>

definition send_msg ::
  "era_env \<Rightarrow> era_agreement_info_t \<Rightarrow> era_comm_t \<Rightarrow> int \<Rightarrow> era_msg_type_t \<Rightarrow> era_value_t \<Rightarrow> int list \<Rightarrow> era_effect" where
  "send_msg env ci comm dst ty v acks =
     Era_send (ci_comm ci) dst \<lparr>msg_type = ty, msg_id = agreement_id ci, src_comm_rank = ec_my_rank comm,
       src_proc_name = proc_my_name env, msg_value = v, msg_acks = acks\<rparr>"

definition reply_down :: "era_env \<Rightarrow> era_msg_t \<Rightarrow> era_value_t \<Rightarrow> era_effect" where
  "reply_down env m v =
     Era_reply (src_proc_name m) \<lparr>msg_type = MSG_DOWN, msg_id = msg_id m, src_comm_rank = - 1,
       src_proc_name = proc_my_name env, msg_value = v, msg_acks = []\<rparr>"

text \<open>The contribution upwards, with the acknowledged ranks.\<close>

definition send_up :: "era_env \<Rightarrow> era_agreement_info_t \<Rightarrow> era_comm_t \<Rightarrow> int \<Rightarrow> era_value_t \<Rightarrow> era_effect" where
  "send_up env ci comm dst v =
     send_msg env ci comm dst MSG_UP v
       (case acked ci of Some a \<Rightarrow> take (nat (nb_acked ci)) a | None \<Rightarrow> [])"

section \<open>The tree of an agreement\<close>

text \<open>A function on the communicator and the tree of an agreement, which may repair the tree.\<close>

definition on_tree ::
  "(era_comm_t \<Rightarrow> era_tree_t list \<Rightarrow> ('a \<times> era_tree_t list) option) \<Rightarrow> era_agreement_info_t \<Rightarrow> era_node \<Rightarrow> ('a \<times> era_node) option" where
  "on_tree f ci n =
     do {
       c \<leftarrow> en_comms n (ci_comm ci);
       a \<leftarrow> en_ags n (ci_ags ci);
       (x, T) \<leftarrow> f (ecs_comm c) (ags_tree a);
       Some (x, put_ags (ci_ags ci) (a\<lparr>ags_tree := T\<rparr>) n) }"

text \<open>The loop over the children that ends at the first that has not contributed.\<close>

partial_function (option) contributed_loop ::
  "int list \<Rightarrow> era_comm_t \<Rightarrow> era_tree_t list \<Rightarrow> int \<Rightarrow> (bool \<times> era_tree_t list) option" where
  "contributed_loop gathered comm tree r =
     do {
       (r, tree) \<leftarrow> era_next_child comm tree r;
       if r < ec_size comm then
         if r \<notin> set gathered then Some (False, tree) else contributed_loop gathered comm tree r
       else Some (True, tree) }"

text \<open>The other loops over the children only send messages and change lists of ranks, so that they are
  written over the list of the children.\<close>

definition ci_parent :: "era_agreement_info_t \<Rightarrow> era_node \<Rightarrow> (int \<times> era_node) option" where
  "ci_parent = on_tree era_parent"

definition ci_children :: "era_agreement_info_t \<Rightarrow> era_node \<Rightarrow> (int list \<times> era_node) option" where
  "ci_children = on_tree (\<lambda>comm tree. era_children comm tree (- 1))"

definition all_contributed :: "era_agreement_info_t \<Rightarrow> era_node \<Rightarrow> (bool \<times> era_node) option" where
  "all_contributed ci = on_tree (\<lambda>comm tree. contributed_loop (gathered_info ci) comm tree (- 1)) ci"

section \<open>The value of an agreement\<close>

definition ci_update_return_value :: "64 word \<Rightarrow> ptr list \<Rightarrow> int \<Rightarrow> int list \<Rightarrow> era_node \<Rightarrow> era_node option" where
  "ci_update_return_value k members nb acks n =
     do {
       ci \<leftarrow> era_lookup_agreement_info n k;
       v \<leftarrow> en_values n (current_value ci);
       a \<leftarrow> era_update_return_value (all_failed_procs n) members nb acks
              \<lparr>ak_ret = vh_ret (header v), ak_acked = acked ci, ak_nb = nb_acked ci\<rparr>;
       Some (put_value (current_value ci) (v\<lparr>header := (header v)\<lparr>vh_ret := ak_ret a\<rparr>\<rparr>)
              (put_ci k (ci\<lparr>acked := ak_acked a, nb_acked := ak_nb a\<rparr>) n)) }"

definition ci_combine :: "era_ops \<Rightarrow> 64 word \<Rightarrow> era_value_t \<Rightarrow> era_node \<Rightarrow> era_node option" where
  "ci_combine ops k v n =
     do {
       ci \<leftarrow> era_lookup_agreement_info n k;
       cur \<leftarrow> en_values n (current_value ci);
       (st, cur) \<leftarrow> era_combine_agreement_values ops (status ci) cur v;
       Some (put_value (current_value ci) cur (put_ci k (ci\<lparr>status := st\<rparr>) n)) }"

text \<open>The bytes of a new value are not initialised; the first contribution overwrites them.\<close>

definition era_create_agreement_info :: "era_ops \<Rightarrow> era_identifier_t \<Rightarrow> era_value_header_t \<Rightarrow> era_node \<Rightarrow> era_node" where
  "era_create_agreement_info ops eid h n =
     put_ci (ERAID_KEY eid) (era_agreement_info_constructor eid (en_brk n))
       (new_value \<lparr>header = h, bytes = replicate (nat (ERA_VALUE_BYTES_COUNT ops h)) 0,
                   new_dead_array = replicate (nat (vh_nb_new_dead h)) (- 1)\<rparr> n)"

section \<open>Leaving an agreement\<close>

definition era_complete_agreement :: "era_env \<Rightarrow> 64 word \<Rightarrow> era_node \<Rightarrow> (era_node \<times> era_effect list) option" where
  "era_complete_agreement env k n =
     do {
       ci \<leftarrow> era_lookup_agreement_info n k;
       let n = n\<lparr>ongoing_agreements := filter (\<lambda>e. fst e \<noteq> k) (ongoing_agreements n)\<rparr>;
       c \<leftarrow> en_comms n (ci_comm ci);
       p \<leftarrow> map_of (passed_agreements n) k;
       v \<leftarrow> en_values n p;
       a \<leftarrow> en_ags n (agreement_specific c);
       afr \<leftarrow> ags_failed_ranks a;
       let len = ERA_VALUE_BYTES_COUNT (env_ops env) (header v);
       if len > int (length (bytes v)) then None
       else Some (n, [Era_return k (vh_ret (header v)) (take (nat len) (bytes v)) afr]) }"

section \<open>Decision\<close>

definition add_agreed_failures :: "bool \<Rightarrow> ptr \<Rightarrow> era_value_t \<Rightarrow> era_node \<Rightarrow> era_node option" where
  "add_agreed_failures rebuild p v n =
     (if vh_nb_new_dead (header v) = 0 then Some n
      else if vh_nb_new_dead (header v) > int (length (new_dead_array v)) then None
      else do {
        a \<leftarrow> en_ags n p;
        afr \<leftarrow> ags_failed_ranks a;
        let (afr, dirty) = insert_dead (take (nat (vh_nb_new_dead (header v))) (new_dead_array v)) afr 0;
        Some (put_ags p
          (a\<lparr>ags_failed_ranks := Some afr,
             ags_status := (if rebuild \<and> dirty then ags_status a OR AGS_TREE_DIRTY else ags_status a)\<rparr>) n) })"

text \<open>The end of \<^verbatim>\<open>era_decide\<close>: the value goes to the children \<open>rs\<close> and to those who have asked
  for it.\<close>

definition era_distribute ::
  "era_env \<Rightarrow> 64 word \<Rightarrow> era_agreement_info_t \<Rightarrow> era_comm_state \<Rightarrow> era_value_t \<Rightarrow> int list \<Rightarrow> era_node \<Rightarrow>
   (era_node \<times> era_effect list) option" where
  "era_distribute env k ci c v rs n =
     (let early = fold remove1 rs (early_requesters ci);
          n = put_ci k (ci\<lparr>status := COMPLETED, early_requesters := early\<rparr>) n;
          n = n\<lparr>passed_agreements := era_collect_passed_agreements (agreement_id ci) (vh_min_aid (header v))
                (vh_max_aid (header v)) (passed_agreements n)\<rparr>;
          out = map (\<lambda>r. send_msg env ci (ecs_comm c) r MSG_DOWN v []) (rs @ early)
      in if ci_req ci then do {
           (n, out') \<leftarrow> era_complete_agreement env k n;
           Some (n, out @ out') }
         else Some (n, out))"

definition era_decide :: "era_env \<Rightarrow> 64 word \<Rightarrow> ptr \<Rightarrow> era_node \<Rightarrow> (era_node \<times> era_effect list) option" where
  "era_decide env k p n =
     do {
       ci \<leftarrow> era_lookup_agreement_info n k;
       if status ci = COMPLETED then Some (n, [])
       else do {
         let n = put_ci k (ci\<lparr>status := COMPLETED\<rparr>) n;
         let n = n\<lparr>passed_agreements := AList.update k p (passed_agreements n)\<rparr>;
         c \<leftarrow> en_comms n (ci_comm ci);
         v \<leftarrow> en_values n p;
         n \<leftarrow> add_agreed_failures (era_rebuild env) (agreement_specific c) v n;
         (rs, n) \<leftarrow> ci_children ci n;
         era_distribute env k ci c v rs n } }"

section \<open>The state machine\<close>

text \<open>When all children have contributed: a decision at the root, otherwise a message to the parent.\<close>

definition era_pass_up :: "era_env \<Rightarrow> 64 word \<Rightarrow> era_node \<Rightarrow> (era_node \<times> era_effect list) option" where
  "era_pass_up env k n =
     do {
       ci \<leftarrow> era_lookup_agreement_info n k;
       c \<leftarrow> en_comms n (ci_comm ci);
       n \<leftarrow> ci_update_return_value k (ecs_members c) (- 1) [] n;
       ci \<leftarrow> era_lookup_agreement_info n k;
       (r, n) \<leftarrow> ci_parent ci n;
       if ec_my_rank (ecs_comm c) = r then era_decide env k (current_value ci) n
       else do {
         v \<leftarrow> en_values n (current_value ci);
         Some (put_ci k (ci\<lparr>waiting_down_from := r, status := BROADCASTING\<rparr>) n,
           [send_up env ci (ecs_comm c) r v]) } }"

definition era_check_status :: "era_env \<Rightarrow> 64 word \<Rightarrow> era_node \<Rightarrow> (era_node \<times> era_effect list) option" where
  "era_check_status env k n =
     do {
       ci \<leftarrow> era_lookup_agreement_info n k;
       if status ci = GATHERING then do {
         (_, n) \<leftarrow> ci_parent ci n;
         (b, n) \<leftarrow> all_contributed ci n;
         if b then era_pass_up env k n else Some (n, []) }
       else Some (n, []) }"

text \<open>Questions for the result to some of the children.\<close>

definition request_results ::
  "era_env \<Rightarrow> (int \<Rightarrow> bool) \<Rightarrow> 64 word \<Rightarrow> era_node \<Rightarrow> (era_node \<times> era_effect list) option" where
  "request_results env P k n =
     do {
       ci \<leftarrow> era_lookup_agreement_info n k;
       c \<leftarrow> en_comms n (ci_comm ci);
       v \<leftarrow> en_values n (current_value ci);
       (rs, n) \<leftarrow> ci_children ci n;
       let new = filter P rs;
       Some (put_ci k (ci\<lparr>waiting_res_from := waiting_res_from ci @ new\<rparr>) n,
         map (\<lambda>r. send_msg env ci (ecs_comm c) r MSG_RESULT_REQUEST v []) new) }"

definition restart_agreement_from_me :: "era_env \<Rightarrow> 64 word \<Rightarrow> era_node \<Rightarrow> (era_node \<times> era_effect list) option" where
  "restart_agreement_from_me env k n =
     do {
       ci \<leftarrow> era_lookup_agreement_info n k;
       (n, out) \<leftarrow> request_results env (\<lambda>_. True) k (put_ci k (ci\<lparr>status := GATHERING\<rparr>) n);
       (n, out') \<leftarrow> era_check_status env k n;
       Some (n, out @ out') }"

definition set_failed :: "era_value_t \<Rightarrow> era_value_t" where
  "set_failed v = v\<lparr>header := (header v)\<lparr>vh_ret := MPI_ERR_PROC_FAILED\<rparr>\<rparr>"

definition era_mark_process_failed :: "era_env \<Rightarrow> 64 word \<Rightarrow> int \<Rightarrow> era_node \<Rightarrow> (era_node \<times> era_effect list) option" where
  "era_mark_process_failed env k rank n =
     do {
       ci \<leftarrow> era_lookup_agreement_info n k;
       v \<leftarrow> en_values n (current_value ci);
       let v = (if status ci > NOT_CONTRIBUTED then set_failed v else v);
       let n = put_value (current_value ci) v n;
       if status ci = BROADCASTING then
         if rank = waiting_down_from ci then do {
           c \<leftarrow> en_comms n (ci_comm ci);
           (r, n) \<leftarrow> ci_parent ci n;
           if r = ec_my_rank (ecs_comm c) then restart_agreement_from_me env k n
           else Some (put_ci k (ci\<lparr>waiting_down_from := r\<rparr>) n, [send_up env ci (ecs_comm c) r v]) }
         else Some (n, [])
       else if status ci = GATHERING then do {
         (n, out) \<leftarrow> (if rank \<in> set (waiting_res_from ci) then
             let ws = remove1 rank (waiting_res_from ci)
             in request_results env (\<lambda>r. r \<notin> set ws) k (put_ci k (ci\<lparr>waiting_res_from := ws\<rparr>) n)
           else Some (n, []));
         (n, out') \<leftarrow> era_check_status env k n;
         Some (n, out @ out') }
       else Some (n, []) }"

section \<open>Handlers of messages\<close>

text \<open>An agreement that the process has not entered is created with the dead ranks of the message.\<close>

definition era_create_from_message :: "era_env \<Rightarrow> era_msg_t \<Rightarrow> era_node \<Rightarrow> era_node option" where
  "era_create_from_message env m n =
     (let h = header (msg_value m); p = en_brk n;
          n = era_create_agreement_info (env_ops env) (msg_id m) h n
      in if vh_nb_new_dead h > 0 then do {
           v \<leftarrow> en_values n p;
           ds \<leftarrow> copy_bytes (vh_nb_new_dead h) (new_dead_array (msg_value m)) (new_dead_array v);
           Some (put_value p (v\<lparr>new_dead_array := ds\<rparr>) n) }
         else Some n)"

definition ci_members :: "era_agreement_info_t \<Rightarrow> era_node \<Rightarrow> ptr list" where
  "ci_members ci n = (case en_comms n (ci_comm ci) of Some c \<Rightarrow> ecs_members c | None \<Rightarrow> [])"

definition msg_up :: "era_env \<Rightarrow> era_msg_t \<Rightarrow> era_node \<Rightarrow> (era_node \<times> era_effect list) option" where
  "msg_up env m n =
     (let k = ERAID_KEY (msg_id m) in
      case map_of (passed_agreements n) k of
        Some p \<Rightarrow> do { v \<leftarrow> en_values n p; Some (n, [reply_down env m v]) }
      | None \<Rightarrow> do {
          n \<leftarrow> (if era_lookup_agreement_info n k = None then era_create_from_message env m n else Some n);
          ci \<leftarrow> era_lookup_agreement_info n k;
          if status ci = BROADCASTING then
            Some (if src_comm_rank m \<in> set (early_requesters ci) then n
                  else put_ci k (ci\<lparr>early_requesters := early_requesters ci @ [src_comm_rank m]\<rparr>) n, [])
          else if src_comm_rank m \<in> set (gathered_info ci) then era_check_status env k n
          else do {
            n \<leftarrow> ci_combine (env_ops env) k (msg_value m) n;
            n \<leftarrow> ci_update_return_value k (ci_members ci n) (int (length (msg_acks m))) (msg_acks m) n;
            ci \<leftarrow> era_lookup_agreement_info n k;
            era_check_status env k (put_ci k (ci\<lparr>gathered_info := gathered_info ci @ [src_comm_rank m]\<rparr>) n) } })"

definition msg_down :: "era_env \<Rightarrow> era_msg_t \<Rightarrow> era_node \<Rightarrow> (era_node \<times> era_effect list) option" where
  "msg_down env m n =
     (let k = ERAID_KEY (msg_id m) in
      if era_lookup_agreement_info n k = None then Some (n, [])
      else era_decide env k (en_brk n) (new_value (msg_value m) n))"

definition success_value :: "era_env \<Rightarrow> era_value_t" where
  "success_value env =
     era_value_constructor\<lparr>header := (header era_value_constructor)\<lparr>vh_ret := MPI_SUCCESS, vh_dt_count := 0,
       vh_operand := band_index env, vh_datatype := int_index env, vh_nb_new_dead := 0\<rparr>\<rparr>"

definition result_request :: "era_env \<Rightarrow> era_msg_t \<Rightarrow> era_node \<Rightarrow> (era_node \<times> era_effect list) option" where
  "result_request env m n =
     (let k = ERAID_KEY (msg_id m);
          late = (if vh_dt_count (header (msg_value m)) = 0 then [reply_down env m (success_value env)] else [])
      in case map_of (passed_agreements n) k of
        Some p \<Rightarrow> do { v \<leftarrow> en_values n p; Some (n, [reply_down env m v]) }
      | None \<Rightarrow>
          (case era_lookup_agreement_info n k of
             Some ci \<Rightarrow>
               if status ci = BROADCASTING then do {
                 c \<leftarrow> en_comms n (ci_comm ci);
                 (r, n) \<leftarrow> ci_parent ci n;
                 if r = ec_my_rank (ecs_comm c) then Some (n, [])
                 else do {
                   v \<leftarrow> en_values n (current_value ci);
                   Some (put_ci k (ci\<lparr>waiting_down_from := r\<rparr>) n, [send_up env ci (ecs_comm c) r v]) } }
               else Some (n, late)
           | None \<Rightarrow> Some (n, late)))"

text \<open>The end of \<^verbatim>\<open>era_cb_fn\<close>.\<close>

definition era_receive :: "era_env \<Rightarrow> era_msg_t \<Rightarrow> era_node \<Rightarrow> (era_node \<times> era_effect list) option" where
  "era_receive env m n =
     (case msg_type m of
        MSG_RESULT_REQUEST \<Rightarrow> result_request env m n
      | MSG_UP \<Rightarrow> msg_up env m n
      | MSG_DOWN \<Rightarrow> msg_down env m n)"

section \<open>Handler of failures\<close>

text \<open>Whether an agreement belongs to a communicator.\<close>

definition id_of_comm :: "era_comm_state \<Rightarrow> 64 word \<Rightarrow> bool" where
  "id_of_comm c k =
     (ucast (id_contextid (eraid_of_key k)) = ecs_contextid c \<and> id_epoch (eraid_of_key k) = ecs_epoch c)"

primrec era_mark_loop ::
  "era_env \<Rightarrow> era_comm_state \<Rightarrow> int \<Rightarrow> 64 word list \<Rightarrow> era_node \<Rightarrow> (era_node \<times> era_effect list) option" where
  "era_mark_loop env c rank [] n = Some (n, [])"
| "era_mark_loop env c rank (k # ks) n =
     do {
       (n, out) \<leftarrow> (if id_of_comm c k then era_mark_process_failed env k rank n else Some (n, []));
       (n, out') \<leftarrow> era_mark_loop env c rank ks n;
       Some (n, out @ out') }"

text \<open>For a communicator of one group; the incomplete messages of the failed process are dropped by
  \<^verbatim>\<open>discard_incomplete\<close> of the theory of messages.\<close>

definition era_on_comm_rank_failure :: "era_env \<Rightarrow> ptr \<Rightarrow> int \<Rightarrow> era_node \<Rightarrow> (era_node \<times> era_effect list) option" where
  "era_on_comm_rank_failure env comm rank n =
     do {
       c \<leftarrow> en_comms n comm;
       let n = (case en_ags n (agreement_specific c) of
                  Some a \<Rightarrow> put_ags (agreement_specific c) (a\<lparr>ags_status := ags_status a OR AGS_AFR_DIRTY\<rparr>) n
                | None \<Rightarrow> n);
       era_mark_loop env c rank (map fst (ongoing_agreements n)) n }"

section \<open>Entering an agreement\<close>

text \<open>When the tree or the list of failures is out of date and other agreements still use the object, the
  communicator gets a new one, which takes over the list of failures.\<close>

definition ags_renew :: "ptr \<Rightarrow> era_comm_state \<Rightarrow> era_comm_agreement_specific_t \<Rightarrow> era_node \<Rightarrow> era_node" where
  "ags_renew comm c old n =
     (if ags_status old AND (AGS_TREE_DIRTY OR AGS_AFR_DIRTY) \<noteq> 0 \<and> ags_refs old > 1 then
        let dirty = ags_status old AND AGS_TREE_DIRTY \<noteq> 0;
            moved = (ags_failed_ranks old \<noteq> Some [] \<and> ags_failed_ranks old \<noteq> None);
            new = \<lparr>ags_refs = 1,
                   ags_failed_ranks = (if moved then ags_failed_ranks old else Some []),
                   ags_tree = (if dirty then [] else ags_tree old), acked_ra = [], ags_status = ags_status old\<rparr>;
            p = en_brk n
        in put_era_comm comm (c\<lparr>agreement_specific := p\<rparr>)
             (put_ags p new
               (put_ags (agreement_specific c)
                 (old\<lparr>ags_refs := ags_refs old - 1, ags_status := 0,
                      ags_failed_ranks := (if moved then None else ags_failed_ranks old)\<rparr>)
                 (n\<lparr>en_brk := p + 1\<rparr>)))
      else n)"

definition era_ci_get_clean_ags_copy :: "era_env \<Rightarrow> 64 word \<Rightarrow> era_node \<Rightarrow> era_node option" where
  "era_ci_get_clean_ags_copy env k n =
     do {
       ci \<leftarrow> era_lookup_agreement_info n k;
       c \<leftarrow> en_comms n (ci_comm ci);
       old \<leftarrow> en_ags n (agreement_specific c);
       let n = ags_renew (ci_comm ci) c old n;
       c \<leftarrow> en_comms n (ci_comm ci);
       a \<leftarrow> en_ags n (agreement_specific c);
       afr \<leftarrow> ags_failed_ranks a;
       T \<leftarrow> (if ags_status a AND AGS_TREE_DIRTY \<noteq> 0
             then era_build_tree_structure (env_layout env) (cur_era_topology env) (era_tree_fn_of (cur_era_topology env))
                    (ec_size (ecs_comm c)) afr
             else Some (ags_tree a));
       v \<leftarrow> en_values n (current_value ci);
       v \<leftarrow> (if ags_status a AND AGS_AFR_DIRTY \<noteq> 0 then era_update_new_dead_list (ecs_comm c) afr v else Some v);
       Some (put_ci k (ci\<lparr>ci_ags := agreement_specific c\<rparr>)
         (put_value (current_value ci) v
           (put_ags (agreement_specific c)
             (a\<lparr>ags_refs := ags_refs a + 1, ags_tree := T,
                ags_status := ags_status a AND NOT (AGS_TREE_DIRTY OR AGS_AFR_DIRTY)\<rparr>) n))) }"

text \<open>The first agreement on a communicator creates the object.\<close>

definition ags_attach :: "ptr \<Rightarrow> era_comm_state \<Rightarrow> era_node \<Rightarrow> era_node" where
  "ags_attach comm c n =
     (if agreement_specific c = NULL
      then put_era_comm comm (c\<lparr>agreement_specific := en_brk n\<rparr>)
             (put_ags (en_brk n) era_agreement_comm_specific_constructor (n\<lparr>en_brk := en_brk n + 1\<rparr>))
      else n)"

definition era_agreement_info_set_comm :: "era_env \<Rightarrow> 64 word \<Rightarrow> ptr \<Rightarrow> ptr list \<Rightarrow> era_node \<Rightarrow> era_node option" where
  "era_agreement_info_set_comm env k comm acked_group n =
     do {
       ci \<leftarrow> era_lookup_agreement_info n k;
       let n = put_ci k (ci\<lparr>ci_comm := comm\<rparr>) n;
       c \<leftarrow> en_comms n comm;
       let n = ags_attach comm c n;
       c \<leftarrow> en_comms n comm;
       a \<leftarrow> en_ags n (agreement_specific c);
       let ra = (if acked_group \<noteq> [] \<and> length acked_group \<noteq> length (acked_ra a)
                 then sort (map (\<lambda>p. case index_of (ecs_members c) p of Some i \<Rightarrow> int i | None \<Rightarrow> MPI_UNDEFINED) acked_group)
                 else acked_ra a);
       let n = put_ags (agreement_specific c) (a\<lparr>acked_ra := ra\<rparr>) n;
       n \<leftarrow> ci_update_return_value k (ecs_members c) (int (length acked_group)) ra n;
       era_ci_get_clean_ags_copy env k n }"

definition next_seq_num :: "int \<Rightarrow> int" where
  "next_seq_num s = (if s = 65535 then 1 else s + 1)"

definition next_agreement_id :: "era_comm_state \<Rightarrow> era_identifier_t" where
  "next_agreement_id c =
     \<lparr>id_agreementid = of_int (next_seq_num (agreement_seq_num c)), id_contextid = ucast (ecs_contextid c), id_epoch = ecs_epoch c\<rparr>"

definition era_prepare_agreement ::
  "era_env \<Rightarrow> ptr \<Rightarrow> ptr list \<Rightarrow> int \<Rightarrow> int \<Rightarrow> int \<Rightarrow> u8 list \<Rightarrow> era_node \<Rightarrow> ((64 word \<times> era_effect list) \<times> era_node) option" where
  "era_prepare_agreement env comm grp op dt dt_count contrib n =
     do {
       c \<leftarrow> en_comms n comm;
       let n = put_era_comm comm (c\<lparr>agreement_seq_num := next_seq_num (agreement_seq_num c)\<rparr>) n;
       let eid = next_agreement_id c;
       let k = ERAID_KEY eid;
       let v = era_value_constructor\<lparr>header := (header era_value_constructor)\<lparr>vh_ret := 0, vh_operand := op,
                 vh_dt_count := dt_count, vh_datatype := dt, vh_nb_new_dead := 0\<rparr>\<rparr>;
       let n = (if era_lookup_agreement_info n k = None then era_create_agreement_info (env_ops env) eid (header v) n else n);
       n \<leftarrow> era_agreement_info_set_comm env k comm grp n;
       let n = forget_passed k n;
       let v = era_agreement_value_set_gcrange eid (passed_agreements n) (v\<lparr>bytes := contrib\<rparr>);
       n \<leftarrow> ci_combine (env_ops env) k v n;
       ci \<leftarrow> era_lookup_agreement_info n k;
       (n, out) \<leftarrow> era_check_status env k (put_ci k (ci\<lparr>status := GATHERING\<rparr>) n);
       Some ((k, out), n) }"

text \<open>The nonblocking call, and the two parts of the blocking one, before and after its loop that waits
  until the status is \<^verbatim>\<open>COMPLETED\<close>.\<close>

definition agreement_era_intra_enter ::
  "era_env \<Rightarrow> ptr \<Rightarrow> ptr list \<Rightarrow> int \<Rightarrow> int \<Rightarrow> int \<Rightarrow> u8 list \<Rightarrow> era_node \<Rightarrow> (era_node \<times> era_effect list) option" where
  "agreement_era_intra_enter env comm grp op dt dt_count contrib n =
     do {
       ((k, out), n) \<leftarrow> era_prepare_agreement env comm grp op dt dt_count contrib n;
       Some (n, out) }"

definition agreement_era_intra_return :: "era_env \<Rightarrow> 64 word \<Rightarrow> era_node \<Rightarrow> (era_node \<times> era_effect list) option" where
  "agreement_era_intra_return env k n =
     do {
       ci \<leftarrow> era_lookup_agreement_info n k;
       if status ci = COMPLETED then era_complete_agreement env k n else Some (n, []) }"

definition iagreement_era_intra ::
  "era_env \<Rightarrow> ptr \<Rightarrow> ptr list \<Rightarrow> int \<Rightarrow> int \<Rightarrow> int \<Rightarrow> u8 list \<Rightarrow> era_node \<Rightarrow> (era_node \<times> era_effect list) option" where
  "iagreement_era_intra env comm grp op dt dt_count contrib n =
     do {
       ((k, out), n) \<leftarrow> era_prepare_agreement env comm grp op dt dt_count contrib n;
       ci \<leftarrow> era_lookup_agreement_info n k;
       let n = put_ci k (ci\<lparr>ci_req := True\<rparr>) n;
       if status ci = COMPLETED then do {
         (n, out') \<leftarrow> era_complete_agreement env k n;
         Some (n, out @ out') }
       else Some (n, out) }"

section \<open>Runs\<close>

text \<open>What happens to a process: a message arrives, a failure is reported, or the application enters an
  agreement or is about to leave one. A failure has been recorded by the communicator layer before the
  handler is called.\<close>

datatype era_event =
    Ev_message era_msg_t
  | Ev_failure ptr int
  | Ev_iagree ptr "ptr list" int int int "u8 list"
  | Ev_agree ptr "ptr list" int int int "u8 list"
  | Ev_return "64 word"

definition record_failure :: "ptr \<Rightarrow> int \<Rightarrow> era_node \<Rightarrow> era_node option" where
  "record_failure comm rank n =
     do {
       c \<leftarrow> en_comms n comm;
       p \<leftarrow> rd (ecs_members c) rank;
       Some (put_era_comm comm (c\<lparr>ecs_comm := (ecs_comm c)\<lparr>ec_active := (ec_active (ecs_comm c))(rank := Some False)\<rparr>\<rparr>)
         (n\<lparr>all_failed_procs := (if p \<in> set (all_failed_procs n) then all_failed_procs n else all_failed_procs n @ [p])\<rparr>)) }"

definition era_step :: "era_env \<Rightarrow> era_event \<Rightarrow> era_node \<Rightarrow> (era_node \<times> era_effect list) option" where
  "era_step env ev n =
     (case ev of
        Ev_message m \<Rightarrow> era_receive env m n
      | Ev_failure comm rank \<Rightarrow> do { n \<leftarrow> record_failure comm rank n; era_on_comm_rank_failure env comm rank n }
      | Ev_iagree comm grp op dt dt_count contrib \<Rightarrow> iagreement_era_intra env comm grp op dt dt_count contrib n
      | Ev_agree comm grp op dt dt_count contrib \<Rightarrow> agreement_era_intra_enter env comm grp op dt dt_count contrib n
      | Ev_return k \<Rightarrow> agreement_era_intra_return env k n)"

primrec era_run :: "era_env \<Rightarrow> era_event list \<Rightarrow> era_node \<Rightarrow> (era_node \<times> era_effect list) option" where
  "era_run env [] n = Some (n, [])"
| "era_run env (ev # evs) n =
     do {
       (n, out) \<leftarrow> era_step env ev n;
       (n, out') \<leftarrow> era_run env evs n;
       Some (n, out @ out') }"

end
