(* ===== verification/Era_Protocol_Correct.thy ===== *)
theory Era_Protocol_Correct
  imports Era_Protocol
begin

text \<open>
  Correctness of the handlers of the early returning agreement: what each of them may change, the
  well-formedness of the tables, and what becomes of a decision in a run.
\<close>

section \<open>What a handler may change\<close>

text \<open>The identifiers of the communicators never change. \<open>touches k b n n'\<close>: from \<open>n\<close> to \<open>n'\<close> only agreement \<open>k\<close>, its value and objects allocated
  from \<open>b\<close> on have changed, apart from past agreements that were forgotten.\<close>

definition comm_ids :: "era_node \<Rightarrow> ptr \<Rightarrow> (32 word \<times> 32 word) option" where
  "comm_ids n p = map_option (\<lambda>c. (ecs_contextid c, ecs_epoch c)) (en_comms n p)"

lemma comm_ids_cong: "en_comms n' = en_comms n \<Longrightarrow> comm_ids n' = comm_ids n"
  by (simp add: comm_ids_def fun_eq_iff)

definition touches :: "64 word \<Rightarrow> ptr \<Rightarrow> era_node \<Rightarrow> era_node \<Rightarrow> bool" where
  "touches k b n n' \<longleftrightarrow>
     comm_ids n' = comm_ids n \<and> en_brk n \<le> en_brk n' \<and>
     (\<forall>j. j \<noteq> k \<longrightarrow> era_lookup_agreement_info n' j = era_lookup_agreement_info n j) \<and>
     (\<forall>q < b. (\<forall>ci. era_lookup_agreement_info n k = Some ci \<longrightarrow> q \<noteq> current_value ci) \<longrightarrow> en_values n' q = en_values n q) \<and>
     (\<forall>ci'. era_lookup_agreement_info n' k = Some ci' \<longrightarrow>
        (\<exists>ci. era_lookup_agreement_info n k = Some ci \<and> current_value ci' = current_value ci \<and> agreement_id ci' = agreement_id ci) \<or>
        b \<le> current_value ci' \<and> current_value ci' < en_brk n' \<and> ERAID_KEY (agreement_id ci') = k) \<and>
     (\<forall>j. j \<noteq> k \<longrightarrow> map_of (passed_agreements n') j \<in> {map_of (passed_agreements n) j, None}) \<and>
     (\<forall>q. map_of (passed_agreements n') k = Some q \<longrightarrow>
        map_of (passed_agreements n) k = Some q \<or> b \<le> q \<and> q < en_brk n' \<or>
        (\<exists>ci. era_lookup_agreement_info n k = Some ci \<and> q = current_value ci))"




text \<open>What a handler does is about one agreement.\<close>

fun effect_about :: "64 word \<Rightarrow> era_effect \<Rightarrow> bool" where
  "effect_about k (Era_send _ _ m) = (ERAID_KEY (msg_id m) = k)"
| "effect_about k (Era_reply _ m) = (ERAID_KEY (msg_id m) = k)"
| "effect_about k (Era_return j _ _ _) = (j = k)"

definition acts :: "64 word \<Rightarrow> ptr \<Rightarrow> era_node \<Rightarrow> era_node \<times> era_effect list \<Rightarrow> bool" where
  "acts k b n r \<longleftrightarrow> touches k b n (fst r) \<and> (\<forall>e \<in> set (snd r). effect_about k e)"






section \<open>Single changes\<close>

lemma lookup_put [simp]:
  "era_lookup_agreement_info (put_ci k ci n) j = (if j = k then Some ci else era_lookup_agreement_info n j)"
  "era_lookup_agreement_info (put_value p v n) j = era_lookup_agreement_info n j"
  "era_lookup_agreement_info (put_ags p a n) j = era_lookup_agreement_info n j"
  "era_lookup_agreement_info (put_era_comm p c n) j = era_lookup_agreement_info n j"
  "era_lookup_agreement_info (new_value v n) j = era_lookup_agreement_info n j"
  "era_lookup_agreement_info (n\<lparr>passed_agreements := ps\<rparr>) j = era_lookup_agreement_info n j"
  "era_lookup_agreement_info (n\<lparr>all_failed_procs := fs\<rparr>) j = era_lookup_agreement_info n j"
  by (simp_all add: era_lookup_agreement_info_def put_ci_def put_value_def put_ags_def put_era_comm_def new_value_def update_conv')

lemma node_put [simp]:
  "en_comms (put_ci k ci n) = en_comms n" "en_brk (put_ci k ci n) = en_brk n" "en_values (put_ci k ci n) = en_values n"
  "passed_agreements (put_ci k ci n) = passed_agreements n" "en_ags (put_ci k ci n) = en_ags n"
  "en_comms (put_value p v n) = en_comms n" "en_brk (put_value p v n) = en_brk n"
  "en_values (put_value p v n) = (en_values n)(p \<mapsto> v)" "passed_agreements (put_value p v n) = passed_agreements n"
  "en_ags (put_value p v n) = en_ags n"
  "en_comms (put_ags p a n) = en_comms n" "en_brk (put_ags p a n) = en_brk n" "en_values (put_ags p a n) = en_values n"
  "passed_agreements (put_ags p a n) = passed_agreements n" "en_ags (put_ags p a n) = (en_ags n)(p \<mapsto> a)"
  "en_comms (put_era_comm p c n) = (en_comms n)(p \<mapsto> c)" "en_brk (put_era_comm p c n) = en_brk n" "en_values (put_era_comm p c n) = en_values n"
  "passed_agreements (put_era_comm p c n) = passed_agreements n" "en_ags (put_era_comm p c n) = en_ags n"
  "en_comms (new_value v n) = en_comms n" "en_brk (new_value v n) = en_brk n + 1"
  "en_values (new_value v n) = (en_values n)(en_brk n \<mapsto> v)" "passed_agreements (new_value v n) = passed_agreements n"
  "en_ags (new_value v n) = en_ags n"
  by (simp_all add: put_ci_def put_value_def put_ags_def put_era_comm_def new_value_def)

lemma comm_ids_put [simp]:
  "comm_ids (put_ci k ci n) = comm_ids n" "comm_ids (put_value p v n) = comm_ids n" "comm_ids (put_ags p a n) = comm_ids n"
  "comm_ids (new_value v n) = comm_ids n" "comm_ids (n\<lparr>passed_agreements := ps\<rparr>) = comm_ids n"
  "comm_ids (n\<lparr>ongoing_agreements := os\<rparr>) = comm_ids n" "comm_ids (n\<lparr>en_brk := b\<rparr>) = comm_ids n"
  "comm_ids (n\<lparr>all_failed_procs := fs\<rparr>) = comm_ids n"
  by (rule comm_ids_cong, simp)+







section \<open>Handlers\<close>










lemma about_send [simp]:
  "effect_about k (send_msg env ci comm r ty v as) = (ERAID_KEY (agreement_id ci) = k)"
  "effect_about k (send_up env ci comm r v) = (ERAID_KEY (agreement_id ci) = k)"
  "effect_about k (reply_down env m v) = (ERAID_KEY (msg_id m) = k)"
  by (simp_all add: send_msg_def send_up_def reply_down_def)










lemma acts_Nil [simp]: "acts k b n (n', []) = touches k b n n'"
  by (simp add: acts_def)






lemma create_form:
  assumes "era_create_from_message env m n = Some n'"
  shows "\<exists>v. n' = put_value (en_brk n) v (era_create_agreement_info (env_ops env) (msg_id m) (header (msg_value m)) n) \<or>
    n' = era_create_agreement_info (env_ops env) (msg_id m) (header (msg_value m)) n"
  using assms by (auto simp: era_create_from_message_def Let_def ub_simps split: if_splits)

lemma create_lookup:
  "era_create_from_message env m n = Some n' \<Longrightarrow>
   era_lookup_agreement_info n' (ERAID_KEY (msg_id m)) = Some (era_agreement_info_constructor (msg_id m) (en_brk n))"
  using create_form [of env m n n'] by (auto simp: era_create_agreement_info_def)






section \<open>Entering and leaving an agreement\<close>

lemma lookup_update [simp]:
  "era_lookup_agreement_info (n\<lparr>en_brk := x\<rparr>) j = era_lookup_agreement_info n j"
  "era_lookup_agreement_info (forget_passed k n) j = era_lookup_agreement_info n j"
  by (simp_all add: era_lookup_agreement_info_def forget_passed_def)






lemma lookup_renew [simp]: "era_lookup_agreement_info (ags_renew comm c old n) k = era_lookup_agreement_info n k"
  by (simp add: ags_renew_def Let_def)






section \<open>Well-formed tables\<close>






section \<open>A decision is kept\<close>






lemma COMPLETED_status [simp]: "COMPLETED \<noteq> GATHERING" "COMPLETED \<noteq> BROADCASTING" "NOT_CONTRIBUTED < COMPLETED"
  by (simp_all add: COMPLETED_def GATHERING_def BROADCASTING_def NOT_CONTRIBUTED_def)



lemma set_failed_twice [simp]: "set_failed (set_failed v) = set_failed v"
  by (simp add: set_failed_def)


section \<open>Runs\<close>















section \<open>The decision\<close>







section \<open>Examples\<close>

declare era_children.simps [code] child_loop.simps [code] sibling_loop.simps [code] parent_loop.simps [code]
  contributed_loop.simps [code] reattach_loop.simps [code] before_loop.simps [code] least_loop.simps [code] adopt_loop.simps [code]

definition pair_tree :: "era_tree_t list" where
  "pair_tree = [\<lparr>rank_in_comm = 0, parent = 0, next_sibling = 2, first_child = 1\<rparr>,
                \<lparr>rank_in_comm = 1, parent = 0, next_sibling = 2, first_child = 2\<rparr>]"

definition pair_eid :: era_identifier_t where
  "pair_eid = \<lparr>id_agreementid = 1, id_contextid = 3, id_epoch = 0\<rparr>"

abbreviation pair_key :: "64 word" where "pair_key \<equiv> ERAID_KEY pair_eid"

definition pair_value :: "int \<Rightarrow> u8 list \<Rightarrow> era_value_t" where
  "pair_value rt bs =
     \<lparr>header = \<lparr>vh_ret = rt, vh_min_aid = - 1, vh_max_aid = 0, vh_operand = 1, vh_dt_count = int (length bs),
                vh_datatype = 1, vh_nb_new_dead = 0\<rparr>,
      bytes = bs, new_dead_array = []\<rparr>"

definition pair_env :: era_env where
  "pair_env = \<lparr>env_ops = \<lparr>dt_size = (\<lambda>_. 1), op_reduce = (\<lambda>_ _ _ src dst. map2 (AND) src dst)\<rparr>,
     env_layout = \<lparr>num_daemons = 1, proc_get_daemon = (\<lambda>_. 0), same_job = (\<lambda>_. True), table_mem = True, node_mem = (\<lambda>_. 1)\<rparr>,
     cur_era_topology = 1, era_rebuild = False, band_index = 1, int_index = 1, proc_my_name = 101\<rparr>"

text \<open>A communicator of two processes; the process has rank \<open>my\<close> and is in its first agreement.\<close>

definition pair_node :: "int \<Rightarrow> 32 word \<Rightarrow> era_node" where
  "pair_node my st =
     \<lparr>en_comms = [5 \<mapsto> \<lparr>ecs_comm = \<lparr>ec_size = 2, ec_my_rank = my, ec_active = (\<lambda>_. Some True)\<rparr>, ecs_contextid = 3, ecs_epoch = 0,
        ecs_members = [101, 102], agreement_specific = 8, agreement_seq_num = 1\<rparr>],
      all_failed_procs = [],
      ongoing_agreements = [(pair_key, (era_agreement_info_constructor pair_eid 7)\<lparr>status := st, ci_comm := 5, ci_ags := 8,
        gathered_info := (if my = 0 then [1] else []), waiting_down_from := (if my = 0 then - 1 else 0)\<rparr>)],
      passed_agreements = [], en_values = [7 \<mapsto> pair_value 0 [6]],
      en_ags = [8 \<mapsto> \<lparr>ags_refs = 2, ags_failed_ranks = Some [], ags_tree = pair_tree, acked_ra = [], ags_status = 0\<rparr>],
      en_brk = 10\<rparr>"



text \<open>The root decides and sends the decision with return code 0 to the other process. When that
  process then fails before the application has come back, the root itself returns
  \<^verbatim>\<open>MPI_ERR_PROC_FAILED\<close>.\<close>

lemma root_return_code_changes:
  "case era_decide pair_env pair_key 7 (pair_node 0 GATHERING) of None \<Rightarrow> False
   | Some (n, out) \<Rightarrow> out = [Era_send 5 1 \<lparr>msg_type = MSG_DOWN, msg_id = pair_eid, src_comm_rank = 0, src_proc_name = 101,
        msg_value = pair_value 0 [6], msg_acks = []\<rparr>] \<and>
      map_option snd (era_run pair_env [Ev_failure 5 1, Ev_return pair_key] n) = Some [Era_return pair_key MPI_ERR_PROC_FAILED [6] []]"
  by code_simp

section \<open>Properties\<close>



end
