(* ===== verification/Era_Tree_Correct.thy ===== *)
theory Era_Tree_Correct
  imports Era_Tree
begin

text \<open>
  The tree of the early returning agreement stays a tree. An array of nodes represents, for a set
  of present nodes, the ordered list of children of each of them; parents have smaller indices than
  their children, so that the least present node is the root. Removing a node puts its children in
  its place, and the root is replaced by its least child.
\<close>

section \<open>Fields\<close>

abbreviation (input) par :: "era_tree_t list \<Rightarrow> int \<Rightarrow> int" where "par T i \<equiv> parent (T ! nat i)"
abbreviation (input) nxt :: "era_tree_t list \<Rightarrow> int \<Rightarrow> int" where "nxt T i \<equiv> next_sibling (T ! nat i)"
abbreviation (input) fstc :: "era_tree_t list \<Rightarrow> int \<Rightarrow> int" where "fstc T i \<equiv> first_child (T ! nat i)"
abbreviation (input) rnk :: "era_tree_t list \<Rightarrow> int \<Rightarrow> int" where "rnk T i \<equiv> rank_in_comm (T ! nat i)"
abbreviation (input) node_in :: "era_tree_t list \<Rightarrow> int \<Rightarrow> bool" where
  "node_in T i \<equiv> 0 \<le> i \<and> i < int (length T)"

definition put :: "era_tree_t list \<Rightarrow> int \<Rightarrow> (era_tree_t \<Rightarrow> era_tree_t) \<Rightarrow> era_tree_t list" where
  "put T i f = T[nat i := f (T ! nat i)]"

lemma upd_in [simp]: "node_in T i \<Longrightarrow> upd T i f = Some (put T i f)"
  by (simp add: upd_def put_def)

lemma length_put [simp]: "length (put T i f) = length T"
  by (simp add: put_def)

lemma nth_put [simp]:
  "node_in T i \<Longrightarrow> node_in T j \<Longrightarrow> put T i f ! nat j = (if j = i then f (T ! nat i) else T ! nat j)"
  by (auto simp: put_def nth_list_update nat_eq_iff)

section \<open>Lists of siblings\<close>

fun lseg :: "era_tree_t list \<Rightarrow> int \<Rightarrow> int list \<Rightarrow> int \<Rightarrow> bool" where
  "lseg T c [] d \<longleftrightarrow> c = d"
| "lseg T c (x # xs) d \<longleftrightarrow> c = x \<and> lseg T (nxt T x) xs d"

lemma lseg_append: "lseg T c (xs @ ys) d \<longleftrightarrow> (\<exists>e. lseg T c xs e \<and> lseg T e ys d)"
  by (induction xs arbitrary: c) auto

lemma lseg_cong: "(\<And>x. x \<in> set xs \<Longrightarrow> nxt T' x = nxt T x) \<Longrightarrow> lseg T' c xs d = lseg T c xs d"
  by (induction xs arbitrary: c) auto

lemma lseg_start: "lseg T c xs d \<Longrightarrow> c = (if xs = [] then d else hd xs)"
  by (cases xs) auto

lemma lseg_relink:
  assumes "lseg T c (xs @ [x]) d" "\<And>y. y \<in> set xs \<Longrightarrow> nxt T' y = nxt T y" "nxt T' x = e"
  shows "lseg T' c (xs @ [x]) e"
  using assms by (auto simp: lseg_append lseg_cong [of xs T' T])

lemma lseg_next_in: "lseg T c (us @ [t]) d \<Longrightarrow> u \<in> set us \<Longrightarrow> nxt T u \<in> set (us @ [t])"
proof (induction us arbitrary: c)
  case (Cons v us)
  then have l: "lseg T (nxt T v) (us @ [t]) d" by simp
  show ?case
  proof (cases "u = v")
    case True
    with lseg_start [OF l] show ?thesis by (cases us) auto
  next
    case False
    with Cons.IH [OF l] Cons.prems(2) show ?thesis by auto
  qed
qed simp

section \<open>The invariant\<close>

definition tree_inv :: "era_tree_t list \<Rightarrow> int set \<Rightarrow> (int \<Rightarrow> int list) \<Rightarrow> bool" where
  "tree_inv T A kids \<longleftrightarrow>
     A \<subseteq> {0..<tree_size T} \<and> A \<noteq> {} \<and>
     (\<forall>i \<in> A. lseg T (fstc T i) (kids i) (tree_size T) \<and> distinct (kids i) \<and>
        set (kids i) = {c \<in> A. c \<noteq> i \<and> par T c = i} \<and>
        par T i \<in> A \<and> par T i \<le> i \<and> (par T i = i \<longrightarrow> i = Min A)) \<and>
     nxt T (Min A) = tree_size T"

lemma tree_invD:
  assumes "tree_inv T A kids"
  shows "finite A" "A \<noteq> {}" "Min A \<in> A" "i \<in> A \<Longrightarrow> node_in T i"
    "i \<in> A \<Longrightarrow> lseg T (fstc T i) (kids i) (tree_size T)" "i \<in> A \<Longrightarrow> distinct (kids i)"
    "i \<in> A \<Longrightarrow> c \<in> set (kids i) \<longleftrightarrow> c \<in> A \<and> c \<noteq> i \<and> par T c = i"
    "i \<in> A \<Longrightarrow> par T i \<in> A" "i \<in> A \<Longrightarrow> par T i \<le> i" "i \<in> A \<Longrightarrow> par T i = i \<longleftrightarrow> i = Min A"
    "nxt T (Min A) = tree_size T"
proof -
  have sub: "A \<subseteq> {0..<tree_size T}" and ne: "A \<noteq> {}" using assms by (auto simp: tree_inv_def)
  then show fin: "finite A" "A \<noteq> {}" by (auto intro: finite_subset)
  then show m: "Min A \<in> A" by simp
  show "i \<in> A \<Longrightarrow> node_in T i" using sub by auto
  have "par T (Min A) = Min A"
    using assms m fin unfolding tree_inv_def by (metis Min_le order_antisym)
  then show "i \<in> A \<Longrightarrow> par T i = i \<longleftrightarrow> i = Min A" using assms by (auto simp: tree_inv_def)
qed (use assms in \<open>auto simp: tree_inv_def\<close>)

lemma kid_greater: "tree_inv T A kids \<Longrightarrow> i \<in> A \<Longrightarrow> c \<in> set (kids i) \<Longrightarrow> c \<in> A \<and> i < c \<and> par T c = i"
  using tree_invD(7,9) [of T A kids] by (metis order_less_le)

lemma kids_disjoint:
  "tree_inv T A kids \<Longrightarrow> i \<in> A \<Longrightarrow> j \<in> A \<Longrightarrow> i \<noteq> j \<Longrightarrow> set (kids i) \<inter> set (kids j) = {}"
  using kid_greater [of T A kids] by (metis disjoint_iff)

section \<open>Loops\<close>

lemma reattach_loop_correct:
  assumes "lseg T c ks (tree_size T)" "ks \<noteq> []" "distinct ks" "\<forall>k \<in> set ks. node_in T k"
  shows "\<exists>T'. reattach_loop T p c = Some (T', last ks) \<and> length T' = length T \<and>
    (\<forall>i. node_in T i \<longrightarrow> T' ! nat i = (if i \<in> set ks then (T ! nat i)\<lparr>parent := p\<rparr> else T ! nat i))"
  using assms
proof (induction ks arbitrary: c T)
  case (Cons k ks)
  let ?T1 = "put T k (\<lambda>x. x\<lparr>parent := p\<rparr>)"
  have k: "c = k" "node_in T k" "lseg T (nxt T k) ks (tree_size T)" "k \<notin> set ks" using Cons.prems by auto
  show ?case
  proof (cases "ks = []")
    case True
    with k show ?thesis by (subst reattach_loop.simps) simp
  next
    case False
    have "lseg ?T1 (nxt T k) ks (tree_size ?T1)"
      using k Cons.prems by (simp add: lseg_cong [of ks ?T1 T])
    from Cons.IH [OF this False] Cons.prems k obtain T' where
      "reattach_loop ?T1 p (nxt T k) = Some (T', last ks)" "length T' = length T"
      "\<forall>i. node_in T i \<longrightarrow> T' ! nat i = (if i \<in> set ks then (?T1 ! nat i)\<lparr>parent := p\<rparr> else ?T1 ! nat i)"
      by auto
    moreover have "nxt T k \<noteq> tree_size T"
      using lseg_start [OF k(3)] False Cons.prems(4) by (cases ks) auto
    ultimately show ?thesis
      using k False by (subst reattach_loop.simps) auto
  qed
qed simp

lemma before_loop_correct:
  assumes "lseg T c (us @ [t]) r" "\<forall>u \<in> set us. nxt T u \<noteq> r" "\<forall>u \<in> set (us @ [t]). node_in T u"
  shows "before_loop T r c = Some t"
  using assms by (induction us arbitrary: c) (subst before_loop.simps; simp)+

lemma least_loop_correct:
  assumes "lseg T p xs (tree_size T)" "\<forall>x \<in> set xs. node_in T x"
    and "ys = us @ nr # vs" "\<forall>y \<in> set ys. nr \<le> y" "pr = (if us = [] then - 1 else last us)"
  shows "\<exists>us' nr' vs'. ys @ xs = us' @ nr' # vs' \<and> (\<forall>y \<in> set (ys @ xs). nr' \<le> y) \<and>
    least_loop T p nr pr (last ys) =
      Some (nr', if us' = [] then - 1 else last us', last (ys @ xs))"
  using assms
proof (induction xs arbitrary: p ys us nr vs pr)
  case Nil
  then show ?case by (subst least_loop.simps) auto
next
  case (Cons x xs)
  have x: "p = x" "node_in T x" "lseg T (nxt T x) xs (tree_size T)" using Cons.prems by auto
  show ?case
  proof (cases "nr > x")
    case True
    have "\<forall>y \<in> set (ys @ [x]). x \<le> y" using True Cons.prems(4) by auto
    moreover have "last ys = (if ys = [] then - 1 else last ys)" using Cons.prems(3) by simp
    ultimately have "\<exists>us' nr' vs'. (ys @ [x]) @ xs = us' @ nr' # vs' \<and> (\<forall>y \<in> set ((ys @ [x]) @ xs). nr' \<le> y) \<and>
      least_loop T (nxt T x) x (last ys) (last (ys @ [x])) =
        Some (nr', if us' = [] then - 1 else last us', last ((ys @ [x]) @ xs))"
      using Cons.IH [OF x(3), of "ys @ [x]" ys x "[]" "last ys"] Cons.prems(2) by simp
    with x True show ?thesis by (subst least_loop.simps) simp
  next
    case False
    then have "\<forall>y \<in> set (ys @ [x]). nr \<le> y" using Cons.prems(4) by auto
    then have "\<exists>us' nr' vs'. (ys @ [x]) @ xs = us' @ nr' # vs' \<and> (\<forall>y \<in> set ((ys @ [x]) @ xs). nr' \<le> y) \<and>
      least_loop T (nxt T x) nr pr (last (ys @ [x])) =
        Some (nr', if us' = [] then - 1 else last us', last ((ys @ [x]) @ xs))"
      using Cons.IH [OF x(3), of "ys @ [x]" us nr "vs @ [x]" pr] Cons.prems by simp
    with x False show ?thesis by (subst least_loop.simps) simp
  qed
qed

lemma least_child:
  assumes "lseg T c ks (tree_size T)" "ks \<noteq> []" "\<forall>k \<in> set ks. node_in T k"
  obtains us nr vs where "ks = us @ nr # vs" "\<forall>k \<in> set ks. nr \<le> k"
    "least_loop T c c (- 1) (- 1) = Some (nr, if us = [] then - 1 else last us, last ks)"
proof -
  from assms obtain k xs where ks: "ks = k # xs" "c = k" "lseg T (nxt T k) xs (tree_size T)" by (cases ks) auto
  have "\<exists>us nr vs. ks = us @ nr # vs \<and> (\<forall>y \<in> set ks. nr \<le> y) \<and>
    least_loop T (nxt T k) k (- 1) k = Some (nr, if us = [] then - 1 else last us, last ks)"
    using least_loop_correct [OF ks(3), of "[k]" "[]" k "[]" "- 1"] assms(3) by (simp add: ks(1))
  then obtain us nr vs where "ks = us @ nr # vs" "\<forall>y \<in> set ks. nr \<le> y"
    "least_loop T (nxt T k) k (- 1) k = Some (nr, if us = [] then - 1 else last us, last ks)" by blast
  moreover have "least_loop T c c (- 1) (- 1) = least_loop T (nxt T k) k (- 1) k"
    using assms(3) ks by (subst least_loop.simps) simp
  ultimately show thesis using that by simp
qed

lemma adopt_loop_correct:
  assumes "lseg T c xs d" "xs \<noteq> []" "distinct xs" "\<forall>x \<in> set xs. node_in T x"
  shows "\<exists>T'. adopt_loop T p (last xs) c = Some T' \<and> length T' = length T \<and>
    (\<forall>i. node_in T i \<longrightarrow> T' ! nat i = (if i \<in> set xs then (T ! nat i)\<lparr>parent := p\<rparr> else T ! nat i))"
  using assms
proof (induction xs arbitrary: c T)
  case (Cons k ks)
  let ?T1 = "put T k (\<lambda>x. x\<lparr>parent := p\<rparr>)"
  have k: "c = k" "node_in T k" "lseg T (nxt T k) ks d" "k \<notin> set ks" using Cons.prems by auto
  show ?case
  proof (cases "ks = []")
    case True
    with k show ?thesis by (subst adopt_loop.simps) simp
  next
    case False
    have "lseg ?T1 (nxt T k) ks d"
      using k Cons.prems by (simp add: lseg_cong [of ks ?T1 T])
    from Cons.IH [OF this False] Cons.prems k obtain T' where
      "adopt_loop ?T1 p (last ks) (nxt T k) = Some T'" "length T' = length T"
      "\<forall>i. node_in T i \<longrightarrow> T' ! nat i = (if i \<in> set ks then (?T1 ! nat i)\<lparr>parent := p\<rparr> else ?T1 ! nat i)"
      by auto
    moreover have "k \<noteq> last ks" using k(4) False by auto
    ultimately show ?thesis
      using k False by (subst adopt_loop.simps) auto
  qed
qed simp

section \<open>Removal of an inner node\<close>

lemma remove_inner_fields:
  assumes inv: "tree_inv T A kids" and r: "r \<in> A" "par T r = p" "r \<noteq> p"
    and p: "kids p = us @ r # vs"
  shows "\<exists>T'. remove_inner T r p = Some T' \<and> length T' = length T \<and>
    (\<forall>i. node_in T i \<longrightarrow> rnk T' i = rnk T i \<and> par T' i = (if i \<in> set (kids r) then p else par T i) \<and>
       fstc T' i = (if i = p \<and> us = [] then hd (kids r @ [nxt T r]) else fstc T i) \<and>
       nxt T' i = (if us \<noteq> [] \<and> i = last us then hd (kids r @ [nxt T r])
                   else if kids r \<noteq> [] \<and> i = last (kids r) then nxt T r else nxt T i))"
proof -
  note D = tree_invD [OF inv]
  let ?ks = "kids r"
  have pA: "p \<in> A" and inp: "node_in T p" and inr: "node_in T r" using D(8) [OF r(1)] D(4) r by auto
  have ks: "lseg T (fstc T r) ?ks (tree_size T)" "distinct ?ks" "\<forall>k \<in> set ?ks. node_in T k"
    using D(5,6) [OF r(1)] kid_greater [OF inv r(1)] D(4) by blast+
  have up: "lseg T (fstc T p) (us @ r # vs) (tree_size T)" "distinct (us @ r # vs)"
    "\<forall>k \<in> set (us @ r # vs). node_in T k"
    using D(5,6) [OF pA] kid_greater [OF inv pA] D(4) p by (metis)+
  have pks: "p \<notin> set ?ks" "set ?ks \<inter> set (us @ r # vs) = {}"
    using kid_greater [OF inv r(1), of p] kid_greater [OF inv pA, of r] p kids_disjoint [OF inv r(1) pA r(3)]
    by (auto simp: p)
  have s: "fstc T r = hd (?ks @ [tree_size T])" using lseg_start [OF ks(1)] by (cases ?ks) auto
  have sz: "fstc T r = tree_size T \<longleftrightarrow> ?ks = []" using s ks(3) by (cases ?ks) auto
  have "\<exists>T1. (if fstc T r \<noteq> tree_size T then reattach_loop T p (fstc T r) else Some (T, fstc T r)) =
      Some (T1, last (fstc T r # ?ks)) \<and> length T1 = length T \<and>
      (\<forall>i. node_in T i \<longrightarrow> T1 ! nat i = (if i \<in> set ?ks then (T ! nat i)\<lparr>parent := p\<rparr> else T ! nat i))"
    using reattach_loop_correct [OF ks(1) _ ks(2,3), of p] sz by (cases "?ks = []") simp_all
  then obtain T1 where T1: "(if fstc T r \<noteq> tree_size T then reattach_loop T p (fstc T r) else Some (T, fstc T r)) =
      Some (T1, last (fstc T r # ?ks))" "length T1 = length T"
      "\<And>i. node_in T i \<Longrightarrow> T1 ! nat i = (if i \<in> set ?ks then (T ! nat i)\<lparr>parent := p\<rparr> else T ! nat i)"
    by blast
  have nxt1: "\<And>i. node_in T i \<Longrightarrow> nxt T1 i = nxt T i" "fstc T1 p = fstc T p" using T1(3) inp by auto
  let ?d = "hd (?ks @ [nxt T r])"
  define T2 where "T2 = (if us = [] then put T1 p (\<lambda>x. x\<lparr>first_child := ?d\<rparr>)
    else put T1 (last us) (\<lambda>x. x\<lparr>next_sibling := ?d\<rparr>))"
  define T3 where "T3 = (if ?ks = [] then T2 else put T2 (last ?ks) (\<lambda>x. x\<lparr>next_sibling := nxt T r\<rparr>))"
  have ink: "?ks \<noteq> [] \<Longrightarrow> node_in T (last ?ks)" using ks(3) last_in_set by blast
  have inu: "us \<noteq> [] \<Longrightarrow> node_in T (last us) \<and> last us \<notin> set ?ks \<and> last us \<noteq> p"
    using up(3) pks(2) kid_greater [OF inv pA, of "last us"] p last_in_set [of us] by auto
  have run: "remove_inner T r p = Some T3"
  proof (cases us rule: rev_cases)
    case Nil
    then have "fstc T p = r" using up by simp
    with Nil show ?thesis
      unfolding remove_inner_def rd_in [OF inr [THEN conjunct1] inr [THEN conjunct2]] Option.bind.bind_lunit Let_def T1(1) prod.case
      using inp T1(2) nxt1(2) sz s ink by (cases "?ks = []") (simp_all add: T2_def T3_def)
  next
    case (snoc us' t)
    have seg: "lseg T (fstc T p) (us' @ [t]) r" using up(1) snoc by (auto simp: lseg_append)
    have "before_loop T1 r (fstc T p) = Some t"
    proof (rule before_loop_correct [of _ _ us'])
      show "lseg T1 (fstc T p) (us' @ [t]) r"
        using seg up(3) nxt1(1) snoc by (subst lseg_cong [of _ T1 T]) auto
      show "\<forall>u \<in> set us'. nxt T1 u \<noteq> r"
      proof
        fix u assume u: "u \<in> set us'"
        then have "nxt T1 u \<in> set us" using lseg_next_in [OF seg u] nxt1(1) [of u] up(3) snoc by simp
        with up(2) show "nxt T1 u \<noteq> r" by auto
      qed
    qed (use up(3) T1(2) snoc in auto)
    moreover have "fstc T p \<noteq> r" using lseg_start [OF seg] up(2) snoc by (cases us') auto
    ultimately show ?thesis
      unfolding remove_inner_def rd_in [OF inr [THEN conjunct1] inr [THEN conjunct2]] Option.bind.bind_lunit Let_def T1(1) prod.case
      using inp T1(2) nxt1(2) sz s ink inu snoc by (cases "?ks = []") (simp_all add: T2_def T3_def)
  qed
  have len: "length T2 = length T" "length T3 = length T" by (simp_all add: T2_def T3_def T1(2))
  have lk: "?ks \<noteq> [] \<Longrightarrow> last ?ks \<noteq> p \<and> (us \<noteq> [] \<longrightarrow> last ?ks \<noteq> last us)"
    using pks(1) inu last_in_set [of ?ks] by metis
  have n2: "T2 ! nat i = (if us = [] \<and> i = p then (T1 ! nat i)\<lparr>first_child := ?d\<rparr>
      else if us \<noteq> [] \<and> i = last us then (T1 ! nat i)\<lparr>next_sibling := ?d\<rparr> else T1 ! nat i)"
    if "node_in T i" for i
    using that inp inu T1(2) by (cases "us = []") (simp_all add: T2_def)
  have n3: "T3 ! nat i = (if ?ks \<noteq> [] \<and> i = last ?ks then (T2 ! nat i)\<lparr>next_sibling := nxt T r\<rparr>
      else T2 ! nat i)" if "node_in T i" for i
    using that ink len(1) by (cases "?ks = []") (simp_all add: T3_def)
  have "rnk T3 i = rnk T i \<and> par T3 i = (if i \<in> set ?ks then p else par T i) \<and>
      fstc T3 i = (if i = p \<and> us = [] then ?d else fstc T i) \<and>
      nxt T3 i = (if us \<noteq> [] \<and> i = last us then ?d
                   else if ?ks \<noteq> [] \<and> i = last ?ks then nxt T r else nxt T i)" if "node_in T i" for i
    unfolding n3 [OF that] n2 [OF that] T1(3) [OF that]
    using inu pks(1) lk by (cases "us = []"; cases "?ks = []") simp_all
  with run len show ?thesis by blast
qed

lemma lseg_splice:
  assumes up: "lseg T c (us @ r # vs) d" and ks: "lseg T e ks f"
    and dis: "distinct (us @ r # vs)" "distinct ks" "set ks \<inter> set (us @ r # vs) = {}"
    and nxt': "\<And>i. i \<in> set (us @ ks @ vs) \<Longrightarrow> nxt T' i =
      (if us \<noteq> [] \<and> i = last us then hd (ks @ [nxt T r])
       else if ks \<noteq> [] \<and> i = last ks then nxt T r else nxt T i)"
    and c': "c' = (if us = [] then hd (ks @ [nxt T r]) else c)"
  shows "lseg T' c' (us @ ks @ vs) d"
proof -
  have vs: "lseg T' (nxt T r) vs d"
  proof -
    have "\<And>x. x \<in> set vs \<Longrightarrow> nxt T' x = nxt T x"
      using dis nxt' last_in_set [of us] last_in_set [of ks] by (auto simp: disjoint_iff)
    then show ?thesis using up by (simp add: lseg_append lseg_cong [of vs T' T])
  qed
  have "lseg T' (hd (ks @ [nxt T r])) (ks @ vs) d"
  proof (cases ks rule: rev_cases)
    case Nil
    with vs show ?thesis by simp
  next
    case (snoc ks' x)
    have "lseg T' e (ks' @ [x]) (nxt T r)"
    proof (rule lseg_relink)
      show "lseg T e (ks' @ [x]) f" using ks snoc by simp
      fix y assume "y \<in> set ks'"
      then show "nxt T' y = nxt T y" using dis nxt' [of y] snoc last_in_set [of us] by auto
    qed (use dis nxt' [of x] snoc last_in_set [of us] in auto)
    with vs lseg_start [OF ks] snoc show ?thesis by (auto simp: lseg_append hd_append)
  qed
  then show ?thesis
  proof (cases us rule: rev_cases)
    case Nil
    with \<open>lseg T' (hd (ks @ [nxt T r])) (ks @ vs) d\<close> c' show ?thesis by simp
  next
    case (snoc us' x)
    have "lseg T' c (us' @ [x]) (hd (ks @ [nxt T r]))"
    proof (rule lseg_relink)
      show "lseg T c (us' @ [x]) r" using up snoc by (auto simp: lseg_append)
      fix y assume "y \<in> set us'"
      then show "nxt T' y = nxt T y" using dis nxt' [of y] snoc last_in_set [of ks] by (auto simp: disjoint_iff)
    qed (use nxt' [of x] snoc in simp)
    with \<open>lseg T' (hd (ks @ [nxt T r])) (ks @ vs) d\<close> c' snoc show ?thesis
      by (auto simp: lseg_append)
  qed
qed

lemma remove_inner_correct:
  assumes inv: "tree_inv T A kids" and r: "r \<in> A" "r \<noteq> Min A" and p: "kids (par T r) = us @ r # vs"
  shows "\<exists>T'. remove_inner T r (par T r) = Some T' \<and> length T' = length T \<and>
    (\<forall>i. node_in T i \<longrightarrow> rnk T' i = rnk T i \<and> par T' i = (if i \<in> set (kids r) then par T r else par T i)) \<and>
    tree_inv T' (A - {r}) (kids(par T r := us @ kids r @ vs))"
proof -
  note D = tree_invD [OF inv]
  let ?ks = "kids r"
  obtain p where pp: "par T r = p" by simp
  note p = p [unfolded pp]
  have rp: "r \<noteq> p" and pA: "p \<in> A" and pr: "p < r" using D(8,9,10) [OF r(1)] r(2) pp by auto
  from remove_inner_fields [OF inv r(1) pp rp p] obtain T' where
    T': "remove_inner T r p = Some T'" "length T' = length T" and
    F: "\<And>i. node_in T i \<Longrightarrow> rnk T' i = rnk T i \<and> par T' i = (if i \<in> set ?ks then p else par T i) \<and>
       fstc T' i = (if i = p \<and> us = [] then hd (?ks @ [nxt T r]) else fstc T i) \<and>
       nxt T' i = (if us \<noteq> [] \<and> i = last us then hd (?ks @ [nxt T r])
                   else if ?ks \<noteq> [] \<and> i = last ?ks then nxt T r else nxt T i)"
    by blast
  have F': "i \<in> A \<Longrightarrow> par T' i = (if i \<in> set ?ks then p else par T i)"
    "i \<in> A \<Longrightarrow> fstc T' i = (if i = p \<and> us = [] then hd (?ks @ [nxt T r]) else fstc T i)"
    "i \<in> A \<Longrightarrow> nxt T' i = (if us \<noteq> [] \<and> i = last us then hd (?ks @ [nxt T r])
                   else if ?ks \<noteq> [] \<and> i = last ?ks then nxt T r else nxt T i)" for i
    using F D(4) by blast+
  have kp: "\<And>c. c \<in> set us \<union> set vs \<longleftrightarrow> c \<in> A \<and> c \<noteq> p \<and> par T c = p \<and> c \<noteq> r"
    using D(7) [OF pA] D(6) [OF pA] by (auto simp: p)
  have kr: "\<And>c. c \<in> set ?ks \<longleftrightarrow> c \<in> A \<and> c \<noteq> r \<and> par T c = r" using D(7) [OF r(1)] .
  have dis: "distinct (us @ r # vs)" "distinct ?ks" "set ?ks \<inter> set (us @ r # vs) = {}"
    using D(6) [OF pA] D(6) [OF r(1)] kids_disjoint [OF inv r(1) pA rp] p by simp_all
  have minA: "Min (A - {r}) = Min A"
    using D(1,3) r by (intro Min_eqI) auto
  have lastu: "us \<noteq> [] \<Longrightarrow> last us \<in> A \<and> par T (last us) = p" and lastk: "?ks \<noteq> [] \<Longrightarrow> last ?ks \<in> A \<and> par T (last ?ks) = r"
    using kp [of "last us"] kr [of "last ?ks"] last_in_set [of us] last_in_set [of ?ks] by auto
  have chain: "lseg T' (fstc T' i) ((kids(p := us @ ?ks @ vs)) i) (tree_size T')" if i: "i \<in> A" "i \<noteq> r" for i
  proof (cases "i = p")
    case True
    have "lseg T' (fstc T' p) (us @ ?ks @ vs) (tree_size T)"
    proof (rule lseg_splice)
      show "lseg T (fstc T p) (us @ r # vs) (tree_size T)" using D(5) [OF pA] p by simp
      show "lseg T (fstc T r) ?ks (tree_size T)" using D(5) [OF r(1)] .
      fix j assume "j \<in> set (us @ ?ks @ vs)"
      then have "j \<in> A" using kp [of j] kr [of j] by auto
      then show "nxt T' j = (if us \<noteq> [] \<and> j = last us then hd (?ks @ [nxt T r])
        else if ?ks \<noteq> [] \<and> j = last ?ks then nxt T r else nxt T j)" by (rule F')
    qed (use dis F'(2) [OF pA] in simp_all)
    with True T'(2) show ?thesis by simp
  next
    case False
    have "nxt T' x = nxt T x" if "x \<in> set (kids i)" for x
      using kid_greater [OF inv i(1) that] F'(3) [of x] lastu lastk False i(2) by auto
    then have "lseg T' (fstc T i) (kids i) (tree_size T)" using D(5) [OF i(1)] by (simp add: lseg_cong [of _ T' T])
    with False F'(2) [OF i(1)] T'(2) show ?thesis by simp
  qed
  have "tree_inv T' (A - {r}) (kids(p := us @ ?ks @ vs))"
    unfolding tree_inv_def minA
  proof (intro conjI ballI)
    show "A - {r} \<subseteq> {0..<tree_size T'}" "A - {r} \<noteq> {}" using D(4) T'(2) pA rp by auto
    have "Min A \<notin> set us" "Min A \<notin> set ?ks"
      using kp [of "Min A"] kr [of "Min A"] D(10) [OF D(3)] r(2) by auto
    then show "nxt T' (Min A) = tree_size T'"
      using F'(3) [OF D(3)] D(11) T'(2) last_in_set [of us] last_in_set [of ?ks] by metis
    fix i assume "i \<in> A - {r}"
    then have i: "i \<in> A" "i \<noteq> r" by auto
    show "lseg T' (fstc T' i) ((kids(p := us @ ?ks @ vs)) i) (tree_size T')" using chain [OF i] .
    show "distinct ((kids(p := us @ ?ks @ vs)) i)" using dis D(6) [OF i(1)] by auto
    show "set ((kids(p := us @ ?ks @ vs)) i) = {c \<in> A - {r}. c \<noteq> i \<and> par T' c = i}"
    proof (rule set_eqI)
      fix c
      show "c \<in> set ((kids(p := us @ ?ks @ vs)) i) \<longleftrightarrow> c \<in> {c \<in> A - {r}. c \<noteq> i \<and> par T' c = i}"
      proof (cases "c \<in> set ?ks")
        case True
        with kid_greater [OF inv r(1) True] pr F'(1) [of c] D(7) [OF i(1), of c] i(2) show ?thesis by simp
      next
        case False
        then have "c \<in> A \<Longrightarrow> par T' c = par T c" using F'(1) [of c] by simp
        with False kp [of c] D(7) [OF i(1), of c] i(2) pp show ?thesis by (cases "i = p") auto
      qed
    qed
    show "par T' i \<in> A - {r}" "par T' i \<le> i" "par T' i = i \<longrightarrow> i = Min A"
      using F'(1) [OF i(1)] D(8,9,10) [OF i(1)] kr [of i] kid_greater [OF inv r(1), of i] pr i pA
      by auto
  qed
  with T' F show ?thesis unfolding pp by blast
qed

section \<open>Removal of the root\<close>

lemma lseg_unlink:
  assumes up: "lseg T c (us @ r # vs) d" and dis: "distinct (us @ r # vs)" and ne: "us @ vs \<noteq> []"
    and nxt': "\<And>i. i \<in> set (us @ vs) \<Longrightarrow> nxt T' i =
      (if i = last (us @ vs) then e else if us \<noteq> [] \<and> i = last us then nxt T r else nxt T i)"
  shows "lseg T' (hd (us @ vs)) (us @ vs) e"
proof -
  have seg: "lseg T c us r" "lseg T (nxt T r) vs d" using up by (auto simp: lseg_append)
  have keep: "nxt T' y = nxt T y" if "y \<in> set (us @ vs)" "y \<noteq> last (us @ vs)" "us \<noteq> [] \<Longrightarrow> y \<noteq> last us" for y
    using nxt' [OF that(1)] that by auto
  have hd_us: "us \<noteq> [] \<Longrightarrow> c = hd us" using lseg_start [OF seg(1)] by simp
  show ?thesis
  proof (cases vs rule: rev_cases)
    case Nil
    then have u: "us = butlast us @ [last us]" using ne by simp
    then have dd: "distinct (butlast us @ [last us])" using dis by simp
    have l: "lseg T c (butlast us @ [last us]) r" using seg(1) u by simp
    have "lseg T' c (butlast us @ [last us]) e"
    proof (rule lseg_relink [OF l])
      fix y assume y: "y \<in> set (butlast us)"
      with dd have "y \<noteq> last us" by auto
      with in_set_butlastD [OF y] Nil show "nxt T' y = nxt T y" by (intro keep) simp_all
    qed (use Nil ne nxt' [of "last us"] in simp)
    with Nil ne hd_us u show ?thesis by simp
  next
    case (snoc vs' x)
    have "lseg T' (nxt T r) (vs' @ [x]) e"
    proof (rule lseg_relink)
      show "lseg T (nxt T r) (vs' @ [x]) d" using seg(2) snoc by simp
      fix y assume y: "y \<in> set vs'"
      then have "y \<notin> set us" using dis snoc by auto
      then have "us \<noteq> [] \<Longrightarrow> y \<noteq> last us" using last_in_set by blast
      with y dis snoc show "nxt T' y = nxt T y" by (intro keep) auto
    qed (use snoc nxt' [of x] in simp)
    moreover have "lseg T' c us (nxt T r)" if u: "us \<noteq> []"
    proof -
      have dd: "distinct (butlast us @ [last us])" using dis u by simp
      have l: "lseg T c (butlast us @ [last us]) r" using seg(1) u by simp
      have "lseg T' c (butlast us @ [last us]) (nxt T r)"
      proof (rule lseg_relink [OF l])
        fix y assume y: "y \<in> set (butlast us)"
        with dd have "y \<noteq> last us" by auto
        moreover have "y \<noteq> x" using in_set_butlastD [OF y] dis snoc by auto
        ultimately show "nxt T' y = nxt T y" using in_set_butlastD [OF y] snoc by (intro keep) simp_all
      next
        have "last us \<noteq> x" using dis snoc last_in_set [OF u] by auto
        then show "nxt T' (last us) = nxt T r" using nxt' [of "last us"] snoc u by simp
      qed
      then show ?thesis using u by simp
    qed
    ultimately show ?thesis
      using snoc hd_us seg(2) lseg_start [OF seg(2)] by (cases "us = []") (auto simp: lseg_append)
  qed
qed

lemma remove_root_fields:
  assumes inv: "tree_inv T A kids" and r: "r = Min A" and ks: "kids r = us @ nr # vs"
    and least: "\<forall>k \<in> set (kids r). nr \<le> k"
    and loop: "least_loop T (fstc T r) (fstc T r) (- 1) (- 1) =
      Some (nr, if us = [] then - 1 else last us, last (kids r))"
  shows "\<exists>T'. remove_root T r = Some T' \<and> length T' = length T \<and>
    (\<forall>i. node_in T i \<longrightarrow> rnk T' i = rnk T i \<and> par T' i = (if i \<in> set (kids r) then nr else par T i) \<and>
       fstc T' i = (if i = nr then hd (us @ vs @ [fstc T nr]) else fstc T i) \<and>
       nxt T' i = (if i = nr then tree_size T
                   else if us @ vs \<noteq> [] \<and> i = last (us @ vs) then fstc T nr
                   else if us \<noteq> [] \<and> i = last us then nxt T nr else nxt T i))"
proof -
  note D = tree_invD [OF inv]
  have rA: "r \<in> A" using D(3) r by simp
  have kin: "\<And>k. k \<in> set (kids r) \<Longrightarrow> k \<in> A \<and> r < k \<and> par T k = r \<and> node_in T k"
    using kid_greater [OF inv rA] D(4) by blast
  then have nrA: "nr \<in> A" and innr: "node_in T nr" and inr: "node_in T r" and rnr: "r \<noteq> nr"
    using ks D(4) [OF rA] by auto
  have seg: "lseg T (fstc T r) (us @ nr # vs) (tree_size T)" and dis: "distinct (us @ nr # vs)"
    using D(5,6) [OF rA] ks by simp_all
  have fr: "fstc T r = hd (us @ [nr])" and nn: "nxt T nr = hd (vs @ [tree_size T])"
    using seg lseg_start [OF seg] by (cases us; auto simp: lseg_append dest: lseg_start)+
  have pos: "\<And>k. k \<in> set (us @ nr # vs) \<Longrightarrow> k \<noteq> - 1 \<and> k \<noteq> tree_size T" using kin ks by fastforce
  have hin: "us @ vs \<noteq> [] \<Longrightarrow> hd (us @ vs) \<in> set (us @ vs) \<and> last (us @ vs) \<in> set (us @ vs)"
    using hd_in_set last_in_set by blast
  have fnr: "hd (us @ vs) \<noteq> fstc T nr" if "us @ vs \<noteq> []"
  proof -
    have "hd (us @ vs) \<in> set (kids r)" using hin [OF that] ks by auto
    then have "hd (us @ vs) \<notin> set (kids nr)" "hd (us @ vs) \<noteq> tree_size T"
      using kids_disjoint [OF inv rA nrA rnr] pos ks by (auto simp: disjoint_iff)
    then show ?thesis using lseg_start [OF D(5) [OF nrA]] by (metis hd_in_set)
  qed
  define T1 where "T1 = (if us = [] then T else put T (last us) (\<lambda>x. x\<lparr>next_sibling := nxt T nr\<rparr>))"
  define T2 where "T2 = put T1 nr (\<lambda>x. x\<lparr>next_sibling := tree_size T, parent := nr\<rparr>)"
  define T3 where "T3 = put T2 (last (us @ vs)) (\<lambda>x. x\<lparr>next_sibling := fstc T nr\<rparr>)"
  define T4 where "T4 = put T3 nr (\<lambda>x. x\<lparr>first_child := hd (us @ vs)\<rparr>)"
  have len: "length T1 = length T" "length T2 = length T" "length T3 = length T" "length T4 = length T"
    by (simp_all add: T1_def T2_def T3_def T4_def)
  have run: "remove_root T r = (if us @ vs = [] then Some T2 else adopt_loop T4 nr (last (us @ vs)) (hd (us @ vs)))"
  proof -
    have lu: "us \<noteq> [] \<Longrightarrow> node_in T (last us) \<and> last us \<noteq> - 1 \<and> last us \<noteq> nr \<and> hd us \<noteq> nr \<and> last us \<noteq> r"
      using kin [of "last us"] ks dis last_in_set [of us] hd_in_set [of us] pos [of "last us"] by auto
    have lv: "vs \<noteq> [] \<Longrightarrow> node_in T (last vs) \<and> last vs \<noteq> - 1 \<and> last vs \<noteq> nr \<and> hd vs \<noteq> tree_size T"
      using kin [of "last vs"] ks dis last_in_set [of vs] hd_in_set [of vs] pos [of "last vs"] pos [of "hd vs"] by auto
    show ?thesis
      using loop [unfolded fr ks] lu lv fnr innr inr rnr
      by (cases "us = []"; cases "vs = []")
        (simp_all add: remove_root_def Let_def nn fr T1_def T2_def T3_def T4_def)
  qed
  have l1: "us \<noteq> [] \<Longrightarrow> node_in T (last us) \<and> last us \<noteq> nr"
    using kin [of "last us"] ks dis last_in_set [of us] by auto
  have l2: "us @ vs \<noteq> [] \<Longrightarrow> node_in T (last (us @ vs)) \<and> last (us @ vs) \<noteq> nr"
    using kin [of "last (us @ vs)"] ks dis hin by auto
  have n2: "T2 ! nat i = (if i = nr then (T ! nat i)\<lparr>next_sibling := tree_size T, parent := nr\<rparr>
      else if us \<noteq> [] \<and> i = last us then (T ! nat i)\<lparr>next_sibling := nxt T nr\<rparr> else T ! nat i)"
    if "node_in T i" for i
    using that innr l1 len(1) by (cases "us = []") (simp_all add: T1_def T2_def)
  have n4: "T4 ! nat i = (if i = nr then (T2 ! nat i)\<lparr>first_child := hd (us @ vs)\<rparr>
      else if i = last (us @ vs) then (T2 ! nat i)\<lparr>next_sibling := fstc T nr\<rparr> else T2 ! nat i)"
    if "node_in T i" "us @ vs \<noteq> []" for i
    using that innr l2 len(2,3) by (simp add: T3_def T4_def)
  show ?thesis
  proof (cases "us @ vs = []")
    case True
    then show ?thesis
      using run len(2) n2 ks by (intro exI [of _ T2]) simp
  next
    case False
    have in_uv: "\<And>i. i \<in> set (us @ vs) \<Longrightarrow> node_in T i \<and> i \<noteq> nr" using kin ks dis by auto
    have seg4: "lseg T4 (hd (us @ vs)) (us @ vs) (fstc T nr)"
      by (rule lseg_unlink [OF seg dis False]) (use n2 n4 in_uv False in simp)
    from adopt_loop_correct [OF seg4 False, of nr] dis kin ks len obtain T' where
      T': "adopt_loop T4 nr (last (us @ vs)) (hd (us @ vs)) = Some T'" "length T' = length T"
      "\<forall>i. node_in T i \<longrightarrow> T' ! nat i = (if i \<in> set (us @ vs) then (T4 ! nat i)\<lparr>parent := nr\<rparr> else T4 ! nat i)"
      by auto
    have "rnk T' i = rnk T i \<and> par T' i = (if i \<in> set (kids r) then nr else par T i) \<and>
       fstc T' i = (if i = nr then hd (us @ vs @ [fstc T nr]) else fstc T i) \<and>
       nxt T' i = (if i = nr then tree_size T
                   else if us @ vs \<noteq> [] \<and> i = last (us @ vs) then fstc T nr
                   else if us \<noteq> [] \<and> i = last us then nxt T nr else nxt T i)" if "node_in T i" for i
    proof (cases "i = nr")
      case True
      then have "i \<notin> set (us @ vs)" using in_uv by blast
      with True False that show ?thesis using T'(3) n4 [of i] n2 [of i] ks by (simp add: hd_append)
    next
      case ne: False
      have m: "i \<in> set (kids r) \<longleftrightarrow> i \<in> set (us @ vs)" using ne ks by auto
      show ?thesis
        unfolding m T'(3) [rule_format, OF that] n4 [OF that False] n2 [OF that] using ne False by simp
    qed
    with T' run False show ?thesis by auto
  qed
qed

lemma root_has_kids:
  assumes inv: "tree_inv T A kids" and "A \<noteq> {Min A}"
  shows "Min (A - {Min A}) \<in> set (kids (Min A))"
proof -
  note D = tree_invD [OF inv]
  let ?m = "Min (A - {Min A})"
  have m: "?m \<in> A - {Min A}" using D(1,3) assms(2) by (intro Min_in) auto
  then have "par T ?m \<in> A" "par T ?m < ?m" using D(8,9,10) [of ?m] by (auto simp: order_less_le)
  then have "par T ?m = Min A"
    using D(1) by (metis Diff_iff Min_le empty_iff finite_Diff insert_iff leD)
  with m show ?thesis using D(7) [OF D(3)] by auto
qed

lemma remove_root_correct:
  assumes inv: "tree_inv T A kids" and r: "r = Min A" "A \<noteq> {r}"
  shows "\<exists>T' us nr vs. kids r = us @ nr # vs \<and> nr = Min (A - {r}) \<and>
    remove_root T r = Some T' \<and> length T' = length T \<and>
    (\<forall>i. node_in T i \<longrightarrow> rnk T' i = rnk T i \<and> par T' i = (if i \<in> set (kids r) then nr else par T i)) \<and>
    tree_inv T' (A - {r}) (kids(nr := us @ vs @ kids nr))"
proof -
  note D = tree_invD [OF inv]
  have rA: "r \<in> A" using D(3) r by simp
  have m: "Min (A - {r}) \<in> set (kids r)" using root_has_kids [OF inv] r by simp
  have kin: "\<forall>k \<in> set (kids r). node_in T k" using kid_greater [OF inv rA] D(4) by blast
  have ne: "kids r \<noteq> []" using m by (cases "kids r") auto
  from least_child [OF D(5) [OF rA] ne kin] obtain us nr vs where
    ks: "kids r = us @ nr # vs" and least: "\<forall>k \<in> set (kids r). nr \<le> k" and
    loop: "least_loop T (fstc T r) (fstc T r) (- 1) (- 1) =
      Some (nr, if us = [] then - 1 else last us, last (kids r))" by metis
  have nrA: "nr \<in> A" "r < nr" "par T nr = r" using kid_greater [OF inv rA, of nr] ks by auto
  have nr: "nr = Min (A - {r})"
    using least m D(1) nrA by (intro order_antisym Min.coboundedI) auto
  from remove_root_fields [OF inv r(1) ks least loop] obtain T' where
    T': "remove_root T r = Some T'" "length T' = length T" and
    F: "\<And>i. node_in T i \<Longrightarrow> rnk T' i = rnk T i \<and> par T' i = (if i \<in> set (kids r) then nr else par T i) \<and>
       fstc T' i = (if i = nr then hd (us @ vs @ [fstc T nr]) else fstc T i) \<and>
       nxt T' i = (if i = nr then tree_size T
                   else if us @ vs \<noteq> [] \<and> i = last (us @ vs) then fstc T nr
                   else if us \<noteq> [] \<and> i = last us then nxt T nr else nxt T i)"
    by blast
  have F': "i \<in> A \<Longrightarrow> par T' i = (if i \<in> set (kids r) then nr else par T i)"
    "i \<in> A \<Longrightarrow> fstc T' i = (if i = nr then hd (us @ vs @ [fstc T nr]) else fstc T i)"
    "i \<in> A \<Longrightarrow> nxt T' i = (if i = nr then tree_size T
                   else if us @ vs \<noteq> [] \<and> i = last (us @ vs) then fstc T nr
                   else if us \<noteq> [] \<and> i = last us then nxt T nr else nxt T i)" for i
    using F D(4) by blast+
  have kr: "\<And>c. c \<in> set (kids r) \<longleftrightarrow> c \<in> A \<and> c \<noteq> r \<and> par T c = r" using D(7) [OF rA] .
  have dis: "distinct (us @ nr # vs)" using D(6) [OF rA] ks by simp
  have keep: "nxt T' x = nxt T x" if "x \<in> A" "x \<notin> set (kids r)" for x
    using F'(3) [OF that(1)] that(2) ks last_in_set [of "us @ vs"] last_in_set [of us] by auto
  have chain: "lseg T' (fstc T' i) ((kids(nr := us @ vs @ kids nr)) i) (tree_size T')" if i: "i \<in> A" "i \<noteq> r" for i
  proof -
    have "x \<in> A \<and> x \<notin> set (kids r)" if "x \<in> set (kids i)" for x
      using kid_greater [OF inv i(1) that] kr i(2) by auto
    then have old: "lseg T' (fstc T i) (kids i) (tree_size T)"
      using D(5) [OF i(1)] keep by (simp add: lseg_cong [of _ T' T])
    have "lseg T' (hd (us @ vs)) (us @ vs) (fstc T nr)" if "us @ vs \<noteq> []"
    proof (rule lseg_unlink [OF _ dis that])
      show "lseg T (fstc T r) (us @ nr # vs) (tree_size T)" using D(5) [OF rA] ks by simp
      fix j assume "j \<in> set (us @ vs)"
      then have "j \<in> A" "j \<noteq> nr" using kr [of j] ks dis by auto
      then show "nxt T' j = (if j = last (us @ vs) then fstc T nr
        else if us \<noteq> [] \<and> j = last us then nxt T nr else nxt T j)" using F'(3) [of j] that by simp
    qed
    with old F'(2) [OF i(1)] T'(2) show ?thesis
      by (cases "us @ vs = []") (auto simp: lseg_append hd_append)
  qed
  have "tree_inv T' (A - {r}) (kids(nr := us @ vs @ kids nr))"
    unfolding tree_inv_def nr [symmetric]
  proof (intro conjI ballI)
    show "A - {r} \<subseteq> {0..<tree_size T'}" "A - {r} \<noteq> {}" using D(4) T'(2) nrA by auto
    show "nxt T' nr = tree_size T'" using F'(3) [OF nrA(1)] T'(2) by simp
    fix i assume "i \<in> A - {r}"
    then have i: "i \<in> A" "i \<noteq> r" by auto
    show "lseg T' (fstc T' i) ((kids(nr := us @ vs @ kids nr)) i) (tree_size T')" using chain [OF i] .
    show "distinct ((kids(nr := us @ vs @ kids nr)) i)"
      using dis D(6) [OF i(1)] D(6) [OF nrA(1)] kids_disjoint [OF inv rA nrA(1)] nrA(2) ks
      by (auto simp: disjoint_iff)
    show "set ((kids(nr := us @ vs @ kids nr)) i) = {c \<in> A - {r}. c \<noteq> i \<and> par T' c = i}"
    proof (rule set_eqI)
      fix c
      show "c \<in> set ((kids(nr := us @ vs @ kids nr)) i) \<longleftrightarrow> c \<in> {c \<in> A - {r}. c \<noteq> i \<and> par T' c = i}"
      proof (cases "c \<in> set (kids r)")
        case True
        have "par T' c = nr" "c \<in> A" "c \<noteq> r" "par T c = r" using F'(1) [of c] kr [of c] True by auto
        moreover have "c \<in> set (us @ vs) \<longleftrightarrow> c \<noteq> nr" using True ks dis by auto
        ultimately show ?thesis using D(7) [OF i(1), of c] D(7) [OF nrA(1), of c] i(2) nrA by simp
      next
        case False
        then have "c \<in> A \<Longrightarrow> par T' c = par T c" using F'(1) [of c] by simp
        moreover have "c \<notin> set (us @ vs)" "c = r \<Longrightarrow> par T c = r" using False ks D(10) [OF rA] r(1) by auto
        ultimately show ?thesis using D(7) [OF i(1), of c] i(2) by auto
      qed
    qed
    show "par T' i \<in> A - {r}" "par T' i \<le> i" "par T' i = i \<longrightarrow> i = nr"
      using F'(1) [OF i(1)] D(8,9,10) [OF i(1)] kr [of i] least i nrA r by auto
  qed
  with T' F ks nr show ?thesis by blast
qed

section \<open>Removal of any node\<close>

definition adopter :: "era_tree_t list \<Rightarrow> int set \<Rightarrow> int \<Rightarrow> int" where
  "adopter T A r = (if r = Min A then Min (A - {r}) else par T r)"

lemma remove_node_correct:
  assumes inv: "tree_inv T A kids" and r: "r \<in> A" "A \<noteq> {r}"
  shows "\<exists>T' kids'. era_tree_remove_node T r = Some T' \<and> length T' = length T \<and>
    tree_inv T' (A - {r}) kids' \<and> (\<forall>i. node_in T i \<longrightarrow> rnk T' i = rnk T i) \<and>
    (\<forall>i \<in> A - {r}. par T' i = (if par T i = r then adopter T A r else par T i)) \<and>
    (\<forall>i us vs. i \<in> A \<longrightarrow> kids i = us @ r # vs \<longrightarrow> kids' i = us @ kids r @ vs)"
proof -
  note D = tree_invD [OF inv]
  have kr: "i \<in> set (kids r) \<longleftrightarrow> par T i = r" if "i \<in> A - {r}" for i using D(7) [OF r(1), of i] that by auto
  have rd: "rd T r = Some (T ! nat r)" using D(4) [OF r(1)] by simp
  show ?thesis
  proof (cases "r = Min A")
    case True
    from remove_root_correct [OF inv True r(2)] obtain T' us nr vs where
      T': "kids r = us @ nr # vs" "nr = Min (A - {r})" "remove_root T r = Some T'" "length T' = length T"
        "\<forall>i. node_in T i \<longrightarrow> rnk T' i = rnk T i \<and> par T' i = (if i \<in> set (kids r) then nr else par T i)"
        "tree_inv T' (A - {r}) (kids(nr := us @ vs @ kids nr))" by blast
    have "era_tree_remove_node T r = Some T'"
      using D(10) [OF r(1)] True T'(3) unfolding era_tree_remove_node_def rd by simp
    moreover have "\<forall>i \<in> A - {r}. par T' i = (if par T i = r then adopter T A r else par T i)"
      using T'(2,5) kr D(4) True by (simp add: adopter_def)
    moreover have "\<not> (i \<in> A \<and> kids i = us' @ r # vs')" for i us' vs'
      using kid_greater [OF inv, of i r] D(1) True by (metis Min_le in_set_conv_decomp leD)
    ultimately show ?thesis using T'(4-6) by blast
  next
    case False
    then have "r \<noteq> par T r" and pA: "par T r \<in> A" using D(8,10) [OF r(1)] by auto
    then have "r \<in> set (kids (par T r))" using D(7) [OF pA, of r] r(1) by simp
    then obtain us vs where p: "kids (par T r) = us @ r # vs" by (auto dest: split_list)
    from remove_inner_correct [OF inv r(1) False p] obtain T' where
      T': "remove_inner T r (par T r) = Some T'" "length T' = length T"
        "\<forall>i. node_in T i \<longrightarrow> rnk T' i = rnk T i \<and> par T' i = (if i \<in> set (kids r) then par T r else par T i)"
        "tree_inv T' (A - {r}) (kids(par T r := us @ kids r @ vs))" by blast
    have "era_tree_remove_node T r = Some T'"
      using \<open>r \<noteq> par T r\<close> T'(1) unfolding era_tree_remove_node_def rd by simp
    moreover have "\<forall>i \<in> A - {r}. par T' i = (if par T i = r then adopter T A r else par T i)"
      using T'(3) kr D(4) False by (simp add: adopter_def)
    moreover have "(kids(par T r := us @ kids r @ vs)) i = us' @ kids r @ vs'"
      if "i \<in> A" "kids i = us' @ r # vs'" for i us' vs'
    proof -
      have "par T r = i" using kid_greater [OF inv that(1), of r] that(2) by simp
      with p that(2) D(6) [OF that(1)] have "us' = us \<and> vs' = vs"
        by (metis append_Cons_eq_iff distinct.simps(2) distinct_append not_distinct_conv_prefix in_set_conv_decomp_first Un_iff disjoint_iff insert_iff list.set(2))
      with \<open>par T r = i\<close> show ?thesis by simp
    qed
    ultimately show ?thesis using T'(2-4) by blast
  qed
qed

section \<open>Ancestors\<close>

function ancs :: "era_tree_t list \<Rightarrow> int \<Rightarrow> int list" where
  "ancs T i = (if 0 \<le> par T i \<and> par T i < i then par T i # ancs T (par T i) else [])"
  by auto
termination by (relation "measure (\<lambda>(T, i). nat i)") auto

declare ancs.simps [simp del]

lemma ancs_root:
  assumes "tree_inv T A kids"
  shows "ancs T (Min A) = []"
proof -
  have "par T (Min A) = Min A" using tree_invD(3,10) [OF assms] by blast
  then show ?thesis by (subst ancs.simps) simp
qed

lemma ancs_step:
  assumes "tree_inv T A kids" "i \<in> A" "i \<noteq> Min A"
  shows "ancs T i = par T i # ancs T (par T i)"
  using tree_invD(4,8,9,10) [OF assms(1)] assms(2,3) by (subst ancs.simps) (auto simp: order_less_le)

lemma tree_induct [consumes 2, case_names root child]:
  assumes inv: "tree_inv T A kids" and i: "i \<in> A"
    and root: "P (Min A)"
    and child: "\<And>i. i \<in> A \<Longrightarrow> i \<noteq> Min A \<Longrightarrow> par T i \<in> A \<Longrightarrow> par T i < i \<Longrightarrow> P (par T i) \<Longrightarrow> P i"
  shows "P i"
  using i
proof (induction "nat i" arbitrary: i rule: less_induct)
  case less
  note D = tree_invD [OF inv]
  show ?case
  proof (cases "i = Min A")
    case True
    with root show ?thesis by simp
  next
    case False
    then have "par T i < i" "par T i \<in> A" using D(8,9,10) [OF less.prems] by auto
    moreover have "0 \<le> par T i" using D(4) [OF \<open>par T i \<in> A\<close>] by simp
    ultimately show ?thesis using less.hyps [of "par T i"] less.prems False by (simp add: child)
  qed
qed

lemma ancs_in:
  assumes inv: "tree_inv T A kids"
  shows "i \<in> A \<Longrightarrow> set (ancs T i) \<subseteq> {j \<in> A. j < i}"
  by (induction i rule: tree_induct [OF inv, consumes 1])
    (auto simp: ancs_root [OF inv] ancs_step [OF inv])

lemma remove_inner_ancs:
  assumes inv: "tree_inv T A kids" "tree_inv T' (A - {r}) kids'" and r: "r \<in> A" "r \<noteq> Min A"
    and par: "\<forall>i \<in> A - {r}. par T' i = (if par T i = r then adopter T A r else par T i)"
  shows "i \<in> A \<Longrightarrow> i \<noteq> r \<Longrightarrow> ancs T' i = filter (\<lambda>a. a \<noteq> r) (ancs T i)"
proof -
  have "Min (A - {r}) = Min A" using tree_invD(1,3) [OF inv(1)] r by (intro Min_eqI) auto
  note root' = ancs_root [OF inv(2), unfolded this] and step' = ancs_step [OF inv(2), unfolded this]
  have ar: "ancs T r = par T r # ancs T (par T r)" "par T r < r" "par T r \<in> A"
    using ancs_step [OF inv(1) r] tree_invD(8,9,10) [OF inv(1) r(1)] r(2) by auto
  have *: "i \<in> A \<Longrightarrow> filter (\<lambda>a. a \<noteq> r) (ancs T i) = (if i = r then par T r # ancs T' (par T r) else ancs T' i)"
  proof (induction i rule: tree_induct [OF inv(1), consumes 1, case_names root child])
    case root
    then show ?case using ancs_root [OF inv(1)] root' r by simp
  next
    case (child i)
    have i: "ancs T i = par T i # ancs T (par T i)" using child ancs_step [OF inv(1)] by simp
    show ?case
    proof (cases "i = r")
      case True
      with child i ar show ?thesis by simp
    next
      case False
      then have "ancs T' i = par T' i # ancs T' (par T' i)"
        "par T' i = (if par T i = r then par T r else par T i)"
        using step' [of i] child par r(2) by (auto simp: adopter_def)
      with i child.IH show ?thesis using False by (simp split: if_splits)
    qed
  qed
  then show "i \<in> A \<Longrightarrow> i \<noteq> r \<Longrightarrow> ancs T' i = filter (\<lambda>a. a \<noteq> r) (ancs T i)" by simp
qed

lemma remove_root_ancs:
  assumes inv: "tree_inv T A kids" "tree_inv T' (A - {r}) kids'" and r: "r = Min A" "A \<noteq> {r}"
    and par: "\<forall>i \<in> A - {r}. par T' i = (if par T i = r then adopter T A r else par T i)"
    and m: "m = Min (A - {r})"
  shows "i \<in> A \<Longrightarrow> i \<noteq> r \<Longrightarrow> ancs T' i = (let as = filter (\<lambda>a. a \<noteq> r) (ancs T i) in
    if i = m \<or> m \<in> set as then as else as @ [m])"
proof (induction i rule: tree_induct [OF inv(1), consumes 1, case_names root child])
  case root
  then show ?case using r by simp
next
  case (child i)
  have mk: "m \<in> A" "par T m = r" "m \<noteq> r" using root_has_kids [OF inv(1)] kid_greater [OF inv(1), of r m] r m
    tree_invD(3) [OF inv(1)] by auto
  have am: "ancs T m = [r]" using ancs_step [OF inv(1), of m] ancs_root [OF inv(1)] mk r by simp
  note root' = ancs_root [OF inv(2), folded m] and step' = ancs_step [OF inv(2), folded m]
  have i: "ancs T i = par T i # ancs T (par T i)" using child ancs_step [OF inv(1)] by simp
  show ?case
  proof (cases "par T i = r")
    case True
    then have "ancs T i = [r]" using i ancs_root [OF inv(1)] r by simp
    moreover have "i \<noteq> m \<Longrightarrow> par T' i = m" using par child True r m by (simp add: adopter_def)
    ultimately show ?thesis using step' [of i] root' child r by (cases "i = m") (simp_all add: Let_def)
  next
    case False
    then have "i \<noteq> m" "par T' i = par T i" using mk par child r by auto
    then have "ancs T' i = par T i # ancs T' (par T i)" using step' [of i] child r by simp
    with child.IH False \<open>i \<noteq> m\<close> am show ?thesis using i by (auto simp: Let_def)
  qed
qed

end
