(* ===== verification/Era_Live.thy ===== *)
theory Era_Live
  imports Era_Tree_Correct
begin

text \<open>
  Living parents and children in the tree of the early returning agreement. Every process repairs
  its own copy of the tree, in the order in which it meets failed nodes. The result does not depend
  on that order: the living parent of a process is its nearest living ancestor, and the least
  living process when all its ancestors have failed. Hence the process that one of two processes
  takes as its parent takes the other as a child.
\<close>

section \<open>Nodes of ranks\<close>

definition ranks_ok :: "era_tree_t list \<Rightarrow> int \<Rightarrow> bool" where
  "ranks_ok T n \<longleftrightarrow> sorted_wrt (<) (map rank_in_comm T) \<and> (\<forall>x \<in> set T. 0 \<le> rank_in_comm x \<and> rank_in_comm x < n)"

lemma ranks_mono: "ranks_ok T n \<Longrightarrow> node_in T i \<Longrightarrow> node_in T j \<Longrightarrow> i < j \<Longrightarrow> rnk T i < rnk T j"
  by (simp add: ranks_ok_def sorted_wrt_iff_nth_less nat_less_iff zless_nat_conj)

lemma ranks_inj: "ranks_ok T n \<Longrightarrow> node_in T i \<Longrightarrow> node_in T j \<Longrightarrow> rnk T i = rnk T j \<longleftrightarrow> i = j"
  using ranks_mono [of T n i j] ranks_mono [of T n j i] by (cases i j rule: linorder_cases) auto

lemma ranks_range: "ranks_ok T n \<Longrightarrow> node_in T i \<Longrightarrow> 0 \<le> rnk T i \<and> rnk T i < n"
  by (simp add: ranks_ok_def nat_less_iff)

lemma ranks_ge: "ranks_ok T n \<Longrightarrow> k < length T \<Longrightarrow> int k \<le> rank_in_comm (T ! k)"
proof (induction k)
  case 0
  then show ?case using ranks_range [of T n 0] by simp
next
  case (Suc k)
  then have "rank_in_comm (T ! k) < rank_in_comm (T ! Suc k)"
    by (simp add: ranks_ok_def sorted_wrt_iff_nth_less)
  with Suc show ?case by simp
qed

lemma node_loop_down:
  "node_in T s \<Longrightarrow> 0 \<le> i \<Longrightarrow> i \<le> s \<Longrightarrow> rnk T i = r \<Longrightarrow> (\<And>j. i < j \<Longrightarrow> j \<le> s \<Longrightarrow> rnk T j \<noteq> r) \<Longrightarrow>
   node_loop T r s = Some i"
proof (induction "nat (s - i)" arbitrary: s)
  case 0
  then show ?case by (subst node_loop.simps) auto
next
  case (Suc k)
  then have "i < s" by linarith
  with Suc.prems have "node_loop T r (s - 1) = Some i" by (intro Suc.hyps) (use Suc.hyps(2) in auto)
  with Suc.prems \<open>i < s\<close> show ?case by (subst node_loop.simps) auto
qed

lemma node_of_rank:
  assumes "ranks_ok T n" "node_in T i"
  shows "era_tree_rank_from_comm_rank T (rnk T i) = Some i"
proof -
  let ?s = "if rnk T i \<ge> tree_size T then tree_size T - 1 else rnk T i"
  have "i \<le> rnk T i" using ranks_ge [OF assms(1), of "nat i"] assms(2) by (simp add: nat_less_iff)
  then have s: "node_in T ?s" "i \<le> ?s" using assms(2) by auto
  show ?thesis
    unfolding era_tree_rank_from_comm_rank_def
  proof (rule node_loop_down [OF s(1) _ s(2) refl])
    fix j assume "i < j" "j \<le> ?s"
    with ranks_mono [OF assms, of j] s(1) assms(2) show "rnk T j \<noteq> rnk T i" by auto
  qed (use assms(2) in simp)
qed

section \<open>Living parents\<close>

definition live_parent :: "(int \<Rightarrow> bool) \<Rightarrow> era_tree_t list \<Rightarrow> int set \<Rightarrow> int \<Rightarrow> int" where
  "live_parent act T A i = (case filter act (ancs T i) of a # _ \<Rightarrow> a | [] \<Rightarrow> Min {j \<in> A. act j})"

lemma live_parent_in:
  assumes "tree_inv T A kids" "i \<in> A" "act i"
  shows "live_parent act T A i \<in> A \<and> act (live_parent act T A i)"
proof (cases "filter act (ancs T i)")
  case Nil
  have "Min {j \<in> A. act j} \<in> {j \<in> A. act j}" using tree_invD(1) [OF assms(1)] assms(2,3) by (intro Min_in) auto
  with Nil show ?thesis by (simp add: live_parent_def)
next
  case (Cons a as)
  then have "a \<in> set (filter act (ancs T i))" by simp
  then have "a \<in> A" "act a" using ancs_in [OF assms(1,2)] by auto
  with Cons show ?thesis by (simp add: live_parent_def)
qed

lemma live_parent_remove:
  assumes inv: "tree_inv T A kids" "tree_inv T' (A - {r}) kids'" and r: "r \<in> A" "\<not> act r"
    and par: "\<forall>i \<in> A - {r}. par T' i = (if par T i = r then adopter T A r else par T i)"
    and i: "i \<in> A" "act i"
  shows "live_parent act T' (A - {r}) i = live_parent act T A i"
proof -
  have live: "{j \<in> A - {r}. act j} = {j \<in> A. act j}" and ir: "i \<noteq> r" using r i by auto
  have dead: "filter act (filter (\<lambda>a. a \<noteq> r) xs) = filter act xs" for xs
    using r(2) by (auto simp: filter_filter intro: filter_cong)
  show ?thesis
  proof (cases "r = Min A")
    case False
    show ?thesis
      unfolding live_parent_def live remove_inner_ancs [OF inv r(1) False par i(1) ir] dead ..
  next
    case True
    have ne: "A \<noteq> {r}" using i ir by auto
    define m where "m = Min (A - {r})"
    have "m = Min {j \<in> A. act j}" if "act m"
    proof (rule Min_eqI [symmetric])
      have fin: "finite A" using tree_invD(1) [OF inv(1)] .
      have "m \<in> A - {r}" unfolding m_def using fin ne i(1) ir by (intro Min_in) auto
      then show "m \<in> {j \<in> A. act j}" using that by simp
      fix y assume "y \<in> {j \<in> A. act j}"
      then show "m \<le> y" unfolding m_def using fin r(2) by (intro Min_le) auto
    qed (use tree_invD(1) [OF inv(1)] in simp)
    then show ?thesis
      unfolding live_parent_def live remove_root_ancs [OF inv True ne par m_def i(1) ir] Let_def
      by (cases "filter act (ancs T i)"; cases "act m") (simp_all only: dead filter_append if_distrib
        [of "filter act"] list.case filter.simps if_True if_False append_Cons append_Nil simp_thms split: if_split)
  qed
qed

text \<open>A repaired copy of a tree: failed nodes have been removed.\<close>

definition repaired :: "(int \<Rightarrow> bool) \<Rightarrow> era_tree_t list \<Rightarrow> int set \<Rightarrow> era_tree_t list \<Rightarrow> int set \<Rightarrow> bool" where
  "repaired act T A T' A' \<longleftrightarrow>
     length T' = length T \<and> (\<forall>i. node_in T i \<longrightarrow> rnk T' i = rnk T i) \<and>
     A' \<subseteq> A \<and> {j \<in> A. act j} \<subseteq> A' \<and>
     (\<forall>j \<in> A'. act j \<longrightarrow> live_parent act T' A' j = live_parent act T A j)"

lemma repaired_refl: "repaired act T A T A"
  by (auto simp: repaired_def)

lemma repaired_trans: "repaired act T A T' A' \<Longrightarrow> repaired act T' A' T'' A'' \<Longrightarrow> repaired act T A T'' A''"
proof -
  assume 1: "repaired act T A T' A'" and 2: "repaired act T' A' T'' A''"
  have "live_parent act T'' A'' j = live_parent act T A j" if "j \<in> A''" "act j" for j
    using 1 2 that unfolding repaired_def by (metis subsetD)
  moreover have "A'' \<subseteq> A" "{j \<in> A. act j} \<subseteq> A''" using 1 2 unfolding repaired_def by blast+
  moreover have "length T'' = length T" "\<forall>i. node_in T i \<longrightarrow> rnk T'' i = rnk T i"
    using 1 2 by (simp_all add: repaired_def)
  ultimately show ?thesis unfolding repaired_def by blast
qed

lemma repaired_map: "repaired act T A T' A' \<Longrightarrow> map rank_in_comm T' = map rank_in_comm T"
  by (intro nth_equalityI) (auto simp: repaired_def dest!: spec [of _ "int _"])

lemma repaired_ranks: "repaired act T A T' A' \<Longrightarrow> ranks_ok T n \<Longrightarrow> ranks_ok T' n"
proof -
  assume "repaired act T A T' A'" "ranks_ok T n"
  moreover from this have "map rank_in_comm T' = map rank_in_comm T" by (intro repaired_map)
  ultimately show ?thesis unfolding ranks_ok_def by (metis (mono_tags, lifting) in_set_conv_nth length_map nth_map nth_mem)
qed

lemma remove_node_repairs:
  assumes "tree_inv T A kids" "r \<in> A" "\<not> act r" "A \<noteq> {r}"
  obtains T' kids' where "era_tree_remove_node T r = Some T'" "tree_inv T' (A - {r}) kids'"
    "repaired act T A T' (A - {r})"
    "\<And>i us vs. i \<in> A \<Longrightarrow> kids i = us @ r # vs \<Longrightarrow> kids' i = us @ kids r @ vs"
    "r \<noteq> Min A \<Longrightarrow> \<forall>i \<in> A - {r}. filter act (ancs T' i) = filter act (ancs T i)"
proof -
  from remove_node_correct [OF assms(1,2,4)] obtain T' kids' where
    T': "era_tree_remove_node T r = Some T'" "length T' = length T" "tree_inv T' (A - {r}) kids'"
    "\<forall>i. node_in T i \<longrightarrow> rnk T' i = rnk T i"
    "\<forall>i \<in> A - {r}. par T' i = (if par T i = r then adopter T A r else par T i)"
    "\<forall>i us vs. i \<in> A \<longrightarrow> kids i = us @ r # vs \<longrightarrow> kids' i = us @ kids r @ vs" by blast
  have "repaired act T A T' (A - {r})"
    using T' assms(2,3) live_parent_remove [of T A kids T' r kids' act, OF assms(1) T'(3) assms(2,3) T'(5)] by (auto simp: repaired_def)
  moreover have "filter act (ancs T' i) = filter act (ancs T i)" if "r \<noteq> Min A" "i \<in> A - {r}" for i
    using remove_inner_ancs [OF assms(1) T'(3) assms(2) that(1) T'(5), of i] that(2) assms(3)
    by (auto simp: filter_filter intro: filter_cong)
  ultimately show thesis using T' by (intro that) blast+
qed

section \<open>The search for the parent\<close>

abbreviation (input) knows :: "era_comm_t \<Rightarrow> era_tree_t list \<Rightarrow> int set \<Rightarrow> (int \<Rightarrow> bool) \<Rightarrow> bool" where
  "knows comm T A act \<equiv> \<forall>j \<in> A. ec_active comm (rnk T j) = Some (act j)"

lemma knows_repaired:
  "tree_inv T A kids \<Longrightarrow> knows comm T A act \<Longrightarrow> repaired act T A T' A' \<Longrightarrow> knows comm T' A' act"
  using tree_invD(4) [of T A kids] unfolding repaired_def by (metis subsetD)

lemma live_parent_here:
  assumes "tree_inv T A kids" "i \<in> A" "act i" "act (par T i)"
  shows "live_parent act T A i = par T i"
proof (cases "i = Min A")
  case True
  have "Min {j \<in> A. act j} = i"
    using tree_invD(1) [OF assms(1)] assms(2,3) True by (intro Min_eqI) auto
  with True assms show ?thesis
    using tree_invD(10) [OF assms(1,2)] ancs_root [OF assms(1)] by (simp add: live_parent_def)
next
  case False
  with assms show ?thesis by (simp add: live_parent_def ancs_step)
qed

lemma parent_loop_correct:
  assumes "tree_inv T A kids" "i \<in> A" "act i" "knows comm T A act"
  shows "\<exists>T' A' kids'. parent_loop comm T i = Some (rnk T (live_parent act T A i), T') \<and>
    tree_inv T' A' kids' \<and> repaired act T A T' A' \<and> act (par T' i)"
  using assms
proof (induction "card A" arbitrary: T A kids)
  case 0
  then show ?case using tree_invD(1,2) [OF 0(2)] by simp
next
  case (Suc k)
  note D = tree_invD [OF Suc.prems(1)]
  let ?p = "par T i"
  have pA: "?p \<in> A" using D(8) [OF Suc.prems(2)] .
  have rds: "rd T i = Some (T ! nat i)" "rd T ?p = Some (T ! nat ?p)" "ec_active comm (rnk T ?p) = Some (act ?p)"
    using D(4) [OF Suc.prems(2)] D(4) [OF pA] Suc.prems(4) pA by simp_all
  show ?case
  proof (cases "act ?p")
    case True
    then have "parent_loop comm T i = Some (rnk T (live_parent act T A i), T)"
      using live_parent_here [where act = act, OF Suc.prems(1-3)] rds by (subst parent_loop.simps) simp
    with True Suc.prems(1) repaired_refl show ?thesis by blast
  next
    case False
    then have "A \<noteq> {?p}" using Suc.prems(2,3) by auto
    from remove_node_repairs [where act = act, OF Suc.prems(1) pA False this] obtain T1 kids1 where
      T1: "era_tree_remove_node T ?p = Some T1" "tree_inv T1 (A - {?p}) kids1" "repaired act T A T1 (A - {?p})" .
    have i1: "i \<in> A - {?p}" using Suc.prems(2,3) False by auto
    have "k = card (A - {?p})" using Suc.hyps(2) pA D(1) by simp
    from Suc.hyps(1) [OF this T1(2) i1 Suc.prems(3) knows_repaired [OF Suc.prems(1,4) T1(3)]]
    obtain T' A' kids' where T': "parent_loop comm T1 i = Some (rnk T1 (live_parent act T1 (A - {?p}) i), T')"
      "tree_inv T' A' kids'" "repaired act T1 (A - {?p}) T' A'" "act (par T' i)" by blast
    have lp: "live_parent act T1 (A - {?p}) i = live_parent act T A i"
      using T1(3) i1 Suc.prems(3) by (simp add: repaired_def)
    have "live_parent act T A i \<in> A" using live_parent_in [where act = act, OF Suc.prems(1-3)] by simp
    then have "rnk T1 (live_parent act T A i) = rnk T (live_parent act T A i)"
      using T1(3) D(4) by (simp add: repaired_def)
    then have "parent_loop comm T i = Some (rnk T (live_parent act T A i), T')"
      using T1(1) T'(1) False rds lp by (subst parent_loop.simps) simp
    with T' repaired_trans [OF T1(3) T'(3)] show ?thesis by blast
  qed
qed

section \<open>The loop over the children\<close>

text \<open>Below a living node only inner nodes are removed, which changes no list of living ancestors.\<close>

definition pruned :: "(int \<Rightarrow> bool) \<Rightarrow> era_tree_t list \<Rightarrow> int set \<Rightarrow> era_tree_t list \<Rightarrow> int set \<Rightarrow> bool" where
  "pruned act T A T' A' \<longleftrightarrow>
     repaired act T A T' A' \<and> (\<forall>c \<in> A'. filter act (ancs T' c) = filter act (ancs T c))"

lemma pruned_refl: "pruned act T A T A"
  by (simp add: pruned_def repaired_refl)

lemma pruned_trans: "pruned act T A T' A' \<Longrightarrow> pruned act T' A' T'' A'' \<Longrightarrow> pruned act T A T'' A''"
  unfolding pruned_def using repaired_trans by (metis repaired_def subsetD)

lemma prune_child:
  assumes "tree_inv T A kids" "i \<in> A" "kids i = us @ c # vs" "\<not> act c"
  shows "\<exists>T' kids'. era_tree_remove_node T c = Some T' \<and> tree_inv T' (A - {c}) kids' \<and>
    pruned act T A T' (A - {c}) \<and> kids' i = us @ kids c @ vs \<and> i \<in> A - {c}"
proof -
  have c: "c \<in> A" "i < c" using kid_greater [OF assms(1,2), of c] assms(3) by auto
  then have "A \<noteq> {c}" "c \<noteq> Min A" using assms(2) tree_invD(1) [OF assms(1)] Min_le by fastforce+
  from remove_node_repairs [where act = act, OF assms(1) c(1) assms(4) this(1)] obtain T' kids' where
    "era_tree_remove_node T c = Some T'" "tree_inv T' (A - {c}) kids'" "repaired act T A T' (A - {c})"
    "\<And>i us vs. i \<in> A \<Longrightarrow> kids i = us @ c # vs \<Longrightarrow> kids' i = us @ kids c @ vs"
    "c \<noteq> Min A \<Longrightarrow> \<forall>i \<in> A - {c}. filter act (ancs T' i) = filter act (ancs T i)" by metis
  with assms(2,3) c \<open>c \<noteq> Min A\<close> show ?thesis by (intro exI [of _ T'] exI [of _ kids']) (simp add: pruned_def)
qed

lemma child_loop_correct:
  assumes "tree_inv T A kids" "i \<in> A" "knows comm T A act"
  shows "\<exists>T' A' kids'. tree_inv T' A' kids' \<and> pruned act T A T' A' \<and> i \<in> A' \<and>
    child_loop comm T i = Some (case kids' i of [] \<Rightarrow> ec_size comm | c # _ \<Rightarrow> rnk T' c, T') \<and>
    (\<forall>c cs. kids' i = c # cs \<longrightarrow> act c)"
  using assms
proof (induction "card A" arbitrary: T A kids)
  case 0
  then show ?case using tree_invD(1,2) [OF 0(2)] by simp
next
  case (Suc k)
  note D = tree_invD [OF Suc.prems(1)]
  have ri: "rd T i = Some (T ! nat i)" using D(4) [OF Suc.prems(2)] by simp
  show ?case
  proof (cases "kids i")
    case Nil
    then have "child_loop comm T i = Some (ec_size comm, T)"
      using D(5) [OF Suc.prems(2)] ri by (subst child_loop.simps) simp
    with Nil Suc.prems(1,2) pruned_refl show ?thesis by (intro exI [of _ T] exI [of _ A] exI [of _ kids]) simp
  next
    case (Cons c cs)
    have c: "c \<in> A" "fstc T i = c"
      using kid_greater [OF Suc.prems(1,2), of c] D(5) [OF Suc.prems(2)] Cons by auto
    have rds: "rd T c = Some (T ! nat c)" "ec_active comm (rnk T c) = Some (act c)" "c \<noteq> tree_size T"
      using D(4) [OF c(1)] Suc.prems(3) c(1) by auto
    show ?thesis
    proof (cases "act c")
      case True
      then have "child_loop comm T i = Some (rnk T c, T)"
        using ri rds c(2) by (subst child_loop.simps) simp
      with Cons True Suc.prems(1,2) pruned_refl show ?thesis
        by (intro exI [of _ T] exI [of _ A] exI [of _ kids]) simp
    next
      case False
      from prune_child [where act = act, OF Suc.prems(1,2) _ False, of "[]" cs] Cons obtain T1 kids1 where
        T1: "era_tree_remove_node T c = Some T1" "tree_inv T1 (A - {c}) kids1"
          "pruned act T A T1 (A - {c})" "i \<in> A - {c}" by auto
      have "k = card (A - {c})" using Suc.hyps(2) c(1) D(1) by simp
      from Suc.hyps(1) [OF this T1(2,4) knows_repaired [OF Suc.prems(1,3)]] T1(3)
      obtain T' A' kids' where T': "tree_inv T' A' kids'" "pruned act T1 (A - {c}) T' A'" "i \<in> A'"
        "child_loop comm T1 i = Some (case kids' i of [] \<Rightarrow> ec_size comm | c # _ \<Rightarrow> rnk T' c, T')"
        "\<forall>c cs. kids' i = c # cs \<longrightarrow> act c" by (auto simp: pruned_def)
      have "child_loop comm T i = child_loop comm T1 i"
        using T1(1) False ri rds c(2) by (subst child_loop.simps) simp
      with T' pruned_trans [OF T1(3) T'(2)] show ?thesis by metis
    qed
  qed
qed

lemma sibling_loop_correct:
  assumes "tree_inv T A kids" "i \<in> A" "knows comm T A act" "kids i = us @ s # vs"
  shows "\<exists>T' A' kids' vs'. tree_inv T' A' kids' \<and> pruned act T A T' A' \<and> i \<in> A' \<and>
    kids' i = us @ s # vs' \<and>
    sibling_loop comm T s = Some (case vs' of [] \<Rightarrow> ec_size comm | c # _ \<Rightarrow> rnk T' c, T') \<and>
    (\<forall>c cs. vs' = c # cs \<longrightarrow> act c)"
  using assms
proof (induction "card A" arbitrary: T A kids vs)
  case 0
  then show ?case using tree_invD(1,2) [OF 0(2)] by simp
next
  case (Suc k)
  note D = tree_invD [OF Suc.prems(1)]
  have "s \<in> A" using kid_greater [OF Suc.prems(1,2), of s] Suc.prems(4) by simp
  then have ri: "rd T s = Some (T ! nat s)" using D(4) by simp
  have seg: "lseg T (nxt T s) vs (tree_size T)"
    using D(5) [OF Suc.prems(2)] Suc.prems(4) by (auto simp: lseg_append)
  show ?case
  proof (cases vs)
    case Nil
    then have "sibling_loop comm T s = Some (ec_size comm, T)"
      using seg ri by (subst sibling_loop.simps) simp
    with Nil Suc.prems(1,2,4) pruned_refl show ?thesis
      by (intro exI [of _ T] exI [of _ A] exI [of _ kids] exI [of _ "[]"]) simp
  next
    case (Cons c cs)
    have c: "c \<in> A" "nxt T s = c" using kid_greater [OF Suc.prems(1,2), of c] Suc.prems(4) seg Cons by auto
    have rds: "rd T c = Some (T ! nat c)" "ec_active comm (rnk T c) = Some (act c)" "c \<noteq> tree_size T"
      using D(4) [OF c(1)] Suc.prems(3) c(1) by auto
    show ?thesis
    proof (cases "act c")
      case True
      then have "sibling_loop comm T s = Some (rnk T c, T)"
        using ri rds c(2) by (subst sibling_loop.simps) simp
      with Cons True Suc.prems(1,2,4) pruned_refl show ?thesis
        by (intro exI [of _ T] exI [of _ A] exI [of _ kids] exI [of _ vs]) simp
    next
      case False
      from prune_child [where act = act, OF Suc.prems(1,2) _ False, of "us @ [s]" cs] Cons Suc.prems(4)
      obtain T1 kids1 where
        T1: "era_tree_remove_node T c = Some T1" "tree_inv T1 (A - {c}) kids1"
          "pruned act T A T1 (A - {c})" "i \<in> A - {c}" "kids1 i = us @ s # (kids c @ cs)" by auto
      have "k = card (A - {c})" using Suc.hyps(2) c(1) D(1) by simp
      from Suc.hyps(1) [OF this T1(2,4) knows_repaired [OF Suc.prems(1,3)] T1(5)] T1(3)
      obtain T' A' kids' vs' where T': "tree_inv T' A' kids'" "pruned act T1 (A - {c}) T' A'" "i \<in> A'"
        "kids' i = us @ s # vs'"
        "sibling_loop comm T1 s = Some (case vs' of [] \<Rightarrow> ec_size comm | c # _ \<Rightarrow> rnk T' c, T')"
        "\<forall>c cs. vs' = c # cs \<longrightarrow> act c" by (auto simp: pruned_def)
      have "sibling_loop comm T s = sibling_loop comm T1 s"
        using T1(1) False ri rds c(2) by (subst sibling_loop.simps) simp
      with T' pruned_trans [OF T1(3) T'(2)] show ?thesis by metis
    qed
  qed
qed

lemma pruned_rnk:
  "tree_inv T A kids \<Longrightarrow> pruned act T A T' A' \<Longrightarrow> c \<in> A' \<Longrightarrow> rnk T' c = rnk T c"
  using tree_invD(4) [of T A kids c] by (auto simp: pruned_def repaired_def)

lemma pruned_ranks: "pruned act T A T' A' \<Longrightarrow> ranks_ok T n \<Longrightarrow> ranks_ok T' n"
  using repaired_ranks by (auto simp: pruned_def)

lemma children_from:
  assumes "tree_inv T A kids" "i \<in> A" "knows comm T A act" "ranks_ok T (ec_size comm)"
    "kids i = us @ s # vs"
  shows "\<exists>T' A' kids' vs'. tree_inv T' A' kids' \<and> pruned act T A T' A' \<and> i \<in> A' \<and>
    kids' i = us @ s # vs' \<and> era_children comm T (rnk T s) = Some (map (rnk T) vs', T') \<and>
    (\<forall>c \<in> set vs'. act c)"
  using assms
proof (induction "card A - length us" arbitrary: T A kids us s vs rule: less_induct)
  case less
  from sibling_loop_correct [OF less.prems(1-3,5)] obtain T1 A1 kids1 vs1 where
    1: "tree_inv T1 A1 kids1" "pruned act T A T1 A1" "i \<in> A1" "kids1 i = us @ s # vs1"
      "sibling_loop comm T s = Some (case vs1 of [] \<Rightarrow> ec_size comm | c # _ \<Rightarrow> rnk T1 c, T1)"
      "\<forall>c cs. vs1 = c # cs \<longrightarrow> act c" by blast
  have s: "node_in T s"
    using kid_greater [OF less.prems(1,2), of s] tree_invD(4) [OF less.prems(1), of s] less.prems(5) by auto
  then have nx: "era_next_child comm T (rnk T s) = sibling_loop comm T s"
    using ranks_range [OF less.prems(4) s] node_of_rank [OF less.prems(4) s]
    by (simp add: era_next_child_def)
  show ?case
  proof (cases vs1)
    case Nil
    with 1 nx show ?thesis by (subst era_children.simps) (auto intro!: exI [of _ T1] exI [of _ A1] exI [of _ kids1])
  next
    case (Cons c cs)
    have k1: "set (kids1 i) \<subseteq> A1" "distinct (kids1 i)" "finite A1"
      using kid_greater [OF 1(1,3)] tree_invD(1,6) [OF 1(1)] 1(3) by blast+
    then have c: "c \<in> A1" using 1(4) Cons by auto
    have "length (kids1 i) \<le> card A1" using k1 by (metis card_mono distinct_card)
    moreover have "card A1 \<le> card A" using 1(2) tree_invD(1) [OF less.prems(1)]
      by (auto simp: pruned_def repaired_def intro: card_mono)
    ultimately have "card A1 - length (us @ [s]) < card A - length us" using 1(4) Cons by simp
    from less.hyps [OF this 1(1,3) _ pruned_ranks [OF 1(2) less.prems(4)], of c cs] 1(2,4) Cons
      knows_repaired [OF less.prems(1,3)] obtain T' A' kids' vs' where
      2: "tree_inv T' A' kids'" "pruned act T1 A1 T' A'" "i \<in> A'" "kids' i = us @ s # c # vs'"
        "era_children comm T1 (rnk T1 c) = Some (map (rnk T1) vs', T')" "\<forall>c \<in> set vs'. act c"
      by (auto simp: pruned_def)
    have "set (kids' i) \<subseteq> A'" using kid_greater [OF 2(1,3)] by blast
    then have sub: "\<And>v. v \<in> set (c # vs') \<Longrightarrow> rnk T1 v = rnk T v \<and> v \<in> A1"
      using pruned_rnk [OF less.prems(1) 1(2)] 2(2,4) by (auto simp: pruned_def repaired_def)
    have "rnk T1 c < ec_size comm"
      using ranks_range [OF pruned_ranks [OF 1(2) less.prems(4)]] tree_invD(4) [OF 1(1) c] by simp
    then have "era_children comm T (rnk T s) = Some (rnk T1 c # map (rnk T1) vs', T')"
      using nx 1(5) Cons 2(5) by (subst era_children.simps) simp
    moreover have "rnk T1 c # map (rnk T1) vs' = map (rnk T) (c # vs')" using sub by simp
    ultimately show ?thesis
      using 2 pruned_trans [OF 1(2) 2(2)] 1(6) Cons
      by (intro exI [of _ T'] exI [of _ A'] exI [of _ kids'] exI [of _ "c # vs'"]) simp
  qed
qed

lemma era_children_correct:
  assumes "tree_inv T A kids" "i \<in> A" "knows comm T A act" "ranks_ok T (ec_size comm)"
    "ec_my_rank comm = rnk T i"
  shows "\<exists>T' A' kids'. tree_inv T' A' kids' \<and> pruned act T A T' A' \<and> i \<in> A' \<and>
    era_children comm T (- 1) = Some (map (rnk T) (kids' i), T') \<and> (\<forall>c \<in> set (kids' i). act c)"
proof -
  from child_loop_correct [OF assms(1-3)] obtain T1 A1 kids1 where
    1: "tree_inv T1 A1 kids1" "pruned act T A T1 A1" "i \<in> A1"
      "child_loop comm T i = Some (case kids1 i of [] \<Rightarrow> ec_size comm | c # _ \<Rightarrow> rnk T1 c, T1)"
      "\<forall>c cs. kids1 i = c # cs \<longrightarrow> act c" by blast
  have nx: "era_next_child comm T (- 1) = child_loop comm T i"
    using node_of_rank [OF assms(4)] tree_invD(4) [OF assms(1,2)] assms(5) by (simp add: era_next_child_def)
  show ?thesis
  proof (cases "kids1 i")
    case Nil
    with 1 nx show ?thesis
      by (subst era_children.simps) (auto intro!: exI [of _ T1] exI [of _ A1] exI [of _ kids1])
  next
    case (Cons c cs)
    have c: "c \<in> A1" using kid_greater [OF 1(1,3), of c] Cons by simp
    from children_from [OF 1(1,3) _ pruned_ranks [OF 1(2) assms(4)], of act "[]" c cs] 1(2) Cons
      knows_repaired [OF assms(1,3)] obtain T' A' kids' vs' where
      2: "tree_inv T' A' kids'" "pruned act T1 A1 T' A'" "i \<in> A'" "kids' i = c # vs'"
        "era_children comm T1 (rnk T1 c) = Some (map (rnk T1) vs', T')" "\<forall>c \<in> set vs'. act c"
      by (auto simp: pruned_def)
    have "set (kids' i) \<subseteq> A'" using kid_greater [OF 2(1,3)] by blast
    then have sub: "\<And>v. v \<in> set (c # vs') \<Longrightarrow> rnk T1 v = rnk T v"
      using pruned_rnk [OF assms(1) 1(2)] 2(2,4) by (auto simp: pruned_def repaired_def)
    have "rnk T1 c < ec_size comm"
      using ranks_range [OF pruned_ranks [OF 1(2) assms(4)]] tree_invD(4) [OF 1(1) c] by simp
    then have "era_children comm T (- 1) = Some (rnk T1 c # map (rnk T1) vs', T')"
      using nx 1(4) Cons 2(5) by (subst era_children.simps) simp
    moreover have "rnk T1 c # map (rnk T1) vs' = map (rnk T) (kids' i)" using sub 2(4) by simp
    ultimately show ?thesis
      using 2 pruned_trans [OF 1(2) 2(2)] 1(5) Cons
      by (intro exI [of _ T'] exI [of _ A'] exI [of _ kids']) simp
  qed
qed

text \<open>When all children are alive, they are the nodes whose nearest living ancestor is the node.\<close>

lemma nearest_is_parent:
  assumes inv: "tree_inv T A kids" and i: "i \<in> A" "act i" "\<forall>k \<in> set (kids i). act k"
  shows "c \<in> A \<Longrightarrow> filter act (ancs T c) = i # as \<Longrightarrow> par T c = i"
proof (induction c rule: tree_induct [OF inv, consumes 1, case_names root child])
  case root
  then show ?case using ancs_root [OF inv] by simp
next
  case (child c)
  have c: "ancs T c = par T c # ancs T (par T c)" using ancs_step [OF inv] child by simp
  show ?case
  proof (cases "act (par T c)")
    case True
    with child.prems c show ?thesis by simp
  next
    case False
    with child c have "par T (par T c) = i" by simp
    then have "par T c = i \<or> par T c \<in> set (kids i)" using tree_invD(7) [OF inv i(1)] child(3) by auto
    with False i show ?thesis by auto
  qed
qed

lemma children_are_nearest:
  assumes inv: "tree_inv T A kids" "tree_inv T' A' kids'" and pr: "pruned act T A T' A'"
    and i: "i \<in> A'" "act i" "\<forall>k \<in> set (kids' i). act k"
    and c: "c \<in> A" "act c" "c \<noteq> i"
  shows "c \<in> set (kids' i) \<longleftrightarrow> (\<exists>as. filter act (ancs T c) = i # as)"
proof -
  have cA: "c \<in> A'" and eq: "filter act (ancs T' c) = filter act (ancs T c)"
    using pr c by (auto simp: pruned_def repaired_def)
  have "c \<in> set (kids' i) \<longleftrightarrow> par T' c = i" using tree_invD(7) [OF inv(2) i(1)] cA c(3) by auto
  moreover have "par T' c = i \<Longrightarrow> \<exists>as. filter act (ancs T' c) = i # as"
    using ancs_step [OF inv(2) cA] i(2) c(3) tree_invD(10) [OF inv(2) cA] by auto
  ultimately show ?thesis using nearest_is_parent [OF inv(2) i cA] eq by auto
qed

lemma live_parent_nearest:
  assumes inv: "tree_inv T A kids" and i: "i \<in> A" "act i" "act (par T i)" and c: "c \<in> A" "act c" "c \<noteq> i"
  shows "live_parent act T A c = i \<longleftrightarrow> (\<exists>as. filter act (ancs T c) = i # as)"
proof (cases "filter act (ancs T c)")
  case Nil
  have "Min {j \<in> A. act j} \<noteq> i"
  proof
    assume m: "Min {j \<in> A. act j} = i"
    note D = tree_invD [OF inv]
    have "i \<le> par T i" unfolding m [symmetric] using D(1) D(8) [OF i(1)] i(3) m by (intro Min_le) simp_all
    then have "i = Min A" using D(9,10) [OF i(1)] by simp
    then have "c \<noteq> Min A" using c(3) by simp
    have "c \<in> A \<Longrightarrow> c \<noteq> Min A \<Longrightarrow> Min A \<in> set (ancs T c)"
    proof (induction c rule: tree_induct [OF inv, consumes 1, case_names root child])
      case (child c)
      then show ?case using ancs_step [OF inv child(1,2)] by (cases "par T c = Min A") auto
    qed simp
    with c(1) \<open>c \<noteq> Min A\<close> \<open>i = Min A\<close> i(2) Nil show False by (auto simp: filter_empty_conv)
  qed
  with Nil show ?thesis by (simp add: live_parent_def)
qed (simp add: live_parent_def)

lemma live_parent_self:
  assumes inv: "tree_inv T A kids" and i: "i \<in> A" "act i"
  shows "live_parent act T A i = i \<longleftrightarrow> (\<forall>j \<in> A. act j \<longrightarrow> i \<le> j)"
proof (cases "filter act (ancs T i)")
  case Nil
  have "Min {j \<in> A. act j} = i \<longleftrightarrow> (\<forall>j \<in> A. act j \<longrightarrow> i \<le> j)"
    using tree_invD(1) [OF inv] i by (subst Min_eq_iff) auto
  with Nil show ?thesis by (simp add: live_parent_def)
next
  case (Cons a as)
  then have "a \<in> set (filter act (ancs T i))" by simp
  then have "a \<in> A" "act a" "a < i" using ancs_in [OF inv i(1)] by auto
  with Cons show ?thesis by (auto simp: live_parent_def)
qed

lemma era_parent_loop:
  assumes "tree_inv T A kids" "ranks_ok T (ec_size comm)" "i \<in> A" "ec_my_rank comm = rnk T i"
    "knows comm T A act" "act i"
  shows "\<exists>T' A' kids'. era_parent comm T = Some (rnk T (live_parent act T A i), T') \<and>
    tree_inv T' A' kids' \<and> repaired act T A T' A' \<and> act (par T' i)"
  using parent_loop_correct [OF assms(1,3,6,5)] node_of_rank [OF assms(2)] tree_invD(4) [OF assms(1,3)] assms(4)
  by (simp add: era_parent_def)

section \<open>Properties\<close>

lemma live_parent_le:
  assumes "tree_inv T A kids" "i \<in> A" "act i"
  shows "live_parent act T A i \<le> i"
proof (cases "filter act (ancs T i)")
  case Nil
  then show ?thesis using tree_invD(1) [OF assms(1)] assms(2,3) by (auto simp: live_parent_def intro: Min_le)
next
  case (Cons a as)
  then have "a \<in> set (filter act (ancs T i))" by simp
  then have "a \<in> set (ancs T i)" by simp
  then show ?thesis using ancs_in [OF assms(1,2)] Cons by (auto simp: live_parent_def)
qed

lemma find_parent:
  assumes "tree_inv T A kids" "ranks_ok T (ec_size comm)" "i \<in> A" "ec_my_rank comm = rnk T i"
    "knows comm T A act" "act i"
  shows "\<exists>T' A' kids'. era_parent comm T = Some (rnk T (live_parent act T A i), T') \<and>
    act (live_parent act T A i) \<and>
    (live_parent act T A i = i \<longleftrightarrow> (\<forall>j \<in> A. act j \<longrightarrow> i \<le> j)) \<and>
    tree_inv T' A' kids' \<and> A' \<subseteq> A \<and> {j \<in> A. act j} \<subseteq> A' \<and>
    map rank_in_comm T' = map rank_in_comm T \<and>
    (\<forall>j \<in> A'. act j \<longrightarrow> live_parent act T' A' j = live_parent act T A j)"
proof -
  from era_parent_loop [OF assms] obtain T' A' kids' where
    1: "era_parent comm T = Some (rnk T (live_parent act T A i), T')" "tree_inv T' A' kids'"
      "repaired act T A T' A'" by blast
  have "map rank_in_comm T' = map rank_in_comm T" using repaired_map [OF 1(3)] .
  with 1 live_parent_in [where act = act, OF assms(1,3,6)] live_parent_self [where act = act, OF assms(1,3,6)]
  show ?thesis unfolding repaired_def by blast
qed

text \<open>C6: the living parent. In a well-formed tree the search for the parent of a living process
  ends; it returns the nearest living ancestor, or the least living process when all ancestors have
  failed; the process itself exactly when all processes of the tree with smaller ranks have failed.
  The repaired tree is well formed, has lost only failed processes, and gives every
  living process the same living parent as before.\<close>

theorem era_parent_correct:
  assumes "tree_inv T A kids" "ranks_ok T (ec_size comm)" "i \<in> A" "ec_my_rank comm = rnk T i"
    "knows comm T A act" "act i"
  shows "\<exists>T' A' kids'. era_parent comm T = Some (rnk T (live_parent act T A i), T') \<and>
    act (live_parent act T A i) \<and>
    (live_parent act T A i = i \<longleftrightarrow> (\<forall>j \<in> A. act j \<longrightarrow> i \<le> j)) \<and>
    tree_inv T' A' kids' \<and> A' \<subseteq> A \<and> {j \<in> A. act j} \<subseteq> A' \<and>
    map rank_in_comm T' = map rank_in_comm T \<and>
    (\<forall>j \<in> A'. act j \<longrightarrow> live_parent act T' A' j = live_parent act T A j)"
  using assms by (rule find_parent)

text \<open>C4: parents and children agree. Two processes that start with the same tree and know of the
  same failures repair their trees independently: one takes the other as its parent exactly when the
  other, after it has looked for its own parent, meets the first in the loop over its children.\<close>

theorem parents_and_children_agree:
  assumes "tree_inv T A kids" "ranks_ok T n" "p \<in> A" "q \<in> A" "p \<noteq> q" "act p" "act q"
    and "cp = \<lparr>ec_size = n, ec_my_rank = rnk T p, ec_active = active\<rparr>"
    and "cq = \<lparr>ec_size = n, ec_my_rank = rnk T q, ec_active = active\<rparr>"
    and "\<forall>j \<in> A. active (rnk T j) = Some (act j)"
  shows "\<exists>r Tp r' Tq rs Tq'. era_parent cp T = Some (r, Tp) \<and> era_parent cq T = Some (r', Tq) \<and>
    era_children cq Tq (- 1) = Some (rs, Tq') \<and> distinct rs \<and> (r = rnk T q \<longleftrightarrow> rnk T p \<in> set rs)"
proof -
  have kp: "knows cp T A act" "ranks_ok T (ec_size cp)" "ec_my_rank cp = rnk T p"
    and kq: "knows cq T A act" "ranks_ok T (ec_size cq)" "ec_my_rank cq = rnk T q"
    using assms(2,8-10) by simp_all
  from era_parent_loop [OF assms(1) kp(2) assms(3) kp(3,1) assms(6)] obtain Tp where
    1: "era_parent cp T = Some (rnk T (live_parent act T A p), Tp)" by blast
  from era_parent_loop [OF assms(1) kq(2) assms(4) kq(3,1) assms(7)] obtain Tq A1 kids1 where
    2: "era_parent cq T = Some (rnk T (live_parent act T A q), Tq)" "tree_inv Tq A1 kids1"
      "repaired act T A Tq A1" "act (par Tq q)" by blast
  have in1: "p \<in> A1" "q \<in> A1" and lp: "live_parent act Tq A1 p = live_parent act T A p"
    and rk: "\<And>j. j \<in> A1 \<Longrightarrow> rnk Tq j = rnk T j"
    using 2(3) assms(3,4,6,7) tree_invD(4) [OF assms(1)] by (auto simp: repaired_def)
  from era_children_correct [OF 2(2) in1(2) knows_repaired [OF assms(1) kq(1) 2(3)]
      repaired_ranks [OF 2(3) kq(2)]] kq(3) rk [OF in1(2)] obtain T' A' kids' where
    3: "tree_inv T' A' kids'" "pruned act Tq A1 T' A'" "q \<in> A'"
      "era_children cq Tq (- 1) = Some (map (rnk Tq) (kids' q), T')" "\<forall>c \<in> set (kids' q). act c" by auto
  have sub: "set (kids' q) \<subseteq> A1" using kid_greater [OF 3(1,3)] 3(2) by (auto simp: pruned_def repaired_def)
  have inj: "rnk Tq a = rnk Tq b \<longleftrightarrow> a = b" if "a \<in> A1" "b \<in> A1" for a b
    using ranks_inj [OF repaired_ranks [OF 2(3) kq(2)]] tree_invD(4) [OF 2(2)] that by blast
  have "p \<in> set (kids' q) \<longleftrightarrow> live_parent act T A p = q"
    using children_are_nearest [OF 2(2) 3(1,2,3) assms(7) 3(5) in1(1) assms(6,5)]
      live_parent_nearest [OF 2(2) in1(2) assms(7) 2(4) in1(1) assms(6,5)] lp by simp
  moreover have "rnk T p \<in> set (map (rnk Tq) (kids' q)) \<longleftrightarrow> p \<in> set (kids' q)"
    using rk [OF in1(1)] inj [OF in1(1)] sub by (auto simp: image_iff)
  moreover have "rnk T (live_parent act T A p) = rnk T q \<longleftrightarrow> live_parent act T A p = q"
    using ranks_inj [OF assms(2)] tree_invD(4) [OF assms(1)] live_parent_in [where act = act, OF assms(1,3,6)] assms(4)
    by blast
  moreover have "distinct (map (rnk Tq) (kids' q))"
    using tree_invD(6) [OF 3(1,3)] inj sub by (auto simp: distinct_map inj_on_def subset_iff)
  ultimately show ?thesis using 1 2(1) 3(4) by blast
qed

end
