(* ===== verification/Era_Build.thy ===== *)
theory Era_Build
  imports Era_Live
begin

text \<open>
  The construction of the tree of the early returning agreement: the nodes are the processes that
  are not known by all to have failed, in the order of their ranks, and each of the shapes makes a
  well-formed tree of them.
\<close>

section \<open>Nodes\<close>

lemma skip_dead_correct:
  assumes "sorted_wrt (<) ds" "\<forall>d \<in> set ds. m + off \<le> d" "skip_dead m ds off = (ds', off')"
  shows "off \<le> off' \<and> sorted_wrt (<) ds' \<and> (\<forall>d \<in> set ds'. m + off' < d) \<and>
    set ds = {m + off..<m + off'} \<union> set ds' \<and> length ds = nat (off' - off) + length ds'"
  using assms
proof (induction m ds off rule: skip_dead.induct)
  case (2 m d ds off)
  show ?case
  proof (cases "m + off = d")
    case True
    from 2(2-4) True have "off + 1 \<le> off' \<and> sorted_wrt (<) ds' \<and> (\<forall>d \<in> set ds'. m + off' < d) \<and>
      set ds = {m + (off + 1)..<m + off'} \<union> set ds' \<and> length ds = nat (off' - (off + 1)) + length ds'"
      by (intro 2(1)) auto
    with True show ?thesis by auto
  qed (use 2(2-4) in fastforce)
qed simp

lemma fill_nodes_length [simp]: "length (fill_nodes k sz m ds off) = k"
  by (induction k arbitrary: m ds off) (auto split: prod.split)

lemma fill_nodes_ranks:
  assumes "sorted_wrt (<) ds" "\<forall>d \<in> set ds. m + off \<le> d \<and> d < n" "int (k + length ds) = n - (m + off)"
  shows "sorted_wrt (<) (map rank_in_comm (fill_nodes k sz m ds off)) \<and>
    set (map rank_in_comm (fill_nodes k sz m ds off)) = {m + off..<n} - set ds"
  using assms
proof (induction k arbitrary: m ds off)
  case 0
  then have "card (set ds) = card {m + off..<n}" by (simp add: distinct_card strict_sorted_iff)
  then have "set ds = {m + off..<n}" using 0 by (intro card_subset_eq) auto
  then show ?case by simp
next
  case (Suc k)
  obtain ds' off' where s: "skip_dead m ds off = (ds', off')" by force
  from skip_dead_correct [OF Suc.prems(1) _ s] Suc.prems(2) have
    d: "off \<le> off'" "sorted_wrt (<) ds'" "\<forall>d \<in> set ds'. m + off' < d"
      "set ds = {m + off..<m + off'} \<union> set ds'" "length ds = nat (off' - off) + length ds'" by auto
  have "int (k + length ds') = n - (m + 1 + off')" using Suc.prems(3) d(1,5) by simp
  moreover have "\<forall>d \<in> set ds'. m + 1 + off' \<le> d \<and> d < n" using d(3,4) Suc.prems(2) by auto
  ultimately have IH: "sorted_wrt (<) (map rank_in_comm (fill_nodes k sz (m + 1) ds' off'))"
    "set (map rank_in_comm (fill_nodes k sz (m + 1) ds' off')) = {m + 1 + off'..<n} - set ds'"
    using Suc.IH [OF d(2)] by blast+
  have "m + off' < n" using Suc.prems(3) d(1,5) by simp
  then have "{m + off..<n} - set ds = insert (m + off') ({m + 1 + off'..<n} - set ds')"
    using d(1,3,4) by auto
  with IH show ?case by (auto simp: s)
qed

section \<open>Shapes\<close>

text \<open>What the construction expects of a shape: it keeps the ranks and makes a tree with all
  nodes, whose lists of children depend on the number of nodes only.\<close>

locale tree_shape =
  fixes fn :: "era_tree_t list \<Rightarrow> era_tree_t list" and skids :: "int \<Rightarrow> int \<Rightarrow> int list"
  assumes shape_ranks: "map rank_in_comm (fn T) = map rank_in_comm T"
    and shape_inv: "T \<noteq> [] \<Longrightarrow> tree_inv (fn T) {0..<tree_size T} (skids (tree_size T))"

lemma upto_lseg:
  "a \<le> b + 1 \<Longrightarrow> (\<And>i. a \<le> i \<Longrightarrow> i \<le> b \<Longrightarrow> nxt T i = i + 1) \<Longrightarrow> lseg T a [a..b] (b + 1)"
proof (induction a b rule: upto.induct)
  case (1 a b)
  show ?case
  proof (cases "a \<le> b")
    case True
    with 1 show ?thesis by (simp add: upto_rec1)
  next
    case False
    with 1(2) show ?thesis by simp
  qed
qed

lemma Min_range: "0 < n \<Longrightarrow> Min {0..<n} = (0 :: int)"
  by (intro Min_eqI) auto

definition star_kids :: "int \<Rightarrow> int \<Rightarrow> int list" where
  "star_kids sz i = (if i = 0 then [1..sz - 1] else [])"

interpretation star: tree_shape era_tree_fn_star star_kids
proof
  fix T :: "era_tree_t list"
  show "map rank_in_comm (era_tree_fn_star T) = map rank_in_comm T"
    by (rule nth_equalityI) (simp_all add: era_tree_fn_star_def)
  assume ne: "T \<noteq> []"
  let ?T = "era_tree_fn_star T"
  have F: "?T ! nat i = (T ! nat i)\<lparr>parent := 0, first_child := (if i = 0 then 1 else tree_size T),
      next_sibling := (if i = 0 then tree_size T else i + 1)\<rparr>" if "node_in T i" for i
    using that by (auto simp: era_tree_fn_star_def nat_less_iff)
  have len: "length ?T = length T" by (simp add: era_tree_fn_star_def)
  have "lseg ?T 1 [1..tree_size T - 1] (tree_size T - 1 + 1)"
    using ne by (intro upto_lseg) (auto simp: F Suc_le_eq)
  with ne show "tree_inv ?T {0..<tree_size T} (star_kids (tree_size T))"
    unfolding tree_inv_def len by (auto simp: F F [of 0, simplified] star_kids_def Min_range Suc_le_eq)
qed

definition string_kids :: "int \<Rightarrow> int \<Rightarrow> int list" where
  "string_kids sz i = (if i + 1 < sz then [i + 1] else [])"

interpretation string: tree_shape era_tree_fn_string string_kids
proof
  fix T :: "era_tree_t list"
  show "map rank_in_comm (era_tree_fn_string T) = map rank_in_comm T"
    by (rule nth_equalityI) (simp_all add: era_tree_fn_string_def)
  assume ne: "T \<noteq> []"
  let ?T = "era_tree_fn_string T"
  have F: "?T ! nat i = (T ! nat i)\<lparr>parent := (if i > 0 then i - 1 else 0), first_child := i + 1,
      next_sibling := tree_size T\<rparr>" if "node_in T i" for i
    using that by (auto simp: era_tree_fn_string_def nat_less_iff)
  have len: "length ?T = length T" by (simp add: era_tree_fn_string_def)
  show "tree_inv ?T {0..<tree_size T} (string_kids (tree_size T))"
    unfolding tree_inv_def len using ne by (auto simp: F F [of 0, simplified] string_kids_def Min_range)
qed

definition binary_kids :: "int \<Rightarrow> int \<Rightarrow> int list" where
  "binary_kids sz i = filter (\<lambda>c. c < sz) [2 * i + 1, 2 * i + 2]"

interpretation binary: tree_shape era_tree_fn_binary binary_kids
proof
  fix T :: "era_tree_t list"
  show "map rank_in_comm (era_tree_fn_binary T) = map rank_in_comm T"
    by (rule nth_equalityI) (simp_all add: era_tree_fn_binary_def)
  assume ne: "T \<noteq> []"
  let ?T = "era_tree_fn_binary T"
  have F: "?T ! nat i = (T ! nat i)\<lparr>parent := (if i > 0 then (i - 1) div 2 else 0),
      first_child := (if 2 * i + 1 < tree_size T then 2 * i + 1 else tree_size T),
      next_sibling := (if i mod 2 \<noteq> 0 \<and> i + 1 < tree_size T then i + 1 else tree_size T)\<rparr>" if "node_in T i" for i
    using that by (auto simp: era_tree_fn_binary_def nat_less_iff)
  have len: "length ?T = length T" by (simp add: era_tree_fn_binary_def)
  show "tree_inv ?T {0..<tree_size T} (binary_kids (tree_size T))"
    unfolding tree_inv_def len using ne by (auto simp: F F [of 0, simplified] F [of 1, simplified] F [of 2, simplified]
      binary_kids_def Min_range)
qed

end
