(* ===== verification/Era_Hierarchy.thy ===== *)
theory Era_Hierarchy
  imports Era_Build
begin

text \<open>
  The tree along the hosts: the processes of every daemon form a tree, the first processes of the
  daemons form another one, and the links of both are merged. The result is a well-formed tree of all
  processes.
\<close>

section \<open>Groups of nodes\<close>

definition groups_ok :: "int \<Rightarrow> int list list \<Rightarrow> bool" where
  "groups_ok n gs \<longleftrightarrow>
     (\<forall>g \<in> set gs. g \<noteq> [] \<and> sorted_wrt (<) g) \<and> distinct (concat gs) \<and>
     set (concat gs) = {0..<n} \<and> sorted_wrt (<) (map hd gs)"

text \<open>Positions in a list, with the end of one list translated to the end of the whole tree.\<close>

definition tr :: "int \<Rightarrow> int list \<Rightarrow> int \<Rightarrow> int" where
  "tr n g i = (if i = int (length g) then n else g ! nat i)"

abbreviation (input) pos_in :: "int list \<Rightarrow> int \<Rightarrow> bool" where
  "pos_in g i \<equiv> 0 \<le> i \<and> i < int (length g)"

lemma tr_in [simp]: "pos_in g i \<Longrightarrow> tr n g i = g ! nat i"
  by (simp add: tr_def)

lemma nth_pos [simp]: "pos_in g i \<Longrightarrow> g ! nat i \<in> set g"
  by (simp add: nat_less_iff)

lemma tr_end [simp]: "tr n g (int (length g)) = n"
  by (simp add: tr_def)

lemma nxt_range: "tree_inv T A kids \<Longrightarrow> i \<in> A \<Longrightarrow> nxt T i = tree_size T \<or> nxt T i \<in> A"
proof -
  assume inv: "tree_inv T A kids" and i: "i \<in> A"
  note D = tree_invD [OF inv]
  show ?thesis
  proof (cases "i = Min A")
    case False
    have pA: "par T i \<in> A" using D(8) [OF i] .
    have "i \<in> set (kids (par T i))" unfolding D(7) [OF pA] using D(10) [OF i] False i by simp
    then obtain us vs where k: "kids (par T i) = us @ i # vs" by (auto dest: split_list)
    have "lseg T (nxt T i) vs (tree_size T)" using D(5) [OF pA, unfolded k lseg_append lseg.simps] by blast
    then have "nxt T i = (if vs = [] then tree_size T else hd vs)" by (rule lseg_start)
    moreover have "set (kids (par T i)) \<subseteq> A" using kid_greater [OF inv pA] by blast
    then have "set vs \<subseteq> A" by (simp add: k)
    ultimately show ?thesis by (cases vs) auto
  qed (use D(11) in simp)
qed

lemma fstc_range: "tree_inv T A kids \<Longrightarrow> i \<in> A \<Longrightarrow> fstc T i = tree_size T \<or> fstc T i \<in> A"
proof -
  assume inv: "tree_inv T A kids" and i: "i \<in> A"
  have "set (kids i) \<subseteq> A" using kid_greater [OF inv i] by blast
  then show ?thesis using lseg_start [OF tree_invD(5) [OF inv i]] by (cases "kids i") auto
qed

section \<open>Merging the tree of one daemon\<close>

text \<open>The tree of a group: a well-formed tree whose ranks are the nodes of the group.\<close>

definition sub_of :: "era_tree_t list \<Rightarrow> int list \<Rightarrow> (int \<Rightarrow> int list) \<Rightarrow> bool" where
  "sub_of S g kids \<longleftrightarrow> map rank_in_comm S = g \<and> tree_inv S {0..<int (length g)} kids"

lemma sub_ofD:
  assumes "sub_of S g kids"
  shows "length S = length g" "pos_in g i \<Longrightarrow> rnk S i = g ! nat i"
    "tree_inv S {0..<int (length g)} kids" "pos_in g i \<Longrightarrow> pos_in g (par S i)"
    "pos_in g i \<Longrightarrow> 0 \<le> nxt S i \<and> nxt S i \<le> int (length g)"
    "pos_in g i \<Longrightarrow> 0 \<le> fstc S i \<and> fstc S i \<le> int (length g)"
proof -
  show len: "length S = length g" using assms by (auto simp: sub_of_def)
  show inv: "tree_inv S {0..<int (length g)} kids" using assms by (simp add: sub_of_def)
  show "pos_in g i \<Longrightarrow> rnk S i = g ! nat i" using assms len by (auto simp: sub_of_def nat_less_iff)
  show "pos_in g i \<Longrightarrow> pos_in g (par S i)" using tree_invD(8) [OF inv, of i] by auto
  show "pos_in g i \<Longrightarrow> 0 \<le> nxt S i \<and> nxt S i \<le> int (length g)" using nxt_range [OF inv, of i] len by auto
  show "pos_in g i \<Longrightarrow> 0 \<le> fstc S i \<and> fstc S i \<le> int (length g)" using fstc_range [OF inv, of i] len by auto
qed

lemma sub_index_tr:
  "sub_of S g kids \<Longrightarrow> 0 \<le> i \<Longrightarrow> i \<le> int (length g) \<Longrightarrow> sub_index T S i = Some (tr (tree_size T) g i)"
  using sub_ofD(1,2) [of S g kids] by (auto simp: sub_index_def tr_def order_less_le)

lemma merge_node_correct:
  assumes S: "sub_of S g kids" and s: "pos_in g s" and g: "set g \<subseteq> {0..<tree_size T}"
  shows "merge_node T S s = Some (put T (g ! nat s) (\<lambda>y. y\<lparr>parent := g ! nat (par S s),
    next_sibling := tr (tree_size T) g (nxt S s), first_child := tr (tree_size T) g (fstc S s)\<rparr>))"
proof -
  note D = sub_ofD [OF S]
  have gs: "node_in T (g ! nat s)" using g nth_pos [OF s] by auto
  have "rd S s = Some (S ! nat s)" "rd S (par S s) = Some (S ! nat (par S s))" using D(1,4) s by simp_all
  moreover have "\<And>T'. length T' = length T \<Longrightarrow> sub_index T' S (nxt S s) = Some (tr (tree_size T) g (nxt S s))"
    "\<And>T'. length T' = length T \<Longrightarrow> sub_index T' S (fstc S s) = Some (tr (tree_size T) g (fstc S s))"
    using sub_index_tr [OF S] D(5,6) [OF s] by simp_all
  ultimately show ?thesis
    using gs D(2) [OF s] D(2) [OF D(4) [OF s]]
    by (simp add: merge_node_def) (simp add: put_def nat_less_iff)
qed

definition linked :: "era_tree_t list \<Rightarrow> int list \<Rightarrow> era_tree_t list \<Rightarrow> int \<Rightarrow> bool" where
  "linked S g T s \<longleftrightarrow> par T (g ! nat s) = g ! nat (par S s) \<and> nxt T (g ! nat s) = tr (tree_size T) g (nxt S s) \<and>
     fstc T (g ! nat s) = tr (tree_size T) g (fstc S s)"

lemma merge_nodes_correct:
  assumes S: "sub_of S g kids" and g: "set g \<subseteq> {0..<tree_size T}" "distinct g"
    and ss: "\<forall>s \<in> set ss. s < length g" "distinct ss"
  shows "\<exists>T'. merge_nodes T S ss = Some T' \<and> length T' = length T \<and>
    (\<forall>i. node_in T i \<longrightarrow> rnk T' i = rnk T i \<and> (i \<notin> (\<lambda>s. g ! s) ` set ss \<longrightarrow> T' ! nat i = T ! nat i)) \<and>
    (\<forall>s \<in> set ss. linked S g T' (int s))"
  using g(1) ss
proof (induction ss arbitrary: T)
  case (Cons s ss)
  have s: "pos_in g (int s)" using Cons.prems by simp
  let ?T = "put T (g ! s) (\<lambda>y. y\<lparr>parent := g ! nat (par S (int s)),
    next_sibling := tr (tree_size T) g (nxt S (int s)), first_child := tr (tree_size T) g (fstc S (int s))\<rparr>)"
  have run: "merge_node T S (int s) = Some ?T" using merge_node_correct [OF S s Cons.prems(1)] by simp
  have gs: "node_in T (g ! s)" using Cons.prems(1) nth_pos [OF s] by auto
  from Cons.IH [of ?T] Cons.prems obtain T' where
    T': "merge_nodes ?T S ss = Some T'" "length T' = length T"
      "\<forall>i. node_in T i \<longrightarrow> rnk T' i = rnk ?T i \<and> (i \<notin> (\<lambda>s. g ! s) ` set ss \<longrightarrow> T' ! nat i = ?T ! nat i)"
      "\<forall>s \<in> set ss. linked S g T' (int s)" by auto
  have "g ! s \<notin> (\<lambda>s. g ! s) ` set ss" using Cons.prems(2,3) g(2) by (auto simp: nth_eq_iff_index_eq)
  then have "linked S g T' (int s)" using T'(2,3) gs by (simp add: linked_def)
  moreover have "rnk T' i = rnk T i" if "node_in T i" for i
    using T'(3) that gs by (simp split: if_splits)
  moreover have "T' ! nat i = T ! nat i" if "node_in T i" "i \<notin> (\<lambda>s. g ! s) ` set (s # ss)" for i
    using T'(3) that gs by auto
  ultimately show ?case using run T'(1,2,4) by simp
qed simp

text \<open>Segments of the tree of a group as segments of the whole tree.\<close>

lemma lseg_tr:
  assumes "lseg S c xs e" "\<forall>x \<in> set xs. pos_in g x \<and> nxt T (g ! nat x) = tr n g (nxt S x)"
  shows "lseg T (tr n g c) (map (\<lambda>x. g ! nat x) xs) (tr n g e)"
  using assms by (induction xs arbitrary: c) auto

lemma last_sibling_correct:
  assumes "lseg T c (xs @ [x]) (tree_size T)" "\<forall>y \<in> set (xs @ [x]). node_in T y"
  shows "last_sibling T c = Some x"
  using assms
proof (induction xs arbitrary: c)
  case Nil
  then show ?case by (subst last_sibling.simps) simp
next
  case (Cons y ys)
  have "nxt T y \<noteq> tree_size T" using lseg_start [of T "nxt T y" "ys @ [x]"] Cons.prems by (cases ys) auto
  with Cons show ?case by (subst last_sibling.simps) simp
qed

lemma pos_inj: "distinct g \<Longrightarrow> pos_in g i \<Longrightarrow> pos_in g j \<Longrightarrow> g ! nat i = g ! nat j \<longleftrightarrow> i = j"
  by (simp add: nth_eq_iff_index_eq nat_less_iff eq_nat_nat_iff)

lemma map_butlast_last: "ks \<noteq> [] \<Longrightarrow> map f (butlast ks) @ [f (last ks)] = map f ks"
  by (cases ks rule: rev_cases) simp_all

lemma root_kids:
  assumes "sub_of S g kids" "g \<noteq> []"
  shows "nxt S 0 = int (length g)" "lseg S (fstc S 0) (kids 0) (int (length g))"
    "x \<in> set (kids 0) \<Longrightarrow> pos_in g x \<and> 0 < x" "distinct (kids 0)"
proof -
  note inv = sub_ofD(3) [OF assms(1)] and len = sub_ofD(1) [OF assms(1)]
  have 0: "(0 :: int) \<in> {0..<int (length g)}" and m: "Min {0..<int (length g)} = 0"
    using assms(2) by (simp_all add: Min_range)
  show "nxt S 0 = int (length g)" using tree_invD(11) [OF inv] len by (simp add: m)
  show "lseg S (fstc S 0) (kids 0) (int (length g))" using tree_invD(5) [OF inv 0] len by simp
  show "x \<in> set (kids 0) \<Longrightarrow> pos_in g x \<and> 0 < x" using kid_greater [OF inv 0] by auto
  show "distinct (kids 0)" using tree_invD(6) [OF inv 0] .
qed

lemma merge_rep_correct:
  assumes S: "sub_of S g kids" and g: "g \<noteq> []" "set g \<subseteq> {0..<tree_size T}" "distinct g"
    and link: "\<forall>s. pos_in g s \<longrightarrow> linked S g T s"
    and R: "sub_of R H kidsR" and d: "pos_in H d" "H ! nat d = g ! 0" and H: "set H \<subseteq> {0..<tree_size T}"
  shows "\<exists>T'. merge_rep T R d = Some T' \<and> length T' = length T \<and>
    (\<forall>i. node_in T i \<longrightarrow> rnk T' i = rnk T i \<and> (i \<notin> set g \<longrightarrow> T' ! nat i = T ! nat i)) \<and>
    (\<forall>s. pos_in g s \<longrightarrow>
       par T' (g ! nat s) = (if s = 0 then H ! nat (par R d) else g ! nat (par S s)) \<and>
       nxt T' (g ! nat s) = (if s = 0 then tr (tree_size T) H (nxt R d)
         else if kids 0 \<noteq> [] \<and> s = last (kids 0) then tr (tree_size T) H (fstc R d)
         else tr (tree_size T) g (nxt S s)) \<and>
       fstc T' (g ! nat s) = (if s = 0 \<and> kids 0 = [] then tr (tree_size T) H (fstc R d)
         else tr (tree_size T) g (fstc S s)))"
proof -
  let ?n = "tree_size T" and ?rr = "g ! 0"
  note DS = sub_ofD [OF S] and DR = sub_ofD [OF R] and K = root_kids [OF S g(1)]
  have p0: "pos_in g 0" using g(1) by simp
  have rr: "node_in T ?rr" using g(2) nth_pos [OF p0] by auto
  have L0: "par T ?rr = g ! nat (par S 0)" "nxt T ?rr = ?n" "fstc T ?rr = tr ?n g (fstc S 0)"
    using link [rule_format, OF p0] K(1) by (simp_all add: linked_def)
  have ge: "g ! nat x \<noteq> ?rr" "node_in T (g ! nat x)" if "pos_in g x" "x \<noteq> 0" for x
    using pos_inj [OF g(3) that(1) p0] that(2) subsetD [OF g(2) nth_pos [OF that(1)]] by auto
  define T1 where "T1 = put T ?rr (\<lambda>y. y\<lparr>parent := H ! nat (par R d)\<rparr>)"
  define T2 where "T2 = put T1 ?rr (\<lambda>y. y\<lparr>next_sibling := tr ?n H (nxt R d)\<rparr>)"
  define lk where "lk = g ! nat (last (kids 0))"
  define T3 where "T3 = (if kids 0 = [] then put T2 ?rr (\<lambda>y. y\<lparr>first_child := tr ?n H (fstc R d)\<rparr>)
    else put T2 lk (\<lambda>y. y\<lparr>next_sibling := tr ?n H (fstc R d)\<rparr>))"
  have len: "length T1 = length T" "length T2 = length T" "length T3 = length T"
    by (simp_all add: T1_def T2_def T3_def)
  have n2: "T2 ! nat i = (if i = ?rr then (T ! nat i)\<lparr>parent := H ! nat (par R d), next_sibling := tr ?n H (nxt R d)\<rparr>
      else T ! nat i)" if "node_in T i" for i
    using that rr by (simp add: T1_def T2_def)
  have seg: "lseg T2 (fstc T2 ?rr) (map (\<lambda>x. g ! nat x) (kids 0)) ?n"
  proof -
    have "\<forall>x \<in> set (kids 0). pos_in g x \<and> nxt T2 (g ! nat x) = tr ?n g (nxt S x)"
    proof
      fix x assume "x \<in> set (kids 0)"
      then have x: "pos_in g x" "x \<noteq> 0" using K(3) by auto
      then show "pos_in g x \<and> nxt T2 (g ! nat x) = tr ?n g (nxt S x)"
        using n2 [OF ge(2) [OF x]] ge(1) [OF x] link [rule_format, OF x(1)] by (simp add: linked_def)
    qed
    from lseg_tr [OF K(2) this] show ?thesis using n2 [OF rr] L0(3) by simp
  qed
  have lk: "kids 0 \<noteq> [] \<Longrightarrow> node_in T lk \<and> lk \<noteq> ?rr"
    using K(3) [of "last (kids 0)"] ge [of "last (kids 0)"] by (simp add: lk_def)
  have last: "kids 0 \<noteq> [] \<Longrightarrow> last_sibling T2 (fstc T2 ?rr) = Some lk"
  proof (rule last_sibling_correct)
    assume ne: "kids 0 \<noteq> []"
    have sp: "map (\<lambda>x. g ! nat x) (butlast (kids 0)) @ [lk] = map (\<lambda>x. g ! nat x) (kids 0)"
      unfolding lk_def using ne by (rule map_butlast_last)
    show "lseg T2 (fstc T2 ?rr) (map (\<lambda>x. g ! nat x) (butlast (kids 0)) @ [lk]) (tree_size T2)"
      unfolding sp using seg len(2) by simp
    show "\<forall>y \<in> set (map (\<lambda>x. g ! nat x) (butlast (kids 0)) @ [lk]). node_in T2 y"
      unfolding sp using K(3) ge len(2) by auto
  qed
  have fst2: "fstc T2 ?rr = ?n \<longleftrightarrow> kids 0 = []"
    using lseg_start [OF seg] K(3) [of "hd (kids 0)"] ge(2) [of "hd (kids 0)"] by (cases "kids 0") auto
  have rk: "\<And>i. pos_in H i \<Longrightarrow> rnk R i = H ! nat i" using DR(2) by simp
  have rds: "rd R d = Some (R ! nat d)" "rd R (par R d) = Some (R ! nat (par R d))" "rnk R (par R d) = H ! nat (par R d)"
    "rnk R d = ?rr" using DR(1) DR(4) [OF d(1)] DR(1,2) d rk by simp_all
  have step2: "(if nxt R d = tree_size R then Some T1
      else do { y \<leftarrow> rd T1 ?rr; N \<leftarrow> rd R (nxt R d);
        if next_sibling y = tree_size T1 then upd T1 ?rr (\<lambda>y. y\<lparr>next_sibling := rank_in_comm N\<rparr>)
        else do { s0 \<leftarrow> rd T1 (next_sibling y); s \<leftarrow> last_sibling T1 (next_sibling s0);
          upd T1 s (\<lambda>y. y\<lparr>next_sibling := rank_in_comm N\<rparr>) } }) = Some T2"
  proof (cases "nxt R d = tree_size R")
    case True
    have "T1 ! nat ?rr = (T1 ! nat ?rr)\<lparr>next_sibling := ?n\<rparr>" using rr L0(2) by (simp add: T1_def)
    then have "T2 = T1" using True DR(1) by (simp add: T2_def put_def)
    with True show ?thesis by simp
  next
    case False
    then have "pos_in H (nxt R d)" using DR(1) DR(5) [OF d(1)] by auto
    with False rr L0(2) DR(1) rk show ?thesis by (simp add: T1_def T2_def)
  qed
  have step3: "(if fstc R d = tree_size R then Some T2
      else do { y \<leftarrow> rd T2 ?rr; C \<leftarrow> rd R (fstc R d);
        if first_child y = tree_size T2 then upd T2 ?rr (\<lambda>y. y\<lparr>first_child := rank_in_comm C\<rparr>)
        else do { s \<leftarrow> last_sibling T2 (first_child y);
          upd T2 s (\<lambda>y. y\<lparr>next_sibling := rank_in_comm C\<rparr>) } }) = Some T3"
  proof (cases "fstc R d = tree_size R")
    case True
    have "T3 = T2"
    proof (cases "kids 0 = []")
      case k: True
      then have "T2 ! nat ?rr = (T2 ! nat ?rr)\<lparr>first_child := ?n\<rparr>" using fst2 by simp
      with k True DR(1) show ?thesis by (simp add: T3_def put_def)
    next
      case k: False
      have "lseg T2 (fstc T2 ?rr) (map (\<lambda>x. g ! nat x) (butlast (kids 0)) @ [lk]) ?n"
        unfolding lk_def map_butlast_last [where f = "\<lambda>x. g ! nat x", OF k] by (rule seg)
      then have "nxt T2 lk = ?n" by (auto simp: lseg_append)
      then have "T2 ! nat lk = (T2 ! nat lk)\<lparr>next_sibling := ?n\<rparr>" by simp
      with k True DR(1) show ?thesis by (simp add: T3_def put_def)
    qed
    with True show ?thesis by simp
  next
    case False
    then have "pos_in H (fstc R d)" using DR(1) DR(6) [OF d(1)] by auto
    with False rr DR(1) rk len(2) fst2 lk last show ?thesis by (cases "kids 0 = []") (simp_all add: T3_def)
  qed
  have run: "merge_rep T R d = Some T3"
    unfolding merge_rep_def rds(1) Option.bind.bind_lunit rds(2) Let_def rds(3,4) upd_in [OF rr] T1_def [symmetric]
      step2 step3 ..
  have n3: "T3 ! nat i = (if kids 0 = [] \<and> i = ?rr then (T2 ! nat i)\<lparr>first_child := tr ?n H (fstc R d)\<rparr>
      else if kids 0 \<noteq> [] \<and> i = lk then (T2 ! nat i)\<lparr>next_sibling := tr ?n H (fstc R d)\<rparr> else T2 ! nat i)"
    if "node_in T i" for i
    using that rr lk len(2) by (cases "kids 0 = []") (simp_all add: T3_def)
  have out: "rnk T3 i = rnk T i \<and> (i \<notin> set g \<longrightarrow> T3 ! nat i = T ! nat i)" if "node_in T i" for i
  proof -
    have "?rr \<in> set g" "kids 0 \<noteq> [] \<Longrightarrow> lk \<in> set g"
      using nth_pos [OF p0] K(3) [of "last (kids 0)"] by (auto simp: lk_def)
    then show ?thesis unfolding n3 [OF that] n2 [OF that] by auto
  qed
  have fields: "par T3 (g ! nat s) = (if s = 0 then H ! nat (par R d) else g ! nat (par S s)) \<and>
       nxt T3 (g ! nat s) = (if s = 0 then tr ?n H (nxt R d)
         else if kids 0 \<noteq> [] \<and> s = last (kids 0) then tr ?n H (fstc R d)
         else tr ?n g (nxt S s)) \<and>
       fstc T3 (g ! nat s) = (if s = 0 \<and> kids 0 = [] then tr ?n H (fstc R d) else tr ?n g (fstc S s))"
    if s: "pos_in g s" for s
  proof (cases "s = 0")
    case True
    then show ?thesis using n3 [OF rr] n2 [OF rr] L0 lk by auto
  next
    case False
    have "g ! nat s = lk \<longleftrightarrow> s = last (kids 0)" if "kids 0 \<noteq> []"
      using pos_inj [OF g(3) s, of "last (kids 0)"] K(3) [of "last (kids 0)"] that by (simp add: lk_def)
    then have e: "T3 ! nat (g ! nat s) = (if kids 0 \<noteq> [] \<and> s = last (kids 0)
        then (T ! nat (g ! nat s))\<lparr>next_sibling := tr ?n H (fstc R d)\<rparr> else T ! nat (g ! nat s))"
      unfolding n3 [OF ge(2) [OF s False]] n2 [OF ge(2) [OF s False]] using ge(1) [OF s False]
      by (cases "kids 0 = []"; cases "s = last (kids 0)") auto
    define q where "q = (kids 0 \<noteq> [] \<and> s = last (kids 0))"
    show ?thesis
      unfolding e q_def [symmetric] using False link [rule_format, OF s, unfolded linked_def] by simp
  qed
  from run len(3) out fields show ?thesis by blast
qed

section \<open>The merge loop\<close>

text \<open>The links of the node at position \<open>s\<close> of group \<open>d\<close> in the merged tree.\<close>

definition merged ::
  "era_tree_t list \<Rightarrow> int list \<Rightarrow> (int \<Rightarrow> int list) \<Rightarrow> era_tree_t list \<Rightarrow> int list \<Rightarrow> int \<Rightarrow>
   era_tree_t list \<Rightarrow> int \<Rightarrow> bool" where
  "merged S g kids R H d T s \<longleftrightarrow>
     par T (g ! nat s) = (if s = 0 then H ! nat (par R d) else g ! nat (par S s)) \<and>
     nxt T (g ! nat s) = (if s = 0 then tr (tree_size T) H (nxt R d)
       else if kids 0 \<noteq> [] \<and> s = last (kids 0) then tr (tree_size T) H (fstc R d)
       else tr (tree_size T) g (nxt S s)) \<and>
     fstc T (g ! nat s) = (if s = 0 \<and> kids 0 = [] then tr (tree_size T) H (fstc R d)
       else tr (tree_size T) g (fstc S s))"

lemma merged_cong:
  "length T' = length T \<Longrightarrow> T' ! nat (g ! nat s) = T ! nat (g ! nat s) \<Longrightarrow>
   merged S g kids R H d T' s \<longleftrightarrow> merged S g kids R H d T s"
  by (simp add: merged_def)

lemma merge_loop_correct:
  assumes R: "sub_of R H kidsR" and H: "set H \<subseteq> {0..<tree_size T}" "int (length H) = r + int (length gs)" "0 \<le> r"
    and subs: "length subs = length gs" "\<forall>k < length gs. sub_of (subs ! k) (gs ! k) (kd (gs ! k)) \<and>
      gs ! k \<noteq> [] \<and> H ! nat (r + int k) = hd (gs ! k)"
    and gs: "set (concat gs) \<subseteq> {0..<tree_size T}" "distinct (concat gs)"
  shows "\<exists>T'. merge_loop T R r subs = Some T' \<and> length T' = length T \<and>
    (\<forall>i. node_in T i \<longrightarrow> rnk T' i = rnk T i \<and> (i \<notin> set (concat gs) \<longrightarrow> T' ! nat i = T ! nat i)) \<and>
    (\<forall>k < length gs. \<forall>s. pos_in (gs ! k) s \<longrightarrow>
       merged (subs ! k) (gs ! k) (kd (gs ! k)) R H (r + int k) T' s)"
  using assms(2-)
proof (induction gs arbitrary: T r subs)
  case (Cons g gs)
  then obtain S subs' where s: "subs = S # subs'" by (cases subs) auto
  have S: "sub_of S g (kd g)" "g \<noteq> []" "H ! nat r = g ! 0"
    using Cons.prems(5) [rule_format, of 0] s by (auto simp: hd_conv_nth)
  have g: "set g \<subseteq> {0..<tree_size T}" "distinct g" and gr: "set g \<inter> set (concat gs) = {}"
    using Cons.prems(6,7) by auto
  have r: "pos_in H r" using Cons.prems(2,3) by simp
  from merge_nodes_correct [OF S(1) g, of "[0..<length S]"] sub_ofD(1) [OF S(1)] obtain T1 where
    T1: "merge_nodes T S [0..<length S] = Some T1" "length T1 = length T"
      "\<forall>i. node_in T i \<longrightarrow> rnk T1 i = rnk T i \<and> (i \<notin> (\<lambda>s. g ! s) ` set [0..<length S] \<longrightarrow> T1 ! nat i = T ! nat i)"
      "\<forall>s \<in> set [0..<length S]. linked S g T1 (int s)" by auto
  have im: "(\<lambda>s. g ! s) ` set [0..<length S] = set g"
    unfolding set_map [symmetric] sub_ofD(1) [OF S(1)] map_nth ..
  have "linked S g T1 s" if "pos_in g s" for s
    using T1(4) [rule_format, of "nat s"] that sub_ofD(1) [OF S(1)] by (simp add: nat_less_iff)
  with merge_rep_correct [OF S(1,2) _ g(2) _ R r S(3), of T1] g(1) Cons.prems(1) T1(2) obtain T2 where
    T2: "merge_rep T1 R r = Some T2" "length T2 = length T"
      "\<forall>i. node_in T i \<longrightarrow> rnk T2 i = rnk T1 i \<and> (i \<notin> set g \<longrightarrow> T2 ! nat i = T1 ! nat i)"
      "\<forall>s. pos_in g s \<longrightarrow> merged S g (kd g) R H r T2 s"
    by (auto simp: merged_def)
  have pre: "set H \<subseteq> {0..<tree_size T2}" "int (length H) = (r + 1) + int (length gs)" "0 \<le> r + 1"
    "length subs' = length gs" "set (concat gs) \<subseteq> {0..<tree_size T2}" "distinct (concat gs)"
    using Cons.prems T2(2) s by auto
  have pre5: "\<forall>k < length gs. sub_of (subs' ! k) (gs ! k) (kd (gs ! k)) \<and> gs ! k \<noteq> [] \<and>
      H ! nat (r + 1 + int k) = hd (gs ! k)"
    using Cons.prems(5) [rule_format, of "Suc _"] s by (simp add: algebra_simps)
  from Cons.IH [OF pre(1-4) pre5 pre(5,6)] T2(2) obtain T' where
    T': "merge_loop T2 R (r + 1) subs' = Some T'" "length T' = length T"
      "\<forall>i. node_in T i \<longrightarrow> rnk T' i = rnk T2 i \<and> (i \<notin> set (concat gs) \<longrightarrow> T' ! nat i = T2 ! nat i)"
      "\<forall>k < length gs. \<forall>s. pos_in (gs ! k) s \<longrightarrow>
         merged (subs' ! k) (gs ! k) (kd (gs ! k)) R H (r + 1 + int k) T' s" by auto
  have run: "merge_loop T R r subs = Some T'" using T1(1) T2(1) T'(1) s by simp
  have out: "rnk T' i = rnk T i \<and> (i \<notin> set (concat (g # gs)) \<longrightarrow> T' ! nat i = T ! nat i)" if "node_in T i" for i
    using T'(3) T2(3) T1(3) that im by simp
  have mg: "merged S g (kd g) R H r T' s" if "pos_in g s" for s
  proof -
    have "node_in T (g ! nat s)" "g ! nat s \<notin> set (concat gs)"
      using subsetD [OF g(1) nth_pos [OF that]] gr nth_pos [OF that] by auto
    then have "T' ! nat (g ! nat s) = T2 ! nat (g ! nat s)" using T'(3) by simp
    then show ?thesis using merged_cong [of T' T2 g s] T'(2) T2(2,4) that by simp
  qed
  have "merged (subs ! k) ((g # gs) ! k) (kd ((g # gs) ! k)) R H (r + int k) T' s"
    if "k < length (g # gs)" "pos_in ((g # gs) ! k) s" for k s
    using that mg T'(4) s by (cases k) (auto simp: algebra_simps)
  with run T'(2) out show ?case by blast
qed simp

section \<open>The merged tree\<close>

lemma concat_group_unique:
  "distinct (concat gs) \<Longrightarrow> k < length gs \<Longrightarrow> k' < length gs \<Longrightarrow> x \<in> set (gs ! k) \<Longrightarrow> x \<in> set (gs ! k') \<Longrightarrow> k = k'"
proof (induction gs arbitrary: k k')
  case (Cons g gs)
  have "x \<in> set g \<Longrightarrow> x \<notin> set (concat gs)" using Cons.prems(1) by auto
  moreover have "j < length gs \<Longrightarrow> x \<in> set (gs ! j) \<Longrightarrow> x \<in> set (concat gs)" for j by (auto dest: nth_mem)
  ultimately show ?case using Cons by (cases k; cases k') auto
qed simp

definition valid :: "int list list \<Rightarrow> nat \<Rightarrow> int \<Rightarrow> bool" where
  "valid gs k s \<longleftrightarrow> k < length gs \<and> pos_in (gs ! k) s"

definition node :: "int list list \<Rightarrow> nat \<Rightarrow> int \<Rightarrow> int" where
  "node gs k s = gs ! k ! nat s"

lemma group_ok:
  assumes "groups_ok n gs" "k < length gs"
  shows "gs ! k \<noteq> []" "sorted_wrt (<) (gs ! k)" "distinct (gs ! k)" "set (gs ! k) \<subseteq> {0..<n}"
  using assms nth_mem [OF assms(2)] by (auto simp: groups_ok_def strict_sorted_iff)

lemma valid0: "groups_ok n gs \<Longrightarrow> k < length gs \<Longrightarrow> valid gs k 0"
  using group_ok(1) by (auto simp: valid_def)

lemma head_node: "groups_ok n gs \<Longrightarrow> k < length gs \<Longrightarrow> map hd gs ! k = node gs k 0"
  using group_ok(1) by (simp add: node_def hd_conv_nth)

lemma node_range: "groups_ok n gs \<Longrightarrow> valid gs k s \<Longrightarrow> node gs k s \<in> {0..<n}"
  using group_ok(4) [of n gs k] nth_pos [of s "gs ! k"] unfolding valid_def node_def by blast

lemma node_eq:
  assumes g: "groups_ok n gs" and v: "valid gs k s" "valid gs k' s'"
  shows "node gs k s = node gs k' s' \<longleftrightarrow> k = k' \<and> s = s'"
proof
  assume eq: "node gs k s = node gs k' s'"
  have "distinct (concat gs)" using g by (simp add: groups_ok_def)
  then have "k = k'"
    using concat_group_unique [of gs k k' "node gs k s"] v nth_pos [of s "gs ! k"] nth_pos [of s' "gs ! k'"] eq
    unfolding valid_def node_def by auto
  then show "k = k' \<and> s = s'"
    using v eq pos_inj [of "gs ! k" s s'] group_ok(3) [OF g, of k] by (simp add: valid_def node_def)
qed simp

lemma node_cover:
  assumes "groups_ok n gs" "c \<in> {0..<n}"
  shows "\<exists>k s. valid gs k s \<and> c = node gs k s"
proof -
  have "c \<in> set (concat gs)" using assms by (simp add: groups_ok_def)
  then obtain k j where "k < length gs" "j < length (gs ! k)" "c = gs ! k ! j"
    by (auto simp: in_set_conv_nth)
  then show ?thesis by (intro exI [of _ k] exI [of _ "int j"]) (simp add: valid_def node_def)
qed

lemma node_mono: "groups_ok n gs \<Longrightarrow> valid gs k s \<Longrightarrow> valid gs k s' \<Longrightarrow> s \<le> s' \<Longrightarrow> node gs k s \<le> node gs k s'"
  using group_ok(2) [of n gs k] sorted_wrt_nth_less [of "(<)" "gs ! k" "nat s" "nat s'"]
  by (cases "s = s'") (auto simp: valid_def node_def nat_less_iff)

lemma head_mono: "groups_ok n gs \<Longrightarrow> k \<le> k' \<Longrightarrow> k' < length gs \<Longrightarrow> node gs k 0 \<le> node gs k' 0"
  using sorted_wrt_nth_less [of "(<)" "map hd gs" k k'] head_node [of n gs k] head_node [of n gs k']
  by (cases "k = k'") (auto simp: groups_ok_def)

lemma first_node:
  assumes "groups_ok n gs" "0 < n"
  shows "0 < length gs \<and> node gs 0 0 = 0"
proof -
  from node_cover [OF assms(1), of 0] assms(2) obtain k s where ks: "valid gs k s" "0 = node gs k s" by auto
  then have k: "k < length gs" by (simp add: valid_def)
  then have "node gs 0 0 \<le> node gs k 0" by (intro head_mono [OF assms(1)]) auto
  also have "\<dots> \<le> node gs k s" using ks(1) valid0 [OF assms(1) k] by (intro node_mono [OF assms(1)]) (auto simp: valid_def)
  finally have "node gs 0 0 \<le> 0" using ks(2) by simp
  moreover have "0 < length gs" using k by linarith
  moreover have "0 \<le> node gs 0 0" using node_range [OF assms(1) valid0 [OF assms(1) \<open>0 < length gs\<close>]] by simp
  ultimately show ?thesis by auto
qed

text \<open>A tree whose nodes all have the links of a merge.\<close>

definition merged_tree ::
  "era_tree_t list \<Rightarrow> int list list \<Rightarrow> era_tree_t list list \<Rightarrow> era_tree_t list \<Rightarrow> (int list \<Rightarrow> int \<Rightarrow> int list) \<Rightarrow>
   (int \<Rightarrow> int list) \<Rightarrow> bool" where
  "merged_tree T gs subs R kd kR \<longleftrightarrow>
     groups_ok (tree_size T) gs \<and> T \<noteq> [] \<and> sub_of R (map hd gs) kR \<and>
     (\<forall>k < length gs. sub_of (subs ! k) (gs ! k) (kd (gs ! k))) \<and>
     (\<forall>k s. valid gs k s \<longrightarrow> merged (subs ! k) (gs ! k) (kd (gs ! k)) R (map hd gs) (int k) T s)"

lemma merged_treeD:
  assumes "merged_tree T gs subs R kd kR"
  shows "groups_ok (tree_size T) gs" "T \<noteq> []" "sub_of R (map hd gs) kR"
    "k < length gs \<Longrightarrow> sub_of (subs ! k) (gs ! k) (kd (gs ! k))"
    "valid gs k s \<Longrightarrow> merged (subs ! k) (gs ! k) (kd (gs ! k)) R (map hd gs) (int k) T s"
  using assms by (auto simp: merged_tree_def)

lemma merged_par:
  assumes M: "merged_tree T gs subs R kd kR" and v: "valid gs k s"
  shows "par T (node gs k s) = (if s = 0 then node gs (nat (par R (int k))) 0 else node gs k (par (subs ! k) s))"
    "if s = 0 then valid gs (nat (par R (int k))) 0 else valid gs k (par (subs ! k) s)"
proof -
  note D = merged_treeD [OF M]
  have k: "k < length gs" and s: "pos_in (gs ! k) s" using v by (simp_all add: valid_def)
  have n: "nat (par R (int k)) < length gs"
    using sub_ofD(4) [OF D(3), of "int k"] k by (simp add: nat_less_iff)
  show "par T (node gs k s) = (if s = 0 then node gs (nat (par R (int k))) 0 else node gs k (par (subs ! k) s))"
    using D(5) [OF v] head_node [OF D(1) n] by (simp add: merged_def node_def del: nth_map)
  show "if s = 0 then valid gs (nat (par R (int k))) 0 else valid gs k (par (subs ! k) s)"
    using valid0 [OF D(1) n] sub_ofD(4) [OF D(4) [OF k] s] k by (simp add: valid_def)
qed

definition merged_kids :: "int list list \<Rightarrow> (int list \<Rightarrow> int \<Rightarrow> int list) \<Rightarrow> (int \<Rightarrow> int list) \<Rightarrow> nat \<Rightarrow> int \<Rightarrow> int list" where
  "merged_kids gs kd kR k s =
     map (node gs k) (kd (gs ! k) s) @ (if s = 0 then map (\<lambda>x. node gs (nat x) 0) (kR (int k)) else [])"

lemma sub_kids:
  assumes "sub_of S g kids" "pos_in g s"
  shows "lseg S (fstc S s) (kids s) (int (length g))" "distinct (kids s)"
    "x \<in> set (kids s) \<longleftrightarrow> pos_in g x \<and> x \<noteq> 0 \<and> par S x = s"
    "x \<in> set (kids s) \<Longrightarrow> s < x" "par S s \<le> s" "par S s = s \<longleftrightarrow> s = 0"
proof -
  note inv = sub_ofD(3) [OF assms(1)]
  have s: "s \<in> {0..<int (length g)}" using assms(2) by simp
  have "0 < int (length g)" using assms(2) by linarith
  then have m: "Min {0..<int (length g)} = 0" by (rule Min_range)
  show "lseg S (fstc S s) (kids s) (int (length g))" "distinct (kids s)" "par S s \<le> s" "par S s = s \<longleftrightarrow> s = 0"
    using tree_invD(5,6,9,10) [OF inv s] sub_ofD(1) [OF assms(1)] by (simp_all add: m)
  show gr: "x \<in> set (kids s) \<Longrightarrow> s < x" for x using kid_greater [OF inv s, of x] by simp
  show "x \<in> set (kids s) \<longleftrightarrow> pos_in g x \<and> x \<noteq> 0 \<and> par S x = s"
  proof
    assume "x \<in> set (kids s)"
    then show "pos_in g x \<and> x \<noteq> 0 \<and> par S x = s" using kid_greater [OF inv s, of x] s by auto
  next
    assume x: "pos_in g x \<and> x \<noteq> 0 \<and> par S x = s"
    then have "x \<noteq> s" using tree_invD(10) [OF inv, of x] m by auto
    with x show "x \<in> set (kids s)" using tree_invD(7) [OF inv s, of x] by simp
  qed
qed

lemma merged_kids_set:
  assumes M: "merged_tree T gs subs R kd kR" and v: "valid gs k s" "valid gs k' s'"
  shows "node gs k' s' \<in> set (merged_kids gs kd kR k s) \<longleftrightarrow>
    node gs k' s' \<noteq> node gs k s \<and> par T (node gs k' s') = node gs k s"
proof -
  note D = merged_treeD [OF M]
  note E = node_eq [OF D(1)]
  have k: "k < length gs" "k' < length gs" and p: "pos_in (gs ! k) s" "pos_in (gs ! k') s'"
    using v by (simp_all add: valid_def)
  note KS = sub_kids [OF D(4) [OF k(1)] p(1)] and KR = sub_kids [OF D(3), of "int k"]
  have in_sub: "node gs k' s' \<in> set (map (node gs k) (kd (gs ! k) s)) \<longleftrightarrow> k' = k \<and> s' \<in> set (kd (gs ! k) s)"
  proof
    assume "node gs k' s' \<in> set (map (node gs k) (kd (gs ! k) s))"
    then obtain x where x: "x \<in> set (kd (gs ! k) s)" "node gs k' s' = node gs k x" by auto
    then have "valid gs k x" using KS(3) k(1) by (simp add: valid_def)
    with x E [OF v(2)] show "k' = k \<and> s' \<in> set (kd (gs ! k) s)" by simp
  qed simp
  have in_rep: "node gs k' s' \<in> set (map (\<lambda>x. node gs (nat x) 0) (kR (int k))) \<longleftrightarrow> s' = 0 \<and> int k' \<in> set (kR (int k))"
  proof
    assume "node gs k' s' \<in> set (map (\<lambda>x. node gs (nat x) 0) (kR (int k)))"
    then obtain x where x: "x \<in> set (kR (int k))" "node gs k' s' = node gs (nat x) 0" by auto
    then have px: "0 \<le> x" "nat x < length gs" using KR(3) [of x] k(1) by (simp_all add: nat_less_iff)
    with x E [OF v(2) valid0 [OF D(1) px(2)]] show "s' = 0 \<and> int k' \<in> set (kR (int k))" by simp
  qed force
  show ?thesis
  proof (cases "s' = 0")
    case True
    have "s' \<notin> set (kd (gs ! k) s)" using KS(3) True by simp
    moreover have "par R (int k') \<ge> 0" using sub_ofD(4) [OF D(3), of "int k'"] k(2) by simp
    moreover have "par T (node gs k' s') = node gs k s \<longleftrightarrow> s = 0 \<and> par R (int k') = int k"
      using merged_par [OF M v(2)] True E [OF _ v(1), of "nat (par R (int k'))" 0] \<open>par R (int k') \<ge> 0\<close> by auto
    moreover have "int k' \<in> set (kR (int k)) \<longleftrightarrow> k' \<noteq> k \<and> par R (int k') = int k"
      using KR(3,4) [of "int k'"] sub_kids(6) [OF D(3), of "int k'"] k by auto
    ultimately show ?thesis
      unfolding merged_kids_def using in_sub in_rep True E [OF v(2,1)] by (cases "s = 0") auto
  next
    case False
    then have "par T (node gs k' s') = node gs k s \<longleftrightarrow> k' = k \<and> par (subs ! k') s' = s"
      using merged_par [OF M v(2)] E [OF _ v(1), of k' "par (subs ! k') s'"] by auto
    moreover have "k' = k \<Longrightarrow> s' \<in> set (kd (gs ! k) s) \<longleftrightarrow> par (subs ! k) s' = s"
      using KS(3) [of s'] p(2) False by simp
    moreover have "s' \<in> set (kd (gs ! k) s) \<Longrightarrow> s' \<noteq> s" using KS(4) by auto
    ultimately show ?thesis
      unfolding merged_kids_def using in_sub in_rep False E [OF v(2,1)] by (cases "s = 0") auto
  qed
qed

lemma rep_chain:
  assumes M: "merged_tree T gs subs R kd kR" and k: "k < length gs"
  shows "lseg T (tr (tree_size T) (map hd gs) (fstc R (int k))) (map (\<lambda>x. node gs (nat x) 0) (kR (int k))) (tree_size T)"
proof -
  note D = merged_treeD [OF M]
  let ?H = "map hd gs" and ?n = "tree_size T"
  note KR = sub_kids [OF D(3), of "int k"]
  have x: "pos_in ?H x \<and> ?H ! nat x = node gs (nat x) 0 \<and> nxt T (?H ! nat x) = tr ?n ?H (nxt R x)"
    if "x \<in> set (kR (int k))" for x
  proof -
    have px: "pos_in ?H x" "nat x < length gs" using KR(3) that k by (simp_all add: nat_less_iff)
    then show ?thesis
      using D(5) [OF valid0 [OF D(1) px(2)]] head_node [OF D(1) px(2)] by (simp add: merged_def node_def del: nth_map)
  qed
  have "lseg T (tr ?n ?H (fstc R (int k))) (map (\<lambda>x. ?H ! nat x) (kR (int k))) (tr ?n ?H (int (length ?H)))"
    by (rule lseg_tr [OF KR(1)]) (use k in simp, use x in blast)
  moreover have "map (\<lambda>x. ?H ! nat x) (kR (int k)) = map (\<lambda>x. node gs (nat x) 0) (kR (int k))" using x by simp
  ultimately show ?thesis by (simp only: tr_end)
qed

lemma merged_chain:
  assumes M: "merged_tree T gs subs R kd kR" and v: "valid gs k s"
  shows "lseg T (fstc T (node gs k s)) (merged_kids gs kd kR k s) (tree_size T)"
proof -
  note D = merged_treeD [OF M]
  let ?n = "tree_size T" and ?g = "gs ! k" and ?ks = "kd (gs ! k)" and ?H = "map hd gs" and ?S = "subs ! k"
  have k: "k < length gs" and s: "pos_in ?g s" using v by (simp_all add: valid_def)
  note KS = sub_kids [OF D(4) [OF k]]
  have p0: "pos_in ?g 0" using s by linarith
  have mg: "merged ?S ?g ?ks R ?H (int k) T x" if "pos_in ?g x" for x using D(5) that k by (simp add: valid_def)
  have nodes: "node gs k = (\<lambda>x. ?g ! nat x)" by (rule ext) (simp add: node_def)
  have reg: "pos_in ?g x \<and> nxt T (?g ! nat x) = tr ?n ?g (nxt ?S x)"
    if "x \<in> set (?ks i)" "pos_in ?g i" "?ks 0 = [] \<or> x \<noteq> last (?ks 0)" for x i
    using KS(3) [OF that(2), of x] that(1,3) mg [of x] by (auto simp: merged_def)
  show ?thesis
  proof (cases "s = 0")
    case False
    have "?ks 0 \<noteq> [] \<Longrightarrow> x \<noteq> last (?ks 0)" if "x \<in> set (?ks s)" for x
      using KS(3) [OF s, of x] KS(3) [OF p0, of x] that False last_in_set [of "?ks 0"] by auto
    then have "lseg T (tr ?n ?g (fstc ?S s)) (map (\<lambda>x. ?g ! nat x) (?ks s)) (tr ?n ?g (int (length ?g)))"
      using reg s by (intro lseg_tr [OF KS(1) [OF s]]) blast
    then show ?thesis
      using mg [OF s] False unfolding merged_kids_def nodes merged_def by simp
  next
    case True
    note rc = rep_chain [OF M k]
    show ?thesis
    proof (cases "?ks 0 = []")
      case e: True
      then show ?thesis using rc mg [OF p0] True unfolding merged_kids_def nodes merged_def by simp
    next
      case e: False
      define l where "l = last (?ks 0)"
      define bl where "bl = butlast (?ks 0)"
      have kl: "?ks 0 = bl @ [l]" using e by (simp add: l_def bl_def)
      have lp: "pos_in ?g l" "l \<noteq> 0" using KS(3) [OF p0, of l] kl by auto
      have "lseg ?S (fstc ?S 0) bl l" using KS(1) [OF p0] unfolding kl by (auto simp: lseg_append)
      moreover have "\<forall>x \<in> set bl. pos_in ?g x \<and> nxt T (?g ! nat x) = tr ?n ?g (nxt ?S x)"
        using reg [OF _ p0] KS(2) [OF p0] kl by auto
      ultimately have "lseg T (tr ?n ?g (fstc ?S 0)) (map (\<lambda>x. ?g ! nat x) bl) (tr ?n ?g l)" by (rule lseg_tr)
      moreover have "nxt T (?g ! nat l) = tr ?n ?H (fstc R (int k))"
        using mg [OF lp(1)] lp(2) e by (simp add: merged_def l_def)
      moreover have "fstc T (node gs k s) = tr ?n ?g (fstc ?S 0)"
        using mg [OF p0] e True unfolding nodes merged_def by simp
      ultimately show ?thesis
        using rc lp unfolding merged_kids_def True kl nodes by (auto simp: lseg_append)
    qed
  qed
qed

lemma merged_kids_range:
  assumes M: "merged_tree T gs subs R kd kR" and v: "valid gs k s"
  shows "set (merged_kids gs kd kR k s) \<subseteq> {0..<tree_size T}"
proof -
  note D = merged_treeD [OF M]
  have k: "k < length gs" and s: "pos_in (gs ! k) s" using v by (simp_all add: valid_def)
  have "valid gs k x" if "x \<in> set (kd (gs ! k) s)" for x
    using sub_kids(3) [OF D(4) [OF k] s] that k by (simp add: valid_def)
  moreover have "valid gs (nat x) 0" if "x \<in> set (kR (int k))" for x
    using sub_kids(3) [OF D(3), of "int k"] that k by (intro valid0 [OF D(1)]) (simp add: nat_less_iff)
  ultimately show ?thesis using node_range [OF D(1)] by (auto simp: merged_kids_def)
qed

lemma merged_kids_distinct:
  assumes M: "merged_tree T gs subs R kd kR" and v: "valid gs k s"
  shows "distinct (merged_kids gs kd kR k s)"
proof -
  note D = merged_treeD [OF M]
  note E = node_eq [OF D(1)]
  have k: "k < length gs" and s: "pos_in (gs ! k) s" using v by (simp_all add: valid_def)
  note KS = sub_kids [OF D(4) [OF k] s] and KR = sub_kids [OF D(3), of "int k"]
  have vk: "valid gs k x" if "x \<in> set (kd (gs ! k) s)" for x
    using KS(3) that k by (simp add: valid_def)
  have vr: "0 \<le> x \<and> valid gs (nat x) 0 \<and> nat x \<noteq> k" if "x \<in> set (kR (int k))" for x
    using KR(3) [of x] KR(4) [of x] that k valid0 [OF D(1), of "nat x"] by (auto simp: nat_less_iff)
  have "inj_on (node gs k) (set (kd (gs ! k) s))" using vk E by (intro inj_onI) blast
  moreover have "inj_on (\<lambda>x. node gs (nat x) 0) (set (kR (int k)))"
    using vr E by (intro inj_onI) (metis eq_nat_nat_iff)
  moreover have "node gs k x \<noteq> node gs (nat y) 0" if "x \<in> set (kd (gs ! k) s)" "y \<in> set (kR (int k))" for x y
    using vk [OF that(1)] vr [OF that(2)] E by metis
  ultimately show ?thesis
    using KS(2) KR(2) k by (auto simp: merged_kids_def distinct_map)
qed

theorem merged_tree_inv:
  assumes M: "merged_tree T gs subs R kd kR"
  shows "\<exists>kids. tree_inv T {0..<tree_size T} kids"
proof -
  note D = merged_treeD [OF M]
  note E = node_eq [OF D(1)]
  let ?n = "tree_size T"
  have "\<forall>c \<in> {0..<?n}. \<exists>p. valid gs (fst p) (snd p) \<and> c = node gs (fst p) (snd p)"
    using node_cover [OF D(1)] by fastforce
  then obtain w where w: "\<And>c. c \<in> {0..<?n} \<Longrightarrow> valid gs (fst (w c)) (snd (w c)) \<and> c = node gs (fst (w c)) (snd (w c))"
    by metis
  define kids where "kids c = merged_kids gs kd kR (fst (w c)) (snd (w c))" for c
  have pos: "0 < ?n" using D(2) by simp
  note m = Min_range [OF pos]
  note z = first_node [OF D(1) pos]
  have "tree_inv T {0..<?n} kids"
    unfolding tree_inv_def m
  proof (intro conjI ballI)
    show "{0..<?n} \<noteq> {}" using pos by simp
    have "nxt R 0 = int (length (map hd gs))" using root_kids(1) [OF D(3)] z by auto
    then show "nxt T 0 = ?n"
      using D(5) [OF valid0 [OF D(1)], of 0] z by (simp add: merged_def node_def tr_def)
    fix c assume c: "c \<in> {0..<?n}"
    obtain k s where ks: "w c = (k, s)" by force
    have v: "valid gs k s" and cn: "c = node gs k s" using w [OF c] ks by simp_all
    have k: "k < length gs" and s: "pos_in (gs ! k) s" using v by (simp_all add: valid_def)
    note P = merged_par [OF M v] and KS = sub_kids [OF D(4) [OF k] s]
    have KR: "par R (int k) \<le> int k" "par R (int k) = int k \<longleftrightarrow> k = 0" "0 \<le> par R (int k)"
      using sub_kids(5,6) [OF D(3), of "int k"] sub_ofD(4) [OF D(3), of "int k"] k by auto
    show "lseg T (fstc T c) (kids c) ?n" unfolding kids_def ks using merged_chain [OF M v] cn by simp
    have kc: "kids c = merged_kids gs kd kR k s" by (simp add: kids_def ks)
    show "set (kids c) = {c' \<in> {0..<?n}. c' \<noteq> c \<and> par T c' = c}"
    proof (rule set_eqI)
      fix x
      show "x \<in> set (kids c) \<longleftrightarrow> x \<in> {c' \<in> {0..<?n}. c' \<noteq> c \<and> par T c' = c}"
      proof (cases "x \<in> {0..<?n}")
        case True
        then obtain k' s' where x: "valid gs k' s'" "x = node gs k' s'" using node_cover [OF D(1)] by blast
        show ?thesis using merged_kids_set [OF M v x(1)] True unfolding kc unfolding x(2) cn by blast
      next
        case False
        then show ?thesis using merged_kids_range [OF M v] kc by auto
      qed
    qed
    show "distinct (kids c)" unfolding kc by (rule merged_kids_distinct [OF M v])
    show "par T c \<in> {0..<?n}" unfolding cn P(1) using P(2) node_range [OF D(1)] by (cases "s = 0") simp_all
    show "par T c \<le> c"
    proof (cases "s = 0")
      case True
      have "nat (par R (int k)) \<le> k" using KR by simp
      then show ?thesis unfolding cn P(1) using True head_mono [OF D(1) _ k] by simp
    next
      case False
      then show ?thesis unfolding cn P(1) using P(2) KS(5) node_mono [OF D(1) _ v] by simp
    qed
    show "par T c = c \<longrightarrow> c = 0"
    proof
      assume "par T c = c"
      then have "s = 0 \<and> k = 0"
        unfolding cn P(1) using P(2) E [OF _ v] KS(6) KR by (cases "s = 0") auto
      then show "c = 0" using cn z by simp
    qed
  qed simp
  then show ?thesis by blast
qed

end
