(* ===== verification/Era_Construct.thy ===== *)
theory Era_Construct
  imports Era_Hierarchy Hash_Table_Correct
begin

text \<open>
  The construction of the tree of the early returning agreement. Along the hosts, the processes are
  grouped by their daemons with a hash table, of which only the laws of a dictionary are used; the
  groups satisfy what merging expects, so that every topology gives a well-formed tree of the
  processes that are not known by all to have failed.
\<close>

section \<open>Grouping\<close>

text \<open>The daemons in the order of their first processes, and the processes of a daemon.\<close>

definition first_occ :: "'d list \<Rightarrow> 'd list" where
  "first_occ ds = rev (remdups (rev ds))"

definition group_at :: "'d list \<Rightarrow> 'd \<Rightarrow> int list" where
  "group_at ds d = map int (filter (\<lambda>i. ds ! i = d) [0..<length ds])"

abbreviation (input) groups_of :: "'d list \<Rightarrow> int list list" where
  "groups_of ds \<equiv> map (group_at ds) (first_occ ds)"

lemma first_occ_simps [simp]:
  "first_occ [] = []" "set (first_occ ds) = set ds" "distinct (first_occ ds)"
  "first_occ (ds @ [d]) = (if d \<in> set ds then first_occ ds else first_occ ds @ [d])"
  by (simp_all add: first_occ_def)

lemma first_occ_length: "length (first_occ ds) = card (set ds)"
  by (metis distinct_card first_occ_simps(2,3))

lemma group_at_Nil [simp]: "group_at [] d = []"
  by (simp add: group_at_def)

lemma group_at_snoc [simp]: "group_at (ds @ [x]) d = group_at ds d @ (if x = d then [int (length ds)] else [])"
proof -
  have "filter (\<lambda>i. (ds @ [x]) ! i = d) [0..<length ds] = filter (\<lambda>i. ds ! i = d) [0..<length ds]"
    by (rule filter_cong) (auto simp: nth_append)
  then show ?thesis by (simp add: group_at_def)
qed

lemma set_group_at: "i \<in> set (group_at ds d) \<longleftrightarrow> 0 \<le> i \<and> i < int (length ds) \<and> ds ! nat i = d"
  by (auto simp: group_at_def image_iff nat_less_iff intro!: exI [of _ "nat i"])

lemma group_at_empty [simp]: "group_at ds d = [] \<longleftrightarrow> d \<notin> set ds"
proof (induction ds rule: rev_induct)
  case (snoc x ds)
  then show ?case by auto
qed simp

lemma group_at_none [simp]: "d \<notin> set ds \<Longrightarrow> group_at ds d = []"
  by simp

lemma group_at_sorted: "sorted_wrt (<) (group_at ds d)"
  by (induction ds rule: rev_induct) (auto simp: sorted_wrt_append set_group_at)

lemma group_at_distinct: "distinct (group_at ds d)"
  using group_at_sorted [of ds d] by (simp add: strict_sorted_iff)

lemma group_at_mono: "d \<in> set es \<Longrightarrow> length (group_at ds d) < length (group_at (ds @ es) d)"
proof (induction es rule: rev_induct)
  case (snoc x es)
  have "length (group_at ds d) \<le> length (group_at (ds @ es) d)" for es
    by (induction es rule: rev_induct) (auto simp flip: append_assoc)
  with snoc show ?case by (auto simp flip: append_assoc simp: less_Suc_eq_le)
qed simp

lemma first_occ_heads: "sorted_wrt (<) (map hd (groups_of ds))"
proof (induction ds rule: rev_induct)
  case (snoc x ds)
  have hd: "hd (group_at (ds @ [x]) d) = hd (group_at ds d)" "hd (group_at ds d) < int (length ds)" if "d \<in> set ds" for d
    using that hd_in_set [of "group_at ds d"] by (simp_all add: set_group_at)
  have "map hd (map (group_at (ds @ [x])) (first_occ ds)) = map hd (groups_of ds)" using hd(1) by simp
  moreover have "x \<notin> set ds \<Longrightarrow> group_at (ds @ [x]) x = [int (length ds)]" by simp
  ultimately show ?case
    using snoc hd(2) by (cases "x \<in> set ds") (simp_all add: sorted_wrt_append del: group_at_snoc map_map)
qed simp

lemma groups_of_ok: "groups_ok (int (length ds)) (groups_of ds)"
  unfolding groups_ok_def
proof (intro conjI)
  show "\<forall>g \<in> set (groups_of ds). g \<noteq> [] \<and> sorted_wrt (<) g" by (auto simp: group_at_sorted)
  show "distinct (concat (groups_of ds))"
  proof (rule distinct_concat)
    show "distinct (groups_of ds)"
      unfolding distinct_map
    proof (intro conjI inj_onI)
      fix d e assume d: "d \<in> set (first_occ ds)" and eq: "group_at ds d = group_at ds e"
      from d have "hd (group_at ds d) \<in> set (group_at ds d)" by simp
      with eq show "d = e" by (metis set_group_at)
    qed simp
  qed (auto simp: set_group_at group_at_distinct)
  show "set (concat (groups_of ds)) = {0..<int (length ds)}"
    by (auto simp: set_group_at nat_less_iff)
  show "sorted_wrt (<) (map hd (groups_of ds))" by (rule first_occ_heads)
qed

section \<open>The loops over the processes\<close>

text \<open>The entries of the daemons of \<open>ds\<close>, with the trees filled as far as the processes of \<open>es\<close>.\<close>

definition reps_of :: "'d list \<Rightarrow> 'd list \<Rightarrow> hierarch_tree_info_t list" where
  "reps_of ds es = map (\<lambda>d. \<lparr>rep = hd (group_at ds d), hsize = length (group_at ds d),
     htree = map blank_node (group_at es d)\<rparr>) (first_occ ds)"

definition keyed :: "32 word opal_hash_table_t \<Rightarrow> 32 word list \<Rightarrow> bool" where
  "keyed t ks \<longleftrightarrow> hash_inv slot_uint32 t \<and> dom (contents t) = set ks \<and>
     (\<forall>i < length ks. contents t (ks ! i) = Some (Suc i))"

text \<open>What the construction relies on: memory for the table and its nodes, and a number of daemons
  that is not less than the number of daemons of the processes.\<close>

definition layout_ok :: "era_layout \<Rightarrow> int \<Rightarrow> bool" where
  "layout_ok l n \<longleftrightarrow> table_mem l \<and> (\<forall>t. fresh_node (node_mem l t) t \<and> node_mem l t \<noteq> NULL) \<and>
     card (proc_get_daemon l ` {0..<n}) \<le> num_daemons l \<and> num_daemons l < 2 ^ 30"

abbreviation (input) daemons :: "era_layout \<Rightarrow> era_tree_t list \<Rightarrow> 32 word list" where
  "daemons l T \<equiv> map (\<lambda>x. proc_get_daemon l (rank_in_comm x)) T"

lemma keyed_get:
  assumes "keyed t (first_occ ds)"
  shows "d \<notin> set ds \<Longrightarrow> opal_hash_table_get_value_uint32 t d = Some (OPAL_ERR_NOT_FOUND, None)"
    "d \<in> set ds \<Longrightarrow> \<exists>i < length (first_occ ds). first_occ ds ! i = d \<and>
      opal_hash_table_get_value_uint32 t d = Some (OPAL_SUCCESS, Some (Suc i))"
proof -
  have inv: "hash_inv slot_uint32 t" and dm: "dom (contents t) = set ds"
    and at: "\<And>i. i < length (first_occ ds) \<Longrightarrow> contents t (first_occ ds ! i) = Some (Suc i)"
    using assms by (simp_all add: keyed_def)
  show "d \<notin> set ds \<Longrightarrow> opal_hash_table_get_value_uint32 t d = Some (OPAL_ERR_NOT_FOUND, None)"
    using d32.get_law [OF inv, of d] dm by (cases "contents t d") (auto simp: domIff)
  assume "d \<in> set ds"
  then obtain i where "i < length (first_occ ds)" "first_occ ds ! i = d" by (metis first_occ_simps(2) in_set_conv_nth)
  then show "\<exists>i < length (first_occ ds). first_occ ds ! i = d \<and>
      opal_hash_table_get_value_uint32 t d = Some (OPAL_SUCCESS, Some (Suc i))"
    using d32.get_law [OF inv, of d] at by auto
qed

lemma keyed_set:
  assumes "keyed t ks" "d \<notin> set ks" "fresh_node new t" "new \<noteq> NULL"
  shows "\<exists>t'. opal_hash_table_set_value_uint32 new t d (Suc (length ks)) = Some (OPAL_SUCCESS, t') \<and> keyed t' (ks @ [d])"
proof -
  have inv: "hash_inv slot_uint32 t" using assms(1) by (simp add: keyed_def)
  from d32.set_law [OF inv assms(3), of d "Suc (length ks)"] assms(4) obtain t' where
    t': "opal_hash_table_set_value_uint32 new t d (Suc (length ks)) = Some (OPAL_SUCCESS, t')"
      "hash_inv slot_uint32 t'" "contents t' = (contents t)(d \<mapsto> Suc (length ks))" by auto
  have "contents t' ((ks @ [d]) ! i) = Some (Suc i)" if "i < length (ks @ [d])" for i
    using that assms(1,2) nth_mem [of i ks] by (auto simp: t'(3) keyed_def nth_append less_Suc_eq)
  then have "keyed t' (ks @ [d])" using t' assms(1) by (simp add: keyed_def)
  with t'(1) show ?thesis by blast
qed

lemma map_update_key:
  assumes "distinct ks" "i < length ks" "\<And>d. d \<noteq> ks ! i \<Longrightarrow> g d = f d"
  shows "(map f ks)[i := g (ks ! i)] = map g ks"
proof (rule nth_equalityI)
  fix j assume "j < length ((map f ks)[i := g (ks ! i)])"
  then show "(map f ks)[i := g (ks ! i)] ! j = map g ks ! j"
    using assms nth_eq_iff_index_eq [of ks j i] by (cases "j = i") simp_all
qed simp

lemma daemon_loop_correct:
  assumes "layout_ok l n" "keyed t (first_occ ds)" "set ds \<union> set (daemons l xs) \<subseteq> proc_get_daemon l ` {0..<n}"
  shows "(\<exists>x \<in> set xs. \<not> same_job l (rank_in_comm x)) \<and>
      daemon_loop l (int (length ds)) xs t (reps_of ds []) = Some None \<or>
    (\<exists>t'. daemon_loop l (int (length ds)) xs t (reps_of ds []) = Some (Some (t', reps_of (ds @ daemons l xs) [])) \<and>
      keyed t' (first_occ (ds @ daemons l xs)))"
  using assms(2,3)
proof (induction xs arbitrary: t ds)
  case (Cons x xs)
  let ?d = "proc_get_daemon l (rank_in_comm x)"
  show ?case
  proof (cases "same_job l (rank_in_comm x)")
    case False
    then show ?thesis by simp
  next
    case job: True
    have step: "\<exists>t1. daemon_loop l (int (length ds)) (x # xs) t (reps_of ds []) =
        daemon_loop l (int (length (ds @ [?d]))) xs t1 (reps_of (ds @ [?d]) []) \<and> keyed t1 (first_occ (ds @ [?d]))"
    proof (cases "?d \<in> set ds")
      case True
      from keyed_get(2) [OF Cons.prems(1) True] obtain i where
        i: "i < length (first_occ ds)" "first_occ ds ! i = ?d"
          "opal_hash_table_get_value_uint32 t ?d = Some (OPAL_SUCCESS, Some (Suc i))" by blast
      have "(reps_of ds [])[i := (reps_of ds [] ! i)\<lparr>hsize := hsize (reps_of ds [] ! i) + 1\<rparr>] = reps_of (ds @ [?d]) []"
        using True i(1,2) map_update_key [of "first_occ ds" i "\<lambda>d. \<lparr>rep = hd (group_at (ds @ [?d]) d),
            hsize = length (group_at (ds @ [?d]) d), htree = []\<rparr>" "\<lambda>d. \<lparr>rep = hd (group_at ds d),
            hsize = length (group_at ds d), htree = []\<rparr>"]
        by (simp add: reps_of_def)
      moreover have "i < length (reps_of ds [])" using i(1) by (simp add: reps_of_def)
      ultimately show ?thesis using i(3) job True Cons.prems(1) by (intro exI [of _ t]) (simp add: algebra_simps)
    next
      case False
      have "card (insert ?d (set ds)) \<le> card (proc_get_daemon l ` {0..<n})"
        using Cons.prems(2) by (intro card_mono) auto
      then have room: "length (reps_of ds []) < num_daemons l"
        using assms(1) False by (simp add: layout_ok_def reps_of_def first_occ_length)
      from keyed_set [OF Cons.prems(1), of ?d "node_mem l t"] False assms(1) obtain t1 where
        t1: "opal_hash_table_set_value_uint32 (node_mem l t) t ?d (Suc (length (first_occ ds))) = Some (OPAL_SUCCESS, t1)"
          "keyed t1 (first_occ (ds @ [?d]))" by (auto simp: layout_ok_def)
      have "reps_of ds [] @ [\<lparr>rep = int (length ds), hsize = 1, htree = []\<rparr>] = reps_of (ds @ [?d]) []"
        using False by (auto simp: reps_of_def)
      then show ?thesis
        using t1 room job keyed_get(1) [OF Cons.prems(1) False]
        by (auto simp: reps_of_def rc_defs algebra_simps)
    qed
    then obtain t1 where t1: "daemon_loop l (int (length ds)) (x # xs) t (reps_of ds []) =
        daemon_loop l (int (length (ds @ [?d]))) xs t1 (reps_of (ds @ [?d]) [])" "keyed t1 (first_occ (ds @ [?d]))" by blast
    show ?thesis
      using Cons.IH [OF t1(2)] Cons.prems(2) t1(1) by (auto simp del: daemon_loop.simps)
  qed
qed simp

definition rep_nodes :: "'d list \<Rightarrow> era_tree_t list" where
  "rep_nodes ds = map blank_node (map hd (groups_of ds))"

lemma rep_nodes_snoc:
  "rep_nodes (ds @ [d]) = (if d \<in> set ds then rep_nodes ds else rep_nodes ds @ [blank_node (int (length ds))])"
  by (auto simp: rep_nodes_def)

lemma place_loop_correct:
  assumes "keyed t (first_occ all)" "all = ds @ daemons l xs"
  shows "place_loop l (int (length ds)) xs t (reps_of all ds) (rep_nodes ds) = Some (reps_of all all, rep_nodes all)"
  using assms(2)
proof (induction xs arbitrary: ds)
  case (Cons x xs)
  let ?d = "proc_get_daemon l (rank_in_comm x)"
  have da: "?d \<in> set all" using Cons.prems by simp
  from keyed_get(2) [OF assms(1) da] obtain i where
    i: "i < length (first_occ all)" "first_occ all ! i = ?d"
      "opal_hash_table_get_value_uint32 t ?d = Some (OPAL_SUCCESS, Some (Suc i))" by blast
  have R: "reps_of all ds ! i = \<lparr>rep = hd (group_at all ?d), hsize = length (group_at all ?d),
      htree = map blank_node (group_at ds ?d)\<rparr>" "i < length (reps_of all ds)"
    using i(1,2) by (simp_all add: reps_of_def)
  have room: "length (group_at ds ?d) < length (group_at all ?d)"
    using group_at_mono [of ?d "daemons l (x # xs)" ds] Cons.prems by simp
  have "(reps_of all ds)[i := \<lparr>rep = hd (group_at all ?d), hsize = length (group_at all ?d),
      htree = map blank_node (group_at ds ?d) @ [blank_node (int (length ds))]\<rparr>] = reps_of all (ds @ [?d])"
    using i(1,2) map_update_key [of "first_occ all" i "\<lambda>d. \<lparr>rep = hd (group_at all d),
        hsize = length (group_at all d), htree = map blank_node (group_at (ds @ [?d]) d)\<rparr>"
        "\<lambda>d. \<lparr>rep = hd (group_at all d), hsize = length (group_at all d), htree = map blank_node (group_at ds d)\<rparr>"]
    by (simp add: reps_of_def)
  then have "place_loop l (int (length ds)) (x # xs) t (reps_of all ds) (rep_nodes ds) =
      place_loop l (int (length (ds @ [?d]))) xs t (reps_of all (ds @ [?d])) (rep_nodes (ds @ [?d]))"
    using i(3) R room by (simp add: rep_nodes_snoc algebra_simps)
  then show ?case using Cons.IH [of "ds @ [?d]"] Cons.prems by simp
qed simp

section \<open>The tree\<close>

context tree_shape
begin

lemma shape_length: "length (fn T) = length T"
  using arg_cong [OF shape_ranks, of length T] by simp

lemma sub_of_group: "g \<noteq> [] \<Longrightarrow> sub_of (fn (map blank_node g)) g (skids (int (length g)))"
  using shape_inv [of "map blank_node g"] shape_ranks [of "map blank_node g"]
  by (simp add: sub_of_def blank_node_def comp_def)

lemma merge_groups:
  assumes T: "T \<noteq> []" and g: "groups_ok (tree_size T) gs"
  shows "\<exists>T' kids. merge_loop T (fn (map blank_node (map hd gs))) 0 (map (\<lambda>g. fn (map blank_node g)) gs) = Some T' \<and>
    map rank_in_comm T' = map rank_in_comm T \<and> tree_inv T' {0..<tree_size T'} kids"
proof -
  let ?H = "map hd gs" and ?subs = "map (\<lambda>g. fn (map blank_node g)) gs"
  let ?R = "fn (map blank_node ?H)" and ?kd = "\<lambda>g. skids (int (length g))"
  have "0 < length gs" using first_node [OF g] T by simp
  then have R: "sub_of ?R ?H (?kd ?H)" by (intro sub_of_group) auto
  have subs: "sub_of (?subs ! k) (gs ! k) (?kd (gs ! k)) \<and> gs ! k \<noteq> [] \<and> ?H ! nat (0 + int k) = hd (gs ! k)"
    if "k < length gs" for k
    using that group_ok(1) [OF g that] sub_of_group by simp
  have "set ?H \<subseteq> set (concat gs)"
  proof
    fix h assume "h \<in> set ?H"
    then obtain g' where "g' \<in> set gs" "h = hd g'" by auto
    moreover from this have "g' \<noteq> []" using g by (simp add: groups_ok_def)
    ultimately show "h \<in> set (concat gs)" using hd_in_set by auto
  qed
  then have H: "set ?H \<subseteq> {0..<tree_size T}" using g by (simp add: groups_ok_def)
  from merge_loop_correct [OF R H, of 0 gs ?subs ?kd] subs g obtain T' where
    T': "merge_loop T ?R 0 ?subs = Some T'" "length T' = length T" "\<forall>i. node_in T i \<longrightarrow> rnk T' i = rnk T i"
      "\<forall>k < length gs. \<forall>s. pos_in (gs ! k) s \<longrightarrow> merged (?subs ! k) (gs ! k) (?kd (gs ! k)) ?R ?H (int k) T' s"
    by (auto simp: groups_ok_def)
  have "map rank_in_comm T' = map rank_in_comm T"
    using T'(2,3) by (intro nth_equalityI) (auto dest: spec [of _ "int _"])
  moreover have "merged_tree T' gs ?subs ?R ?kd (?kd ?H)"
    using T T' g R subs by (auto simp: merged_tree_def valid_def)
  then obtain kids where "tree_inv T' {0..<tree_size T'} kids" by (metis merged_tree_inv)
  ultimately show ?thesis using T'(1) by blast
qed

lemma call_tree_fn_correct:
  assumes T: "T \<noteq> []" and l: "layout_ok l n" and r: "set (map rank_in_comm T) \<subseteq> {0..<n}"
  shows "\<exists>T' kids. era_call_tree_fn l topo fn T = Some T' \<and> map rank_in_comm T' = map rank_in_comm T \<and>
    tree_inv T' {0..<tree_size T'} kids"
proof (cases "topo > 0")
  case False
  then show ?thesis using shape_inv [OF T] shape_ranks shape_length by (auto simp: era_call_tree_fn_def)
next
  case True
  have nd: "(of_nat (num_daemons l) :: 64 word) < 2 ^ 30"
    using l by (simp add: layout_ok_def word_less_nat_alt unat_of_nat take_bit_eq_mod)
  obtain t where t: "opal_hash_table_init True (\<lambda>_. []) (opal_hash_table_construct 0) (of_nat (num_daemons l)) = Some (OPAL_SUCCESS, t)"
    "hash_inv slot_uint32 t" "contents t = Map.empty" by (rule init_table [OF nd])
  have tm: "table_mem l" using l by (simp add: layout_ok_def)
  have k: "keyed t (first_occ [])" using t by (simp add: keyed_def)
  have s: "set [] \<union> set (daemons l T) \<subseteq> proc_get_daemon l ` {0..<n}" using r by auto
  from daemon_loop_correct [OF l k s] consider
    (flat) "daemon_loop l 0 T t [] = Some None"
    | (hier) t' where "daemon_loop l 0 T t [] = Some (Some (t', reps_of (daemons l T) []))" "keyed t' (first_occ (daemons l T))"
    by (auto simp: reps_of_def)
  then show ?thesis
  proof cases
    case flat
    then show ?thesis
      using shape_inv [OF T] shape_ranks shape_length t(1) True tm by (auto simp: era_call_tree_fn_def)
  next
    case hier
    let ?gs = "groups_of (daemons l T)"
    have "place_loop l 0 T t' (reps_of (daemons l T) []) [] =
        Some (reps_of (daemons l T) (daemons l T), map blank_node (map hd ?gs))"
      using place_loop_correct [OF hier(2), of "[]"] by (simp add: rep_nodes_def)
    moreover have "map (\<lambda>R. fn (htree R)) (reps_of (daemons l T) (daemons l T)) = map (\<lambda>g. fn (map blank_node g)) ?gs"
      by (simp add: reps_of_def)
    ultimately have "era_call_tree_fn l topo fn T =
        merge_loop T (fn (map blank_node (map hd ?gs))) 0 (map (\<lambda>g. fn (map blank_node g)) ?gs)"
      using t(1) True tm hier(1) by (simp add: era_call_tree_fn_def)
    then show ?thesis using merge_groups [OF T, of ?gs] groups_of_ok [of "daemons l T"] by simp
  qed
qed

end

text \<open>Every topology chooses one of the shapes.\<close>

definition chosen_kids :: "int \<Rightarrow> int \<Rightarrow> int \<Rightarrow> int list" where
  "chosen_kids topo = (if \<bar>topo\<bar> = 2 then string_kids else if \<bar>topo\<bar> = 3 then star_kids else binary_kids)"

interpretation chosen: tree_shape "era_tree_fn_of topo" "chosen_kids topo" for topo
proof -
  consider "\<bar>topo\<bar> = 2" | "\<bar>topo\<bar> = 3" | "\<bar>topo\<bar> \<noteq> 2" "\<bar>topo\<bar> \<noteq> 3" by blast
  then show "tree_shape (era_tree_fn_of topo) (chosen_kids topo)"
    by cases (simp_all add: era_tree_fn_of_def chosen_kids_def Let_def zabs_def star.tree_shape_axioms
      string.tree_shape_axioms binary.tree_shape_axioms split: if_splits)
qed

lemma build_nodes_correct:
  assumes "sorted_wrt (<) dead" "set dead \<subset> {0..<n}"
  shows "\<exists>T. era_build_nodes n dead = Some T \<and> T \<noteq> [] \<and> sorted_wrt (<) (map rank_in_comm T) \<and>
    set (map rank_in_comm T) = {0..<n} - set dead"
proof -
  have "card (set dead) < card {0..<n}" using assms(2) by (intro psubset_card_mono) auto
  then have sz: "int (length dead) < n" using assms(1) by (simp add: distinct_card strict_sorted_iff)
  let ?T = "fill_nodes (nat (n - int (length dead))) (n - int (length dead)) 0 dead 0"
  have "sorted_wrt (<) (map rank_in_comm ?T) \<and> set (map rank_in_comm ?T) = {0 + 0..<n} - set dead"
    using assms sz by (intro fill_nodes_ranks) auto
  moreover have "?T \<noteq> []" using sz fill_nodes_length by (metis list.size(3) nat_0_iff not_less diff_gt_0_iff_gt)
  moreover have "era_build_nodes n dead = Some ?T" using sz by (simp add: era_build_nodes_def Let_def)
  ultimately show ?thesis by auto
qed

lemma build_tree:
  assumes "sorted_wrt (<) agreed_failed_ranks" "set agreed_failed_ranks \<subset> {0..<n}" "layout_ok l n"
  shows "\<exists>T kids. era_build_tree_structure l topo (era_tree_fn_of topo) n agreed_failed_ranks = Some T \<and>
    ranks_ok T n \<and> rank_in_comm ` set T = {0..<n} - set agreed_failed_ranks \<and>
    tree_inv T {0..<tree_size T} kids"
proof -
  from build_nodes_correct [OF assms(1,2)] obtain T0 where
    T0: "era_build_nodes n agreed_failed_ranks = Some T0" "T0 \<noteq> []" "sorted_wrt (<) (map rank_in_comm T0)"
      "set (map rank_in_comm T0) = {0..<n} - set agreed_failed_ranks" by blast
  from chosen.call_tree_fn_correct [OF T0(2) assms(3), of topo topo] T0(4) obtain T kids where
    T: "era_call_tree_fn l topo (era_tree_fn_of topo) T0 = Some T" "map rank_in_comm T = map rank_in_comm T0"
      "tree_inv T {0..<tree_size T} kids" by auto
  have r: "rank_in_comm ` set T = {0..<n} - set agreed_failed_ranks" using T0(4) T(2) by (metis set_map)
  then have "ranks_ok T n" using T0(3) T(2) by (auto simp: ranks_ok_def)
  with T0(1) T r show ?thesis by (auto simp: era_build_tree_structure_def)
qed

text \<open>C5: the construction of the tree. For every topology, with failed ranks in increasing order
  and at least one process left, the construction succeeds, along the hosts or not; the nodes are
  the processes that are not known by all to have failed, in the order of their ranks, and the links
  make one tree of them, in which the parent of a node is never behind it.\<close>

theorem era_build_correct:
  assumes "sorted_wrt (<) agreed_failed_ranks" "set agreed_failed_ranks \<subset> {0..<n}" "layout_ok l n"
  shows "\<exists>T kids. era_build_tree_structure l topo (era_tree_fn_of topo) n agreed_failed_ranks = Some T \<and>
    ranks_ok T n \<and> rank_in_comm ` set T = {0..<n} - set agreed_failed_ranks \<and>
    tree_inv T {0..<tree_size T} kids"
  using assms by (rule build_tree)

definition two_hosts :: era_layout where
  "two_hosts = \<lparr>num_daemons = 2, proc_get_daemon = (\<lambda>r. if r mod 2 = 0 then 7 else 9), same_job = (\<lambda>r. True),
     table_mem = True, node_mem = next_address\<rparr>"

lemma two_hosts_ok: "layout_ok two_hosts n"
proof -
  have "proc_get_daemon two_hosts ` {0..<n} \<subseteq> {7, 9}" by (auto simp: two_hosts_def)
  then have "card (proc_get_daemon two_hosts ` {0..<n}) \<le> card {7, 9 :: 32 word}" by (intro card_mono) auto
  then show ?thesis
    using next_address_fresh by (auto simp add: layout_ok_def two_hosts_def next_address_def)
qed

lemma era_build_correct_witness:
  "\<exists>T kids. era_build_tree_structure two_hosts 1 (era_tree_fn_of 1) 6 [1, 4] = Some T \<and>
     rank_in_comm ` set T = {0, 2, 3, 5} \<and> tree_inv T {0..<tree_size T} kids"
proof -
  have d: "{0..<6} - set [1, 4] = {0, 2, 3, 5 :: int}" by auto
  have "(0 :: int) \<in> {0..<6} - set [1, 4]" by simp
  moreover have "set [1, 4] \<subseteq> {0..<6 :: int}" by simp
  ultimately have "set [1, 4] \<subset> {0..<6 :: int}" by blast
  then show ?thesis using era_build_correct [of "[1, 4]" 6 two_hosts 1, OF _ _ two_hosts_ok] unfolding d by auto
qed

text \<open>A tree of four processes whose second one has failed.\<close>

definition four_tree :: "era_tree_t list" where
  "four_tree = era_tree_fn_binary (map blank_node [0, 1, 2, 3])"

lemma four_tree_nodes:
  "four_tree =
     [\<lparr>rank_in_comm = 0, parent = 0, next_sibling = 4, first_child = 1\<rparr>,
      \<lparr>rank_in_comm = 1, parent = 0, next_sibling = 2, first_child = 3\<rparr>,
      \<lparr>rank_in_comm = 2, parent = 0, next_sibling = 4, first_child = 4\<rparr>,
      \<lparr>rank_in_comm = 3, parent = 1, next_sibling = 4, first_child = 4\<rparr>]"
  by (simp add: four_tree_def era_tree_fn_binary_def blank_node_def upt_rec numeral_2_eq_2 numeral_3_eq_3)

lemma four_tree_inv: "tree_inv four_tree {0..<4} (binary_kids 4)"
  using binary.shape_inv [of "map blank_node [0, 1, 2, 3]"] by (simp add: four_tree_def)

lemma four_tree_ranks: "ranks_ok four_tree 4"
  by (simp add: four_tree_nodes ranks_ok_def)

lemma four_range: "j \<in> {0..<4 :: int} \<longleftrightarrow> j = 0 \<or> j = 1 \<or> j = 2 \<or> j = 3"
  by auto

lemma four_active: "\<forall>j \<in> {0..<4}. (\<lambda>r. Some (r \<noteq> 1)) (rnk four_tree j) = Some (j \<noteq> 1)"
  unfolding Ball_def four_range by (auto simp: four_tree_nodes)

lemma era_parent_correct_witness:
  "\<exists>T'. era_parent \<lparr>ec_size = 4, ec_my_rank = 3, ec_active = (\<lambda>r. Some (r \<noteq> 1))\<rparr> four_tree = Some (0, T') \<and>
     map rank_in_comm T' = [0, 1, 2, 3]"
proof -
  let ?comm = "\<lparr>ec_size = 4, ec_my_rank = 3, ec_active = (\<lambda>r. Some (r \<noteq> 1))\<rparr>"
  have act: "\<forall>j \<in> {0..<4}. ec_active ?comm (rnk four_tree j) = Some (j \<noteq> 1)"
    using four_active by simp
  have "live_parent (\<lambda>j. j \<noteq> 1) four_tree {0..<4} 3 = 0"
    by (simp add: live_parent_def four_tree_nodes ancs.simps [of _ 3] ancs.simps [of _ 1])
  moreover have "rnk four_tree 3 = 3" "rnk four_tree 0 = 0" "map rank_in_comm four_tree = [0, 1, 2, 3]"
    by (simp_all add: four_tree_nodes)
  ultimately show ?thesis
    using era_parent_correct [OF four_tree_inv, of ?comm 3 "\<lambda>j. j \<noteq> 1", OF _ _ _ act] four_tree_ranks by auto
qed

lemma parents_and_children_agree_witness:
  "\<exists>r Tp r' Tq rs Tq'.
     era_parent \<lparr>ec_size = 4, ec_my_rank = 3, ec_active = (\<lambda>r. Some (r \<noteq> 1))\<rparr> four_tree = Some (r, Tp) \<and>
     era_parent \<lparr>ec_size = 4, ec_my_rank = 0, ec_active = (\<lambda>r. Some (r \<noteq> 1))\<rparr> four_tree = Some (r', Tq) \<and>
     era_children \<lparr>ec_size = 4, ec_my_rank = 0, ec_active = (\<lambda>r. Some (r \<noteq> 1))\<rparr> Tq (- 1) = Some (rs, Tq') \<and>
     distinct rs \<and> (r = 0 \<longleftrightarrow> 3 \<in> set rs)"
  using parents_and_children_agree [OF four_tree_inv four_tree_ranks, of 3 0 "\<lambda>j. j \<noteq> 1", OF _ _ _ _ _ refl refl four_active]
  by (simp add: four_tree_nodes)

end
