(* ===== verification/Era_Value_Correct.thy ===== *)
theory Era_Value_Correct
  imports Era_Value Era_Construct
begin

text \<open>
  The values of the early returning agreement. Lists of dead ranks stay sorted and merging them is the
  union of sets, so that all processes that decide the same values have the same list of agreed
  failures and build the same tree. A past agreement is forgotten only when every contributor has
  recorded it. The comparison of the acknowledged failures depends on the order of the contributions.
\<close>

section \<open>Lists of dead ranks\<close>

lemma merge_dead_set [simp]: "set (merge_dead ds ss) = set ds \<union> set ss"
  by (induction ds ss rule: merge_dead.induct) auto

lemma merge_dead_sorted:
  "sorted_wrt (<) ds \<Longrightarrow> sorted_wrt (<) ss \<Longrightarrow> sorted_wrt (<) (merge_dead ds ss)"
  by (induction ds ss rule: merge_dead.induct) (auto simp: less_trans)

definition value_ok :: "int \<Rightarrow> era_value_t \<Rightarrow> bool" where
  "value_ok n v \<longleftrightarrow> vh_nb_new_dead (header v) = int (length (new_dead_array v)) \<and>
     sorted_wrt (<) (new_dead_array v) \<and> set (new_dead_array v) \<subseteq> {0..<n}"

text \<open>A value with another list of dead ranks.\<close>

definition with_dead :: "era_value_t \<Rightarrow> int set \<Rightarrow> era_value_t" where
  "with_dead v D = v\<lparr>new_dead_array := sorted_list_of_set D, header := (header v)\<lparr>vh_nb_new_dead := int (card D)\<rparr>\<rparr>"

lemma sorted_set: "sorted_wrt (<) (xs :: int list) \<Longrightarrow> sorted_list_of_set (set xs) = xs"
  by (simp add: sorted_list_of_set.idem_if_sorted_distinct strict_sorted_iff)

lemma with_dead_self: "value_ok n v \<Longrightarrow> with_dead v (set (new_dead_array v)) = v"
  using distinct_card [of "new_dead_array v"] by (simp add: value_ok_def with_dead_def sorted_set strict_sorted_iff)

lemma with_dead_ok: "D \<subseteq> {0..<n} \<Longrightarrow> value_ok n (with_dead v D)"
  using finite_subset [of D "{0..<n}"] by (simp add: value_ok_def with_dead_def)

lemma merge_new_dead:
  assumes v: "value_ok n v" and s: "sorted_wrt (<) src"
  shows "era_merge_new_dead_list v (int (length src)) src = Some (with_dead v (set (new_dead_array v) \<union> set src))"
proof -
  let ?m = "merge_dead (new_dead_array v) src" and ?D = "set (new_dead_array v) \<union> set src"
  have nb: "vh_nb_new_dead (header v) = int (length (new_dead_array v))" and d: "sorted_wrt (<) (new_dead_array v)"
    using v by (simp_all add: value_ok_def)
  have m: "sorted_wrt (<) ?m" using merge_dead_sorted [OF d s] .
  have sm: "sorted_list_of_set ?D = ?m" using sorted_set [OF m] by simp
  have cm: "card ?D = length ?m" using distinct_card [of ?m] m by (simp add: strict_sorted_iff)
  have cd: "card (set (new_dead_array v)) = length (new_dead_array v)" using d by (simp add: distinct_card strict_sorted_iff)
  have "with_dead v ?D = v" if "\<not> length ?m > length (new_dead_array v)"
  proof -
    have "set (new_dead_array v) = ?D" using that cm cd by (intro card_seteq) auto
    then show ?thesis using with_dead_self [OF v] by simp
  qed
  moreover have "with_dead v ?D = v\<lparr>new_dead_array := ?m, header := (header v)\<lparr>vh_nb_new_dead := int (length ?m)\<rparr>\<rparr>"
    by (simp add: with_dead_def sm cm)
  moreover have "new_dead_array v = [] \<and> src = [] \<Longrightarrow> with_dead v ?D = v" using with_dead_self [OF v] by simp
  moreover have "int (length (new_dead_array v)) + int (length src) = 0 \<longleftrightarrow> new_dead_array v = [] \<and> src = []"
    by (simp flip: of_nat_add)
  ultimately show ?thesis
    unfolding era_merge_new_dead_list_def Let_def nb by (cases "new_dead_array v = [] \<and> src = []") (simp_all split: if_splits)
qed

lemma advance_correct:
  "s \<le> length afr \<Longrightarrow> s \<le> advance afr s d \<and> advance afr s d \<le> length afr \<and>
   (\<forall>i. s \<le> i \<and> i < advance afr s d \<longrightarrow> afr ! i < d) \<and> (advance afr s d < length afr \<longrightarrow> d \<le> afr ! advance afr s d)"
proof (induction afr s d rule: advance.induct)
  case (1 afr s d)
  show ?case
  proof (cases "s < length afr \<and> afr ! s < d")
    case True
    then have e: "advance afr s d = advance afr (Suc s) d" by (subst advance.simps) simp
    have "afr ! i < d" if "s \<le> i" "i < advance afr (Suc s) d" for i
      using 1(1) True that by (cases "i = s") auto
    with 1(1) True show ?thesis unfolding e by auto
  next
    case False
    then have "advance afr s d = s" by (subst advance.simps) auto
    with False 1(2) show ?thesis by auto
  qed
qed

lemma insert_dead_correct:
  assumes "sorted_wrt (<) nd" "sorted_wrt (<) afr" "s \<le> length afr" "\<forall>i < s. \<forall>d \<in> set nd. afr ! i < d"
  shows "sorted_wrt (<) (fst (insert_dead nd afr s)) \<and> set (fst (insert_dead nd afr s)) = set afr \<union> set nd \<and>
    (snd (insert_dead nd afr s) \<longleftrightarrow> \<not> set nd \<subseteq> set afr)"
  using assms
proof (induction nd arbitrary: afr s)
  case (Cons d ds)
  define t where "t = advance afr s d"
  have t: "s \<le> t" "t \<le> length afr" "\<forall>i. s \<le> i \<and> i < t \<longrightarrow> afr ! i < d" "t < length afr \<longrightarrow> d \<le> afr ! t"
    using advance_correct [OF Cons.prems(3), of d] by (auto simp: t_def)
  have before: "\<forall>i < t. afr ! i < d" using t(3) Cons.prems(4) by (metis linorder_not_less list.set_intros(1))
  have ds: "sorted_wrt (<) ds" "\<forall>x \<in> set ds. d < x" using Cons.prems(1) by simp_all
  have tk: "\<forall>x \<in> set (take t afr). x < d" using before t(2) by (auto simp: in_set_conv_nth)
  have dr: "\<forall>x \<in> set (drop t afr). d \<le> x"
  proof (cases "t < length afr")
    case True
    then have "drop t afr = afr ! t # drop (Suc t) afr" by (simp add: Cons_nth_drop_Suc)
    moreover have "sorted_wrt (<) (drop t afr)" using Cons.prems(2) by (rule sorted_wrt_drop)
    ultimately show ?thesis using t(4) True by fastforce
  qed simp
  have split: "afr = take t afr @ drop t afr" by simp
  have unfold: "insert_dead (d # ds) afr s = (if t = length afr then (afr @ d # ds, True)
      else if afr ! t > d then (fst (insert_dead ds (take t afr @ d # drop t afr) t), True)
      else insert_dead ds afr t)" by (simp add: t_def Let_def)
  consider (last) "t = length afr" | (room) "t < length afr" "d < afr ! t" | (there) "t < length afr" "afr ! t = d"
    using t(2,4) by force
  then show ?case
  proof cases
    case last
    then have "\<forall>x \<in> set afr. x < d" using tk by simp
    then show ?thesis unfolding unfold using last Cons.prems(1,2) by (auto simp: sorted_wrt_append intro: less_trans)
  next
    case room
    let ?afr = "take t afr @ d # drop t afr"
    have nd: "d \<notin> set (drop t afr)" using room Cons.prems(2) sorted_wrt_drop [of "(<)" afr t]
      by (auto simp: Cons_nth_drop_Suc [symmetric])
    have "\<forall>x \<in> set (drop t afr). d < x" using dr nd by (metis order_le_less)
    then have s: "sorted_wrt (<) ?afr"
      using tk sorted_wrt_take [OF Cons.prems(2), of t] sorted_wrt_drop [OF Cons.prems(2), of t]
      by (auto simp: sorted_wrt_append intro: less_trans)
    have sa: "set ?afr = insert d (set afr)" by (subst (3) split) (simp only: set_append list.set, blast)
    have "\<forall>i < t. \<forall>x \<in> set ds. ?afr ! i < x" using before ds(2) t(2) by (auto simp: nth_append intro: less_trans)
    with Cons.IH [OF ds(1) s, of t] t(2) have "sorted_wrt (<) (fst (insert_dead ds ?afr t))"
      "set (fst (insert_dead ds ?afr t)) = set ?afr \<union> set ds" by auto
    moreover have "d \<notin> set afr" using nd tk by (subst split) (auto simp del: append_take_drop_id)
    ultimately show ?thesis unfolding unfold using room sa by auto
  next
    case there
    have "\<forall>i < t. \<forall>x \<in> set ds. afr ! i < x" using before ds(2) by (auto intro: less_trans)
    moreover have "d \<in> set afr" using there nth_mem by blast
    ultimately show ?thesis unfolding unfold using Cons.IH [OF ds(1) Cons.prems(2) t(2)] there by auto
  qed
qed simp

text \<open>The ranks that \<^verbatim>\<open>era_decide\<close> adds.\<close>

lemma insert_dead_start:
  assumes "value_ok n v" "sorted_wrt (<) afr"
  shows "sorted_wrt (<) (fst (insert_dead (new_dead_array v) afr 0))"
    "set (fst (insert_dead (new_dead_array v) afr 0)) = set afr \<union> set (new_dead_array v)"
    "snd (insert_dead (new_dead_array v) afr 0) \<longleftrightarrow> \<not> set (new_dead_array v) \<subseteq> set afr"
  using insert_dead_correct [of "new_dead_array v" afr 0] assms by (simp_all add: value_ok_def)

lemma dead_loop_correct:
  assumes "sorted_wrt (<) afr" "\<forall>a \<in> set afr. s \<le> a" "\<forall>r \<in> {s..<s + int k}. ec_active comm r = Some (act r)"
  shows "\<exists>ra. dead_loop comm k s afr = Some ra \<and> sorted_wrt (<) ra \<and>
    set ra = {r \<in> {s..<s + int k}. r \<notin> set afr \<and> \<not> act r}"
  using assms
proof (induction k arbitrary: s afr)
  case (Suc k)
  have r: "{s..<s + int (Suc k)} = insert s {s + 1..<s + 1 + int k}" by auto
  have act: "\<forall>r \<in> {s + 1..<s + 1 + int k}. ec_active comm r = Some (act r)" "ec_active comm s = Some (act s)"
    using Suc.prems(3) unfolding r by simp_all
  show ?case
  proof (cases "afr \<noteq> [] \<and> hd afr = s")
    case True
    then obtain as where a: "afr = s # as" by (cases afr) auto
    have "\<forall>x \<in> set as. s + 1 \<le> x" using Suc.prems(1) a by auto
    then obtain ra where ra: "dead_loop comm k (s + 1) as = Some ra" "sorted_wrt (<) ra"
      "set ra = {r \<in> {s + 1..<s + 1 + int k}. r \<notin> set as \<and> \<not> act r}"
      using Suc.IH [of as "s + 1", OF _ _ act(1)] Suc.prems(1) a by auto
    have "dead_loop comm (Suc k) s afr = Some ra" using ra(1) a by simp
    moreover have "set ra = {r' \<in> {s..<s + int (Suc k)}. r' \<notin> set afr \<and> \<not> act r'}"
      unfolding r ra(3) using a by auto
    ultimately show ?thesis using ra(2) by blast
  next
    case False
    have "s \<notin> set afr"
    proof
      assume s: "s \<in> set afr"
      then have "hd afr \<noteq> s" "hd afr \<le> s" using False Suc.prems(1) by (cases afr; auto)+
      moreover have "s \<le> hd afr" using s Suc.prems(2) by (cases afr) auto
      ultimately show False by simp
    qed
    then have "\<forall>x \<in> set afr. s + 1 \<le> x" using Suc.prems(2) by (metis add1_zle_eq order_le_less)
    then obtain ra where ra: "dead_loop comm k (s + 1) afr = Some ra" "sorted_wrt (<) ra"
      "set ra = {r \<in> {s + 1..<s + 1 + int k}. r \<notin> set afr \<and> \<not> act r}"
      using Suc.IH [of afr "s + 1", OF _ _ act(1)] Suc.prems(1) by auto
    let ?ra = "if \<not> act s then s # ra else ra"
    have "dead_loop comm (Suc k) s afr = Some ?ra" using ra(1) False act(2) by auto
    moreover have "set ?ra = {r' \<in> {s..<s + int (Suc k)}. r' \<notin> set afr \<and> \<not> act r'}"
      unfolding r using ra(3) \<open>s \<notin> set afr\<close> by auto
    moreover have "sorted_wrt (<) ?ra" using ra(2,3) by auto
    ultimately show ?thesis by blast
  qed
qed simp

section \<open>Combination\<close>

fun combine_all :: "era_ops \<Rightarrow> 32 word \<Rightarrow> era_value_t \<Rightarrow> era_value_t list \<Rightarrow> (32 word \<times> era_value_t) option" where
  "combine_all ops st cur [] = Some (st, cur)"
| "combine_all ops st cur (v # vs) =
     do { (st, cur) \<leftarrow> era_combine_agreement_values ops st cur v; combine_all ops st cur vs }"

lemma new_dead_with_dead [simp]:
  "new_dead_array (with_dead v D) = sorted_list_of_set D" "bytes (with_dead v D) = bytes v"
  "vh_ret (header (with_dead v D)) = vh_ret (header v)" "vh_min_aid (header (with_dead v D)) = vh_min_aid (header v)"
  "vh_max_aid (header (with_dead v D)) = vh_max_aid (header v)" "vh_dt_count (header (with_dead v D)) = vh_dt_count (header v)"
  "vh_operand (header (with_dead v D)) = vh_operand (header v)" "vh_datatype (header (with_dead v D)) = vh_datatype (header v)"
  by (simp_all add: with_dead_def)

lemma and_not_disjoint:
  fixes a b :: "'a :: len word"
  assumes "a AND b = 0"
  shows "a AND NOT b = a"
proof (rule bit_word_eqI)
  fix i assume "i < LENGTH('a)"
  moreover have "\<not> (bit a i \<and> bit b i)" using arg_cong [OF assms, of "\<lambda>w. bit w i"] by (simp add: bit_and_iff)
  ultimately show "bit (a AND NOT b) i \<longleftrightarrow> bit a i" by (auto simp: bit_and_iff bit_not_iff)
qed

lemma combine_next:
  assumes "value_ok n cur" "value_ok n v" "st AND OP_NOT_DEFINED = 0"
  shows "era_combine_agreement_values ops st cur v =
    Some (st, with_dead (reduce_value ops cur v) (set (new_dead_array cur) \<union> set (new_dead_array v)))"
proof -
  have r: "value_ok n (reduce_value ops cur v)" "new_dead_array (reduce_value ops cur v) = new_dead_array cur"
    using assms(1) by (simp_all add: reduce_value_def value_ok_def Let_def)
  note st = and_not_disjoint [OF assms(3)]
  have nb: "vh_nb_new_dead (header v) = int (length (new_dead_array v))" "sorted_wrt (<) (new_dead_array v)"
    using assms(2) by (simp_all add: value_ok_def)
  show ?thesis
    using merge_new_dead [OF r(1) nb(2)] assms(3) r(2) st by (simp add: era_combine_agreement_values_def nb(1))
qed

lemma ret_max: "(if a > b then a else b) = max a (b :: 'a :: linorder)" and ret_min: "(if a < b then a else b) = min a b"
  by (auto simp: max_def min_def)

text \<open>The reduction of the bytes of the values, in the order of their arrival.\<close>

definition reduced :: "era_ops \<Rightarrow> era_value_header_t \<Rightarrow> u8 list \<Rightarrow> era_value_t list \<Rightarrow> u8 list" where
  "reduced ops h b vs =
     (if vh_dt_count h > 0
      then foldl (\<lambda>b v. op_reduce ops (vh_operand h) (vh_datatype h) (vh_dt_count h) (bytes v) b) b vs else b)"

lemma combine_all_next:
  assumes "value_ok n cur" "\<forall>v \<in> set vs. value_ok n v" "st AND OP_NOT_DEFINED = 0"
  shows "\<exists>cur'. combine_all ops st cur vs = Some (st, cur') \<and> value_ok n cur' \<and>
    new_dead_array cur' = sorted_list_of_set (set (new_dead_array cur) \<union> (\<Union>v \<in> set vs. set (new_dead_array v))) \<and>
    bytes cur' = reduced ops (header cur) (bytes cur) vs \<and>
    vh_ret (header cur') = fold max (map (\<lambda>v. vh_ret (header v)) vs) (vh_ret (header cur)) \<and>
    vh_min_aid (header cur') = fold max (map (\<lambda>v. vh_min_aid (header v)) vs) (vh_min_aid (header cur)) \<and>
    vh_max_aid (header cur') = fold min (map (\<lambda>v. vh_max_aid (header v)) vs) (vh_max_aid (header cur))"
  using assms(1,2)
proof (induction vs arbitrary: cur)
  case Nil
  then show ?case by (simp add: reduced_def sorted_set value_ok_def)
next
  case (Cons v vs)
  let ?D = "set (new_dead_array cur) \<union> set (new_dead_array v)"
  let ?cur = "with_dead (reduce_value ops cur v) ?D"
  have v: "value_ok n v" "?D \<subseteq> {0..<n}" using Cons.prems by (auto simp: value_ok_def)
  have step: "combine_all ops st cur (v # vs) = combine_all ops st ?cur vs"
    using combine_next [OF Cons.prems(1) v(1) assms(3)] by simp
  from Cons.IH [OF with_dead_ok [OF v(2)]] Cons.prems(2) obtain cur' where
    c: "combine_all ops st ?cur vs = Some (st, cur')" "value_ok n cur'"
      "new_dead_array cur' = sorted_list_of_set (set (new_dead_array ?cur) \<union> (\<Union>v \<in> set vs. set (new_dead_array v)))"
      "bytes cur' = reduced ops (header ?cur) (bytes ?cur) vs"
      "vh_ret (header cur') = fold max (map (\<lambda>v. vh_ret (header v)) vs) (vh_ret (header ?cur))"
      "vh_min_aid (header cur') = fold max (map (\<lambda>v. vh_min_aid (header v)) vs) (vh_min_aid (header ?cur))"
      "vh_max_aid (header cur') = fold min (map (\<lambda>v. vh_max_aid (header v)) vs) (vh_max_aid (header ?cur))" by auto
  have "set (new_dead_array ?cur) \<union> (\<Union>v \<in> set vs. set (new_dead_array v)) =
      set (new_dead_array cur) \<union> (\<Union>v \<in> set (v # vs). set (new_dead_array v))" by auto
  moreover have "reduced ops (header ?cur) (bytes ?cur) vs = reduced ops (header cur) (bytes cur) (v # vs)"
    by (simp add: reduced_def reduce_value_def Let_def)
  moreover have "vh_ret (header ?cur) = max (vh_ret (header v)) (vh_ret (header cur))"
    "vh_min_aid (header ?cur) = max (vh_min_aid (header v)) (vh_min_aid (header cur))"
    "vh_max_aid (header ?cur) = min (vh_max_aid (header v)) (vh_max_aid (header cur))"
    by (simp_all add: reduce_value_def Let_def ret_max ret_min)
  ultimately show ?case using step c by simp
qed

lemma combine_first:
  assumes "value_ok n cur" "value_ok n v" "st AND OP_NOT_DEFINED \<noteq> 0"
    and "int (length (bytes v)) = ERA_VALUE_BYTES_COUNT ops (header v)" "length (bytes cur) = length (bytes v)"
  shows "\<exists>cur1. era_combine_agreement_values ops st cur v = Some (st AND NOT OP_NOT_DEFINED, cur1) \<and> value_ok n cur1 \<and>
    set (new_dead_array cur1) = set (new_dead_array cur) \<union> set (new_dead_array v) \<and> bytes cur1 = bytes v \<and>
    vh_ret (header cur1) = vh_ret (header v) \<and> vh_min_aid (header cur1) = vh_min_aid (header v) \<and>
    vh_max_aid (header cur1) = vh_max_aid (header v) \<and> vh_operand (header cur1) = vh_operand (header v) \<and>
    vh_dt_count (header cur1) = vh_dt_count (header v) \<and> vh_datatype (header cur1) = vh_datatype (header v)"
proof -
  let ?n = "ERA_VALUE_BYTES_COUNT ops (header v)"
  let ?D = "set (new_dead_array cur) \<union> set (new_dead_array v)"
  define c where "c = cur\<lparr>bytes := bytes v, header := (header cur)\<lparr>vh_operand := vh_operand (header v),
    vh_dt_count := vh_dt_count (header v), vh_datatype := vh_datatype (header v), vh_ret := vh_ret (header v),
    vh_min_aid := vh_min_aid (header v), vh_max_aid := vh_max_aid (header v)\<rparr>\<rparr>"
  have "(if ?n > 0 then copy_bytes ?n (bytes v) (bytes cur) else Some (bytes cur)) = Some (bytes v)"
    using assms(5) by (auto simp: copy_bytes_def assms(4) [symmetric])
  then have f: "first_value ops cur v = Some c" by (simp add: first_value_def Let_def c_def)
  have c: "value_ok n c" "new_dead_array c = new_dead_array cur" using assms(1) by (simp_all add: value_ok_def c_def)
  have nb: "vh_nb_new_dead (header v) = int (length (new_dead_array v))" "sorted_wrt (<) (new_dead_array v)"
    and D: "?D \<subseteq> {0..<n}" using assms(1,2) by (auto simp: value_ok_def)
  have "era_combine_agreement_values ops st cur v = Some (st AND NOT OP_NOT_DEFINED, with_dead c ?D)"
    using assms(3) f merge_new_dead [OF c(1) nb(2)] c(2) by (simp add: era_combine_agreement_values_def nb(1))
  moreover have "value_ok n (with_dead c ?D)" using D by (rule with_dead_ok)
  ultimately show ?thesis by (simp add: c_def)
qed

lemma Max_fold: "Max (f ` set (v # vs)) = fold max (map f vs) (f v)"
  using Max.set_eq_fold [of "f v" "map f vs"] by simp

lemma Min_fold: "Min (f ` set (v # vs)) = fold min (map f vs) (f v)"
  using Min.set_eq_fold [of "f v" "map f vs"] by simp

lemma combine_sequence:
  assumes "st AND OP_NOT_DEFINED \<noteq> 0" "value_ok n cur" "\<forall>v \<in> set (v # vs). value_ok n v"
    and "int (length (bytes v)) = ERA_VALUE_BYTES_COUNT ops (header v)" "length (bytes cur) = length (bytes v)"
  shows "\<exists>cur'. combine_all ops st cur (v # vs) = Some (st AND NOT OP_NOT_DEFINED, cur') \<and> value_ok n cur' \<and>
    new_dead_array cur' =
      sorted_list_of_set (set (new_dead_array cur) \<union> (\<Union>v \<in> set (v # vs). set (new_dead_array v))) \<and>
    bytes cur' = reduced ops (header v) (bytes v) vs \<and>
    vh_ret (header cur') = Max ((\<lambda>v. vh_ret (header v)) ` set (v # vs)) \<and>
    vh_min_aid (header cur') = Max ((\<lambda>v. vh_min_aid (header v)) ` set (v # vs)) \<and>
    vh_max_aid (header cur') = Min ((\<lambda>v. vh_max_aid (header v)) ` set (v # vs))"
proof -
  from combine_first [OF assms(2) _ assms(1,4,5)] assms(3) obtain c where
    c: "era_combine_agreement_values ops st cur v = Some (st AND NOT OP_NOT_DEFINED, c)" "value_ok n c"
      "set (new_dead_array c) = set (new_dead_array cur) \<union> set (new_dead_array v)" "bytes c = bytes v"
      "vh_ret (header c) = vh_ret (header v)" "vh_min_aid (header c) = vh_min_aid (header v)"
      "vh_max_aid (header c) = vh_max_aid (header v)" "vh_operand (header c) = vh_operand (header v)"
      "vh_dt_count (header c) = vh_dt_count (header v)" "vh_datatype (header c) = vh_datatype (header v)" by auto
  have "(st AND NOT OP_NOT_DEFINED) AND OP_NOT_DEFINED = 0" by (simp add: and.assoc)
  from combine_all_next [OF c(2) _ this, of vs ops] assms(3) obtain c' where
    c': "combine_all ops (st AND NOT OP_NOT_DEFINED) c vs = Some (st AND NOT OP_NOT_DEFINED, c')" "value_ok n c'"
      "new_dead_array c' = sorted_list_of_set (set (new_dead_array c) \<union> (\<Union>v \<in> set vs. set (new_dead_array v)))"
      "bytes c' = reduced ops (header c) (bytes c) vs"
      "vh_ret (header c') = fold max (map (\<lambda>v. vh_ret (header v)) vs) (vh_ret (header c))"
      "vh_min_aid (header c') = fold max (map (\<lambda>v. vh_min_aid (header v)) vs) (vh_min_aid (header c))"
      "vh_max_aid (header c') = fold min (map (\<lambda>v. vh_max_aid (header v)) vs) (vh_max_aid (header c))" by auto
  have "set (new_dead_array c) \<union> (\<Union>v \<in> set vs. set (new_dead_array v)) =
      set (new_dead_array cur) \<union> (\<Union>v \<in> set (v # vs). set (new_dead_array v))" using c(3) by auto
  moreover have "reduced ops (header c) (bytes c) vs = reduced ops (header v) (bytes v) vs"
    using c by (simp add: reduced_def)
  ultimately show ?thesis using c c' by (simp add: Max_fold Min_fold del: list.set)
qed

text \<open>C7: the combination of contributions. When the contributions of a subtree have the same kind of
  bytes, the combined value has the reduction of their bytes in the order of arrival, the greatest
  return code, the sorted union of the ranks found dead, and the intersection of the ranges of
  past agreements.\<close>

theorem combine_contributions:
  assumes "st AND OP_NOT_DEFINED \<noteq> 0" "value_ok n cur" "\<forall>v \<in> set (v # vs). value_ok n v"
    and "int (length (bytes v)) = ERA_VALUE_BYTES_COUNT ops (header v)" "length (bytes cur) = length (bytes v)"
  shows "\<exists>cur'. combine_all ops st cur (v # vs) = Some (st AND NOT OP_NOT_DEFINED, cur') \<and> value_ok n cur' \<and>
    new_dead_array cur' =
      sorted_list_of_set (set (new_dead_array cur) \<union> (\<Union>v \<in> set (v # vs). set (new_dead_array v))) \<and>
    bytes cur' = reduced ops (header v) (bytes v) vs \<and>
    vh_ret (header cur') = Max ((\<lambda>v. vh_ret (header v)) ` set (v # vs)) \<and>
    vh_min_aid (header cur') = Max ((\<lambda>v. vh_min_aid (header v)) ` set (v # vs)) \<and>
    vh_max_aid (header cur') = Min ((\<lambda>v. vh_max_aid (header v)) ` set (v # vs))"
  using assms by (rule combine_sequence)

section \<open>Past agreements\<close>

lemma eraid_roundtrip: "eraid_of_key (ERAID_KEY i) = i"
proof -
  have "ucast (ERAID_KEY i) = id_agreementid i"
    by (rule bit_word_eqI) (auto simp: ERAID_KEY_def bit_simps)
  moreover have "ucast (drop_bit 16 (ERAID_KEY i)) = id_contextid i"
    by (rule bit_word_eqI) (auto simp: ERAID_KEY_def bit_simps dest: bit_imp_le_length)
  moreover have "ucast (drop_bit 32 (ERAID_KEY i)) = id_epoch i"
    by (rule bit_word_eqI) (auto simp: ERAID_KEY_def bit_simps dest: bit_imp_le_length)
  ultimately show ?thesis by (simp add: eraid_of_key_def)
qed

lemma key_roundtrip: "ERAID_KEY (eraid_of_key k) = k"
proof (rule bit_word_eqI)
  fix n assume n: "n < LENGTH(64)"
  consider "n < 16" | m where "n = 16 + m" "m < 16" | m where "n = 32 + m" "m < 32"
    using n that(2) [of "n - 16"] that(3) [of "n - 32"] by fastforce
  then show "bit (ERAID_KEY (eraid_of_key k)) n \<longleftrightarrow> bit k n"
    by cases (simp_all add: ERAID_KEY_def eraid_of_key_def bit_simps)
qed

lemma run_end_between:
  "sorted (a # as) \<Longrightarrow> a \<le> x \<Longrightarrow> x \<le> run_end a as \<Longrightarrow> x \<in> set (a # as)"
proof (induction a as rule: run_end.induct)
  case (2 a b bs)
  show ?case
  proof (cases "uint b = uint a + 1")
    case True
    have "x = a \<or> b \<le> x" using 2(3) True by (auto simp: word_le_def word_uint_eq_iff)
    with 2 True show ?thesis by auto
  qed (use 2 in auto)
qed simp

lemma set_aids_of: "x \<in> set (aids_of eid ks) \<longleftrightarrow> ERAID_KEY (eid\<lparr>id_agreementid := x\<rparr>) \<in> set ks"
proof
  assume "x \<in> set (aids_of eid ks)"
  then obtain k where k: "k \<in> set ks" "id_contextid (eraid_of_key k) = id_contextid eid"
    "id_epoch (eraid_of_key k) = id_epoch eid" "x = id_agreementid (eraid_of_key k)" by (auto simp: aids_of_def)
  then have "eid\<lparr>id_agreementid := x\<rparr> = eraid_of_key k" by simp
  then show "ERAID_KEY (eid\<lparr>id_agreementid := x\<rparr>) \<in> set ks" using k(1) key_roundtrip by simp
next
  assume k: "ERAID_KEY (eid\<lparr>id_agreementid := x\<rparr>) \<in> set ks"
  show "x \<in> set (aids_of eid ks)"
    unfolding aids_of_def set_map image_iff set_filter
    by (rule bexI [of _ "eid\<lparr>id_agreementid := x\<rparr>"]) (use k in \<open>auto simp: image_iff eraid_roundtrip intro: bexI [OF _ k]\<close>)
qed

lemma gcrange_known:
  assumes "vh_min_aid (header v) = - 1" "vh_max_aid (header v) = 0"
    and "vh_min_aid (header (era_agreement_value_set_gcrange eid t v)) \<le> x"
    and "x \<le> vh_max_aid (header (era_agreement_value_set_gcrange eid t v))"
  shows "ERAID_KEY (eid\<lparr>id_agreementid := x\<rparr>) \<in> fst ` set t"
proof (cases "sort (aids_of eid (map fst t))")
  case Nil
  have "(- 1 :: 16 word) \<le> 0" using assms Nil by (auto simp: era_agreement_value_set_gcrange_def dest: order_trans)
  then show ?thesis by simp
next
  case (Cons a as)
  have "sorted (a # as)" using sorted_sort [of "aids_of eid (map fst t)"] Cons by simp
  then have "x \<in> set (a # as)"
    using assms Cons by (intro run_end_between) (simp_all add: era_agreement_value_set_gcrange_def)
  then show ?thesis using arg_cong [OF Cons, of set] set_aids_of [of x eid "map fst t"] by simp
qed

lemma gcrange_other [simp]:
  "vh_nb_new_dead (header (era_agreement_value_set_gcrange eid t v)) = vh_nb_new_dead (header v)"
  "new_dead_array (era_agreement_value_set_gcrange eid t v) = new_dead_array v"
  "bytes (era_agreement_value_set_gcrange eid t v) = bytes v"
  by (simp_all add: era_agreement_value_set_gcrange_def split: list.split)

lemma gcrange_ok [simp]: "value_ok n (era_agreement_value_set_gcrange eid t v) \<longleftrightarrow> value_ok n v"
  by (simp add: value_ok_def)

lemma collect_fold:
  "e \<in> set (fold (collect_one eid) rs t) \<longleftrightarrow>
   e \<in> set t \<and> (\<forall>r \<in> set rs. fst e \<noteq> ERAID_KEY (eid\<lparr>id_agreementid := of_nat r\<rparr>))"
proof (induction rs arbitrary: t)
  case (Cons r rs)
  have "e \<in> set (collect_one eid r t) \<longleftrightarrow> e \<in> set t \<and> fst e \<noteq> ERAID_KEY (eid\<lparr>id_agreementid := of_nat r\<rparr>)"
    by (force simp: collect_one_def Let_def map_of_eq_None_iff)
  with Cons show ?case by auto
qed simp

lemma collect_entries:
  "e \<in> set (era_collect_passed_agreements eid lo hi t) \<longleftrightarrow>
   e \<in> set t \<and> \<not> (\<exists>x. lo \<le> x \<and> x \<le> hi \<and> fst e = ERAID_KEY (eid\<lparr>id_agreementid := x\<rparr>))"
proof -
  have "(\<exists>x. lo \<le> x \<and> x \<le> hi \<and> P x) \<longleftrightarrow> (\<exists>r \<in> {unat lo..<Suc (unat hi)}. P (of_nat r))" for P :: "16 word \<Rightarrow> bool"
  proof
    assume "\<exists>x. lo \<le> x \<and> x \<le> hi \<and> P x"
    then obtain x where "lo \<le> x" "x \<le> hi" "P x" by blast
    then show "\<exists>r \<in> {unat lo..<Suc (unat hi)}. P (of_nat r)"
      by (intro bexI [of _ "unat x"]) (simp_all add: word_le_nat_alt)
  next
    assume "\<exists>r \<in> {unat lo..<Suc (unat hi)}. P (of_nat r)"
    then obtain r where r: "unat lo \<le> r" "r \<le> unat hi" "P (of_nat r)" by auto
    have "unat hi < 2 ^ LENGTH(16)" by (rule unsigned_less)
    then have "r < 2 ^ 16" using r(2) by simp
    then have "unat (of_nat r :: 16 word) = r" by (simp add: unat_of_nat take_bit_nat_eq_self)
    with r show "\<exists>x. lo \<le> x \<and> x \<le> hi \<and> P x" by (intro exI [of _ "of_nat r"]) (simp add: word_le_nat_alt)
  qed
  note range = this [of "\<lambda>x. fst e = ERAID_KEY (eid\<lparr>id_agreementid := x\<rparr>)"]
  show ?thesis
    unfolding range
    by (cases "lo \<le> hi") (auto simp: era_collect_passed_agreements_def collect_fold word_le_nat_alt simp del: upt_Suc)
qed

text \<open>C9: past agreements. Every contributor announces a range of agreements that are in its table; the
  agreements that are removed after the decision are those of the communicator in the combined range,
  and each of them was in the tables of all contributors when they entered.\<close>

theorem collected_are_known_to_all:
  assumes "st AND OP_NOT_DEFINED \<noteq> 0" "value_ok n cur"
    and "\<forall>(t, v) \<in> set (p # ps). value_ok n v \<and> vh_min_aid (header v) = - 1 \<and> vh_max_aid (header v) = 0"
    and "int (length (bytes (snd p))) = ERA_VALUE_BYTES_COUNT ops (header (snd p))" "length (bytes cur) = length (bytes (snd p))"
    and "combine_all ops st cur (map (\<lambda>(t, v). era_agreement_value_set_gcrange eid t v) (p # ps)) = Some (st', decided)"
  shows "\<forall>e \<in> set table.
    (e \<notin> set (era_collect_passed_agreements eid (vh_min_aid (header decided)) (vh_max_aid (header decided)) table) \<longleftrightarrow>
      (\<exists>x. vh_min_aid (header decided) \<le> x \<and> x \<le> vh_max_aid (header decided) \<and>
         fst e = ERAID_KEY (eid\<lparr>id_agreementid := x\<rparr>))) \<and>
    (e \<notin> set (era_collect_passed_agreements eid (vh_min_aid (header decided)) (vh_max_aid (header decided)) table) \<longrightarrow>
      (\<forall>(t, v) \<in> set (p # ps). fst e \<in> fst ` set t))"
proof -
  let ?g = "\<lambda>(t, v). era_agreement_value_set_gcrange eid t v"
  let ?lo = "vh_min_aid (header decided)" and ?hi = "vh_max_aid (header decided)"
  have ok: "\<forall>v \<in> set (?g p # map ?g ps). value_ok n v" using assms(3) by auto
  have b: "int (length (bytes (?g p))) = ERA_VALUE_BYTES_COUNT ops (header (?g p))" "length (bytes cur) = length (bytes (?g p))"
    using assms(4,5) by (cases p; simp add: ERA_VALUE_BYTES_COUNT_def era_agreement_value_set_gcrange_def split: list.split)+
  from combine_sequence [OF assms(1,2) ok b] assms(6) have
    m: "?lo = Max ((\<lambda>v. vh_min_aid (header v)) ` set (map ?g (p # ps)))" "?hi = Min ((\<lambda>v. vh_max_aid (header v)) ` set (map ?g (p # ps)))"
    by simp_all
  have known: "ERAID_KEY (eid\<lparr>id_agreementid := x\<rparr>) \<in> fst ` set t" if "(t, v) \<in> set (p # ps)" "?lo \<le> x" "x \<le> ?hi" for t v x
  proof -
    have "?g (t, v) \<in> set (map ?g (p # ps))" unfolding set_map using that(1) by (rule imageI)
    then have "vh_min_aid (header (?g (t, v))) \<le> ?lo" "?hi \<le> vh_max_aid (header (?g (t, v)))"
      unfolding m by (blast intro: Max_ge Min_le finite_imageI finite_set)+
    with that assms(3) show ?thesis by (intro gcrange_known [of v eid t x]) auto
  qed
  have "\<forall>(t, v) \<in> set (p # ps). k \<in> fst ` set t"
    if "\<exists>x. ?lo \<le> x \<and> x \<le> ?hi \<and> k = ERAID_KEY (eid\<lparr>id_agreementid := x\<rparr>)" for k
    using that known by (metis (no_types, lifting) case_prodI2)
  then show ?thesis unfolding collect_entries by blast
qed

section \<open>Acknowledged failures\<close>

text \<open>Contributions of acknowledged ranks, one after the other.\<close>

fun ack_all :: "'p list \<Rightarrow> 'p list \<Rightarrow> era_acks \<Rightarrow> int list list \<Rightarrow> era_acks option" where
  "ack_all fs ms a [] = Some a"
| "ack_all fs ms a (xs # xss) =
     do { a \<leftarrow> era_update_return_value fs ms (int (length xs)) xs a; ack_all fs ms a xss }"

lemma ack_all_failed:
  "ak_ret a = MPI_ERR_PROC_FAILED \<Longrightarrow> ack_all fs ms a xss = Some a"
  by (induction xss) (simp_all add: era_update_return_value_def)

lemma ack_all_base:
  assumes "ak_ret a \<noteq> MPI_ERR_PROC_FAILED" "ak_acked a = Some ys" "ak_nb a = int (length ys)" "ys \<noteq> []"
  shows "\<exists>a'. ack_all fs ms a xss = Some a' \<and>
    (ak_ret a' = (if \<forall>xs \<in> set xss. xs = ys then ak_ret a else MPI_ERR_PROC_FAILED))"
proof (induction xss)
  case (Cons xs xss)
  have "era_update_return_value fs ms (int (length xs)) xs a = Some (if xs = ys then a else fail_acks a)"
    using assms by (auto simp: era_update_return_value_def)
  moreover have "ak_ret (fail_acks a) = MPI_ERR_PROC_FAILED" by (simp add: fail_acks_def)
  ultimately show ?case using Cons ack_all_failed [of "fail_acks a" fs ms xss] by (cases "xs = ys") auto
qed simp

lemma replicate_split_Nil:
  "(\<exists>j k ys. [] # xss = replicate j [] @ replicate k ys) \<longleftrightarrow> (\<exists>j k ys. xss = replicate j [] @ replicate k ys)"
proof
  assume "\<exists>j k ys. [] # xss = replicate j [] @ replicate k ys"
  then obtain j k ys where e: "[] # xss = replicate j [] @ replicate k ys" by blast
  show "\<exists>j k ys. xss = replicate j [] @ replicate k ys"
  proof (cases j)
    case 0
    with e show ?thesis by (cases k) (auto intro: exI [of _ 0])
  next
    case (Suc i)
    with e show ?thesis by auto
  qed
next
  assume "\<exists>j k ys. xss = replicate j [] @ replicate k ys"
  then obtain j k ys where "xss = replicate j [] @ replicate k ys" by blast
  then have "[] # xss = replicate (Suc j) [] @ replicate k ys" by simp
  then show "\<exists>j k ys. [] # xss = replicate j [] @ replicate k ys" by blast
qed

lemma replicate_split_Cons:
  assumes "xs \<noteq> []"
  shows "(\<exists>j k ys. xs # xss = replicate j [] @ replicate k ys) \<longleftrightarrow> (\<forall>zs \<in> set xss. zs = xs)"
proof
  assume "\<exists>j k ys. xs # xss = replicate j [] @ replicate k ys"
  then obtain j k ys where e: "xs # xss = replicate j [] @ replicate k ys" by blast
  with assms have "j = 0" by (cases j) auto
  with e show "\<forall>zs \<in> set xss. zs = xs" by (cases k) auto
next
  assume "\<forall>zs \<in> set xss. zs = xs"
  then have "xss = replicate (length xss) xs" by (simp add: replicate_length_same)
  then show "\<exists>j k ys. xs # xss = replicate j [] @ replicate k ys"
    by (intro exI [of _ 0] exI [of _ "Suc (length xss)"] exI [of _ xs]) simp
qed

lemma ack_all_start:
  assumes "ak_ret a = MPI_SUCCESS" "ak_acked a = None"
  shows "\<exists>a'. ack_all fs ms a xss = Some a' \<and>
    ak_ret a' = (if \<exists>j k ys. xss = replicate j [] @ replicate k ys then MPI_SUCCESS else MPI_ERR_PROC_FAILED)"
  using assms
proof (induction xss arbitrary: a)
  case Nil
  then show ?case by (auto intro: exI [of _ 0])
next
  case (Cons xs xss)
  have ne: "ak_ret a \<noteq> MPI_ERR_PROC_FAILED" using Cons.prems by (simp add: rc_defs)
  show ?case
  proof (cases "xs = []")
    case True
    have "era_update_return_value fs ms (int (length xs)) xs a = Some (a\<lparr>ak_acked := None, ak_nb := 0\<rparr>)"
      using True ne Cons.prems by (simp add: era_update_return_value_def)
    then show ?thesis
      using Cons.IH [of "a\<lparr>ak_acked := None, ak_nb := 0\<rparr>"] Cons.prems unfolding True replicate_split_Nil by simp
  next
    case False
    let ?a = "a\<lparr>ak_acked := Some xs, ak_nb := int (length xs)\<rparr>"
    have "era_update_return_value fs ms (int (length xs)) xs a = Some ?a"
      using False ne Cons.prems by (simp add: era_update_return_value_def)
    then show ?thesis
      using ack_all_base [of ?a xs fs ms xss] ne False Cons.prems unfolding replicate_split_Cons [OF False] by auto
  qed
qed

text \<open>C10: acknowledged failures. The comparison of the failures that the contributors have acknowledged
  reports no difference exactly when those who acknowledged nothing contributed first and all the
  others acknowledged the same: a process without acknowledged failures is not told apart from one that
  has not contributed yet, so that a difference may be missed or not depending on the order.\<close>

theorem acks_compared_exactly:
  "\<exists>a. ack_all fs ms \<lparr>ak_ret = MPI_SUCCESS, ak_acked = None, ak_nb = 0\<rparr> xss = Some a \<and>
    (ak_ret a = MPI_SUCCESS \<longleftrightarrow> (\<exists>j k ys. xss = replicate j [] @ replicate k ys)) \<and>
    (ak_ret a = MPI_ERR_PROC_FAILED \<longleftrightarrow> \<not> (\<exists>j k ys. xss = replicate j [] @ replicate k ys))"
proof -
  obtain a where "ack_all fs ms \<lparr>ak_ret = MPI_SUCCESS, ak_acked = None, ak_nb = 0\<rparr> xss = Some a"
    "ak_ret a = (if \<exists>j k ys. xss = replicate j [] @ replicate k ys then MPI_SUCCESS else MPI_ERR_PROC_FAILED)"
    using ack_all_start [of "\<lparr>ak_ret = MPI_SUCCESS, ak_acked = None, ak_nb = 0\<rparr>" fs ms xss] by auto
  then show ?thesis by (auto simp: rc_defs)
qed

section \<open>Agreed failures\<close>

text \<open>The list of agreed failures after the decisions \<open>vs\<close>.\<close>

definition decide_all :: "era_value_t list \<Rightarrow> int list" where
  "decide_all vs = foldl (\<lambda>afr v. fst (insert_dead (new_dead_array v) afr 0)) [] vs"

lemma decide_all_correct:
  assumes "\<forall>v \<in> set vs. value_ok n v"
  shows "sorted_wrt (<) (decide_all vs) \<and> set (decide_all vs) = (\<Union>v \<in> set vs. set (new_dead_array v))"
  using assms
proof (induction vs rule: rev_induct)
  case (snoc v vs)
  then have IH: "sorted_wrt (<) (decide_all vs)" "set (decide_all vs) = (\<Union>v \<in> set vs. set (new_dead_array v))"
    and v: "value_ok n v" by auto
  have "decide_all (vs @ [v]) = fst (insert_dead (new_dead_array v) (decide_all vs) 0)" by (simp add: decide_all_def)
  then show ?case using insert_dead_start(1,2) [OF v IH(1)] IH(2) by auto
qed (simp add: decide_all_def)

text \<open>C11: agreed failures. After any sequence of decisions with well-formed values, the list of the
  agreed failures is the sorted list of all ranks that the decisions reported dead, which does not depend
  on their order; it satisfies what the construction of the tree expects, so that the next tree has
  exactly the other ranks.\<close>

theorem decided_failures_shape_tree:
  assumes "\<forall>v \<in> set vs. value_ok n v" "(\<Union>v \<in> set vs. set (new_dead_array v)) \<subset> {0..<n}" "layout_ok l n"
  shows "decide_all vs = sorted_list_of_set (\<Union>v \<in> set vs. set (new_dead_array v)) \<and>
    (\<exists>T kids. era_build_tree_structure l topo (era_tree_fn_of topo) n (decide_all vs) = Some T \<and> ranks_ok T n \<and>
      rank_in_comm ` set T = {0..<n} - (\<Union>v \<in> set vs. set (new_dead_array v)) \<and> tree_inv T {0..<tree_size T} kids)"
proof -
  have d: "sorted_wrt (<) (decide_all vs)" "set (decide_all vs) = (\<Union>v \<in> set vs. set (new_dead_array v))"
    using decide_all_correct [OF assms(1)] by auto
  then have "decide_all vs = sorted_list_of_set (\<Union>v \<in> set vs. set (new_dead_array v))"
    using sorted_set [of "decide_all vs"] by simp
  moreover have "\<exists>T kids. era_build_tree_structure l topo (era_tree_fn_of topo) n (decide_all vs) = Some T \<and> ranks_ok T n \<and>
      rank_in_comm ` set T = {0..<n} - set (decide_all vs) \<and> tree_inv T {0..<tree_size T} kids"
    using d assms(2,3) by (intro build_tree) auto
  ultimately show ?thesis unfolding d(2) by blast
qed

section \<open>Examples\<close>

definition sample_value :: "int \<Rightarrow> int list \<Rightarrow> u8 list \<Rightarrow> era_value_t" where
  "sample_value rt ds bs =
     \<lparr>header = \<lparr>vh_ret = rt, vh_min_aid = - 1, vh_max_aid = 0, vh_operand = 1, vh_dt_count = int (length bs),
                vh_datatype = 1, vh_nb_new_dead = int (length ds)\<rparr>,
      bytes = bs, new_dead_array = ds\<rparr>"

definition band_ops :: era_ops where
  "band_ops = \<lparr>dt_size = (\<lambda>_. 1), op_reduce = (\<lambda>_ _ _ src dst. map2 (AND) src dst)\<rparr>"

lemma sample_value_ok: "value_ok n (sample_value rt ds bs) \<longleftrightarrow> sorted_wrt (<) ds \<and> set ds \<subseteq> {0..<n}"
  by (simp add: value_ok_def sample_value_def)

lemma combine_contributions_witness:
  "\<exists>cur'. combine_all band_ops (NOT_CONTRIBUTED OR OP_NOT_DEFINED) (sample_value 0 [] [0])
      [sample_value 0 [2] [7], sample_value 54 [1, 2] [13]] = Some (NOT_CONTRIBUTED, cur') \<and>
     new_dead_array cur' = [1, 2] \<and> bytes cur' = [5] \<and> vh_ret (header cur') = 54"
proof -
  have st: "(NOT_CONTRIBUTED OR OP_NOT_DEFINED) AND OP_NOT_DEFINED \<noteq> 0"
    "(NOT_CONTRIBUTED OR OP_NOT_DEFINED) AND NOT OP_NOT_DEFINED = NOT_CONTRIBUTED"
    by (simp_all add: NOT_CONTRIBUTED_def OP_NOT_DEFINED_def)
  let ?cur = "sample_value 0 [] [0]" and ?v = "sample_value 0 [2] [7]" and ?vs = "[sample_value 54 [1, 2] [13]]"
  have ok: "value_ok 4 ?cur" "\<forall>v \<in> set (?v # ?vs). value_ok 4 v" by (simp_all add: sample_value_ok)
  have len: "int (length (bytes ?v)) = ERA_VALUE_BYTES_COUNT band_ops (header ?v)" "length (bytes ?cur) = length (bytes ?v)"
    by (simp_all add: sample_value_def band_ops_def ERA_VALUE_BYTES_COUNT_def)
  have "set (new_dead_array ?cur) \<union> (\<Union>v \<in> set (?v # ?vs). set (new_dead_array v)) = {1, 2}" by (auto simp: sample_value_def)
  moreover have "reduced band_ops (header ?v) (bytes ?v) ?vs = [5]" by (simp add: reduced_def sample_value_def band_ops_def)
  moreover have "Max ((\<lambda>v. vh_ret (header v)) ` set (?v # ?vs)) = 54" by (simp add: sample_value_def)
  ultimately show ?thesis using combine_contributions [OF st(1) ok len] unfolding st(2) by auto
qed

definition past_id :: "16 word \<Rightarrow> era_identifier_t" where
  "past_id a = \<lparr>id_agreementid = a, id_contextid = 3, id_epoch = 2\<rparr>"

definition past_tables :: "((64 word \<times> nat) list \<times> era_value_t) list" where
  "past_tables = [([(ERAID_KEY (past_id 1), 10)], sample_value 0 [] []), ([(ERAID_KEY (past_id 1), 20)], sample_value 0 [] [])]"

lemma collected_are_known_to_all_witness:
  "\<exists>st' decided. combine_all band_ops (NOT_CONTRIBUTED OR OP_NOT_DEFINED) (sample_value 0 [] [])
      (map (\<lambda>(t, v). era_agreement_value_set_gcrange (past_id 4) t v) past_tables) = Some (st', decided) \<and>
     (\<forall>e \<in> set [(ERAID_KEY (past_id 1), 30 :: nat), (ERAID_KEY (past_id 2), 40)].
        e \<notin> set (era_collect_passed_agreements (past_id 4) (vh_min_aid (header decided)) (vh_max_aid (header decided))
          [(ERAID_KEY (past_id 1), 30), (ERAID_KEY (past_id 2), 40)]) \<longrightarrow>
        (\<forall>(t, v) \<in> set past_tables. fst e \<in> fst ` set t))"
proof -
  have st: "(NOT_CONTRIBUTED OR OP_NOT_DEFINED) AND OP_NOT_DEFINED \<noteq> 0"
    by (simp add: NOT_CONTRIBUTED_def OP_NOT_DEFINED_def)
  let ?g = "\<lambda>(t, v). era_agreement_value_set_gcrange (past_id 4) t v"
  obtain p ps where pp: "past_tables = p # ps" "p = ([(ERAID_KEY (past_id 1), 10)], sample_value 0 [] [])"
    by (simp add: past_tables_def)
  have ok: "value_ok 4 (sample_value 0 [] [])" "\<forall>v \<in> set (?g p # map ?g ps). value_ok 4 v"
    using pp by (auto simp: past_tables_def sample_value_ok)
  have len: "int (length (bytes (snd p))) = ERA_VALUE_BYTES_COUNT band_ops (header (snd p))"
    "length (bytes (sample_value 0 [] [])) = length (bytes (snd p))"
    by (simp_all add: pp(2) sample_value_def ERA_VALUE_BYTES_COUNT_def)
  have len': "int (length (bytes (?g p))) = ERA_VALUE_BYTES_COUNT band_ops (header (?g p))"
    "length (bytes (sample_value 0 [] [])) = length (bytes (?g p))"
    by (simp_all add: pp(2) sample_value_def ERA_VALUE_BYTES_COUNT_def era_agreement_value_set_gcrange_def split: list.split)
  have vs: "\<forall>(t, v) \<in> set (p # ps). value_ok 4 v \<and> vh_min_aid (header v) = - 1 \<and> vh_max_aid (header v) = 0"
    unfolding pp(1) [symmetric] by (simp add: past_tables_def sample_value_ok) (simp add: sample_value_def)
  from combine_sequence [OF st ok len'] obtain st' d where
    c: "combine_all band_ops (NOT_CONTRIBUTED OR OP_NOT_DEFINED) (sample_value 0 [] []) (map ?g (p # ps)) = Some (st', d)" by auto
  from collected_are_known_to_all [OF st ok(1) vs len c,
      of "[(ERAID_KEY (past_id 1), 30 :: nat), (ERAID_KEY (past_id 2), 40)]"] c
  show ?thesis unfolding pp(1) by blast
qed

lemma decided_failures_shape_tree_witness:
  "decide_all [sample_value 54 [3] [], sample_value 0 [1, 3] []] = sorted_list_of_set {1, 3} \<and>
   (\<exists>T kids. era_build_tree_structure two_hosts 2 (era_tree_fn_of 2) 4 (decide_all [sample_value 54 [3] [], sample_value 0 [1, 3] []]) = Some T \<and>
     rank_in_comm ` set T = {0, 2} \<and> tree_inv T {0..<tree_size T} kids)"
proof -
  let ?vs = "[sample_value 54 [3] [], sample_value 0 [1, 3] []]"
  have u: "(\<Union>v \<in> set ?vs. set (new_dead_array v)) = {1, 3}" by (auto simp: sample_value_def)
  have d: "{0..<4} - {1, 3} = {0, 2 :: int}" by auto
  have "0 \<in> {0..<4 :: int} - {1, 3}" "{1, 3} \<subseteq> {0..<4 :: int}" by simp_all
  then have "{1, 3} \<subset> {0..<4 :: int}" by blast
  moreover have "\<forall>v \<in> set ?vs. value_ok 4 v" by (simp add: sample_value_ok)
  ultimately show ?thesis
    using decided_failures_shape_tree [of ?vs 4 two_hosts 2, OF _ _ two_hosts_ok] unfolding u d by blast
qed

end
