(* ===== verification/Era_Message.thy ===== *)
theory Era_Message
  imports Prelude "HOL-Library.Sublist"
begin

text \<open>
  The messages of the early returning agreement, \<^verbatim>\<open>send_msg\<close> and \<^verbatim>\<open>era_cb_fn\<close> of
  \<^verbatim>\<open>ompi/mca/coll/ftbasic/coll_ftbasic_agreement_earlyreturning.c\<close>: a message is gathered from several
  buffers and cut into fragments, whose sizes the transport chooses; the receiver puts the fragments of
  many senders and messages together again. Every message arrives once and unchanged.
\<close>

section \<open>Data\<close>

record era_frag_t =
  frag_src :: "64 word"
  frag_seqnum :: "64 word"
  msg_len :: nat
  frag_offset :: nat
  frag_bytes :: "u8 list"

record era_incomplete_msg_t =
  bytes_received :: nat
  msg_buffer :: "u8 option list"

section \<open>Sending\<close>

text \<open>\<open>left\<close> bytes remain to be copied from position \<open>b\<close> of buffer \<open>i\<close> on; the result has the bytes and the
  new position.\<close>

function copy_iov :: "u8 list list \<Rightarrow> nat \<Rightarrow> nat \<Rightarrow> nat \<Rightarrow> (u8 list \<times> nat \<times> nat) option" where
  "copy_iov iov i b left =
     (if left = 0 then Some ([], i, b)
      else if i \<ge> length iov \<or> b > length (iov ! i) then None
      else
        let tocopy = (if left \<le> length (iov ! i) - b then left else length (iov ! i) - b);
            bs = take tocopy (drop b (iov ! i));
            b' = b + tocopy
        in map_option (apfst ((@) bs))
             (if b' = length (iov ! i) then copy_iov iov (Suc i) 0 (left - tocopy)
              else copy_iov iov i b' (left - tocopy)))"
  by auto
termination
  by (relation "measure (\<lambda>(iov, i, b, left). left + (length iov - i))") auto

declare copy_iov.simps [simp del]

text \<open>The loop over the fragments. The transport answers each allocation with the number of bytes that
  the fragment can carry.\<close>

fun send_frags ::
  "64 word \<Rightarrow> 64 word \<Rightarrow> u8 list list \<Rightarrow> nat \<Rightarrow> nat \<Rightarrow> nat \<Rightarrow> nat \<Rightarrow> nat list \<Rightarrow> era_frag_t list option" where
  "send_frags src seqnum iov to_send sent i b payloads =
     (if \<not> sent < to_send then Some []
      else case payloads of
        [] \<Rightarrow> None
      | payload_size # payloads \<Rightarrow>
          if payload_size = 0 then None
          else do {
            (bs, i, b) \<leftarrow> copy_iov iov i b payload_size;
            fs \<leftarrow> send_frags src seqnum iov to_send (sent + payload_size) i b payloads;
            Some (\<lparr>frag_src = src, frag_seqnum = seqnum, msg_len = to_send, frag_offset = sent, frag_bytes = bs\<rparr> # fs) })"

declare send_frags.simps [simp del]

definition send_msg_frags :: "64 word \<Rightarrow> 64 word \<Rightarrow> u8 list list \<Rightarrow> nat list \<Rightarrow> era_frag_t list option" where
  "send_msg_frags src seqnum iov payloads =
     send_frags src seqnum iov (length (concat iov)) 0 0 0 payloads"

section \<open>Receiving\<close>

text \<open>The incomplete messages of every sender, by sequence number.\<close>

type_synonym era_incomplete = "64 word \<Rightarrow> (64 word \<Rightarrow> era_incomplete_msg_t option) option"

text \<open>A copy into a buffer; \<open>None\<close> when it leaves the buffer.\<close>

definition copy_into :: "u8 option list \<Rightarrow> nat \<Rightarrow> u8 list \<Rightarrow> u8 option list option" where
  "copy_into buf off bs =
     (if off + length bs > length buf then None
      else Some (take off buf @ map Some bs @ drop (off + length bs) buf))"

text \<open>The new tables, and the bytes of the message when it is complete.\<close>

definition era_cb_frag :: "era_incomplete \<Rightarrow> era_frag_t \<Rightarrow> (era_incomplete \<times> u8 option list option) option" where
  "era_cb_frag tab frag =
     (if msg_len frag = length (frag_bytes frag) then Some (tab, Some (map Some (frag_bytes frag)))
      else
        let msgs = (case tab (frag_src frag) of Some msgs \<Rightarrow> msgs | None \<Rightarrow> (\<lambda>_. None));
            m = (case msgs (frag_seqnum frag) of
                   Some m \<Rightarrow> m
                 | None \<Rightarrow> \<lparr>bytes_received = 0, msg_buffer = replicate (msg_len frag) None\<rparr>)
        in do {
          buf \<leftarrow> copy_into (msg_buffer m) (frag_offset frag) (frag_bytes frag);
          let m = \<lparr>bytes_received = bytes_received m + length (frag_bytes frag), msg_buffer = buf\<rparr>;
          if bytes_received m = msg_len frag
          then Some (tab(frag_src frag := Some (msgs(frag_seqnum frag := None))), Some (msg_buffer m))
          else Some (tab(frag_src frag := Some (msgs(frag_seqnum frag := Some m))), None) })"

text \<open>A sequence of fragments, with the senders and sequence numbers of the messages that they
  complete.\<close>

fun era_cb_run ::
  "era_incomplete \<Rightarrow> era_frag_t list \<Rightarrow> (era_incomplete \<times> ((64 word \<times> 64 word) \<times> u8 option list) list) option" where
  "era_cb_run tab [] = Some (tab, [])"
| "era_cb_run tab (f # fs) =
     do {
       (tab, w) \<leftarrow> era_cb_frag tab f;
       (tab, out) \<leftarrow> era_cb_run tab fs;
       Some (tab, (case w of Some m \<Rightarrow> [((frag_src f, frag_seqnum f), m)] | None \<Rightarrow> []) @ out) }"

text \<open>From \<^verbatim>\<open>era_on_comm_rank_failure\<close>: the incomplete messages of a failed process are dropped.\<close>

definition discard_incomplete :: "64 word \<Rightarrow> era_incomplete \<Rightarrow> era_incomplete" where
  "discard_incomplete src tab = (if tab src \<noteq> None then tab(src := None) else tab)"

section \<open>Sending gathers the message\<close>

definition iov_pos :: "u8 list list \<Rightarrow> nat \<Rightarrow> nat \<Rightarrow> nat" where
  "iov_pos iov i b = length (concat (take i iov)) + b"

lemma concat_split:
  "i < length iov \<Longrightarrow> concat iov = concat (take i iov) @ iov ! i @ concat (drop (Suc i) iov)"
  by (metis concat.simps(2) concat_append id_take_nth_drop)

lemma copy_iov_correct:
  assumes "b \<le> (if i < length iov then length (iov ! i) else 0)" "i \<le> length iov"
    and "iov_pos iov i b + left \<le> length (concat iov)"
  shows "\<exists>i' b'. copy_iov iov i b left = Some (take left (drop (iov_pos iov i b) (concat iov)), i', b') \<and>
    iov_pos iov i' b' = iov_pos iov i b + left \<and> i' \<le> length iov \<and> b' \<le> (if i' < length iov then length (iov ! i') else 0)"
  using assms
proof (induction iov i b left rule: copy_iov.induct)
  case (1 iov i b left)
  show ?case
  proof (cases "left = 0")
    case True
    with 1(3-) show ?thesis by (subst copy_iov.simps) simp
  next
    case False
    have i: "i < length iov"
    proof (rule ccontr)
      assume "\<not> i < length iov"
      then have "iov_pos iov i b = length (concat iov)" using 1(3,4) by (simp add: iov_pos_def)
      with 1(5) False show False by simp
    qed
    let ?s = "iov ! i" and ?pre = "concat (take i iov)" and ?post = "concat (drop (Suc i) iov)"
    define n where "n = (if left \<le> length ?s - b then left else length ?s - b)"
    have b: "b \<le> length ?s" using 1(3) i by simp
    have all: "concat iov = ?pre @ ?s @ ?post" using concat_split [OF i] .
    have pos: "iov_pos iov i b = length ?pre + b" by (simp add: iov_pos_def)
    have n: "n \<le> left" "n \<le> length ?s - b" by (auto simp: n_def)
    have nxt: "iov_pos iov (Suc i) 0 = length ?pre + length ?s" using i by (simp add: iov_pos_def take_Suc_conv_app_nth)
    have run: "copy_iov iov i b left = map_option (apfst ((@) (take n (drop b ?s))))
        (if b + n = length ?s then copy_iov iov (Suc i) 0 (left - n) else copy_iov iov i (b + n) (left - n))"
    proof -
      have "\<not> (i \<ge> length iov \<or> b > length ?s)" using i b by simp
      then show ?thesis by (subst copy_iov.simps) (simp only: False if_False Let_def n_def)
    qed
    have tk: "take left (drop (iov_pos iov i b) (concat iov)) =
        take n (drop b ?s) @ take (left - n) (drop (iov_pos iov i b + n) (concat iov))"
    proof -
      have "take left (drop (iov_pos iov i b) (concat iov)) =
          take n (drop (iov_pos iov i b) (concat iov)) @ take (left - n) (drop n (drop (iov_pos iov i b) (concat iov)))"
        using n(1) by (metis le_add_diff_inverse take_add)
      moreover have "take n (drop (iov_pos iov i b) (concat iov)) = take n (drop b ?s)"
        using n(2) b by (simp add: all pos)
      ultimately show ?thesis by (simp add: add.commute)
    qed
    show ?thesis
    proof (cases "b + n = length ?s")
      case True
      have "\<exists>i' b'. copy_iov iov (Suc i) 0 (left - n) =
          Some (take (left - n) (drop (iov_pos iov (Suc i) 0) (concat iov)), i', b') \<and>
        iov_pos iov i' b' = iov_pos iov (Suc i) 0 + (left - n) \<and> i' \<le> length iov \<and>
        b' \<le> (if i' < length iov then length (iov ! i') else 0)"
        using False i b True 1(5) n nxt pos by (intro 1(1) [of n "take n (drop b ?s)" "b + n"]) (simp_all add: n_def not_less)
      then obtain i' b' where r: "copy_iov iov (Suc i) 0 (left - n) =
          Some (take (left - n) (drop (iov_pos iov (Suc i) 0) (concat iov)), i', b')"
        "iov_pos iov i' b' = iov_pos iov (Suc i) 0 + (left - n)" "i' \<le> length iov"
        "b' \<le> (if i' < length iov then length (iov ! i') else 0)" by blast
      have nx: "iov_pos iov (Suc i) 0 = iov_pos iov i b + n" using nxt pos True by simp
      show ?thesis
        unfolding tk using run True r n(1) unfolding nx by (intro exI [of _ i'] exI [of _ b']) simp
    next
      case nf: False
      have "\<exists>i' b'. copy_iov iov i (b + n) (left - n) =
          Some (take (left - n) (drop (iov_pos iov i (b + n)) (concat iov)), i', b') \<and>
        iov_pos iov i' b' = iov_pos iov i (b + n) + (left - n) \<and> i' \<le> length iov \<and>
        b' \<le> (if i' < length iov then length (iov ! i') else 0)"
        using False i b nf 1(5) n pos by (intro 1(2) [of n "take n (drop b ?s)" "b + n"]) (simp_all add: n_def not_less iov_pos_def)
      then show ?thesis using run nf tk n(1) by (auto simp: iov_pos_def add.assoc)
    qed
  qed
qed

text \<open>A fragment carries a part of the message.\<close>

definition piece :: "u8 list \<Rightarrow> era_frag_t \<Rightarrow> bool" where
  "piece msg f \<longleftrightarrow> frag_bytes f = take (length (frag_bytes f)) (drop (frag_offset f) msg)"

lemma send_frags_correct:
  assumes "b \<le> (if i < length iov then length (iov ! i) else 0)" "i \<le> length iov" "iov_pos iov i b = sent"
    and "sent + sum_list payloads = length (concat iov)" "\<forall>p \<in> set payloads. 0 < p"
  shows "\<exists>fs. send_frags src seqnum iov (length (concat iov)) sent i b payloads = Some fs \<and>
    length fs = length payloads \<and>
    (\<forall>f \<in> set fs. frag_src f = src \<and> frag_seqnum f = seqnum \<and> msg_len f = length (concat iov) \<and>
       piece (concat iov) f) \<and>
    map (\<lambda>f. length (frag_bytes f)) fs = payloads \<and>
    (\<forall>k < length fs. frag_offset (fs ! k) = sent + sum_list (take k payloads))"
  using assms
proof (induction payloads arbitrary: sent i b)
  case Nil
  then show ?case by (subst send_frags.simps) simp
next
  case (Cons p ps)
  have le: "iov_pos iov i b + p \<le> length (concat iov)" using Cons.prems(3,4) by simp
  from copy_iov_correct [OF Cons.prems(1,2) le] obtain i' b' where
    c: "copy_iov iov i b p = Some (take p (drop sent (concat iov)), i', b')" "iov_pos iov i' b' = sent + p"
      "i' \<le> length iov" "b' \<le> (if i' < length iov then length (iov ! i') else 0)" using Cons.prems(3) by auto
  have pre: "sent + p + sum_list ps = length (concat iov)" "\<forall>q \<in> set ps. 0 < q"
    using Cons.prems(4,5) by (simp_all del: length_concat)
  from Cons.IH [OF c(4,3,2) pre] obtain fs where
    fs: "send_frags src seqnum iov (length (concat iov)) (sent + p) i' b' ps = Some fs" "length fs = length ps"
      "\<forall>f \<in> set fs. frag_src f = src \<and> frag_seqnum f = seqnum \<and> msg_len f = length (concat iov) \<and>
       piece (concat iov) f"
      "map (\<lambda>f. length (frag_bytes f)) fs = ps"
      "\<forall>k < length fs. frag_offset (fs ! k) = sent + p + sum_list (take k ps)" by blast
  define f where "f = \<lparr>frag_src = src, frag_seqnum = seqnum, msg_len = length (concat iov), frag_offset = sent,
    frag_bytes = take p (drop sent (concat iov))\<rparr>"
  have len: "length (frag_bytes f) = p" using le Cons.prems(3) by (simp add: f_def del: length_concat)
  have "sent < length (concat iov)" "p \<noteq> 0" using Cons.prems(4,5) by (simp_all del: length_concat)
  then have "send_frags src seqnum iov (length (concat iov)) sent i b (p # ps) = Some (f # fs)"
    using c(1) fs(1) by (subst send_frags.simps) (simp add: f_def del: length_concat)
  moreover have "frag_offset ((f # fs) ! k) = sent + sum_list (take k (p # ps))" if "k < length (f # fs)" for k
    using that fs(5) by (cases k) (auto simp: f_def)
  moreover have "piece (concat iov) f" unfolding piece_def by (subst len) (simp add: f_def)
  moreover have "frag_src f = src \<and> frag_seqnum f = seqnum \<and> msg_len f = length (concat iov)" by (simp add: f_def)
  ultimately have "send_frags src seqnum iov (length (concat iov)) sent i b (p # ps) = Some (f # fs) \<and>
    length (f # fs) = length (p # ps) \<and>
    (\<forall>g \<in> set (f # fs). frag_src g = src \<and> frag_seqnum g = seqnum \<and> msg_len g = length (concat iov) \<and>
       piece (concat iov) g) \<and>
    map (\<lambda>f. length (frag_bytes f)) (f # fs) = p # ps \<and>
    (\<forall>k < length (f # fs). frag_offset ((f # fs) ! k) = sent + sum_list (take k (p # ps)))"
    using fs(2-4) len unfolding list.set ball_simps by (intro conjI) (simp_all del: length_concat)
  then show ?case by (rule exI)
qed

section \<open>Receiving puts the message together\<close>

abbreviation (input) frag_id :: "era_frag_t \<Rightarrow> 64 word \<times> 64 word" where
  "frag_id f \<equiv> (frag_src f, frag_seqnum f)"

abbreviation (input) lens :: "era_frag_t list \<Rightarrow> nat" where
  "lens fs \<equiv> sum_list (map (\<lambda>f. length (frag_bytes f)) fs)"

text \<open>The fragments of a message, in the order in which they are sent.\<close>

definition fragments :: "64 word \<times> 64 word \<Rightarrow> u8 list \<Rightarrow> era_frag_t list \<Rightarrow> bool" where
  "fragments x msg fs \<longleftrightarrow>
     (\<forall>f \<in> set fs. frag_id f = x \<and> msg_len f = length msg \<and> piece msg f \<and> frag_bytes f \<noteq> []) \<and>
     (\<forall>k < length fs. frag_offset (fs ! k) = lens (take k fs)) \<and> lens fs = length msg"

definition find_msg :: "era_incomplete \<Rightarrow> 64 word \<times> 64 word \<Rightarrow> era_incomplete_msg_t option" where
  "find_msg tab x = (case tab (fst x) of None \<Rightarrow> None | Some msgs \<Rightarrow> msgs (snd x))"

text \<open>What the receiver holds of a message after \<open>n\<close> of its bytes.\<close>

definition held :: "u8 list \<Rightarrow> nat \<Rightarrow> era_incomplete_msg_t option" where
  "held msg n =
     (if n = 0 \<or> n = length msg then None
      else Some \<lparr>bytes_received = n, msg_buffer = map Some (take n msg) @ replicate (length msg - n) None\<rparr>)"

lemma find_msg_update:
  "find_msg (tab(s := Some (msgs(q := w)))) x =
     (if x = (s, q) then w else if fst x = s then msgs (snd x) else find_msg tab x)"
  by (cases x) (auto simp: find_msg_def)

lemma era_cb_frag_correct:
  assumes f: "frag_id f = x" "msg_len f = length msg" "piece msg f" "frag_bytes f \<noteq> []"
    and off: "frag_offset f = n" "n + length (frag_bytes f) \<le> length msg" and tab: "find_msg tab x = held msg n"
  shows "\<exists>tab'. era_cb_frag tab f =
      Some (tab', if n + length (frag_bytes f) = length msg then Some (map Some msg) else None) \<and>
    find_msg tab' x = held msg (n + length (frag_bytes f)) \<and> (\<forall>y. y \<noteq> x \<longrightarrow> find_msg tab' y = find_msg tab y)"
proof (cases "length msg = length (frag_bytes f)")
  case True
  then have "n = 0" using off by simp
  moreover have "frag_bytes f = msg" using f(3) True off(1) \<open>n = 0\<close> by (simp add: piece_def)
  ultimately show ?thesis using tab f(2) by (simp add: era_cb_frag_def held_def)
next
  case False
  define msgs where "msgs = (case tab (frag_src f) of Some msgs \<Rightarrow> msgs | None \<Rightarrow> (\<lambda>_. None))"
  have msgs: "msgs q = find_msg tab (frag_src f, q)" for q
    by (simp add: msgs_def find_msg_def split: option.split)
  have nl: "n < length msg" using off f(4) by (cases "frag_bytes f") auto
  define m where "m = (case msgs (frag_seqnum f) of Some m \<Rightarrow> m
    | None \<Rightarrow> \<lparr>bytes_received = 0, msg_buffer = replicate (msg_len f) None\<rparr>)"
  have m: "m = \<lparr>bytes_received = n, msg_buffer = map Some (take n msg) @ replicate (length msg - n) None\<rparr>"
    using tab nl f(1,2) by (auto simp: m_def msgs held_def)
  let ?l = "length (frag_bytes f)"
  have b: "frag_bytes f = take ?l (drop n msg)" using f(3) off(1) by (simp add: piece_def)
  have "take (n + ?l) msg = take n msg @ frag_bytes f" by (subst (2) b) (simp add: take_add)
  then have buf: "copy_into (msg_buffer m) (frag_offset f) (frag_bytes f) =
      Some (map Some (take (n + ?l) msg) @ replicate (length msg - (n + ?l)) None)"
    using off nl by (simp add: copy_into_def m)
  let ?m = "\<lparr>bytes_received = n + ?l, msg_buffer = map Some (take (n + ?l) msg) @ replicate (length msg - (n + ?l)) None\<rparr>"
  have run: "era_cb_frag tab f = (if n + ?l = length msg
      then Some (tab(frag_src f := Some (msgs(frag_seqnum f := None))), Some (map Some msg))
      else Some (tab(frag_src f := Some (msgs(frag_seqnum f := Some ?m))), None))"
    using False f(2) buf unfolding era_cb_frag_def msgs_def [symmetric] m_def [symmetric] Let_def by (simp add: m)
  have other: "y \<noteq> x \<Longrightarrow> find_msg (tab(frag_src f := Some (msgs(frag_seqnum f := w)))) y = find_msg tab y" for y w
    using f(1) msgs by (cases y) (auto simp: find_msg_update)
  have self: "find_msg (tab(frag_src f := Some (msgs(frag_seqnum f := w)))) x = w" for w
    using f(1) by (auto simp: find_msg_update)
  show ?thesis
  proof (cases "n + ?l = length msg")
    case True
    then show ?thesis using run self other by (auto simp: held_def)
  next
    case nf: False
    then have "held msg (n + ?l) = Some ?m" using f(4) by (simp add: held_def)
    with nf show ?thesis using run self other by auto
  qed
qed

lemma fragments_next:
  assumes "fragments x msg (pre @ f # post)"
  shows "frag_id f = x" "msg_len f = length msg" "piece msg f" "frag_bytes f \<noteq> []" "frag_offset f = lens pre"
    "lens pre + length (frag_bytes f) \<le> length msg"
    "lens pre + length (frag_bytes f) = length msg \<longleftrightarrow> post = []"
proof -
  have all: "\<forall>g \<in> set (pre @ f # post). frag_id g = x \<and> msg_len g = length msg \<and> piece msg g \<and> frag_bytes g \<noteq> []"
    and off: "\<forall>k < length (pre @ f # post). frag_offset ((pre @ f # post) ! k) = lens (take k (pre @ f # post))"
    and sum: "lens (pre @ f # post) = length msg" using assms [unfolded fragments_def] by blast+
  show "frag_id f = x" "msg_len f = length msg" "piece msg f" "frag_bytes f \<noteq> []" using all by simp_all
  show "frag_offset f = lens pre" using off [rule_format, of "length pre"] by simp
  show "lens pre + length (frag_bytes f) \<le> length msg" using sum by simp
  have "post = [] \<longleftrightarrow> lens post = 0" using all by (cases post) auto
  moreover have "lens pre + length (frag_bytes f) + lens post = length msg" using sum by simp
  ultimately show "lens pre + length (frag_bytes f) = length msg \<longleftrightarrow> post = []" by linarith
qed

abbreviation (input) frags_with :: "64 word \<times> 64 word \<Rightarrow> era_frag_t list \<Rightarrow> era_frag_t list" where
  "frags_with x fs \<equiv> filter (\<lambda>f. frag_id f = x) fs"

lemma era_cb_run_correct:
  assumes "\<forall>x \<in> X. fragments x (msg x) (frags x)" "\<forall>f \<in> set fs. frag_id f \<in> X"
    and "\<forall>x \<in> X. prefix (pre x @ frags_with x fs) (frags x)" "\<forall>x \<in> X. find_msg tab x = held (msg x) (lens (pre x))"
  shows "\<exists>tab' out. era_cb_run tab fs = Some (tab', out) \<and> fst ` set out \<subseteq> X \<and>
    (\<forall>x \<in> X. map snd (filter (\<lambda>m. fst m = x) out) =
      (if pre x \<noteq> frags x \<and> pre x @ frags_with x fs = frags x then [map Some (msg x)] else []))"
  using assms(2-)
proof (induction fs arbitrary: tab pre)
  case (Cons f fs)
  define x where "x = frag_id f"
  have x: "x \<in> X" using Cons.prems(1) by (simp add: x_def)
  from Cons.prems(2) x have "prefix (pre x @ f # frags_with x fs) (frags x)" by (auto simp: x_def)
  then obtain post where post: "frags x = pre x @ f # frags_with x fs @ post" by (auto elim: prefixE)
  have fr: "fragments x (msg x) (pre x @ f # (frags_with x fs @ post))" using assms(1) x post by metis
  note F = fragments_next [OF fr]
  from era_cb_frag_correct [OF F(1-6)] Cons.prems(3) x obtain tab1 where
    t1: "era_cb_frag tab f = Some (tab1, if lens (pre x) + length (frag_bytes f) = length (msg x) then Some (map Some (msg x)) else None)"
      "find_msg tab1 x = held (msg x) (lens (pre x) + length (frag_bytes f))"
      "\<forall>y. y \<noteq> x \<longrightarrow> find_msg tab1 y = find_msg tab y" by blast
  define pre1 where "pre1 = pre(x := pre x @ [f])"
  have p1: "pre1 y @ frags_with y fs = pre y @ frags_with y (f # fs)" for y
    by (cases "y = x") (auto simp: pre1_def x_def)
  have "\<forall>y \<in> X. prefix (pre1 y @ frags_with y fs) (frags y)" unfolding p1 using Cons.prems(2) .
  moreover have "\<forall>y \<in> X. find_msg tab1 y = held (msg y) (lens (pre1 y))"
    using t1(2,3) Cons.prems(3) by (auto simp: pre1_def)
  ultimately obtain tab' out where r: "era_cb_run tab1 fs = Some (tab', out)" "fst ` set out \<subseteq> X"
    "\<forall>y \<in> X. map snd (filter (\<lambda>m. fst m = y) out) =
      (if pre1 y \<noteq> frags y \<and> pre1 y @ frags_with y fs = frags y then [map Some (msg y)] else [])"
    using Cons.IH [of pre1 tab1] Cons.prems(1) by auto
  let ?w = "if lens (pre x) + length (frag_bytes f) = length (msg x) then [(x, map Some (msg x))] else []"
  have run: "era_cb_run tab (f # fs) = Some (tab', ?w @ out)" using t1(1) r(1) F(1) by simp
  have "map snd (filter (\<lambda>m. fst m = y) (?w @ out)) =
      (if pre y \<noteq> frags y \<and> pre y @ frags_with y (f # fs) = frags y then [map Some (msg y)] else [])" if y: "y \<in> X" for y
  proof (cases "y = x")
    case False
    then show ?thesis using r(3) y unfolding p1 [symmetric] by (auto simp: pre1_def)
  next
    case True
    have e: "lens (pre x) + length (frag_bytes f) = length (msg x) \<longleftrightarrow> frags_with x fs = [] \<and> post = []"
      using F(7) by simp
    have "pre1 x \<noteq> frags x \<longleftrightarrow> frags_with x fs @ post \<noteq> []" "pre1 x @ frags_with x fs = frags x \<longleftrightarrow> post = []"
      by (simp_all add: post pre1_def)
    then have "map snd (filter (\<lambda>m. fst m = x) out) =
        (if frags_with x fs @ post \<noteq> [] \<and> post = [] then [map Some (msg x)] else [])"
      using r(3) x by simp
    moreover have "pre x @ frags_with x (f # fs) = frags x \<longleftrightarrow> post = []" using F(1) unfolding post by auto
    moreover have "pre x \<noteq> frags x" unfolding post by simp
    ultimately show ?thesis using e True by auto
  qed
  with run r(2) x show ?case by (intro exI [of _ tab'] exI [of _ "?w @ out"]) auto
qed simp

lemma send_msg_fragments:
  assumes "sum_list payloads = length (concat iov)" "\<forall>p \<in> set payloads. 0 < p" "0 < length iov"
  shows "\<exists>fs. send_msg_frags src seqnum iov payloads = Some fs \<and> fragments (src, seqnum) (concat iov) fs"
proof -
  have "\<exists>fs. send_frags src seqnum iov (length (concat iov)) 0 0 0 payloads = Some fs \<and>
    length fs = length payloads \<and>
    (\<forall>f \<in> set fs. frag_src f = src \<and> frag_seqnum f = seqnum \<and> msg_len f = length (concat iov) \<and>
       piece (concat iov) f) \<and> map (\<lambda>f. length (frag_bytes f)) fs = payloads \<and>
    (\<forall>k < length fs. frag_offset (fs ! k) = 0 + sum_list (take k payloads))"
    using assms by (intro send_frags_correct) (simp_all add: iov_pos_def del: length_concat)
  then obtain fs where fs: "send_frags src seqnum iov (length (concat iov)) 0 0 0 payloads = Some fs"
    "\<forall>f \<in> set fs. frag_src f = src \<and> frag_seqnum f = seqnum \<and> msg_len f = length (concat iov) \<and> piece (concat iov) f"
    "map (\<lambda>f. length (frag_bytes f)) fs = payloads"
    "\<forall>k < length fs. frag_offset (fs ! k) = 0 + sum_list (take k payloads)" by blast
  have "frag_bytes f \<noteq> []" if "f \<in> set fs" for f using that fs(3) assms(2) by auto
  then have "fragments (src, seqnum) (concat iov) fs"
    unfolding fragments_def using fs assms(1) by (auto simp: take_map [symmetric] simp del: length_concat)
  with fs(1) show ?thesis by (auto simp: send_msg_frags_def)
qed

text \<open>C8: messages arrive unchanged. When senders cut their messages into fragments of any sizes, and the
  fragments reach a receiver in any interleaving that keeps the order of the fragments of each message,
  the receiver delivers every message all of whose fragments have arrived exactly once, with the bytes
  that were sent, and nothing else.\<close>

theorem messages_arrive_unchanged:
  assumes "\<forall>x \<in> X. 0 < length (iov x) \<and> concat (iov x) \<noteq> [] \<and> sum_list (payloads x) = length (concat (iov x)) \<and>
      (\<forall>p \<in> set (payloads x). 0 < p)"
    and "\<forall>f \<in> set fs. frag_id f \<in> X"
    and "\<forall>x \<in> X. \<exists>sent. send_msg_frags (fst x) (snd x) (iov x) (payloads x) = Some sent \<and> prefix (frags_with x fs) sent"
  shows "\<exists>tab out. era_cb_run (\<lambda>_. None) fs = Some (tab, out) \<and> fst ` set out \<subseteq> X \<and>
    (\<forall>x \<in> X. map snd (filter (\<lambda>m. fst m = x) out) =
      (if send_msg_frags (fst x) (snd x) (iov x) (payloads x) = Some (frags_with x fs)
       then [map Some (concat (iov x))] else []))"
proof -
  have "\<exists>sent. send_msg_frags (fst x) (snd x) (iov x) (payloads x) = Some sent \<and> fragments x (concat (iov x)) sent"
    if "x \<in> X" for x
    using send_msg_fragments [of "payloads x" "iov x" "fst x" "snd x"] assms(1) that by auto
  then obtain frags where fr: "\<And>x. x \<in> X \<Longrightarrow> send_msg_frags (fst x) (snd x) (iov x) (payloads x) = Some (frags x) \<and>
      fragments x (concat (iov x)) (frags x)" by metis
  have ne: "frags x \<noteq> []" if "x \<in> X" for x
    using fr [OF that] assms(1) that by (auto simp: fragments_def)
  have "\<exists>tab out. era_cb_run (\<lambda>_. None) fs = Some (tab, out) \<and> fst ` set out \<subseteq> X \<and>
    (\<forall>x \<in> X. map snd (filter (\<lambda>m. fst m = x) out) =
      (if [] \<noteq> frags x \<and> [] @ frags_with x fs = frags x then [map Some (concat (iov x))] else []))"
  proof (rule era_cb_run_correct)
    show "\<forall>x \<in> X. fragments x (concat (iov x)) (frags x)" using fr by blast
    show "\<forall>x \<in> X. prefix ([] @ frags_with x fs) (frags x)" using assms(3) fr by force
    show "\<forall>x \<in> X. find_msg (\<lambda>_. None) x = held (concat (iov x)) (lens [])" by (simp add: find_msg_def held_def)
  qed (rule assms(2))
  moreover have "(send_msg_frags (fst x) (snd x) (iov x) (payloads x) = Some (frags_with x fs)) \<longleftrightarrow>
      [] \<noteq> frags x \<and> [] @ frags_with x fs = frags x" if "x \<in> X" for x
    using fr [OF that] ne [OF that] by auto
  ultimately show ?thesis by (simp cong: ball_cong)
qed

lemma messages_arrive_unchanged_witness:
  "\<exists>tab out. era_cb_run (\<lambda>_. None)
      [\<lparr>frag_src = 1, frag_seqnum = 5, msg_len = 3, frag_offset = 0, frag_bytes = [10, 20]\<rparr>,
       \<lparr>frag_src = 2, frag_seqnum = 5, msg_len = 1, frag_offset = 0, frag_bytes = [40]\<rparr>,
       \<lparr>frag_src = 1, frag_seqnum = 5, msg_len = 3, frag_offset = 2, frag_bytes = [30]\<rparr>] = Some (tab, out) \<and>
     map snd (filter (\<lambda>m. fst m = (1, 5)) out) = [[Some 10, Some 20, Some 30]] \<and>
     map snd (filter (\<lambda>m. fst m = (2, 5)) out) = [[Some 40]]"
proof -
  let ?X = "{(1, 5), (2, 5)} :: (64 word \<times> 64 word) set"
  define iov where "iov x = (if x = (1, 5) then [[10], [20, 30]] else [[40 :: u8]])" for x :: "64 word \<times> 64 word"
  define payloads where "payloads x = (if x = (1, 5) then [2, 1] else [1 :: nat])" for x :: "64 word \<times> 64 word"
  let ?fs = "[\<lparr>frag_src = 1, frag_seqnum = 5, msg_len = 3, frag_offset = 0, frag_bytes = [10, 20]\<rparr>,
    \<lparr>frag_src = 2, frag_seqnum = 5, msg_len = 1, frag_offset = 0, frag_bytes = [40]\<rparr>,
    \<lparr>frag_src = 1, frag_seqnum = 5, msg_len = 3, frag_offset = 2, frag_bytes = [30]\<rparr>]"
  have sent: "send_msg_frags (fst x) (snd x) (iov x) (payloads x) = Some (frags_with x ?fs)" if "x \<in> ?X" for x
    using that by (auto simp: send_msg_frags_def send_frags.simps copy_iov.simps iov_def payloads_def)
  have "\<exists>tab out. era_cb_run (\<lambda>_. None) ?fs = Some (tab, out) \<and> fst ` set out \<subseteq> ?X \<and>
    (\<forall>x \<in> ?X. map snd (filter (\<lambda>m. fst m = x) out) =
      (if send_msg_frags (fst x) (snd x) (iov x) (payloads x) = Some (frags_with x ?fs)
       then [map Some (concat (iov x))] else []))"
    using sent by (intro messages_arrive_unchanged) (auto simp: iov_def payloads_def)
  then obtain tab out where r: "era_cb_run (\<lambda>_. None) ?fs = Some (tab, out)"
    "\<forall>x \<in> ?X. map snd (filter (\<lambda>m. fst m = x) out) =
      (if send_msg_frags (fst x) (snd x) (iov x) (payloads x) = Some (frags_with x ?fs)
       then [map Some (concat (iov x))] else [])" by blast
  have "map snd (filter (\<lambda>m. fst m = x) out) = [map Some (concat (iov x))]" if "x \<in> ?X" for x
    using bspec [OF r(2) that] unfolding if_P [OF sent [OF that]] .
  from this [of "(1, 5)"] this [of "(2, 5)"] r(1) show ?thesis by (simp add: iov_def del: era_cb_run.simps)
qed

end
