(* ===== verification/Spec2Isabelle.thy ===== *)
theory Spec2Isabelle
  imports Pointer_Array Bitmap Group_Correct Comm_Cid_Correct Topology_Correct Dims_Create_Correct
    Revoke_Protocol Request_FT_Correct Failure_Ack Agreement_Refinement Comm_Shrink_Correct
    Hash_Table_Correct Era_Protocol_Correct Era_Value_Correct Era_Message
begin

text \<open>
  A verification development of ULFM, the fault-tolerant branch of Open MPI.

  \<^bold>\<open>The program.\<close> Open MPI implements the message passing interface on three layers: OPAL
  (portable containers and services), ORTE (the run-time system) and OMPI (the interface itself).
  ULFM adds to OMPI that an application survives the failure of processes: a failure is recorded in
  a global group of failed processes and in the communicators that contain the process; operations
  that depend on it return an error instead of blocking; \<^verbatim>\<open>MPI_Comm_revoke\<close> interrupts all
  operations of a communicator at all its processes; \<^verbatim>\<open>MPI_Comm_failure_ack\<close> lets an
  application acknowledge failures; \<^verbatim>\<open>MPI_Comm_agree\<close> agrees on a value among the survivors; and
  \<^verbatim>\<open>MPI_Comm_shrink\<close> makes a communicator of the survivors. The development models this layer and
  the containers, groups, identifiers and topologies it is built on. All paths below are relative to
  the source tree.

  \<^bold>\<open>Conventions.\<close> One definition per function, with the source's name; a loop of a function is a
  definition of its own. \<open>None\<close> is undefined behaviour of C (an access outside an array, a
  division by zero), or a loop that has not been given enough input to end; error codes are values.
  Integers of C are \<open>int\<close> where the code's guards or the sizes keep them in range, and words of
  32 or 8 bits where the code works bitwise or on unsigned numbers; the division of C is \<open>cdiv\<close>,
  \<open>cmod\<close>. Objects are reached by address in maps of the state. What the code cannot decide (the
  answers of the allocator, of the transport, of a component chosen at run time, the order in which
  messages arrive) is an argument or a choice of a step relation. Locks are held for whole
  operations. The theories whose names end in \<open>Correct\<close> hold lemmas on the definitions of the
  theory they extend.

  \<^bold>\<open>Containers.\<close> \<open>Pointer_Array\<close> models \<^verbatim>\<open>opal/class/opal_pointer_array.c\<close>, the growing table of
  handles with its free-slot bookkeeping; an invariant relates the counters and the lowest free
  slot with the array, and every operation keeps it. It is presented to its clients as the locale
  \<open>slot_table\<close>. \<open>Bitmap\<close> models \<^verbatim>\<open>opal/class/opal_bitmap.c\<close>; the operations are set operations on
  the members of the bitmap. \<open>Hash_Table\<close> models \<^verbatim>\<open>opal/class/opal_hash_table.c\<close> for keys of 32 and 64
  bits and byte strings: the kinds of keys interpret the locale \<open>hash_keys\<close>, which makes the tables
  instances of the locale \<open>dictionary\<close>, whose clients see a map.

  \<^bold>\<open>Groups.\<close> \<open>Group_Formats\<close> models the sporadic, strided and bitmap encodings of rank lists of
  \<^verbatim>\<open>ompi/group\<close>, all of which interpret the locale \<open>rank_storage\<close>: rank translation to the parent
  and back. \<open>Group\<close> models the group objects with reference counts of groups and processes, the
  handle table, and all set operations; \<open>denotes s g ps\<close> says that the group at address \<open>g\<close> stands
  for the list \<open>ps\<close> of processes, whatever its format, and the operations are proved to make
  the group that the standard asks for, with the right own rank, so that freeing it gives every
  reference back.

  \<^bold>\<open>Identifiers.\<close> \<open>Comm_Cid\<close> models the allocation of communicator identifiers and their epochs in
  \<^verbatim>\<open>ompi/communicator/comm_cid.c\<close>: every process proposes free identifiers, a reduction keeps the
  common ones, all settle on the same one. Epochs are unbounded there. The all-reduce that carries
  the reduction is the fold of the reduction function over the proposals in any order.

  \<^bold>\<open>Topologies.\<close> \<open>Topology\<close> models the Cartesian and graph operations of \<^verbatim>\<open>ompi/mca/topo/base\<close>,
  with the check of coordinates in \<^verbatim>\<open>MPI_Cart_rank\<close>, \<open>Dims_Create\<close> the function \<^verbatim>\<open>MPI_Dims_create\<close>.

  \<^bold>\<open>Failures and revocation.\<close> \<open>Comm_FT\<close> models the failure layer of one process:
  \<^verbatim>\<open>comm_ft.c\<close>, \<^verbatim>\<open>comm_ft_reliable_bcast.c\<close>, \<^verbatim>\<open>comm_ft_revoke.c\<close>, \<^verbatim>\<open>comm_ft_propagate.c\<close> and
  the marking of failed peers in \<^verbatim>\<open>ompi/errhandler/errhandler_rte.c\<close>. \<open>Revoke_Protocol\<close> runs these
  handlers on all processes of a communicator over a network that loses no message to a live
  process: a revocation reaches everybody, ends, and implements a specification in which a set of
  informed processes grows. \<open>Request_FT\<close> models the state check of pending requests
  (\<^verbatim>\<open>ompi/request/req_ft.c\<close>) with the functions by which \<^verbatim>\<open>ompi/mca/pml/ob1\<close> cancels its send and
  receive requests, \<open>Failure_Ack\<close> the groups of acknowledged failures.

  \<^bold>\<open>Agreement.\<close> \<open>Agreement\<close> models the early terminating agreement of
  \<^verbatim>\<open>ompi/mca/coll/ftbasic/coll_ftbasic_agreement_earlyterminating.c\<close> at one process, down to the
  status bits and the scan of the results of each \<^verbatim>\<open>ompi_request_wait_all\<close>. \<open>Agreement_Correct\<close> sums
  up a round: in whatever portions the waits report the requests, the flags, the value and the
  counters are determined by which messages arrived. \<open>Agreement_Protocol\<close> runs the rounds on all
  processes, asynchronously and with crashes that are noticed at any later time, and shows by
  induction over the history that news unknown to a process in a round are held only by a chain
  of crashed processes, one per round; hence agreement. \<open>Agreement_Refinement\<close> adds
  validity, progress, the bound on the number of steps and the refinement of an abstract agreement
  object, for the bitwise and of 32-bit integers (\<open>agree_op\<close> is the locale of the reductions).
  \<open>Comm_Shrink\<close> models \<^verbatim>\<open>ompi_comm_shrink_internal\<close> and the all-reduce built on agreements;
  \<open>Comm_Shrink_Correct\<close> shows what group the agreement and shrink return.

  \<^bold>\<open>Tree of the early returning agreement.\<close> The \<open>Era\<close> theories model the tree over which
  \<^verbatim>\<open>coll_ftbasic_agreement_earlyreturning.c\<close> sends its messages. \<open>Era_Tree\<close> has the definitions: the
  three shapes, the construction over the processes that are not known by all to have failed, with
  the grouping of processes by their daemons in a hash table and the merging of the trees of the
  groups, the removal of a failed node, and the searches for the living parent and children. Nodes
  are indices of an array; \<open>tree_inv T A kids\<close> says that the links of the nodes \<open>A\<close> of the array \<open>T\<close>
  form one tree with the lists of children \<open>kids\<close>. \<open>Era_Tree_Correct\<close> shows that removing a node keeps
  this and removes it from the ancestors of all others. \<open>Era_Live\<close> shows that the searches end, that
  the living parent is the nearest living ancestor or else the least living process, whatever was
  removed before, and that two processes agree on who is the parent of whom. \<open>Era_Build\<close> has the
  locale \<open>tree_shape\<close>, interpreted by the three shapes; \<open>Era_Hierarchy\<close> shows that merging keeps
  trees; \<open>Era_Construct\<close> adds the grouping, as a client of the \<open>dictionary\<close> of the hash tables, and
  the correctness of the construction. At the end of this theory the tree is combined with the
  communicators and the failures a process knows of: the survivor of least rank is the root.

  \<^bold>\<open>Values and messages of the early returning agreement.\<close> \<open>Era_Value\<close> models what travels along the
  tree and what a process does with it: identifiers packed into 64 bits, the combination of two
  contributions, the merge of the lists of ranks found dead, the comparison of acknowledged failures,
  the insertion of decided failures into the list that the next tree is built from, and the history of
  past agreements with the range that each contribution announces and the collection after a decision.
  \<open>Era_Value_Correct\<close> sums up the contributions of a whole subtree: bytes, return code, dead ranks and
  range; it shows that only agreements known to all contributors are forgotten, that decided failures
  give the next tree, and when differing acknowledgements are noticed. \<open>Era_Message\<close> models the cutting
  of a message into fragments by \<^verbatim>\<open>send_msg\<close> and their reassembly by \<^verbatim>\<open>era_cb_fn\<close>, for any
  interleaving of senders and messages; its lengths are natural numbers, where the code has unsigned
  integers. The operators and datatypes are parameters.

  \<^bold>\<open>State machine of the early returning agreement.\<close> \<open>Era_Protocol\<close> models the same file at one process,
  on top of its tree and values: entering an agreement, the gathering of contributions, the decision
  and its distribution, the handlers of the three kinds of messages, of a failure and the
  return to the application; values are objects in a store, since the tables share them.
  \<open>Era_Protocol_Correct\<close> bounds what each handler may touch, shows that the tables stay well-formed,
  and that a decision, once taken, is what the process tells everybody from then on, apart from
  the return code at the root.

  \<^bold>\<open>Shared theory.\<close> \<open>Prelude\<close> holds array accesses, codes, positions in lists, and labelled
  transition systems with the locales \<open>simulation\<close> and \<open>terminating\<close>, which the revocation and
  agreement protocols interpret.

  \<^bold>\<open>Loops.\<close> Loops over arrays are structural recursion or functions with a measure. The loops over
  rank triplets of \<^verbatim>\<open>ompi_group_range_incl\<close>, the allocation of identifiers and the loops along
  the links of a tree may run for ever; they are partial functions or consume a list of answers, with
  theorems that say when they end, or that no number of passes is enough. An index of a triplet
  loop that leaves the range of C integers is undefined (\<open>cadd\<close>). Waits, rounds and
  repeated agreements consume a list of answers, one for each call, so that no bound is chosen; the
  theorems on progress show that the answers exist.

  \<^bold>\<open>Assumptions on the environment.\<close> The network of the revocation delivers each message once, in
  any order, and loses only messages to or from processes that have stopped. The network of the
  agreement delivers messages between two processes in order, reports the failure of a process only
  after it has crashed, and eventually reports it; an error other than a process failure does
  not occur there. Sparse group storage is excluded where the calling process is not a member of
  the group, for which the code is undefined.

  \<^bold>\<open>Not modelled.\<close> The early returning agreement of all processes together over a network, and on
  communicators of two groups. Point-to-point matching and the transports (\<^verbatim>\<open>ompi/mca/pml\<close>, \<^verbatim>\<open>bml\<close>,
  \<^verbatim>\<open>btl\<close>), collective algorithms, the datatype engine, one-sided communication and file access are
  separate subsystems that the modelled code only calls. The rest of \<^verbatim>\<open>comm.c\<close> (creation, split and
  duplication of communicators) consists of collective exchanges around the group operations. ORTE
  and most of OPAL are system services (launching, messaging, events, hardware detection), and
  \<^verbatim>\<open>ompi/contrib/vt\<close>, \<^verbatim>\<open>ompi/mca/io/romio\<close>, \<^verbatim>\<open>opal/mca/event\<close> and \<^verbatim>\<open>opal/mca/hwloc\<close> are packages
  of other projects.
\<close>

section \<open>The tree of the agreement and the failures known to a process\<close>

text \<open>What the tree functions see of a communicator at a process: its size, its own rank, and the
  processes known to have failed.\<close>

definition era_comm_of :: "ft_node \<Rightarrow> ompi_communicator_t \<Rightarrow> era_comm_t option" where
  "era_comm_of n comm =
     do {
       size \<leftarrow> ompi_group_size (grps n) (c_local_group comm);
       rank \<leftarrow> ompi_group_rank (grps n) (c_local_group comm);
       Some \<lparr>ec_size = size, ec_my_rank = rank, ec_active = (\<lambda>r. ompi_comm_is_proc_active n comm r False)\<rparr> }"

definition alive :: "ft_node \<Rightarrow> ptr list \<Rightarrow> int \<Rightarrow> bool" where
  "alive n ps r = (case procs n (ps ! nat r) of Some p \<Rightarrow> proc_active p | None \<Rightarrow> False)"

lemma is_proc_active_alive:
  assumes "denotes (grps n) (c_local_group comm) ps" "set ps \<subseteq> dom (procs n)" "0 \<le> r" "r < int (length ps)"
  shows "ompi_comm_is_proc_active n comm r False = Some (alive n ps r)"
proof -
  have p: "ps ! nat r \<in> set ps" using assms(3,4) by (simp add: nat_less_iff)
  then have "ps ! nat r \<noteq> NULL" "procs n (ps ! nat r) \<noteq> None"
    using denotes_not_null [OF assms(1)] assms(2) by (metis, blast)
  moreover have "ompi_group_get_proc_ptr (grps n) (c_local_group comm) r = Some (ps ! nat r)"
    using denotes_lookup_int [OF assms(1,3,4)] by (simp add: ompi_group_peer_lookup_def split: if_splits)
  ultimately show ?thesis
    using assms(3) by (auto simp: ompi_comm_is_proc_active_def ompi_proc_is_active_def alive_def rc_defs)
qed

lemma rank_node: "q \<in> era_tree_t.rank_in_comm ` set T \<Longrightarrow> \<exists>j. node_in T j \<and> rnk T j = q"
proof -
  assume "q \<in> era_tree_t.rank_in_comm ` set T"
  then obtain k where "k < length T" "era_tree_t.rank_in_comm (T ! k) = q" by (auto simp: in_set_conv_nth)
  then show ?thesis by (intro exI [of _ "int k"]) simp
qed

lemma ranks_le: "ranks_ok T n \<Longrightarrow> node_in T a \<Longrightarrow> node_in T b \<Longrightarrow> rnk T a \<le> rnk T b \<longleftrightarrow> a \<le> b"
  using ranks_mono [of T n a b] ranks_mono [of T n b a] by (cases a b rule: linorder_cases) auto

text \<open>C3: the root of the agreement. A living process that builds the tree of a communicator, for any
  topology and any failures that all know of, and then looks for its parent, finds a process of the
  communicator that has not failed, as far as it knows, and whose rank is not greater than its own; it
  finds itself, which makes it the root, exactly when it knows that all processes of smaller
  rank have failed.\<close>

theorem survivors_elect_root:
  assumes "denotes (grps n) (c_local_group comm) ps" "set ps \<subseteq> dom (procs n)" "era_comm_of n comm = Some ec"
    and "sorted_wrt (<) agreed_failed_ranks" "set agreed_failed_ranks \<subset> {0..<int (length ps)}"
    and "layout_ok l (int (length ps))"
    and "ec_my_rank ec \<in> {0..<int (length ps)} - set agreed_failed_ranks" "alive n ps (ec_my_rank ec)"
    and "\<forall>r \<in> set agreed_failed_ranks. \<not> alive n ps r"
  shows "\<exists>T r T'. era_build_tree_structure l topo (era_tree_fn_of topo) (ec_size ec) agreed_failed_ranks = Some T \<and>
    era_parent ec T = Some (r, T') \<and> 0 \<le> r \<and> r \<le> ec_my_rank ec \<and> alive n ps r \<and>
    (r = ec_my_rank ec \<longleftrightarrow> (\<forall>q. 0 \<le> q \<and> q < ec_my_rank ec \<longrightarrow> \<not> alive n ps q))"
proof -
  let ?n = "int (length ps)" and ?me = "ec_my_rank ec"
  have ec: "ec_size ec = ?n" "ec_active ec = (\<lambda>r. ompi_comm_is_proc_active n comm r False)"
    using assms(3) denotes_size [OF assms(1)] by (auto simp: era_comm_of_def bind_eq_Some_conv)
  from build_tree [OF assms(4-6)] obtain T kids where
    T: "era_build_tree_structure l topo (era_tree_fn_of topo) ?n agreed_failed_ranks = Some T" "ranks_ok T ?n"
      "era_tree_t.rank_in_comm ` set T = {0..<?n} - set agreed_failed_ranks" "tree_inv T {0..<tree_size T} kids" by blast
  let ?act = "\<lambda>j. alive n ps (rnk T j)"
  have node: "\<exists>j. node_in T j \<and> rnk T j = q" if "q \<in> {0..<?n} - set agreed_failed_ranks" for q
    using T(3) that by (intro rank_node) simp
  from node [OF assms(7)] obtain i where i: "node_in T i" "rnk T i = ?me" by blast
  have act: "\<forall>j \<in> {0..<tree_size T}. ec_active ec (rnk T j) = Some (?act j)"
    using is_proc_active_alive [OF assms(1,2)] ranks_range [OF T(2)] ec(2) by simp
  have iA: "i \<in> {0..<tree_size T}" "?act i" using i assms(8) by simp_all
  from find_parent [OF T(4) _ iA(1) _ act iA(2)] T(2) ec(1) i(2) obtain T' where
    p: "era_parent ec T = Some (rnk T (live_parent ?act T {0..<tree_size T} i), T')"
      "?act (live_parent ?act T {0..<tree_size T} i)"
      "live_parent ?act T {0..<tree_size T} i = i \<longleftrightarrow> (\<forall>j \<in> {0..<tree_size T}. ?act j \<longrightarrow> i \<le> j)" by auto
  define r where "r = live_parent ?act T {0..<tree_size T} i"
  have r: "node_in T r" "r \<le> i"
    using live_parent_in [where act = ?act, OF T(4) iA] live_parent_le [where act = ?act, OF T(4) iA] by (simp_all add: r_def)
  note mono = ranks_le [OF T(2)]
  have "r = i \<longleftrightarrow> (\<forall>q. 0 \<le> q \<and> q < ?me \<longrightarrow> \<not> alive n ps q)"
  proof
    assume "r = i"
    then have le: "\<forall>j \<in> {0..<tree_size T}. ?act j \<longrightarrow> i \<le> j" using p(3) by (simp add: r_def)
    show "\<forall>q. 0 \<le> q \<and> q < ?me \<longrightarrow> \<not> alive n ps q"
    proof (intro allI impI notI)
      fix q assume q: "0 \<le> q \<and> q < ?me" "alive n ps q"
      then have "q \<in> {0..<?n} - set agreed_failed_ranks" using assms(7,9) by auto
      from node [OF this] obtain j where j: "node_in T j" "rnk T j = q" by blast
      then have "i \<le> j" using le q(2) by simp
      then show False using mono [OF i(1) j(1)] i(2) j(2) q(1) by simp
    qed
  next
    assume "\<forall>q. 0 \<le> q \<and> q < ?me \<longrightarrow> \<not> alive n ps q"
    then have "\<not> rnk T r < ?me" using p(2) ranks_range [OF T(2) r(1)] by (auto simp: r_def)
    then show "r = i" using mono [OF i(1) r(1)] r(2) i(2) by simp
  qed
  moreover have "rnk T r = ?me \<longleftrightarrow> r = i" using ranks_inj [OF T(2) r(1) i(1)] i(2) by simp
  moreover have "rnk T r \<le> ?me" using mono [OF r(1) i(1)] r(2) i(2) by simp
  ultimately show ?thesis using T(1) p(1,2) ranks_range [OF T(2) r(1)] unfolding ec(1) r_def by blast
qed

text \<open>The third of four processes, two of which have failed, one of them as all know.\<close>

definition half_failed :: ft_node where
  "half_failed = (sample_node 2)\<lparr>procs := (\<lambda>p. if 101 \<le> p \<and> p \<le> 104
     then Some \<lparr>proc_name = sample_names ! (p - 101), proc_active = (103 \<le> p)\<rparr> else None)\<rparr>"

lemma survivors_elect_root_witness:
  "\<exists>ec T T'. era_comm_of half_failed sample_comm = Some ec \<and>
     era_build_tree_structure two_hosts 1 (era_tree_fn_of 1) 4 [1] = Some T \<and> era_parent ec T = Some (2, T')"
proof -
  let ?ps = "[101, 102, 103, 104]"
  have g: "groups (grps half_failed) 10 = Some (dense_group 1 ?ps 2)"
    by (simp add: half_failed_def sample_node_def MPI_GROUP_EMPTY_def)
  have d: "denotes (grps half_failed) (c_local_group sample_comm) ?ps"
    using g by (intro denotes_dense_group) (simp_all add: sample_comm_def)
  have p: "set ?ps \<subseteq> dom (procs half_failed)" by (auto simp: half_failed_def)
  define ec where "ec = \<lparr>ec_size = 4, ec_my_rank = 2, ec_active = (\<lambda>r. ompi_comm_is_proc_active half_failed sample_comm r False)\<rparr>"
  have e: "era_comm_of half_failed sample_comm = Some ec"
    using g by (simp add: era_comm_of_def sample_comm_def ec_def ompi_group_size_def ompi_group_rank_def dense_group_def)
  have al: "alive half_failed ?ps 0 = False" "alive half_failed ?ps 1 = False" "alive half_failed ?ps 2"
    by (simp_all add: alive_def half_failed_def)
  have q: "q = 0 \<or> q = 1" if "0 \<le> q" "q < 2" for q :: int using that by linarith
  have "set [1 :: int] \<subset> {0..<int (length ?ps)}" by (auto simp: psubset_eq dest: equalityD2 [THEN subsetD, of _ _ 0])
  from survivors_elect_root [OF d p e _ this two_hosts_ok, of 1] al q show ?thesis
    using e by (auto simp: ec_def)
qed

end
